(* ===== verification/Prelude.thy ===== *)
theory Prelude
  imports Main "HOL-Library.Word"
begin

section \<open>Prelude: machine types, byte codecs, shared lemmas\<close>

text \<open>
  The vocabulary every component shares: the integer aliases of
  \<^verbatim>\<open>src/src/common/defs.h\<close> as words of their width, the little-endian byte image that
  \<^verbatim>\<open>memcpy\<close> of an integer leaves in a buffer, characters as bytes, and the splice of a
  byte run into a buffer.  A buffer is a list of bytes; reading \<^verbatim>\<open>n\<close> bytes at an offset
  and writing a run at an offset are the only memory operations the models use, and both
  are partial: an access outside the buffer is \<open>None\<close>, the model's value for undefined
  behaviour.
\<close>

unbundle bit_operations_syntax

type_synonym u8 = "8 word"
type_synonym u16 = "16 word"
type_synonym u32 = "32 word"
type_synonym u64 = "64 word"
type_synonym i32 = "32 word"
type_synonym i64 = "64 word"
type_synonym byte = "8 word"

named_theorems codec \<open>length and inversion laws of the byte codecs\<close>

subsection \<open>Page identifiers (defs.h)\<close>

definition file_id_from_page :: "u64 \<Rightarrow> u32" where
  "file_id_from_page pid = ucast (drop_bit 32 pid)"

definition page_num_from_page :: "u64 \<Rightarrow> u32" where
  "page_num_from_page pid = ucast (pid AND 0xFFFFFFFF)"

definition make_page_id :: "u32 \<Rightarrow> u32 \<Rightarrow> u64" where
  "make_page_id file_id page_num = push_bit 32 (ucast file_id) OR ucast page_num"

subsection \<open>Little-endian images of integers\<close>

primrec le_bytes :: "nat \<Rightarrow> nat \<Rightarrow> byte list" where
  "le_bytes 0 x = []"
| "le_bytes (Suc n) x = of_nat x # le_bytes n (x div 256)"

primrec le_nat :: "byte list \<Rightarrow> nat" where
  "le_nat [] = 0"
| "le_nat (b # bs) = unat b + 256 * le_nat bs"

lemma unat_byte: "unat (b :: byte) < 256"
  using unsigned_less [of b, where 'a = nat] by simp

lemma length_le_bytes [simp, codec]: "length (le_bytes n x) = n"
  by (induction n arbitrary: x) auto

lemma le_nat_le_bytes: "le_nat (le_bytes n x) = x mod 256 ^ n"
proof (induction n arbitrary: x)
  case (Suc n)
  have "le_nat (le_bytes (Suc n) x) = x mod 256 + 256 * (x div 256 mod 256 ^ n)"
    by (simp add: Suc unat_of_nat)
  also have "\<dots> = x mod (256 * 256 ^ n)"
    by (simp add: mod_mult2_eq)
  finally show ?case by simp
qed simp

lemma le_nat_bound: "le_nat bs < 256 ^ length bs"
proof (induction bs)
  case (Cons b bs)
  have "unat b < 256" by (rule unat_byte)
  with Cons show ?case by simp
qed simp

text \<open>\<open>put_word\<close> is the image \<^verbatim>\<open>memcpy(buf, &v, sizeof v)\<close> writes, \<open>get_word\<close> the
  value \<^verbatim>\<open>memcpy(&v, buf, sizeof v)\<close> reads.\<close>

definition put_word :: "'a::len word \<Rightarrow> byte list" where
  "put_word w = le_bytes (LENGTH('a) div 8) (unat w)"

definition get_word :: "byte list \<Rightarrow> 'a::len word" where
  "get_word bs = of_nat (le_nat bs)"

lemma length_put_word [simp, codec]: "length (put_word (w :: 'a::len word)) = LENGTH('a) div 8"
  by (simp add: put_word_def)

lemma get_put_word:
  assumes "8 dvd LENGTH('a)"
  shows "get_word (put_word w) = (w :: 'a::len word)"
proof -
  from assms obtain k where k: "LENGTH('a) = 8 * k" by blast
  have "(256 :: nat) ^ (LENGTH('a) div 8) = 2 ^ LENGTH('a)"
    by (simp add: k power_mult)
  then have "unat w mod 256 ^ (LENGTH('a) div 8) = unat w"
    using unsigned_less [of w, where 'a = nat] by simp
  then show ?thesis by (simp add: get_word_def put_word_def le_nat_le_bytes)
qed

lemma get_put_u8 [simp, codec]: "get_word (put_word (w :: u8)) = w"
  by (rule get_put_word) simp

lemma get_put_u16 [simp, codec]: "get_word (put_word (w :: u16)) = w"
  by (rule get_put_word) simp

lemma get_put_u32 [simp, codec]: "get_word (put_word (w :: u32)) = w"
  by (rule get_put_word) simp

lemma get_put_u64 [simp, codec]: "get_word (put_word (w :: u64)) = w"
  by (rule get_put_word) simp

subsection \<open>Characters as bytes\<close>

definition byte_of_char :: "char \<Rightarrow> byte" where
  "byte_of_char c = of_nat (of_char c)"

definition char_of_byte :: "byte \<Rightarrow> char" where
  "char_of_byte b = char_of (unat b)"

abbreviation bytes_of_string :: "string \<Rightarrow> byte list" where
  "bytes_of_string \<equiv> map byte_of_char"

abbreviation string_of_bytes :: "byte list \<Rightarrow> string" where
  "string_of_bytes \<equiv> map char_of_byte"

lemma unat_byte_of_char: "unat (byte_of_char c) = of_char c"
  by (simp add: byte_of_char_def unat_of_nat)

lemma char_of_byte_of_char [simp, codec]: "char_of_byte (byte_of_char c) = c"
  by (simp add: char_of_byte_def unat_byte_of_char)

lemma byte_of_char_of_byte [simp, codec]: "byte_of_char (char_of_byte b) = b"
proof -
  have "unat b < 256" by (rule unat_byte)
  then show ?thesis by (simp add: char_of_byte_def byte_of_char_def)
qed

lemma string_of_bytes_of_string [simp, codec]:
  "string_of_bytes (bytes_of_string s) = s" "map (char_of_byte \<circ> byte_of_char) s = s"
  by (simp_all add: map_idI)

subsection \<open>Reading and writing a buffer\<close>

definition read_at :: "byte list \<Rightarrow> nat \<Rightarrow> nat \<Rightarrow> byte list option" where
  "read_at buf off n = (if off + n \<le> length buf then Some (take n (drop off buf)) else None)"

definition write_at :: "byte list \<Rightarrow> nat \<Rightarrow> byte list \<Rightarrow> byte list option" where
  "write_at buf off bs =
     (if off + length bs \<le> length buf
      then Some (take off buf @ bs @ drop (off + length bs) buf) else None)"

lemma write_at_length: "write_at buf off bs = Some buf' \<Longrightarrow> length buf' = length buf"
  by (auto simp: write_at_def split: if_splits)

lemma write_at_total: "off + length bs \<le> length buf \<Longrightarrow> \<exists>buf'. write_at buf off bs = Some buf'"
  by (simp add: write_at_def)

lemma read_write_same:
  "write_at buf off bs = Some buf' \<Longrightarrow> read_at buf' off (length bs) = Some bs"
  by (auto simp: write_at_def read_at_def split: if_splits)

lemma nth_write_at:
  "write_at buf off bs = Some buf' \<Longrightarrow> i < length buf \<Longrightarrow>
   buf' ! i = (if off \<le> i \<and> i < off + length bs then bs ! (i - off) else buf ! i)"
  by (auto simp: write_at_def nth_append min_def split: if_splits)

lemma read_write_other:
  assumes w: "write_at buf off bs = Some buf'"
    and disj: "off' + n \<le> off \<or> off + length bs \<le> off'"
  shows "read_at buf' off' n = read_at buf off' n"
proof (cases "off' + n \<le> length buf")
  case True
  have len: "length buf' = length buf" using w by (rule write_at_length)
  have "take n (drop off' buf') = take n (drop off' buf)"
    by (rule nth_equalityI) (use True len disj in \<open>auto simp: nth_write_at [OF w]\<close>)
  then show ?thesis by (simp add: read_at_def len)
next
  case False
  then show ?thesis by (simp add: read_at_def write_at_length [OF w])
qed

subsection \<open>Lists\<close>

lemma take_append_length [simp]: "length xs = n \<Longrightarrow> take n (xs @ ys) = xs"
  by simp

lemma drop_append_length [simp]: "length xs = n \<Longrightarrow> drop n (xs @ ys) = ys"
  by simp

lemma nth_list_update': "xs[i := x] ! j = (if i = j \<and> i < length xs then x else xs ! j)"
  by (cases "i < length xs") (auto simp: nth_list_update list_update_beyond)

subsection \<open>Identifiers round-trip\<close>

lemma file_id_make_page_id: "file_id_from_page (make_page_id f p) = f"
  by (rule bit_word_eqI)
    (auto simp: file_id_from_page_def make_page_id_def bit_simps dest: bit_imp_le_length)

lemma page_num_make_page_id: "page_num_from_page (make_page_id f p) = p"
proof (rule bit_word_eqI)
  fix n assume "n < LENGTH(32)"
  then show "bit (page_num_from_page (make_page_id f p)) n = bit p n"
    using bit_mask_iff [of 32 n, where 'a = "64 word"]
    by (auto simp: page_num_from_page_def make_page_id_def bit_simps mask_eq_exp_minus_1)
qed

end
