(* ===== verification/Hash_Map.thy ===== *)
theory Hash_Map
  imports Prelude
begin

section \<open>HashMap: open addressing with tombstones\<close>

text \<open>
  Model of \<^verbatim>\<open>src/src/container/hash_map.h\<close>: the table of entries, linear probing, lazy
  deletion, the 0.7 load threshold and rehashing, for any key type with a 64-bit hash.
  The pair of flags \<^verbatim>\<open>(occupied, deleted)\<close> of an entry has three reachable values, the
  three constructors of \<open>hslot\<close>: \<open>Empty\<close> (false, false), \<open>Tombstone\<close> (false, true) and
  \<open>Live\<close> (true, false), the last carrying the constructed key and value.

  The contract the rest of the system relies on is the locale \<open>dictionary\<close>; its
  interpretation on these definitions is at the end.
\<close>

subsection \<open>Hash functions\<close>

definition hash_u32 :: "u32 \<Rightarrow> u64" where
  "hash_u32 key0 =
     (let key1 = (drop_bit 16 key0 XOR key0) * 0x45d9f3b;
          key2 = (drop_bit 16 key1 XOR key1) * 0x45d9f3b;
          key3 = drop_bit 16 key2 XOR key2
      in ucast key3)"

definition hash_u64 :: "u64 \<Rightarrow> u64" where
  "hash_u64 key0 =
     (let key1 = NOT key0 + push_bit 21 key0;
          key2 = key1 XOR drop_bit 24 key1;
          key3 = (key2 + push_bit 3 key2) + push_bit 8 key2;
          key4 = key3 XOR drop_bit 14 key3;
          key5 = (key4 + push_bit 2 key4) + push_bit 4 key4;
          key6 = key5 XOR drop_bit 28 key5
      in key6)"

definition hash_string :: "string \<Rightarrow> u64" where
  "hash_string key =
     fold (\<lambda>c h. (h XOR ucast (byte_of_char c)) * 1099511628211) key 1469598103934665603"

subsection \<open>The table\<close>

datatype ('k, 'v) hslot = Empty | Tombstone | Live 'k 'v

record ('k, 'v) hash_map =
  hm_table :: "('k, 'v) hslot list"
  hm_size :: nat

abbreviation hm_capacity :: "('k, 'v) hash_map \<Rightarrow> nat" where
  "hm_capacity m \<equiv> length (hm_table m)"

definition hm_empty :: "('k, 'v) hash_map" where
  "hm_empty = \<lparr>hm_table = [], hm_size = 0\<rparr>"

text \<open>The slots visited for a key, in order: \<^verbatim>\<open>idx = (h + i) % capacity_\<close> for
  \<^verbatim>\<open>i = 0, 1, ..., capacity_ - 1\<close>.  The sum is a 64-bit one in the code; every capacity the
  map gives itself is a power of two (16 doubled), so the wrap-around does not change the
  residue (\<open>probe_wraps\<close> below).\<close>

definition probes :: "('k \<Rightarrow> u64) \<Rightarrow> 'k \<Rightarrow> nat \<Rightarrow> nat list" where
  "probes hash k cap = map (\<lambda>i. (unat (hash k) + i) mod cap) [0..<cap]"

fun find_loop :: "('k, 'v) hslot list \<Rightarrow> 'k \<Rightarrow> nat list \<Rightarrow> 'v option" where
  "find_loop t k [] = None"
| "find_loop t k (p # ps) =
     (case t ! p of
        Empty \<Rightarrow> None
      | Live k' v \<Rightarrow> if k' = k then Some v else find_loop t k ps
      | Tombstone \<Rightarrow> find_loop t k ps)"

definition hm_find :: "('k \<Rightarrow> u64) \<Rightarrow> ('k, 'v) hash_map \<Rightarrow> 'k \<Rightarrow> 'v option" where
  "hm_find hash m k = find_loop (hm_table m) k (probes hash k (hm_capacity m))"

definition hm_contains :: "('k \<Rightarrow> u64) \<Rightarrow> ('k, 'v) hash_map \<Rightarrow> 'k \<Rightarrow> bool" where
  "hm_contains hash m k = (hm_find hash m k \<noteq> None)"

text \<open>Where the insertion loop ends: at the key itself, at a free slot (the first
  tombstone passed, if any, else the empty slot that ends the probe), or nowhere.\<close>

datatype where_to = Found nat | PutAt nat | NoRoom

fun insert_loop :: "('k, 'v) hslot list \<Rightarrow> 'k \<Rightarrow> nat option \<Rightarrow> nat list \<Rightarrow> where_to" where
  "insert_loop t k first_deleted [] =
     (case first_deleted of Some d \<Rightarrow> PutAt d | None \<Rightarrow> NoRoom)"
| "insert_loop t k first_deleted (p # ps) =
     (case t ! p of
        Live k' v \<Rightarrow> if k' = k then Found p else insert_loop t k first_deleted ps
      | Tombstone \<Rightarrow>
          insert_loop t k (case first_deleted of None \<Rightarrow> Some p | Some d \<Rightarrow> Some d) ps
      | Empty \<Rightarrow> PutAt (case first_deleted of Some d \<Rightarrow> d | None \<Rightarrow> p))"

text \<open>Placing one entry of the old table during a rehash: the first slot of its probe
  sequence that is not occupied.\<close>

fun place :: "('k, 'v) hslot list \<Rightarrow> nat list \<Rightarrow> 'k \<Rightarrow> 'v \<Rightarrow> ('k, 'v) hslot list" where
  "place t [] k v = t"
| "place t (p # ps) k v = (case t ! p of Live _ _ \<Rightarrow> place t ps k v | _ \<Rightarrow> t[p := Live k v])"

fun rehash_loop ::
  "('k \<Rightarrow> u64) \<Rightarrow> ('k, 'v) hslot list \<Rightarrow> ('k, 'v) hslot list \<Rightarrow> ('k, 'v) hslot list" where
  "rehash_loop hash [] t = t"
| "rehash_loop hash (s # ss) t =
     rehash_loop hash ss
       (case s of Live k v \<Rightarrow> place t (probes hash k (length t)) k v | _ \<Rightarrow> t)"

definition rehash :: "('k \<Rightarrow> u64) \<Rightarrow> ('k, 'v) hash_map \<Rightarrow> ('k, 'v) hash_map" where
  "rehash hash m =
     (let new_capacity = (if hm_capacity m = 0 then 16 else hm_capacity m * 2)
      in m\<lparr>hm_table := rehash_loop hash (hm_table m) (replicate new_capacity Empty)\<rparr>)"

text \<open>\<^verbatim>\<open>static_cast<f64>(size_) / capacity_ > 0.7\<close>: the quotient is exact (the capacity is a
  power of two), and no multiple of a power of two down to 2 to the -31 lies between the
  double nearest to 0.7 and 0.7 itself, so the test is the rational one.\<close>

definition over_loaded :: "('k, 'v) hash_map \<Rightarrow> bool" where
  "over_loaded m = (hm_capacity m = 0 \<or> 10 * hm_size m > 7 * hm_capacity m)"

text \<open>\<^verbatim>\<open>insert\<close> calls itself after a rehash when every slot is occupied.  The number of
  calls is bounded by fuel; \<open>hm_insert_fuel_enough\<close> shows that two are always enough.\<close>

fun hm_insert_fuel ::
  "nat \<Rightarrow> ('k \<Rightarrow> u64) \<Rightarrow> ('k, 'v) hash_map \<Rightarrow> 'k \<Rightarrow> 'v \<Rightarrow> ('k, 'v) hash_map option" where
  "hm_insert_fuel 0 hash m k v = None"
| "hm_insert_fuel (Suc fuel) hash m k v =
     (let m1 = (if over_loaded m then rehash hash m else m) in
      case insert_loop (hm_table m1) k None (probes hash k (hm_capacity m1)) of
        Found p \<Rightarrow> Some (m1\<lparr>hm_table := (hm_table m1)[p := Live k v]\<rparr>)
      | PutAt p \<Rightarrow>
          Some (m1\<lparr>hm_table := (hm_table m1)[p := Live k v], hm_size := Suc (hm_size m1)\<rparr>)
      | NoRoom \<Rightarrow> hm_insert_fuel fuel hash (rehash hash m1) k v)"

definition hm_insert ::
  "('k \<Rightarrow> u64) \<Rightarrow> 'k \<Rightarrow> 'v \<Rightarrow> ('k, 'v) hash_map \<Rightarrow> ('k, 'v) hash_map" where
  "hm_insert hash k v m = (case hm_insert_fuel 2 hash m k v of Some m' \<Rightarrow> m' | None \<Rightarrow> m)"

text \<open>\<^verbatim>\<open>m[k] = v\<close>: \<^verbatim>\<open>operator[]\<close> finds or creates the entry and returns a reference to its
  value, through which the assignment stores \<open>v\<close>.  Its fallback differs from
  \<^verbatim>\<open>insert\<close>'s: after the second rehash it takes the first unoccupied slot directly.\<close>

definition hm_assign ::
  "('k \<Rightarrow> u64) \<Rightarrow> 'k \<Rightarrow> 'v \<Rightarrow> ('k, 'v) hash_map \<Rightarrow> ('k, 'v) hash_map" where
  "hm_assign hash k v m =
     (let m1 = (if over_loaded m then rehash hash m else m) in
      case insert_loop (hm_table m1) k None (probes hash k (hm_capacity m1)) of
        Found p \<Rightarrow> m1\<lparr>hm_table := (hm_table m1)[p := Live k v]\<rparr>
      | PutAt p \<Rightarrow> m1\<lparr>hm_table := (hm_table m1)[p := Live k v], hm_size := Suc (hm_size m1)\<rparr>
      | NoRoom \<Rightarrow>
          (let m2 = rehash hash m1
           in m2\<lparr>hm_table := place (hm_table m2) (probes hash k (hm_capacity m2)) k v,
                 hm_size := Suc (hm_size m2)\<rparr>))"

fun erase_loop :: "('k, 'v) hslot list \<Rightarrow> 'k \<Rightarrow> nat list \<Rightarrow> nat option" where
  "erase_loop t k [] = None"
| "erase_loop t k (p # ps) =
     (case t ! p of
        Empty \<Rightarrow> None
      | Live k' v \<Rightarrow> if k' = k then Some p else erase_loop t k ps
      | Tombstone \<Rightarrow> erase_loop t k ps)"

text \<open>Writing through the pointer \<^verbatim>\<open>find\<close> returned: the entry keeps its slot.\<close>

definition hm_store ::
  "('k \<Rightarrow> u64) \<Rightarrow> 'k \<Rightarrow> 'v \<Rightarrow> ('k, 'v) hash_map \<Rightarrow> ('k, 'v) hash_map" where
  "hm_store hash k v m =
     (case erase_loop (hm_table m) k (probes hash k (hm_capacity m)) of
        None \<Rightarrow> m
      | Some p \<Rightarrow> m\<lparr>hm_table := (hm_table m)[p := Live k v]\<rparr>)"

definition hm_erase :: "('k \<Rightarrow> u64) \<Rightarrow> 'k \<Rightarrow> ('k, 'v) hash_map \<Rightarrow> ('k, 'v) hash_map" where
  "hm_erase hash k m =
     (case erase_loop (hm_table m) k (probes hash k (hm_capacity m)) of
        None \<Rightarrow> m
      | Some p \<Rightarrow> m\<lparr>hm_table := (hm_table m)[p := Tombstone], hm_size := hm_size m - 1\<rparr>)"

definition hm_clear :: "('k, 'v) hash_map \<Rightarrow> ('k, 'v) hash_map" where
  "hm_clear m = m\<lparr>hm_table := replicate (hm_capacity m) Empty, hm_size := 0\<rparr>"

text \<open>Iteration with \<^verbatim>\<open>begin\<close> and \<^verbatim>\<open>next\<close>: the occupied entries in table order.\<close>

fun slot_entries :: "('k, 'v) hslot list \<Rightarrow> ('k \<times> 'v) list" where
  "slot_entries [] = []"
| "slot_entries (Live k v # ss) = (k, v) # slot_entries ss"
| "slot_entries (Empty # ss) = slot_entries ss"
| "slot_entries (Tombstone # ss) = slot_entries ss"

definition hm_entries :: "('k, 'v) hash_map \<Rightarrow> ('k \<times> 'v) list" where
  "hm_entries m = slot_entries (hm_table m)"


subsection \<open>Probing\<close>

lemma length_probes [simp]: "length (probes hash k cap) = cap"
  by (simp add: probes_def)

lemma set_probes: "0 < cap \<Longrightarrow> set (probes hash k cap) = {..<cap}"
proof -
  assume cap: "0 < cap"
  have "\<exists>i<cap. (unat (hash k) + i) mod cap = p" if "p < cap" for p
  proof -
    let ?h = "unat (hash k) mod cap"
    let ?i = "(p + cap - ?h) mod cap"
    have "?h < cap" using cap by simp
    then have "(?h + ?i) mod cap = (?h + (p + cap - ?h)) mod cap"
      by (metis mod_add_right_eq)
    also have "?h + (p + cap - ?h) = p + cap" using \<open>?h < cap\<close> by linarith
    also have "(p + cap) mod cap = p" using that by simp
    finally have "(unat (hash k) + ?i) mod cap = p" by (simp add: mod_simps)
    then show ?thesis using cap by (intro exI [of _ ?i]) simp
  qed
  then show ?thesis using cap by (force simp: probes_def image_iff)
qed

lemma probe_wraps:
  assumes "cap dvd 2 ^ 64"
  shows "unat (h + of_nat i :: u64) mod cap = (unat h + i) mod cap"
proof -
  have "unat (h + of_nat i :: u64) mod cap = ((unat h + i) mod 2 ^ 64) mod cap"
    by (simp add: unat_word_ariths unat_of_nat mod_simps)
  also have "\<dots> = (unat h + i) mod cap" using assms by (rule mod_mod_cancel)
  finally show ?thesis .
qed

text \<open>\<open>reach t ps p\<close>: walking the probe sequence \<open>ps\<close> arrives at slot \<open>p\<close> before any empty
  slot stops it.\<close>

fun reach :: "('k, 'v) hslot list \<Rightarrow> nat list \<Rightarrow> nat \<Rightarrow> bool" where
  "reach t [] p = False"
| "reach t (q # ps) p = (q = p \<or> t ! q \<noteq> Empty \<and> reach t ps p)"

definition is_live :: "('k, 'v) hslot \<Rightarrow> bool" where
  "is_live s = (\<exists>k v. s = Live k v)"

lemma is_live_simps [simp]:
  "is_live (Live k v)" "\<not> is_live Empty" "\<not> is_live Tombstone"
  by (simp_all add: is_live_def)

lemma reach_update: "s \<noteq> Empty \<Longrightarrow> reach t ps q \<Longrightarrow> reach (t[p := s]) ps q"
  by (induction ps) (auto simp: nth_list_update')

definition table_ok :: "('k \<Rightarrow> u64) \<Rightarrow> ('k, 'v) hslot list \<Rightarrow> bool" where
  "table_ok hash t \<longleftrightarrow>
     (\<forall>p k v. p < length t \<longrightarrow> t ! p = Live k v \<longrightarrow> reach t (probes hash k (length t)) p) \<and>
     (\<forall>p q k v w. p < length t \<longrightarrow> q < length t \<longrightarrow> t ! p = Live k v \<longrightarrow> t ! q = Live k w
        \<longrightarrow> p = q)"

definition hm_inv :: "('k \<Rightarrow> u64) \<Rightarrow> ('k, 'v) hash_map \<Rightarrow> bool" where
  "hm_inv hash m \<longleftrightarrow> table_ok hash (hm_table m) \<and> hm_size m = length (hm_entries m)"

lemma table_okD_unique:
  "table_ok hash t \<Longrightarrow> p < length t \<Longrightarrow> q < length t \<Longrightarrow> t ! p = Live k v \<Longrightarrow> t ! q = Live k w
   \<Longrightarrow> p = q"
  unfolding table_ok_def by blast

lemma table_okD_reach:
  "table_ok hash t \<Longrightarrow> p < length t \<Longrightarrow> t ! p = Live k v \<Longrightarrow> reach t (probes hash k (length t)) p"
  unfolding table_ok_def by blast

lemma table_ok_replicate: "table_ok hash (replicate n Empty)"
  by (simp add: table_ok_def)

lemma table_ok_put:
  assumes ok: "table_ok hash t" and p: "p < length t"
    and r: "reach t (probes hash k (length t)) p"
    and uniq: "\<And>q w. q < length t \<Longrightarrow> t ! q = Live k w \<Longrightarrow> q = p"
  shows "table_ok hash (t[p := Live k v])"
  using ok uniq unfolding table_ok_def
  by (simp add: nth_list_update reach_update r p) (metis hslot.inject)

lemma table_ok_tombstone: "table_ok hash t \<Longrightarrow> table_ok hash (t[p := Tombstone])"
  unfolding table_ok_def by (auto simp: nth_list_update' reach_update split: if_splits)

subsection \<open>Entries\<close>

lemma set_slot_entries: "(k, v) \<in> set (slot_entries t) \<longleftrightarrow> (\<exists>p<length t. t ! p = Live k v)"
proof -
  have "(k, v) \<in> set (slot_entries t) \<longleftrightarrow> Live k v \<in> set t"
    by (induction t rule: slot_entries.induct) auto
  then show ?thesis by (auto simp: in_set_conv_nth)
qed

lemma length_slot_entries_put:
  "p < length t \<Longrightarrow> length (slot_entries (t[p := Live k v])) =
     (if is_live (t ! p) then length (slot_entries t) else Suc (length (slot_entries t)))"
  by (induction t arbitrary: p rule: slot_entries.induct) (auto split: nat.splits)

lemma length_slot_entries_tombstone:
  "p < length t \<Longrightarrow> is_live (t ! p) \<Longrightarrow>
   length (slot_entries (t[p := Tombstone])) = length (slot_entries t) - 1"
proof (induction t arbitrary: p rule: slot_entries.induct)
  case (2 k v ss)
  show ?case
  proof (cases p)
    case (Suc q)
    with 2 have "is_live (ss ! q)" "q < length ss" by auto
    then have "slot_entries ss \<noteq> []"
      using set_slot_entries [of _ _ ss] by (fastforce simp: is_live_def)
    with 2 Suc \<open>is_live (ss ! q)\<close> \<open>q < length ss\<close> show ?thesis by (cases "slot_entries ss") auto
  qed simp
qed (auto split: nat.splits)

lemma slot_entries_replicate [simp]: "slot_entries (replicate n Empty) = []"
  by (induction n) auto

lemma length_slot_entries_le: "length (slot_entries t) \<le> length t"
  by (induction t rule: slot_entries.induct) auto

lemma all_live_length: "\<forall>p<length t. is_live (t ! p) \<Longrightarrow> length (slot_entries t) = length t"
  by (induction t rule: slot_entries.induct) (auto simp: All_less_Suc2)

lemma not_all_live: "length (slot_entries t) < length t \<Longrightarrow> \<exists>p<length t. \<not> is_live (t ! p)"
  using all_live_length [of t] by force

lemma distinct_slot_entries: "table_ok hash t \<Longrightarrow> distinct (map fst (slot_entries t))"
proof -
  have "distinct (map fst (slot_entries t))"
    if "\<And>p q k v w. p < length t \<Longrightarrow> q < length t \<Longrightarrow> t ! p = Live k v \<Longrightarrow> t ! q = Live k w \<Longrightarrow> p = q"
    using that
  proof (induction t rule: slot_entries.induct)
    case (2 k v ss)
    have "distinct (map fst (slot_entries ss))"
      by (rule "2.IH") (use "2.prems" in \<open>metis Suc_less_eq length_Cons nth_Cons_Suc nat.inject\<close>)
    moreover have "k \<notin> fst ` set (slot_entries ss)"
    proof
      assume "k \<in> fst ` set (slot_entries ss)"
      then obtain w q where "q < length ss" "ss ! q = Live k w" by (auto simp: set_slot_entries)
      with "2.prems" [of 0 "Suc q" k v w] show False by simp
    qed
    ultimately show ?case by simp
  next
    case (3 ss)
    show ?case using "3.IH" "3.prems"
      by simp (metis Suc_less_eq nth_Cons_Suc nat.inject)
  next
    case (4 ss)
    show ?case using "4.IH" "4.prems"
      by simp (metis Suc_less_eq nth_Cons_Suc nat.inject)
  qed simp
  then show "table_ok hash t \<Longrightarrow> distinct (map fst (slot_entries t))"
    by (auto dest: table_okD_unique)
qed

subsection \<open>The loops\<close>

lemma find_loop_SomeD: "find_loop t k ps = Some v \<Longrightarrow> \<exists>p\<in>set ps. t ! p = Live k v"
  by (induction ps) (auto split: hslot.splits if_splits)

lemma find_loop_reach:
  "reach t ps p \<Longrightarrow> t ! p = Live k v \<Longrightarrow> \<forall>q\<in>set ps. \<forall>w. t ! q = Live k w \<longrightarrow> q = p \<Longrightarrow>
   find_loop t k ps = Some v"
  by (induction ps) (auto split: hslot.splits)

lemma find_loop_table:
  assumes "table_ok hash t"
  shows "find_loop t k (probes hash k (length t)) = Some v \<longleftrightarrow> (\<exists>p<length t. t ! p = Live k v)"
proof (cases "length t = 0")
  case False
  then have ps: "set (probes hash k (length t)) = {..<length t}" by (intro set_probes) simp
  show ?thesis
    using ps table_okD_reach [OF assms] table_okD_unique [OF assms]
    by (auto dest!: find_loop_SomeD intro!: find_loop_reach)
qed (simp add: probes_def)

lemma hm_find_entries:
  "hm_inv hash m \<Longrightarrow> hm_find hash m k = Some v \<longleftrightarrow> (k, v) \<in> set (hm_entries m)"
  by (simp add: hm_inv_def hm_find_def find_loop_table set_slot_entries hm_entries_def)

lemma insert_loop_Found:
  "insert_loop t k fd ps = Found p \<Longrightarrow> p \<in> set ps \<and> (\<exists>w. t ! p = Live k w)"
  by (induction ps arbitrary: fd) (auto split: hslot.splits option.splits if_splits)

lemma insert_loop_PutAt:
  "insert_loop t k fd ps = PutAt p \<Longrightarrow>
   find_loop t k ps = None \<and>
   (fd = Some p \<or> fd = None \<and> reach t ps p \<and> p \<in> set ps \<and> \<not> is_live (t ! p))"
proof (induction ps arbitrary: fd)
  case (Cons q ps)
  then show ?case
    using Cons.IH [of fd] Cons.IH [of "Some q"] by (cases "t ! q"; cases fd) (auto split: if_splits)
qed (auto split: option.splits)

lemma insert_loop_NoRoom: "insert_loop t k None ps = NoRoom \<Longrightarrow> \<forall>p\<in>set ps. is_live (t ! p)"
proof -
  have "insert_loop t k fd ps = NoRoom \<Longrightarrow> fd = None \<and> (\<forall>p\<in>set ps. is_live (t ! p))" for fd
    by (induction ps arbitrary: fd) (auto split: hslot.splits option.splits if_splits)
  then show "insert_loop t k None ps = NoRoom \<Longrightarrow> \<forall>p\<in>set ps. is_live (t ! p)" by blast
qed

lemma erase_loop_Some: "erase_loop t k ps = Some p \<Longrightarrow> p \<in> set ps \<and> (\<exists>w. t ! p = Live k w)"
  by (induction ps) (auto split: hslot.splits if_splits)

lemma erase_loop_None: "erase_loop t k ps = None \<Longrightarrow> find_loop t k ps = None"
  by (induction ps) (auto split: hslot.splits if_splits)

lemma place_spec:
  "\<exists>p\<in>set ps. \<not> is_live (t ! p) \<Longrightarrow>
   \<exists>p\<in>set ps. \<not> is_live (t ! p) \<and> reach t ps p \<and> place t ps k v = t[p := Live k v]"
  by (induction ps) (auto split: hslot.splits)

lemma length_rehash_loop [simp]: "length (rehash_loop hash ss t) = length t"
proof -
  have "length (place t ps k v) = length t" for t :: "('a, 'b) hslot list" and ps k v
    by (induction ps) (auto split: hslot.splits)
  then show ?thesis by (induction ss arbitrary: t) (auto split: hslot.splits)
qed

lemma entries_put_free:
  assumes "p < length t" "\<not> is_live (t ! p)"
  shows "set (slot_entries (t[p := Live k v])) = insert (k, v) (set (slot_entries t))"
proof -
  have "(a, b) \<in> set (slot_entries (t[p := Live k v])) \<longleftrightarrow> (a, b) = (k, v) \<or> (a, b) \<in> set (slot_entries t)"
    for a b
    using assms by (auto simp: set_slot_entries nth_list_update is_live_def) metis
  then show ?thesis by auto
qed

lemma rehash_loop_spec:
  assumes "table_ok hash t"
    and "length (slot_entries ss) + length (slot_entries t) < length t"
    and "distinct (map fst (slot_entries ss))"
    and "fst ` set (slot_entries ss) \<inter> fst ` set (slot_entries t) = {}"
  shows "table_ok hash (rehash_loop hash ss t) \<and>
    set (slot_entries (rehash_loop hash ss t)) = set (slot_entries ss) \<union> set (slot_entries t) \<and>
    length (slot_entries (rehash_loop hash ss t)) = length (slot_entries ss) + length (slot_entries t)"
  using assms
proof (induction ss arbitrary: t)
  case (Cons s ss)
  show ?case
  proof (cases s)
    case (Live k v)
    let ?ps = "probes hash k (length t)"
    have "0 < length t" using Cons.prems(2) by linarith
    then have ps: "set ?ps = {..<length t}" by (rule set_probes)
    obtain q where "q < length t" "\<not> is_live (t ! q)"
      using not_all_live [of t] Cons.prems(2) Live by fastforce
    then obtain p where p: "p < length t" "\<not> is_live (t ! p)" "reach t ?ps p"
      and pl: "place t ?ps k v = t[p := Live k v]"
      using place_spec [of ?ps t k v] ps by auto
    have fresh: "t ! r \<noteq> Live k w" if "r < length t" for r w
      using Cons.prems(4) Live that set_slot_entries [of k w t] by force
    have ok: "table_ok hash (t[p := Live k v])"
      by (rule table_ok_put [OF Cons.prems(1) p(1,3)]) (use fresh in blast)
    have "table_ok hash (rehash_loop hash ss (t[p := Live k v])) \<and>
      set (slot_entries (rehash_loop hash ss (t[p := Live k v]))) =
        set (slot_entries ss) \<union> set (slot_entries (t[p := Live k v])) \<and>
      length (slot_entries (rehash_loop hash ss (t[p := Live k v]))) =
        length (slot_entries ss) + length (slot_entries (t[p := Live k v]))"
      by (rule Cons.IH [OF ok])
        (use Cons.prems(2-4) Live p in \<open>auto simp: length_slot_entries_put entries_put_free\<close>)
    then show ?thesis using Live p by (simp add: pl length_slot_entries_put entries_put_free)
  qed (use Cons in auto)
qed simp

lemma rehash_spec:
  assumes "hm_inv hash m"
  shows "hm_inv hash (rehash hash m)"
    and "set (hm_entries (rehash hash m)) = set (hm_entries m)"
    and "hm_size (rehash hash m) = hm_size m"
    and "hm_capacity (rehash hash m) = (if hm_capacity m = 0 then 16 else 2 * hm_capacity m)"
proof -
  define n where "n = (if hm_capacity m = 0 then 16 else hm_capacity m * 2)"
  let ?t = "rehash_loop hash (hm_table m) (replicate n Empty)"
  have ok: "table_ok hash (hm_table m)" using assms by (simp add: hm_inv_def)
  have "length (slot_entries (hm_table m)) < n"
    using length_slot_entries_le [of "hm_table m"] by (cases "hm_table m") (auto simp: n_def)
  then have *: "table_ok hash ?t \<and> set (slot_entries ?t) = set (slot_entries (hm_table m)) \<and>
      length (slot_entries ?t) = length (slot_entries (hm_table m))"
    using rehash_loop_spec [of hash "replicate n Empty" "hm_table m"] distinct_slot_entries [OF ok]
    by (simp add: table_ok_replicate)
  moreover have r: "rehash hash m = m\<lparr>hm_table := ?t\<rparr>"
    by (simp add: rehash_def Let_def n_def)
  ultimately show "hm_inv hash (rehash hash m)"
    "set (hm_entries (rehash hash m)) = set (hm_entries m)"
    "hm_size (rehash hash m) = hm_size m"
    using assms by (simp_all add: hm_inv_def hm_entries_def)
  show "hm_capacity (rehash hash m) = (if hm_capacity m = 0 then 16 else 2 * hm_capacity m)"
    by (simp add: r n_def)
qed

subsection \<open>Insertion and removal\<close>

lemma entries_put_same:
  assumes "table_ok hash t" "p < length t" "t ! p = Live k w"
  shows "set (slot_entries (t[p := Live k v])) = insert (k, v) {(k', v') \<in> set (slot_entries t). k' \<noteq> k}"
proof -
  have "(a, b) \<in> set (slot_entries (t[p := Live k v])) \<longleftrightarrow>
      (a, b) = (k, v) \<or> (a, b) \<in> set (slot_entries t) \<and> a \<noteq> k" for a b
    using assms(2,3) table_okD_unique [OF assms(1)]
    by (auto simp: set_slot_entries nth_list_update) (metis hslot.inject)+
  then show ?thesis by auto
qed

lemma entries_tombstone:
  assumes "table_ok hash t" "p < length t" "t ! p = Live k w"
  shows "set (slot_entries (t[p := Tombstone])) = {(k', v') \<in> set (slot_entries t). k' \<noteq> k}"
proof -
  have "(a, b) \<in> set (slot_entries (t[p := Tombstone])) \<longleftrightarrow> (a, b) \<in> set (slot_entries t) \<and> a \<noteq> k" for a b
    using assms(2,3) table_okD_unique [OF assms(1)]
    by (auto simp: set_slot_entries nth_list_update) (metis hslot.inject)+
  then show ?thesis by auto
qed

text \<open>One pass of the insertion loop over a table with room for the key.\<close>

lemma insert_pass:
  assumes inv: "hm_inv hash m" and cap: "hm_capacity m \<noteq> 0"
  shows "case insert_loop (hm_table m) k None (probes hash k (hm_capacity m)) of
      Found p \<Rightarrow>
        hm_inv hash (m\<lparr>hm_table := (hm_table m)[p := Live k v]\<rparr>) \<and>
        set (hm_entries (m\<lparr>hm_table := (hm_table m)[p := Live k v]\<rparr>)) =
          insert (k, v) {(k', v') \<in> set (hm_entries m). k' \<noteq> k}
    | PutAt p \<Rightarrow>
        hm_inv hash (m\<lparr>hm_table := (hm_table m)[p := Live k v], hm_size := Suc (hm_size m)\<rparr>) \<and>
        set (hm_entries (m\<lparr>hm_table := (hm_table m)[p := Live k v], hm_size := Suc (hm_size m)\<rparr>)) =
          insert (k, v) {(k', v') \<in> set (hm_entries m). k' \<noteq> k}
    | NoRoom \<Rightarrow> hm_size m = hm_capacity m"
proof -
  let ?t = "hm_table m" and ?ps = "probes hash k (hm_capacity m)"
  have ok: "table_ok hash ?t" and size: "hm_size m = length (slot_entries ?t)"
    using inv by (auto simp: hm_inv_def hm_entries_def)
  have ps: "set ?ps = {..<length ?t}" using cap by (intro set_probes) simp
  show ?thesis
  proof (cases "insert_loop ?t k None ?ps")
    case (Found p)
    then obtain w where p: "p < length ?t" "?t ! p = Live k w"
      using insert_loop_Found [of ?t k None ?ps p] ps by auto
    have "table_ok hash (?t[p := Live k v])"
      by (rule table_ok_put [OF ok p(1) table_okD_reach [OF ok p]])
        (use table_okD_unique [OF ok] p in blast)
    then show ?thesis
      using Found p size entries_put_same [OF ok p]
      by (simp add: hm_inv_def hm_entries_def length_slot_entries_put)
  next
    case (PutAt p)
    then have none: "find_loop ?t k ?ps = None"
      and p: "p < length ?t" "reach ?t ?ps p" "\<not> is_live (?t ! p)"
      using insert_loop_PutAt [of ?t k None ?ps p] ps by auto
    have fresh: "?t ! q \<noteq> Live k w" if "q < length ?t" for q w
      using none find_loop_table [OF ok, of k w] that by auto
    have "table_ok hash (?t[p := Live k v])"
      by (rule table_ok_put [OF ok p(1,2)]) (use fresh in blast)
    moreover have "{(k', v') \<in> set (slot_entries ?t). k' \<noteq> k} = set (slot_entries ?t)"
      using fresh by (auto simp: set_slot_entries)
    ultimately show ?thesis
      using PutAt p size by (simp add: hm_inv_def hm_entries_def length_slot_entries_put entries_put_free)
  next
    case NoRoom
    then have "\<forall>p<length ?t. is_live (?t ! p)"
      using insert_loop_NoRoom [of ?t k ?ps] ps by auto
    then show ?thesis using NoRoom size by (simp add: all_live_length)
  qed
qed

lemma hm_insert_fuel_enough:
  assumes inv: "hm_inv hash m"
  shows "\<exists>m'. hm_insert_fuel 2 hash m k v = Some m' \<and> hm_inv hash m' \<and>
    set (hm_entries m') = insert (k, v) {(k', v') \<in> set (hm_entries m). k' \<noteq> k}"
proof -
  define m1 where "m1 = (if over_loaded m then rehash hash m else m)"
  have m1: "hm_inv hash m1" "set (hm_entries m1) = set (hm_entries m)"
    using inv rehash_spec [OF inv] by (auto simp: m1_def)
  have "hm_size m \<le> hm_capacity m"
    using inv length_slot_entries_le [of "hm_table m"] by (simp add: hm_inv_def hm_entries_def)
  then have cap1: "hm_capacity m1 \<noteq> 0" and lt: "hm_size m1 \<noteq> hm_capacity m1"
    using rehash_spec(3,4) [OF inv] by (auto simp: m1_def over_loaded_def split: if_splits)
  show ?thesis
    using insert_pass [OF m1(1) cap1, of k v] lt m1(2)
    by (auto simp: numeral_2_eq_2 m1_def [symmetric] Let_def split: where_to.splits)
qed

text \<open>Under the invariant the fallback is never taken, and assignment is insertion.\<close>

lemma hm_assign_insert:
  assumes inv: "hm_inv hash m"
  shows "hm_assign hash k v m = hm_insert hash k v m"
proof -
  define m1 where "m1 = (if over_loaded m then rehash hash m else m)"
  have m1: "hm_inv hash m1" using inv rehash_spec [OF inv] by (auto simp: m1_def)
  have "hm_size m \<le> hm_capacity m"
    using inv length_slot_entries_le [of "hm_table m"] by (simp add: hm_inv_def hm_entries_def)
  then have cap1: "hm_capacity m1 \<noteq> 0" and lt: "hm_size m1 \<noteq> hm_capacity m1"
    using rehash_spec(3,4) [OF inv] by (auto simp: m1_def over_loaded_def split: if_splits)
  show ?thesis
    using insert_pass [OF m1 cap1, of k v] lt
    by (auto simp: hm_assign_def hm_insert_def numeral_2_eq_2 m1_def [symmetric] Let_def
        split: where_to.splits)
qed

lemma hm_insert_spec:
  assumes "hm_inv hash m"
  shows "hm_inv hash (hm_insert hash k v m)"
    and "set (hm_entries (hm_insert hash k v m)) =
      insert (k, v) {(k', v') \<in> set (hm_entries m). k' \<noteq> k}"
proof -
  obtain m' where "hm_insert hash k v m = m'" "hm_inv hash m'"
    "set (hm_entries m') = insert (k, v) {(k', v') \<in> set (hm_entries m). k' \<noteq> k}"
    using hm_insert_fuel_enough [OF assms, of k v] by (metis hm_insert_def option.simps(5))
  then show "hm_inv hash (hm_insert hash k v m)"
    and "set (hm_entries (hm_insert hash k v m)) =
      insert (k, v) {(k', v') \<in> set (hm_entries m). k' \<noteq> k}"
    by blast+
qed

lemma hm_erase_spec:
  assumes inv: "hm_inv hash m"
  shows "hm_inv hash (hm_erase hash k m) \<and>
    set (hm_entries (hm_erase hash k m)) = {(k', v') \<in> set (hm_entries m). k' \<noteq> k}"
proof -
  let ?t = "hm_table m" and ?ps = "probes hash k (hm_capacity m)"
  have ok: "table_ok hash ?t" and size: "hm_size m = length (slot_entries ?t)"
    using inv by (auto simp: hm_inv_def hm_entries_def)
  show ?thesis
  proof (cases "erase_loop ?t k ?ps")
    case None
    then have "\<And>v. (k, v) \<notin> set (hm_entries m)"
      using hm_find_entries [OF inv, of k] erase_loop_None [of ?t k ?ps] by (simp add: hm_find_def)
    then show ?thesis using None inv by (auto simp: hm_erase_def)
  next
    case (Some p)
    then obtain w where p: "p < length ?t" "?t ! p = Live k w"
      using erase_loop_Some [of ?t k ?ps p] set_probes [of "length ?t" hash k]
      by (cases "length ?t = 0") (auto simp: probes_def)
    then show ?thesis
      using Some ok size entries_tombstone [OF ok p] length_slot_entries_tombstone [of p ?t]
      by (simp add: hm_erase_def hm_inv_def hm_entries_def table_ok_tombstone)
  qed
qed

lemma hm_store_spec:
  assumes inv: "hm_inv hash m" and has: "hm_find hash m k \<noteq> None"
  shows "hm_inv hash (hm_store hash k v m) \<and>
    set (hm_entries (hm_store hash k v m)) = insert (k, v) {(k', v') \<in> set (hm_entries m). k' \<noteq> k}"
proof -
  let ?t = "hm_table m" and ?ps = "probes hash k (hm_capacity m)"
  have ok: "table_ok hash ?t" and size: "hm_size m = length (slot_entries ?t)"
    using inv by (auto simp: hm_inv_def hm_entries_def)
  obtain p where e: "erase_loop ?t k ?ps = Some p"
    using has erase_loop_None [of ?t k ?ps] by (cases "erase_loop ?t k ?ps") (auto simp: hm_find_def)
  then obtain w where p: "p < length ?t" "?t ! p = Live k w"
    using erase_loop_Some [of ?t k ?ps p] set_probes [of "length ?t" hash k]
    by (cases "length ?t = 0") (auto simp: probes_def)
  have "table_ok hash (?t[p := Live k v])"
    by (rule table_ok_put [OF ok p(1) table_okD_reach [OF ok p]])
      (use table_okD_unique [OF ok] p in blast)
  then show ?thesis
    using e p size entries_put_same [OF ok p]
    by (simp add: hm_store_def hm_inv_def hm_entries_def length_slot_entries_put)
qed

lemma hm_store_absent: "hm_inv hash m \<Longrightarrow> hm_find hash m k = None \<Longrightarrow> hm_store hash k v m = m"
proof -
  assume inv: "hm_inv hash m" and none: "hm_find hash m k = None"
  have "erase_loop (hm_table m) k (probes hash k (hm_capacity m)) = None"
  proof (rule ccontr)
    assume "erase_loop (hm_table m) k (probes hash k (hm_capacity m)) \<noteq> None"
    then obtain p w where "p \<in> set (probes hash k (hm_capacity m))" "hm_table m ! p = Live k w"
      using erase_loop_Some by fastforce
    moreover from this(1) have "p < hm_capacity m"
      by (cases "hm_capacity m = 0") (simp_all add: set_probes, simp add: probes_def)
    ultimately show False
      using none inv find_loop_table [of hash "hm_table m" k w] by (auto simp: hm_find_def hm_inv_def)
  qed
  then show ?thesis by (simp add: hm_store_def)
qed

subsection \<open>The contract: a dictionary\<close>

locale dictionary =
  fixes empty :: "'m"
    and find :: "'m \<Rightarrow> 'k \<Rightarrow> 'v option"
    and insert :: "'k \<Rightarrow> 'v \<Rightarrow> 'm \<Rightarrow> 'm"
    and assign :: "'k \<Rightarrow> 'v \<Rightarrow> 'm \<Rightarrow> 'm"
    and store :: "'k \<Rightarrow> 'v \<Rightarrow> 'm \<Rightarrow> 'm"
    and erase :: "'k \<Rightarrow> 'm \<Rightarrow> 'm"
    and entries :: "'m \<Rightarrow> ('k \<times> 'v) list"
    and invar :: "'m \<Rightarrow> bool"
  assumes find_empty: "find empty = Map.empty"
    and find_insert: "invar m \<Longrightarrow> find (insert k v m) = (find m)(k \<mapsto> v)"
    and assign_insert: "invar m \<Longrightarrow> assign k v m = insert k v m"
    and find_store: "invar m \<Longrightarrow> find (store k v m) = (if find m k = None then find m else (find m)(k \<mapsto> v))"
    and invar_store: "invar m \<Longrightarrow> invar (store k v m)"
    and find_erase: "invar m \<Longrightarrow> find (erase k m) = (find m)(k := None)"
    and entries_find: "invar m \<Longrightarrow> (k, v) \<in> set (entries m) \<longleftrightarrow> find m k = Some v"
    and invar_empty: "invar empty"
    and invar_insert: "invar m \<Longrightarrow> invar (insert k v m)"
    and invar_erase: "invar m \<Longrightarrow> invar (erase k m)"
begin

lemmas laws = find_empty find_insert find_store find_erase assign_insert
  invar_empty invar_insert invar_store invar_erase

lemma finite_dom: "invar m \<Longrightarrow> finite (dom (find m))"
proof -
  assume "invar m"
  then have "dom (find m) \<subseteq> fst ` set (entries m)" by (force simp: entries_find [symmetric])
  then show ?thesis by (rule finite_subset) simp
qed

lemma invar_fold_insert: "invar m \<Longrightarrow> invar (fold (\<lambda>(k, v). insert k v) xs m)"
  by (induction xs arbitrary: m) (auto simp: invar_insert split: prod.splits)

lemma find_fold_insert:
  "invar m \<Longrightarrow> find (fold (\<lambda>(k, v). insert k v) xs m) = find m ++ map_of (rev xs)"
proof (induction xs arbitrary: m)
  case (Cons x xs)
  obtain k v where x: "x = (k, v)" by (cases x)
  have "find (fold (\<lambda>(k, v). insert k v) (x # xs) m) = (find m)(k \<mapsto> v) ++ map_of (rev xs)"
    using Cons by (simp add: x invar_insert find_insert fun_upd_def)
  also have "\<dots> = find m ++ map_of (rev (x # xs))"
    by (auto simp: x fun_eq_iff map_add_def map_of_append split: option.splits)
  finally show ?case .
qed simp

end

interpretation hm: dictionary hm_empty "hm_find hash" "hm_insert hash" "hm_assign hash"
  "hm_store hash" "hm_erase hash" hm_entries "hm_inv hash" for hash :: "'k \<Rightarrow> u64"
proof unfold_locales
  show "hm_find hash hm_empty = Map.empty"
    by (simp add: hm_find_def hm_empty_def probes_def fun_eq_iff)
  show "hm_inv hash hm_empty"
    by (simp add: hm_inv_def hm_empty_def hm_entries_def table_ok_def)
  fix m :: "('k, 'v) hash_map" and k v
  assume inv: "hm_inv hash m"
  show "(k, v) \<in> set (hm_entries m) \<longleftrightarrow> hm_find hash m k = Some v"
    using hm_find_entries [OF inv] by simp
  show "hm_inv hash (hm_insert hash k v m)" by (rule hm_insert_spec(1) [OF inv])
  show "hm_inv hash (hm_erase hash k m)" using hm_erase_spec [OF inv] by simp
  have eqI: "f = g" if "\<And>a b. f a = Some b \<longleftrightarrow> g a = Some b" for f g :: "'k \<rightharpoonup> 'v"
    using that by (intro ext) (metis option.exhaust)
  show "hm_find hash (hm_insert hash k v m) = (hm_find hash m)(k \<mapsto> v)"
    by (rule eqI)
      (auto simp: hm_find_entries [OF hm_insert_spec(1) [OF inv]] hm_insert_spec(2) [OF inv]
        hm_find_entries [OF inv])
  show "hm_assign hash k v m = hm_insert hash k v m" by (rule hm_assign_insert [OF inv])
  show "hm_inv hash (hm_store hash k v m)"
    by (cases "hm_find hash m k = None") (use inv hm_store_spec [OF inv] in \<open>auto simp: hm_store_absent\<close>)
  show "hm_find hash (hm_store hash k v m) =
      (if hm_find hash m k = None then hm_find hash m else (hm_find hash m)(k \<mapsto> v))"
  proof (cases "hm_find hash m k = None")
    case False
    note st = hm_store_spec [OF inv False, of v]
    have "hm_find hash (hm_store hash k v m) = (hm_find hash m)(k \<mapsto> v)"
      by (rule eqI) (use st in \<open>auto simp: hm_find_entries [OF conjunct1 [OF st]] hm_find_entries [OF inv]\<close>)
    with False show ?thesis by auto
  qed (simp add: hm_store_absent inv)
  show "hm_find hash (hm_erase hash k m) = (hm_find hash m)(k := None)"
    by (rule eqI) (use hm_erase_spec [OF inv, of k] in
        \<open>auto simp: hm_find_entries [OF conjunct1] hm_find_entries [OF inv]\<close>)
qed

end
