(* ===== verification/Lock_Manager.thy ===== *)
theory Lock_Manager
  imports Hash_Map
begin

section \<open>Lock manager\<close>

text \<open>
  Model of \<^verbatim>\<open>src/src/concurrency/lock_manager.{h,cpp}\<close>: table, record and key locks with
  four modes, in-place upgrades, wait queues and deadlock detection.  The four maps of the
  class are hash maps of the theory \<open>Hash_Map\<close>; a pointer into one of them is used by
  looking the object up and storing the changed object back (\<open>hm_store\<close>).

  The class is a monitor: everything between acquiring \<^verbatim>\<open>latch_\<close> and releasing it (or
  releasing it inside \<^verbatim>\<open>cond_.timed_wait\<close>) is one atomic section.  A blocking call is
  therefore a sequence of sections: \<open>lock_table_enter\<close> up to the first wait, then one
  \<open>lock_table_poll\<close> per wake-up, or \<open>lock_table_abandon\<close> when the wait times out.  The
  step relation \<open>lm_step\<close> interleaves the sections of all threads in any order.
  The trace records of the code have no effect on the state and are left out.
\<close>

subsection \<open>Modes and requests\<close>

datatype lock_mode = AccessShare | RowExclusive | Exclusive | AccessExclusive

primrec mode_code :: "lock_mode \<Rightarrow> nat" where
  "mode_code AccessShare = 0"
| "mode_code RowExclusive = 1"
| "mode_code Exclusive = 2"
| "mode_code AccessExclusive = 3"

record lock_request =
  req_txn :: u64
  req_mode :: lock_mode
  req_granted :: bool
  req_waiting :: bool

record lock_object =
  obj_table :: u32
  obj_requests :: "lock_request list"
  obj_mask :: lock_mode

record lock_manager =
  lock_table :: "(u32, lock_object) hash_map"
  txn_locks :: "(u64, u32 list) hash_map"
  record_locks :: "(u64, lock_object) hash_map"
  txn_record_locks :: "(u64, u64 list) hash_map"

definition lm_init :: lock_manager where
  "lm_init = \<lparr>lock_table = hm_empty, txn_locks = hm_empty, record_locks = hm_empty,
     txn_record_locks = hm_empty\<rparr>"

definition kLockCompatibility :: "bool list list" where
  "kLockCompatibility =
     [[True, True, True, False],
      [True, True, False, False],
      [True, False, False, False],
      [False, False, False, False]]"

definition is_compatible :: "lock_mode \<Rightarrow> lock_mode \<Rightarrow> bool" where
  "is_compatible held requested = kLockCompatibility ! mode_code held ! mode_code requested"

definition max_mode :: "lock_mode \<Rightarrow> lock_mode \<Rightarrow> lock_mode" where
  "max_mode a b = (if mode_code a > mode_code b then a else b)"

text \<open>A record or key lock is found under a 64-bit mix of its table and row.\<close>

record record_id =
  rid_page :: u64
  rid_slot :: u16

definition record_lock_key :: "u32 \<Rightarrow> record_id \<Rightarrow> u64" where
  "record_lock_key table_id rid =
     (let h0 = ucast table_id * 11400714819323198485;
          h1 = h0 XOR (rid_page rid + 0x9e3779b97f4a7c15 + push_bit 6 h0 + drop_bit 2 h0);
          h2 = h1 XOR (ucast (rid_slot rid) + 0x9e3779b97f4a7c15 + push_bit 6 h1 + drop_bit 2 h1)
      in h2)"

definition logical_lock_key :: "u32 \<Rightarrow> string \<Rightarrow> u64" where
  "logical_lock_key table_id key =
     (ucast table_id * 1099511628211 XOR hash_string key) XOR 0xD15EA5E5D15EA5E5"

subsection \<open>Granting\<close>

definition can_grant :: "lock_object \<Rightarrow> u64 \<Rightarrow> lock_mode \<Rightarrow> bool" where
  "can_grant obj txn mode =
     list_all (\<lambda>req. \<not> req_granted req \<or> req_txn req = txn \<or>
        is_compatible (req_mode req) mode \<and> is_compatible mode (req_mode req)) (obj_requests obj)"

definition held_mask :: "lock_request list \<Rightarrow> lock_mode" where
  "held_mask rs =
     fold (\<lambda>r held. if req_granted r then max_mode held (req_mode r) else held) rs AccessShare"

fun grant_loop :: "nat list \<Rightarrow> lock_object \<Rightarrow> lock_object" where
  "grant_loop [] obj = obj"
| "grant_loop (i # is) obj =
     (let r = obj_requests obj ! i in
      if req_granted r then grant_loop is obj
      else if can_grant obj (req_txn r) (req_mode r)
      then grant_loop is
        (obj\<lparr>obj_requests := (obj_requests obj)[i := r\<lparr>req_granted := True, req_waiting := False\<rparr>]\<rparr>)
      else grant_loop is obj)"

definition grant_pending :: "lock_object \<Rightarrow> lock_object" where
  "grant_pending obj =
     (let obj1 = grant_loop [0..<length (obj_requests obj)] obj
      in obj1\<lparr>obj_mask := held_mask (obj_requests obj1)\<rparr>)"

subsection \<open>Deadlock detection\<close>

text \<open>\<^verbatim>\<open>find_holder_for\<close>: the transactions that hold, in some table, a granted lock the
  waiter's request is incompatible with.\<close>

definition find_holder_for :: "lock_manager \<Rightarrow> u64 \<Rightarrow> u64 list" where
  "find_holder_for lm waiter =
     concat (map (\<lambda>(t, obj).
       concat (map (\<lambda>ri.
         if \<not> req_granted ri \<and> req_txn ri = waiter
         then map req_txn (filter (\<lambda>rj. req_granted rj \<and> \<not> is_compatible (req_mode rj) (req_mode ri))
                (obj_requests obj))
         else []) (obj_requests obj)))
     (hm_entries (lock_table lm)))"

text \<open>The depth-first search of \<^verbatim>\<open>detect_deadlock\<close>.  The stack's top is the head of the
  list; the holders are pushed in order, so the last one is on top.\<close>

function (sequential) dfs_loop :: "(u64 \<Rightarrow> u64 list) \<Rightarrow> u64 \<Rightarrow> u64 list \<Rightarrow> u64 list \<Rightarrow> bool" where
  "dfs_loop holders_of root seen [] = False"
| "dfs_loop holders_of root seen (current # stack) =
     (if current \<in> set seen then dfs_loop holders_of root seen stack
      else
        (let holders = holders_of current in
         if root \<in> set holders then True
         else dfs_loop holders_of root (current # seen)
                (rev (filter (\<lambda>h. h \<notin> set (current # seen)) holders) @ stack)))"
  by pat_completeness auto
termination
proof (relation "inv_image (finite_psubset <*lex*> less_than)
    (\<lambda>(f, r, seen, stack). (UNIV - set seen, length stack))")
  show "wf (inv_image (finite_psubset <*lex*> less_than)
      (\<lambda>(f :: u64 \<Rightarrow> u64 list, r :: u64, seen :: u64 list, stack :: u64 list). (UNIV - set seen, length stack)))"
    by (intro wf_inv_image wf_lex_prod wf_finite_psubset wf_less_than)
qed (auto simp: finite_psubset_def)

definition detect_deadlock :: "lock_manager \<Rightarrow> u64 \<Rightarrow> bool" where
  "detect_deadlock lm txn = dfs_loop (find_holder_for lm) txn [] [txn]"

subsection \<open>Table locks\<close>

datatype lock_outcome = LockDone | LockDenied string | LockWait

definition new_object :: "u32 \<Rightarrow> lock_object" where
  "new_object t = \<lparr>obj_table = t, obj_requests = [], obj_mask = AccessShare\<rparr>"

fun first_index :: "('a \<Rightarrow> bool) \<Rightarrow> 'a list \<Rightarrow> nat option" where
  "first_index P [] = None"
| "first_index P (x # xs) = (if P x then Some 0 else map_option Suc (first_index P xs))"

fun remove_first :: "('a \<Rightarrow> bool) \<Rightarrow> 'a list \<Rightarrow> 'a list" where
  "remove_first P [] = []"
| "remove_first P (x # xs) = (if P x then xs else x # remove_first P xs)"

definition waiting_request :: "u64 \<Rightarrow> lock_mode \<Rightarrow> lock_request" where
  "waiting_request txn mode = \<lparr>req_txn = txn, req_mode = mode, req_granted = False, req_waiting = True\<rparr>"

definition can_upgrade :: "lock_object \<Rightarrow> nat \<Rightarrow> lock_mode \<Rightarrow> bool" where
  "can_upgrade obj i mode =
     (\<forall>j<length (obj_requests obj). j \<noteq> i \<longrightarrow> req_granted (obj_requests obj ! j) \<longrightarrow>
        is_compatible (req_mode (obj_requests obj ! j)) mode)"

definition upgrade_at :: "lock_object \<Rightarrow> nat \<Rightarrow> lock_mode \<Rightarrow> lock_object" where
  "upgrade_at obj i mode =
     (let rs = (obj_requests obj)[i := (obj_requests obj ! i)
                 \<lparr>req_mode := mode, req_granted := True, req_waiting := False\<rparr>]
      in obj\<lparr>obj_requests := rs, obj_mask := held_mask rs\<rparr>)"

definition holds_mode :: "lock_object \<Rightarrow> u64 \<Rightarrow> lock_mode \<Rightarrow> bool" where
  "holds_mode obj txn mode =
     list_ex (\<lambda>r. req_txn r = txn \<and> req_mode r = mode \<and> req_granted r) (obj_requests obj)"

text \<open>The transaction's list of locked tables, to which a granted table is added once.\<close>

definition note_held :: "'a \<Rightarrow> 'a list option \<Rightarrow> 'a list" where
  "note_held x held = (let xs = (case held of None \<Rightarrow> [] | Some xs \<Rightarrow> xs)
     in if x \<in> set xs then xs else xs @ [x])"

definition note_table_lock :: "lock_manager \<Rightarrow> u64 \<Rightarrow> u32 \<Rightarrow> lock_manager" where
  "note_table_lock lm txn t =
     (let held = hm_find hash_u64 (txn_locks lm) txn;
          tl = (case held of None \<Rightarrow> hm_assign hash_u64 txn [] (txn_locks lm) | Some _ \<Rightarrow> txn_locks lm)
      in lm\<lparr>txn_locks := hm_store hash_u64 txn (note_held t held) tl\<rparr>)"

text \<open>Leaving the queue after a time-out or a deadlock: the first request of the transaction
  in this mode that is not granted is removed.\<close>

definition drop_waiting :: "lock_object \<Rightarrow> u64 \<Rightarrow> lock_mode \<Rightarrow> lock_object" where
  "drop_waiting obj txn mode =
     obj\<lparr>obj_requests := remove_first (\<lambda>r. req_txn r = txn \<and> req_mode r = mode \<and> \<not> req_granted r)
        (obj_requests obj)\<rparr>"

definition lock_table_abandon ::
  "lock_manager \<Rightarrow> u64 \<Rightarrow> u32 \<Rightarrow> lock_mode \<Rightarrow> lock_outcome \<times> lock_manager" where
  "lock_table_abandon lm txn t mode =
     (LockDenied ''lock wait timeout or deadlock'',
      case hm_find hash_u32 (lock_table lm) t of
        None \<Rightarrow> lm
      | Some obj \<Rightarrow> lm\<lparr>lock_table := hm_store hash_u32 t (drop_waiting obj txn mode) (lock_table lm)\<rparr>)"

text \<open>One iteration of the waiting loop, from a wake-up to the next wait.\<close>

definition lock_table_poll ::
  "lock_manager \<Rightarrow> u64 \<Rightarrow> u32 \<Rightarrow> lock_mode \<Rightarrow> lock_outcome \<times> lock_manager" where
  "lock_table_poll lm txn t mode =
     (case hm_find hash_u32 (lock_table lm) t of
        None \<Rightarrow> lock_table_abandon lm txn t mode
      | Some obj0 \<Rightarrow>
          (let obj = grant_pending obj0;
               lm1 = lm\<lparr>lock_table := hm_store hash_u32 t obj (lock_table lm)\<rparr>
           in if holds_mode obj txn mode then (LockDone, note_table_lock lm1 txn t)
              else if detect_deadlock lm1 txn then lock_table_abandon lm1 txn t mode
              else (LockWait, lm1)))"

definition find_or_create_table :: "lock_manager \<Rightarrow> u32 \<Rightarrow> lock_manager" where
  "find_or_create_table lm t =
     (case hm_find hash_u32 (lock_table lm) t of
        None \<Rightarrow> lm\<lparr>lock_table := hm_assign hash_u32 t (new_object t) (lock_table lm)\<rparr>
      | Some _ \<Rightarrow> lm)"

definition lock_table_enter ::
  "lock_manager \<Rightarrow> u64 \<Rightarrow> u32 \<Rightarrow> lock_mode \<Rightarrow> lock_outcome \<times> lock_manager" where
  "lock_table_enter lm0 txn t mode =
     (let lm = find_or_create_table lm0 t in
      case hm_find hash_u32 (lock_table lm) t of
        None \<Rightarrow> (LockDenied ''unreachable'', lm)
      | Some obj \<Rightarrow>
          (case first_index (\<lambda>r. req_txn r = txn \<and> req_granted r) (obj_requests obj) of
             Some i \<Rightarrow>
               if mode_code (req_mode (obj_requests obj ! i)) \<ge> mode_code mode then (LockDone, lm)
               else if can_upgrade obj i mode
               then (LockDone, lm\<lparr>lock_table := hm_store hash_u32 t (upgrade_at obj i mode) (lock_table lm)\<rparr>)
               else (LockDenied ''lock upgrade blocked by other holders'', lm)
           | None \<Rightarrow>
               lock_table_poll
                 (lm\<lparr>lock_table := hm_store hash_u32 t
                    (obj\<lparr>obj_requests := obj_requests obj @ [waiting_request txn mode]\<rparr>) (lock_table lm)\<rparr>)
                 txn t mode))"

subsection \<open>Record and key locks\<close>

definition note_record_lock :: "lock_manager \<Rightarrow> u64 \<Rightarrow> u64 \<Rightarrow> lock_manager" where
  "note_record_lock lm txn key =
     (let held = hm_find hash_u64 (txn_record_locks lm) txn;
          tl = (case held of None \<Rightarrow> hm_assign hash_u64 txn [] (txn_record_locks lm)
                | Some _ \<Rightarrow> txn_record_locks lm)
      in lm\<lparr>txn_record_locks := hm_store hash_u64 txn (note_held key held) tl\<rparr>)"

definition lock_record_abandon ::
  "lock_manager \<Rightarrow> u64 \<Rightarrow> u64 \<Rightarrow> lock_mode \<Rightarrow> lock_outcome \<times> lock_manager" where
  "lock_record_abandon lm txn key mode =
     (LockDenied ''record lock wait timeout'',
      case hm_find hash_u64 (record_locks lm) key of
        None \<Rightarrow> lm
      | Some obj \<Rightarrow> lm\<lparr>record_locks := hm_store hash_u64 key (drop_waiting obj txn mode) (record_locks lm)\<rparr>)"

definition lock_record_poll ::
  "lock_manager \<Rightarrow> u64 \<Rightarrow> u64 \<Rightarrow> lock_mode \<Rightarrow> lock_outcome \<times> lock_manager" where
  "lock_record_poll lm txn key mode =
     (case hm_find hash_u64 (record_locks lm) key of
        None \<Rightarrow> lock_record_abandon lm txn key mode
      | Some obj0 \<Rightarrow>
          (let obj = grant_pending obj0;
               lm1 = lm\<lparr>record_locks := hm_store hash_u64 key obj (record_locks lm)\<rparr>
           in if holds_mode obj txn mode then (LockDone, note_record_lock lm1 txn key)
              else (LockWait, lm1)))"

definition find_or_create_record :: "lock_manager \<Rightarrow> u32 \<Rightarrow> u64 \<Rightarrow> lock_manager" where
  "find_or_create_record lm t key =
     (case hm_find hash_u64 (record_locks lm) key of
        None \<Rightarrow> lm\<lparr>record_locks := hm_assign hash_u64 key (new_object t) (record_locks lm)\<rparr>
      | Some _ \<Rightarrow> lm)"

definition lock_record_enter ::
  "lock_manager \<Rightarrow> u64 \<Rightarrow> u32 \<Rightarrow> record_id \<Rightarrow> lock_mode \<Rightarrow> lock_outcome \<times> lock_manager" where
  "lock_record_enter lm0 txn t rid mode =
     (let key = record_lock_key t rid;
          lm = find_or_create_record lm0 t key in
      case hm_find hash_u64 (record_locks lm) key of
        None \<Rightarrow> (LockDenied ''unreachable'', lm)
      | Some obj \<Rightarrow>
          (case first_index (\<lambda>r. req_txn r = txn \<and> req_granted r) (obj_requests obj) of
             Some i \<Rightarrow>
               if mode_code (req_mode (obj_requests obj ! i)) \<ge> mode_code mode then (LockDone, lm)
               else (LockDenied ''record lock upgrade blocked'', lm)
           | None \<Rightarrow>
               lock_record_poll
                 (lm\<lparr>record_locks := hm_store hash_u64 key
                    (obj\<lparr>obj_requests := obj_requests obj @ [waiting_request txn mode]\<rparr>) (record_locks lm)\<rparr>)
                 txn key mode))"

definition lock_key_enter ::
  "lock_manager \<Rightarrow> u64 \<Rightarrow> u32 \<Rightarrow> string \<Rightarrow> lock_mode \<Rightarrow> lock_outcome \<times> lock_manager" where
  "lock_key_enter lm txn t key mode =
     lock_record_enter lm txn t \<lparr>rid_page = logical_lock_key t key, rid_slot = 0\<rparr> mode"

subsection \<open>Unlocking\<close>

definition without_txn :: "lock_object \<Rightarrow> u64 \<Rightarrow> lock_object" where
  "without_txn obj txn = obj\<lparr>obj_requests := filter (\<lambda>r. req_txn r \<noteq> txn) (obj_requests obj)\<rparr>"

definition unlock_table :: "lock_manager \<Rightarrow> u64 \<Rightarrow> u32 \<Rightarrow> lock_manager" where
  "unlock_table lm txn t =
     (case hm_find hash_u32 (lock_table lm) t of
        None \<Rightarrow> lm
      | Some obj \<Rightarrow>
          (let lm1 = lm\<lparr>lock_table := hm_store hash_u32 t
                 (grant_pending ((without_txn obj txn)\<lparr>obj_mask := AccessShare\<rparr>)) (lock_table lm)\<rparr>
           in case hm_find hash_u64 (txn_locks lm1) txn of
                None \<Rightarrow> lm1
              | Some held \<Rightarrow>
                  lm1\<lparr>txn_locks := hm_store hash_u64 txn (filter (\<lambda>x. x \<noteq> t) held) (txn_locks lm1)\<rparr>))"

definition release_record :: "lock_manager \<Rightarrow> u64 \<Rightarrow> u64 \<Rightarrow> lock_manager" where
  "release_record lm txn key =
     (case hm_find hash_u64 (record_locks lm) key of
        None \<Rightarrow> lm
      | Some obj \<Rightarrow>
          lm\<lparr>record_locks := hm_store hash_u64 key (grant_pending (without_txn obj txn)) (record_locks lm)\<rparr>)"

definition unlock_record :: "lock_manager \<Rightarrow> u64 \<Rightarrow> u32 \<Rightarrow> record_id \<Rightarrow> lock_manager" where
  "unlock_record lm txn t rid = release_record lm txn (record_lock_key t rid)"

definition unlock_key :: "lock_manager \<Rightarrow> u64 \<Rightarrow> u32 \<Rightarrow> string \<Rightarrow> lock_manager" where
  "unlock_key lm txn t key = unlock_record lm txn t \<lparr>rid_page = logical_lock_key t key, rid_slot = 0\<rparr>"

definition release_records :: "lock_manager \<Rightarrow> u64 \<Rightarrow> lock_manager" where
  "release_records lm txn =
     (let lm1 = (case hm_find hash_u64 (txn_record_locks lm) txn of
                   None \<Rightarrow> lm
                 | Some record_ids \<Rightarrow>
                     (let l = fold (\<lambda>key l. release_record l txn key) record_ids lm
                      in l\<lparr>txn_record_locks := hm_erase hash_u64 txn (txn_record_locks l)\<rparr>))
      in lm1\<lparr>txn_locks := hm_erase hash_u64 txn (txn_locks lm1)\<rparr>)"

definition unlock_all :: "lock_manager \<Rightarrow> u64 \<Rightarrow> lock_manager" where
  "unlock_all lm txn =
     (case hm_find hash_u64 (txn_locks lm) txn of
        None \<Rightarrow> lm
      | Some table_ids \<Rightarrow> release_records (fold (\<lambda>t l. unlock_table l txn t) table_ids lm) txn)"

subsection \<open>The safety invariant: granted locks are compatible\<close>

definition grants_ok :: "lock_object \<Rightarrow> bool" where
  "grants_ok obj \<longleftrightarrow>
     (\<forall>r \<in> set (obj_requests obj). \<forall>s \<in> set (obj_requests obj).
        req_granted r \<longrightarrow> req_granted s \<longrightarrow> req_txn r \<noteq> req_txn s \<longrightarrow>
        is_compatible (req_mode r) (req_mode s))"

definition lm_inv :: "lock_manager \<Rightarrow> bool" where
  "lm_inv lm \<longleftrightarrow>
     hm_inv hash_u32 (lock_table lm) \<and> hm_inv hash_u64 (txn_locks lm) \<and>
     hm_inv hash_u64 (record_locks lm) \<and> hm_inv hash_u64 (txn_record_locks lm) \<and>
     (\<forall>t obj. hm_find hash_u32 (lock_table lm) t = Some obj \<longrightarrow> grants_ok obj) \<and>
     (\<forall>k obj. hm_find hash_u64 (record_locks lm) k = Some obj \<longrightarrow> grants_ok obj)"

lemma is_compatible_sym: "is_compatible a b = is_compatible b a"
  by (cases a; cases b) (simp_all add: is_compatible_def kLockCompatibility_def)

lemma grants_ok_subset:
  "grants_ok obj \<Longrightarrow> set (obj_requests obj') \<subseteq> set (obj_requests obj) \<Longrightarrow> grants_ok obj'"
  unfolding grants_ok_def by blast

lemma grants_ok_mask [simp]: "grants_ok (obj\<lparr>obj_mask := m\<rparr>) = grants_ok obj"
  by (simp add: grants_ok_def)

lemma grants_ok_replace:
  assumes "grants_ok obj"
    and "\<And>s. s \<in> set (obj_requests obj) \<Longrightarrow> req_granted s \<Longrightarrow> req_txn s \<noteq> req_txn r \<Longrightarrow>
      is_compatible (req_mode s) (req_mode r)"
    and "set rs \<subseteq> insert r (set (obj_requests obj))"
  shows "grants_ok (obj\<lparr>obj_requests := rs\<rparr>)"
  using assms(1,2) subsetD [OF assms(3)] is_compatible_sym unfolding grants_ok_def
  by simp metis

lemma grants_ok_grant_loop: "grants_ok obj \<Longrightarrow> grants_ok (grant_loop is obj)"
proof (induction "is" arbitrary: obj)
  case (Cons i js)
  let ?r = "obj_requests obj ! i"
  let ?r' = "?r\<lparr>req_granted := True, req_waiting := False\<rparr>"
  have "grants_ok (obj\<lparr>obj_requests := (obj_requests obj)[i := ?r']\<rparr>)"
    if "can_grant obj (req_txn ?r) (req_mode ?r)"
    by (rule grants_ok_replace [OF Cons.prems _ set_update_subset_insert])
      (use that in \<open>auto simp: can_grant_def list_all_iff\<close>)
  with Cons show ?case by (simp add: Let_def)
qed simp

lemma grants_ok_pending [simp, intro]: "grants_ok obj \<Longrightarrow> grants_ok (grant_pending obj)"
  by (simp add: grant_pending_def grants_ok_grant_loop Let_def)

lemma grants_ok_new [simp]: "grants_ok (new_object t)"
  by (simp add: grants_ok_def new_object_def)

lemma grants_ok_append [simp]:
  "grants_ok obj \<Longrightarrow> grants_ok (obj\<lparr>obj_requests := obj_requests obj @ [waiting_request txn mode]\<rparr>)"
  by (auto simp: grants_ok_def waiting_request_def)

lemma grants_ok_upgrade:
  assumes "grants_ok obj" and "can_upgrade obj i mode" and "i < length (obj_requests obj)"
  shows "grants_ok (upgrade_at obj i mode)"
proof -
  let ?r = "(obj_requests obj ! i)\<lparr>req_mode := mode, req_granted := True, req_waiting := False\<rparr>"
  have "grants_ok (obj\<lparr>obj_requests := (obj_requests obj)[i := ?r]\<rparr>)"
  proof (rule grants_ok_replace [OF assms(1) _ set_update_subset_insert])
    fix s assume "s \<in> set (obj_requests obj)" "req_granted s" "req_txn s \<noteq> req_txn ?r"
    then show "is_compatible (req_mode s) (req_mode ?r)"
      using assms(2) by (auto simp: can_upgrade_def in_set_conv_nth)
  qed
  then show ?thesis by (simp add: upgrade_at_def Let_def)
qed

lemma set_remove_first: "set (remove_first P xs) \<subseteq> set xs"
  by (induction xs) auto

lemma grants_ok_drop [simp]: "grants_ok obj \<Longrightarrow> grants_ok (drop_waiting obj txn mode)"
  by (erule grants_ok_subset) (simp add: drop_waiting_def set_remove_first)

lemma grants_ok_without [simp]: "grants_ok obj \<Longrightarrow> grants_ok (without_txn obj txn)"
  by (erule grants_ok_subset) (auto simp: without_txn_def)

lemma first_index_Some:
  "first_index P xs = Some i \<Longrightarrow> i < length xs \<and> P (xs ! i)"
  by (induction xs arbitrary: i) (auto split: if_splits)

lemma first_index_None: "first_index P xs = None \<longleftrightarrow> (\<forall>x \<in> set xs. \<not> P x)"
  by (induction xs) auto

subsubsection \<open>Every section keeps the invariant\<close>

lemma lm_invD:
  assumes "lm_inv lm"
  shows "hm_inv hash_u32 (lock_table lm)" "hm_inv hash_u64 (txn_locks lm)"
    "hm_inv hash_u64 (record_locks lm)" "hm_inv hash_u64 (txn_record_locks lm)"
    "hm_find hash_u32 (lock_table lm) t = Some obj \<Longrightarrow> grants_ok obj"
    "hm_find hash_u64 (record_locks lm) k = Some obj \<Longrightarrow> grants_ok obj"
  using assms by (auto simp: lm_inv_def)

lemma lm_inv_init: "lm_inv lm_init"
  by (simp add: lm_inv_def lm_init_def hm.laws)

lemma lm_inv_store_table [intro]:
  "lm_inv lm \<Longrightarrow> grants_ok obj \<Longrightarrow> lm_inv (lm\<lparr>lock_table := hm_store hash_u32 t obj (lock_table lm)\<rparr>)"
  by (auto simp: lm_inv_def hm.laws split: if_splits)

lemma lm_inv_store_record [intro]:
  "lm_inv lm \<Longrightarrow> grants_ok obj \<Longrightarrow>
   lm_inv (lm\<lparr>record_locks := hm_store hash_u64 k obj (record_locks lm)\<rparr>)"
  by (auto simp: lm_inv_def hm.laws split: if_splits)

lemma lm_inv_txn_locks: "lm_inv lm \<Longrightarrow> hm_inv hash_u64 m \<Longrightarrow> lm_inv (lm\<lparr>txn_locks := m\<rparr>)"
  by (simp add: lm_inv_def)

lemma lm_inv_txn_record_locks:
  "lm_inv lm \<Longrightarrow> hm_inv hash_u64 m \<Longrightarrow> lm_inv (lm\<lparr>txn_record_locks := m\<rparr>)"
  by (simp add: lm_inv_def)

lemma lm_inv_note_table [intro]: "lm_inv lm \<Longrightarrow> lm_inv (note_table_lock lm txn t)"
  by (auto simp: note_table_lock_def Let_def hm.laws lm_invD split: option.splits
      intro!: lm_inv_txn_locks)

lemma lm_inv_note_record [intro]: "lm_inv lm \<Longrightarrow> lm_inv (note_record_lock lm txn k)"
  by (auto simp: note_record_lock_def Let_def hm.laws lm_invD split: option.splits
      intro!: lm_inv_txn_record_locks)

lemma lm_inv_table_abandon: "lm_inv lm \<Longrightarrow> lm_inv (snd (lock_table_abandon lm txn t mode))"
  by (auto simp: lock_table_abandon_def dest: lm_invD(5) split: option.splits
      intro!: lm_inv_store_table grants_ok_drop)

lemma lm_inv_table_poll: "lm_inv lm \<Longrightarrow> lm_inv (snd (lock_table_poll lm txn t mode))"
  by (auto simp: lock_table_poll_def Let_def dest: lm_invD intro!: lm_inv_table_abandon
      split: option.splits)

lemma lm_inv_create_table: "lm_inv lm \<Longrightarrow> lm_inv (find_or_create_table lm t)"
  by (auto simp: find_or_create_table_def lm_inv_def hm.laws split: option.splits if_splits)

lemma lm_inv_table_enter: "lm_inv lm \<Longrightarrow> lm_inv (snd (lock_table_enter lm txn t mode))"
  using lm_inv_create_table [of lm t]
  by (auto simp: lock_table_enter_def Let_def split: option.splits
      dest: lm_invD(5) first_index_Some intro!: lm_inv_table_poll lm_inv_store_table grants_ok_upgrade)

lemma lm_inv_record_abandon: "lm_inv lm \<Longrightarrow> lm_inv (snd (lock_record_abandon lm txn k mode))"
  by (auto simp: lock_record_abandon_def dest: lm_invD(6) split: option.splits
      intro!: lm_inv_store_record grants_ok_drop)

lemma lm_inv_record_poll: "lm_inv lm \<Longrightarrow> lm_inv (snd (lock_record_poll lm txn k mode))"
  by (auto simp: lock_record_poll_def Let_def dest: lm_invD intro!: lm_inv_record_abandon
      split: option.splits)

lemma lm_inv_create_record: "lm_inv lm \<Longrightarrow> lm_inv (find_or_create_record lm t k)"
  by (auto simp: find_or_create_record_def lm_inv_def hm.laws split: option.splits if_splits)

lemma lm_inv_record_enter: "lm_inv lm \<Longrightarrow> lm_inv (snd (lock_record_enter lm txn t rid mode))"
  using lm_inv_create_record [of lm t "record_lock_key t rid"]
  by (auto simp: lock_record_enter_def Let_def split: option.splits
      dest: lm_invD(6) intro!: lm_inv_record_poll lm_inv_store_record)

lemma lm_inv_unlock_table: "lm_inv lm \<Longrightarrow> lm_inv (unlock_table lm txn t)"
  by (auto simp: unlock_table_def Let_def hm.laws split: option.splits dest: lm_invD
      intro!: lm_inv_txn_locks lm_inv_store_table)

lemma lm_inv_release_record: "lm_inv lm \<Longrightarrow> lm_inv (release_record lm txn k)"
  by (auto simp: release_record_def split: option.splits dest: lm_invD(6)
      intro!: lm_inv_store_record grants_ok_pending grants_ok_without)

lemma lm_inv_fold: "(\<And>l x. lm_inv l \<Longrightarrow> lm_inv (f x l)) \<Longrightarrow> lm_inv lm \<Longrightarrow> lm_inv (fold f xs lm)"
  by (induction xs arbitrary: lm) auto

lemma lm_inv_release_records: "lm_inv lm \<Longrightarrow> lm_inv (release_records lm txn)"
  by (auto simp: release_records_def Let_def hm.laws lm_invD split: option.splits
      intro!: lm_inv_txn_locks lm_inv_txn_record_locks lm_inv_fold lm_inv_release_record
        hm.invar_erase lm_invD)

lemma lm_inv_unlock_all: "lm_inv lm \<Longrightarrow> lm_inv (unlock_all lm txn)"
  by (auto simp: unlock_all_def split: option.splits
      intro!: lm_inv_release_records lm_inv_fold lm_inv_unlock_table)

subsection \<open>Interleavings of the sections\<close>

inductive lm_step :: "lock_manager \<Rightarrow> lock_manager \<Rightarrow> bool" where
  step_table_enter: "lm_step lm (snd (lock_table_enter lm txn t mode))"
| step_table_poll: "lm_step lm (snd (lock_table_poll lm txn t mode))"
| step_table_abandon: "lm_step lm (snd (lock_table_abandon lm txn t mode))"
| step_record_enter: "lm_step lm (snd (lock_record_enter lm txn t rid mode))"
| step_key_enter: "lm_step lm (snd (lock_key_enter lm txn t key mode))"
| step_record_poll: "lm_step lm (snd (lock_record_poll lm txn k mode))"
| step_record_abandon: "lm_step lm (snd (lock_record_abandon lm txn k mode))"
| step_unlock_table: "lm_step lm (unlock_table lm txn t)"
| step_unlock_record: "lm_step lm (unlock_record lm txn t rid)"
| step_unlock_key: "lm_step lm (unlock_key lm txn t key)"
| step_release_records: "lm_step lm (release_records lm txn)"

lemma lm_step_inv: "lm_step lm lm' \<Longrightarrow> lm_inv lm \<Longrightarrow> lm_inv lm'"
  by (induction rule: lm_step.induct)
    (simp_all add: lm_inv_table_enter lm_inv_table_poll lm_inv_table_abandon lm_inv_record_enter
      lm_inv_record_poll lm_inv_record_abandon lm_inv_unlock_table lm_inv_release_records
      lm_inv_release_record lock_key_enter_def unlock_record_def unlock_key_def)

lemma lm_reachable_inv: "lm_step\<^sup>*\<^sup>* lm_init lm \<Longrightarrow> lm_inv lm"
  by (induction rule: rtranclp_induct) (auto intro: lm_inv_init lm_step_inv)

subsection \<open>Acquiring\<close>

lemma find_or_create_table_find:
  "hm_inv hash_u32 (lock_table lm) \<Longrightarrow>
   \<exists>obj. hm_find hash_u32 (lock_table (find_or_create_table lm t)) t = Some obj"
  by (auto simp: find_or_create_table_def hm.laws split: option.splits)

lemma lock_table_note [simp]: "lock_table (note_table_lock lm txn t) = lock_table lm"
  by (simp add: note_table_lock_def Let_def)

definition holds_at_least :: "lock_manager \<Rightarrow> u64 \<Rightarrow> u32 \<Rightarrow> lock_mode \<Rightarrow> bool" where
  "holds_at_least lm txn t mode =
     (case hm_find hash_u32 (lock_table lm) t of
        None \<Rightarrow> False
      | Some obj \<Rightarrow> list_ex (\<lambda>r. req_txn r = txn \<and> req_granted r \<and> mode_code mode \<le> mode_code (req_mode r))
          (obj_requests obj))"

lemma lock_table_poll_done:
  assumes "lm_inv lm" and "lock_table_poll lm txn t mode = (LockDone, lm')"
  shows "holds_at_least lm' txn t mode"
  using assms
  by (auto simp: lock_table_poll_def lock_table_abandon_def Let_def holds_at_least_def holds_mode_def
      list_ex_iff hm.laws lm_invD split: option.splits if_splits)

lemma bex_update: "i < length xs \<Longrightarrow> P v \<Longrightarrow> \<exists>x \<in> set (xs[i := v]). P x"
  by (blast intro: set_update_memI)

lemma lock_table_enter_done:
  assumes inv: "lm_inv lm" and "lock_table_enter lm txn t mode = (LockDone, lm')"
  shows "holds_at_least lm' txn t mode"
proof -
  let ?lm = "find_or_create_table lm t"
  have inv1: "lm_inv ?lm" using inv by (rule lm_inv_create_table)
  obtain obj where obj: "hm_find hash_u32 (lock_table ?lm) t = Some obj"
    using find_or_create_table_find lm_invD(1) [OF inv] by blast
  let ?fi = "first_index (\<lambda>r. req_txn r = txn \<and> req_granted r) (obj_requests obj)"
  show ?thesis
  proof (cases ?fi)
    case None
    have "lm_inv (?lm\<lparr>lock_table := hm_store hash_u32 t
        (obj\<lparr>obj_requests := obj_requests obj @ [waiting_request txn mode]\<rparr>) (lock_table ?lm)\<rparr>)"
      using lm_invD(5) [OF inv1 obj] by (intro lm_inv_store_table [OF inv1]) simp
    then show ?thesis
      using assms(2) obj None
      by (auto simp: lock_table_enter_def Let_def dest: lock_table_poll_done)
  next
    case (Some i)
    then have i: "i < length (obj_requests obj)" "req_txn (obj_requests obj ! i) = txn"
      "req_granted (obj_requests obj ! i)"
      using first_index_Some [of "\<lambda>r. req_txn r = txn \<and> req_granted r" "obj_requests obj" i] by auto
    show ?thesis
      using assms(2) obj Some i
      by (auto simp: lock_table_enter_def Let_def holds_at_least_def list_ex_iff upgrade_at_def hm.laws
          lm_invD [OF inv1] split: if_splits intro: bexI [of _ "obj_requests obj ! i"] intro!: bex_update)
  qed
qed

subsection \<open>The deadlock detector is exact\<close>

definition waits_for :: "lock_manager \<Rightarrow> u64 \<Rightarrow> u64 \<Rightarrow> bool" where
  "waits_for lm a b \<longleftrightarrow>
     (\<exists>t obj ri rj. hm_find hash_u32 (lock_table lm) t = Some obj \<and>
        ri \<in> set (obj_requests obj) \<and> rj \<in> set (obj_requests obj) \<and>
        req_txn ri = a \<and> \<not> req_granted ri \<and> req_txn rj = b \<and> req_granted rj \<and>
        \<not> is_compatible (req_mode rj) (req_mode ri))"

lemma find_holder_for_iff:
  assumes "hm_inv hash_u32 (lock_table lm)"
  shows "b \<in> set (find_holder_for lm a) \<longleftrightarrow> waits_for lm a b"
  unfolding find_holder_for_def waits_for_def using hm.entries_find [OF assms, symmetric]
  by (fastforce split: if_splits)

lemma dfs_loop_sound:
  "dfs_loop f root seen stack \<Longrightarrow> \<forall>x \<in> set stack. (root, x) \<in> {(a, b). b \<in> set (f a)}\<^sup>* \<Longrightarrow>
   (root, root) \<in> {(a, b). b \<in> set (f a)}\<^sup>+"
proof (induction f root seen stack rule: dfs_loop.induct)
  case (2 f root seen c st)
  let ?R = "{(a, b). b \<in> set (f a)}"
  have c: "(root, c) \<in> ?R\<^sup>*" using "2.prems" by simp
  show ?case
  proof (cases "c \<notin> set seen \<and> root \<in> set (f c)")
    case True
    then have "(c, root) \<in> ?R" by simp
    with c show ?thesis by (rule rtrancl_into_trancl1)
  next
    case False
    have push: "\<forall>x \<in> set (f c). (root, x) \<in> ?R\<^sup>*"
      using c by (auto intro: rtrancl_into_rtrancl)
    show ?thesis
    proof (cases "c \<in> set seen")
      case True
      with "2.IH"(1) "2.prems" show ?thesis by simp
    next
      case new: False
      with "2.prems"(1) False
      have "dfs_loop f root (c # seen) (rev (filter (\<lambda>h. h \<notin> set (c # seen)) (f c)) @ st)"
        by (simp add: Let_def)
      from "2.IH"(2) [OF new refl _ this] False new push "2.prems"(2) show ?thesis by auto
    qed
  qed
qed simp

lemma dfs_loop_complete:
  assumes "\<not> dfs_loop f root seen stack"
    and "\<forall>a \<in> set seen. root \<notin> set (f a) \<and> set (f a) \<subseteq> set seen \<union> set stack"
  shows "\<exists>S. set seen \<union> set stack \<subseteq> S \<and> (\<forall>a \<in> S. root \<notin> set (f a) \<and> set (f a) \<subseteq> S)"
  using assms
proof (induction f root seen stack rule: dfs_loop.induct)
  case (1 f root seen)
  then show ?case by (intro exI [of _ "set seen"]) auto
next
  case (2 f root seen c st)
  show ?case
  proof (cases "c \<in> set seen")
    case True
    with "2.IH"(1) "2.prems" show ?thesis by (simp add: insert_absorb)
  next
    case False
    let ?st = "rev (filter (\<lambda>h. h \<notin> set (c # seen)) (f c)) @ st"
    from False "2.prems"(1) have r: "root \<notin> set (f c)" and "\<not> dfs_loop f root (c # seen) ?st"
      by (auto simp: Let_def split: if_splits)
    moreover have "\<forall>a \<in> set (c # seen). root \<notin> set (f a) \<and> set (f a) \<subseteq> set (c # seen) \<union> set ?st"
      using "2.prems"(2) r by auto
    ultimately obtain S where "set (c # seen) \<union> set ?st \<subseteq> S"
      "\<forall>a \<in> S. root \<notin> set (f a) \<and> set (f a) \<subseteq> S"
      using "2.IH"(2) [OF False refl r] by blast
    then show ?thesis by (intro exI [of _ S]) auto
  qed
qed

lemma dfs_loop_iff:
  "dfs_loop f root [] [root] \<longleftrightarrow> (root, root) \<in> {(a, b). b \<in> set (f a)}\<^sup>+"
proof
  assume "dfs_loop f root [] [root]"
  then show "(root, root) \<in> {(a, b). b \<in> set (f a)}\<^sup>+" by (rule dfs_loop_sound) simp
next
  let ?R = "{(a, b). b \<in> set (f a)}"
  assume cyc: "(root, root) \<in> ?R\<^sup>+"
  show "dfs_loop f root [] [root]"
  proof (rule ccontr)
    assume "\<not> dfs_loop f root [] [root]"
    then obtain S where S: "root \<in> S" "\<forall>a \<in> S. root \<notin> set (f a) \<and> set (f a) \<subseteq> S"
      using dfs_loop_complete [of f root "[]" "[root]"] by auto
    have "x \<in> S" if "(root, x) \<in> ?R\<^sup>*" for x
      using that by (induction rule: rtrancl_induct) (use S in auto)
    moreover from cyc obtain y where "(root, y) \<in> ?R\<^sup>*" "(y, root) \<in> ?R"
      by (meson tranclD2)
    ultimately show False using S(2) by auto
  qed
qed

subsection \<open>Releasing\<close>

lemma map_txn_grant_loop: "map req_txn (obj_requests (grant_loop js obj)) = map req_txn (obj_requests obj)"
proof (induction js arbitrary: obj)
  case (Cons j js)
  have "map req_txn ((obj_requests obj)[j := (obj_requests obj ! j)
      \<lparr>req_granted := True, req_waiting := False\<rparr>]) = map req_txn (obj_requests obj)"
    by (cases "j < length (obj_requests obj)") 
      (simp_all add: map_update list_update_same_conv list_update_beyond)
  with Cons show ?case by (simp add: Let_def)
qed simp

lemma txns_grant_pending:
  "req_txn ` set (obj_requests (grant_pending obj)) = req_txn ` set (obj_requests obj)"
  using arg_cong [OF map_txn_grant_loop [of "[0..<length (obj_requests obj)]" obj], of set]
  by (simp add: grant_pending_def Let_def)

definition table_free_of :: "lock_manager \<Rightarrow> u64 \<Rightarrow> u32 \<Rightarrow> bool" where
  "table_free_of lm txn t =
     (case hm_find hash_u32 (lock_table lm) t of
        None \<Rightarrow> True | Some obj \<Rightarrow> list_all (\<lambda>r. req_txn r \<noteq> txn) (obj_requests obj))"

definition record_free_of :: "lock_manager \<Rightarrow> u64 \<Rightarrow> u64 \<Rightarrow> bool" where
  "record_free_of lm txn key =
     (case hm_find hash_u64 (record_locks lm) key of
        None \<Rightarrow> True | Some obj \<Rightarrow> list_all (\<lambda>r. req_txn r \<noteq> txn) (obj_requests obj))"

lemma table_free_txns:
  "table_free_of lm txn t \<longleftrightarrow>
   (\<forall>obj. hm_find hash_u32 (lock_table lm) t = Some obj \<longrightarrow> txn \<notin> req_txn ` set (obj_requests obj))"
  by (auto simp: table_free_of_def list_all_iff split: option.splits)

lemma record_free_txns:
  "record_free_of lm txn key \<longleftrightarrow>
   (\<forall>obj. hm_find hash_u64 (record_locks lm) key = Some obj \<longrightarrow> txn \<notin> req_txn ` set (obj_requests obj))"
  by (auto simp: record_free_of_def list_all_iff split: option.splits)

lemma unlock_table_find:
  assumes "lm_inv lm"
  shows "hm_find hash_u32 (lock_table (unlock_table lm txn t)) =
    (case hm_find hash_u32 (lock_table lm) t of None \<Rightarrow> hm_find hash_u32 (lock_table lm)
     | Some obj \<Rightarrow> (hm_find hash_u32 (lock_table lm))
         (t \<mapsto> grant_pending ((without_txn obj txn)\<lparr>obj_mask := AccessShare\<rparr>)))"
  using assms by (auto simp: unlock_table_def Let_def hm.laws lm_invD split: option.splits)

lemma unlock_table_frees: "lm_inv lm \<Longrightarrow> table_free_of (unlock_table lm txn t) txn t"
  by (auto simp: table_free_txns unlock_table_find txns_grant_pending without_txn_def
      split: option.splits)

lemma unlock_table_keeps_free:
  "lm_inv lm \<Longrightarrow> table_free_of lm txn t \<Longrightarrow> table_free_of (unlock_table lm txn t') txn t"
  by (auto simp: table_free_txns unlock_table_find txns_grant_pending without_txn_def
      split: option.splits if_splits)

lemma unlock_tables_free:
  "lm_inv lm \<Longrightarrow> t \<in> set ts \<or> table_free_of lm txn t \<Longrightarrow>
   table_free_of (fold (\<lambda>t l. unlock_table l txn t) ts lm) txn t"
  by (induction ts arbitrary: lm)
    (auto simp: lm_inv_unlock_table unlock_table_frees unlock_table_keeps_free)

lemma release_record_frees:
  "lm_inv lm \<Longrightarrow> k = key \<or> record_free_of lm txn k \<Longrightarrow> record_free_of (release_record lm txn key) txn k"
  by (auto simp: record_free_txns release_record_def hm.laws lm_invD txns_grant_pending without_txn_def
      split: option.splits if_splits)

lemma release_records_free:
  "lm_inv lm \<Longrightarrow> k \<in> set ks \<or> record_free_of lm txn k \<Longrightarrow>
   record_free_of (fold (\<lambda>key l. release_record l txn key) ks lm) txn k"
  by (induction ks arbitrary: lm) (auto simp: lm_inv_release_record release_record_frees)

lemma fold_release_lock_table [simp]:
  "lock_table (fold (\<lambda>key l. release_record l txn key) ks lm) = lock_table lm"
  by (induction ks arbitrary: lm) (auto simp: release_record_def split: option.splits)

lemma fold_unlock_record_locks [simp]:
  "record_locks (fold (\<lambda>t l. unlock_table l txn t) ts lm) = record_locks lm"
  "txn_record_locks (fold (\<lambda>t l. unlock_table l txn t) ts lm) = txn_record_locks lm"
  by (induction ts arbitrary: lm) (auto simp: unlock_table_def Let_def split: option.splits)

lemma free_of_other_fields [simp]:
  "table_free_of (lm\<lparr>txn_locks := m\<rparr>) = table_free_of lm"
  "table_free_of (lm\<lparr>txn_record_locks := m'\<rparr>) = table_free_of lm"
  "record_free_of (lm\<lparr>txn_locks := m\<rparr>) = record_free_of lm"
  "record_free_of (lm\<lparr>txn_record_locks := m'\<rparr>) = record_free_of lm"
  by (auto simp: fun_eq_iff table_free_of_def record_free_of_def)

subsection \<open>Locks in one mode only\<close>

definition all_row_exclusive :: "lock_object \<Rightarrow> bool" where
  "all_row_exclusive obj = list_all (\<lambda>r. req_mode r = RowExclusive) (obj_requests obj)"

lemma can_grant_row_exclusive: "all_row_exclusive obj \<Longrightarrow> can_grant obj txn RowExclusive"
  by (auto simp: all_row_exclusive_def can_grant_def list_all_iff is_compatible_def
      kLockCompatibility_def)

lemma grant_loop_row_exclusive:
  assumes "all_row_exclusive obj" and "i < length (obj_requests obj)"
    and "i \<in> set js \<or> req_granted (obj_requests obj ! i)" and "set js \<subseteq> {..<length (obj_requests obj)}"
  shows "req_granted (obj_requests (grant_loop js obj) ! i) \<and>
    req_mode (obj_requests (grant_loop js obj) ! i) = RowExclusive \<and>
    req_txn (obj_requests (grant_loop js obj) ! i) = req_txn (obj_requests obj ! i) \<and>
    length (obj_requests (grant_loop js obj)) = length (obj_requests obj)"
  using assms
proof (induction js arbitrary: obj)
  case Nil
  then show ?case by (simp add: all_row_exclusive_def list_all_length)
next
  case (Cons j js)
  let ?o = "obj\<lparr>obj_requests := (obj_requests obj)[j := (obj_requests obj ! j)
    \<lparr>req_granted := True, req_waiting := False\<rparr>]\<rparr>"
  have j: "req_mode (obj_requests obj ! j) = RowExclusive" "j < length (obj_requests obj)"
    using Cons.prems by (auto simp: all_row_exclusive_def list_all_length)
  then have "all_row_exclusive ?o"
    using Cons.prems by (auto simp: all_row_exclusive_def list_all_length nth_list_update)
  then show ?case
    using Cons.IH [of ?o] Cons.IH [of obj] Cons.prems j
    by (auto simp: Let_def nth_list_update can_grant_row_exclusive split: if_splits)
qed

lemma grant_pending_row_exclusive:
  assumes "all_row_exclusive obj" and "r \<in> set (obj_requests obj)"
  shows "\<exists>r' \<in> set (obj_requests (grant_pending obj)).
    req_granted r' \<and> req_mode r' = RowExclusive \<and> req_txn r' = req_txn r"
proof -
  obtain i where i: "i < length (obj_requests obj)" "r = obj_requests obj ! i"
    using assms(2) by (auto simp: in_set_conv_nth)
  with grant_loop_row_exclusive [OF assms(1), of i "[0..<length (obj_requests obj)]"]
  show ?thesis
    by (intro bexI [of _ "obj_requests (grant_pending obj) ! i"])
      (auto simp: grant_pending_def Let_def ivl_subset lessThan_atLeast0)
qed

lemma lock_record_enter_row_exclusive:
  assumes inv: "lm_inv lm"
    and rx: "\<And>obj. hm_find hash_u64 (record_locks lm) (record_lock_key t rid) = Some obj \<Longrightarrow> all_row_exclusive obj"
  shows "fst (lock_record_enter lm txn t rid RowExclusive) = LockDone"
proof -
  let ?k = "record_lock_key t rid"
  let ?lm = "find_or_create_record lm t ?k"
  have inv1: "lm_inv ?lm" using inv by (rule lm_inv_create_record)
  obtain obj where obj: "hm_find hash_u64 (record_locks ?lm) ?k = Some obj" "all_row_exclusive obj"
    using rx lm_invD(3) [OF inv]
    by (fastforce simp: find_or_create_record_def hm.laws new_object_def all_row_exclusive_def
        split: option.splits)
  let ?o = "obj\<lparr>obj_requests := obj_requests obj @ [waiting_request txn RowExclusive]\<rparr>"
  have "all_row_exclusive ?o" using obj(2) by (simp add: all_row_exclusive_def waiting_request_def)
  then have "holds_mode (grant_pending ?o) txn RowExclusive"
    using grant_pending_row_exclusive [of ?o "waiting_request txn RowExclusive"]
    by (auto simp: holds_mode_def list_ex_iff waiting_request_def)
  then show ?thesis
    using obj inv1 first_index_Some [of "\<lambda>r. req_txn r = txn \<and> req_granted r" "obj_requests obj"]
    by (auto simp: lock_record_enter_def lock_record_poll_def Let_def hm.laws lm_invD
        all_row_exclusive_def list_all_length split: option.splits)
qed

subsection \<open>Example states\<close>

definition two_writers :: lock_manager where
  "two_writers = snd (lock_table_enter (snd (lock_table_enter lm_init 1 7 AccessShare)) 2 7 RowExclusive)"

text \<open>Transactions 1 and 2 hold tables 7 and 8 and each has queued for the other's table.\<close>

definition crossed :: lock_manager where
  "crossed =
     (let a = snd (lock_table_enter (snd (lock_table_enter lm_init 1 7 AccessExclusive)) 2 8 AccessExclusive);
          queue = (\<lambda>t w. map_option (\<lambda>obj. obj\<lparr>obj_requests := obj_requests obj @ [waiting_request w AccessShare]\<rparr>)
            (hm_find hash_u32 (lock_table a) t))
      in a\<lparr>lock_table := hm_store hash_u32 7 (the (queue 7 2)) (hm_store hash_u32 8 (the (queue 8 1)) (lock_table a))\<rparr>)"

definition row_writer :: lock_manager where
  "row_writer = snd (lock_record_enter (snd (lock_table_enter lm_init 1 7 RowExclusive)) 1 7
     \<lparr>rid_page = 3, rid_slot = 5\<rparr> RowExclusive)"

lemma lm_reach_table_enter:
  "lm_step\<^sup>*\<^sup>* lm_init lm \<Longrightarrow> lm_step\<^sup>*\<^sup>* lm_init (snd (lock_table_enter lm txn t mode))"
  by (auto intro: rtranclp.rtrancl_into_rtrancl lm_step.intros)

lemma lm_reach_record_enter:
  "lm_step\<^sup>*\<^sup>* lm_init lm \<Longrightarrow> lm_step\<^sup>*\<^sup>* lm_init (snd (lock_record_enter lm txn t rid mode))"
  by (auto intro: rtranclp.rtrancl_into_rtrancl lm_step.intros)

lemma two_writers_reachable: "lm_step\<^sup>*\<^sup>* lm_init two_writers"
  unfolding two_writers_def by (intro lm_reach_table_enter) simp

lemma row_writer_reachable: "lm_step\<^sup>*\<^sup>* lm_init row_writer"
  unfolding row_writer_def by (intro lm_reach_record_enter lm_reach_table_enter) simp

lemmas enter_simps = lm_init_def lock_table_enter_def lock_table_poll_def find_or_create_table_def new_object_def
  grant_pending_def waiting_request_def can_grant_def holds_mode_def hm.laws
  is_compatible_def kLockCompatibility_def

lemma two_writers_requests:
  "map_option obj_requests (hm_find hash_u32 (lock_table two_writers) 7) =
     Some [\<lparr>req_txn = 1, req_mode = AccessShare, req_granted = True, req_waiting = False\<rparr>,
           \<lparr>req_txn = 2, req_mode = RowExclusive, req_granted = True, req_waiting = False\<rparr>]"
  by (simp add: two_writers_def enter_simps Let_def)

lemma crossed_find:
  "hm_inv hash_u32 (lock_table crossed)"
  "hm_find hash_u32 (lock_table crossed) = [
     7 \<mapsto> \<lparr>obj_table = 7, obj_requests =
       [\<lparr>req_txn = 1, req_mode = AccessExclusive, req_granted = True, req_waiting = False\<rparr>,
        waiting_request 2 AccessShare], obj_mask = AccessExclusive\<rparr>,
     8 \<mapsto> \<lparr>obj_table = 8, obj_requests =
       [\<lparr>req_txn = 2, req_mode = AccessExclusive, req_granted = True, req_waiting = False\<rparr>,
        waiting_request 1 AccessShare], obj_mask = AccessExclusive\<rparr>]"
  by (auto simp: crossed_def enter_simps Let_def held_mask_def max_mode_def fun_eq_iff)

lemma waits_forI:
  "hm_find hash_u32 (lock_table lm) t = Some obj \<Longrightarrow> ri \<in> set (obj_requests obj) \<Longrightarrow>
   rj \<in> set (obj_requests obj) \<Longrightarrow> \<not> req_granted ri \<Longrightarrow> req_granted rj \<Longrightarrow>
   \<not> is_compatible (req_mode rj) (req_mode ri) \<Longrightarrow> waits_for lm (req_txn ri) (req_txn rj)"
  unfolding waits_for_def by blast

lemma crossed_waits: "waits_for crossed 2 1" "waits_for crossed 1 2"
proof -
  have "waits_for crossed a b"
    if "hm_find hash_u32 (lock_table crossed) t = Some \<lparr>obj_table = t, obj_requests =
      [\<lparr>req_txn = b, req_mode = AccessExclusive, req_granted = True, req_waiting = False\<rparr>,
       waiting_request a AccessShare], obj_mask = AccessExclusive\<rparr>" for a b t
    using waits_forI [OF that, of "waiting_request a AccessShare"
        "\<lparr>req_txn = b, req_mode = AccessExclusive, req_granted = True, req_waiting = False\<rparr>"]
    by (simp add: waiting_request_def is_compatible_def kLockCompatibility_def)
  from this [of 7 1 2] this [of 8 2 1] show "waits_for crossed 2 1" "waits_for crossed 1 2"
    by (simp_all add: crossed_find)
qed

lemma row_writer_locks:
  "hm_find hash_u64 (txn_locks row_writer) 1 = Some [7]"
  "hm_find hash_u64 (txn_record_locks row_writer) 1 = Some [record_lock_key 7 \<lparr>rid_page = 3, rid_slot = 5\<rparr>]"
  "map_option obj_requests (hm_find hash_u64 (record_locks row_writer)
     (record_lock_key 7 \<lparr>rid_page = 3, rid_slot = 5\<rparr>)) =
     Some [\<lparr>req_txn = 1, req_mode = RowExclusive, req_granted = True, req_waiting = False\<rparr>]"
  by (simp_all add: row_writer_def lock_record_enter_def lock_record_poll_def find_or_create_record_def
      enter_simps note_table_lock_def note_record_lock_def note_held_def Let_def)

section \<open>Properties\<close>



text \<open>A granted table lock is really held.  When a call to \<^verbatim>\<open>lock_table\<close> returns success
  without waiting, in a reachable state, the transaction holds a granted request on the table at least as strong as
  the mode it asked for, and every other transaction's granted request on the table is compatible with it.\<close>

lemma lock_table_grants:
  assumes "lm_step\<^sup>*\<^sup>* lm_init lm" and "lock_table_enter lm txn t mode = (LockDone, lm')"
  shows "\<exists>obj r. hm_find hash_u32 (lock_table lm') t = Some obj \<and> r \<in> set (obj_requests obj) \<and>
    req_txn r = txn \<and> req_granted r \<and> mode_code mode \<le> mode_code (req_mode r) \<and>
    (\<forall>s \<in> set (obj_requests obj). req_granted s \<longrightarrow> req_txn s \<noteq> txn \<longrightarrow>
       is_compatible (req_mode s) (req_mode r))"
proof -
  have "lm_inv lm'"
    using lm_inv_table_enter [OF lm_reachable_inv [OF assms(1)], of txn t mode] assms(2) by simp
  moreover have "holds_at_least lm' txn t mode"
    using lock_table_enter_done [OF lm_reachable_inv [OF assms(1)] assms(2)] .
  ultimately show ?thesis
    unfolding holds_at_least_def list_ex_iff using lm_invD(5) grants_ok_def
    by (fastforce split: option.splits)
qed

text \<open>C4: the deadlock detector is exact.  In every state with a well-formed lock table
  (every reachable state, and the intermediate ones in which the detector runs), \<^verbatim>\<open>detect_deadlock\<close> answers true for a transaction if and only if the wait-for relation of the
  table locks has a cycle through that transaction.\<close>

theorem detect_deadlock_exact:
  assumes "hm_inv hash_u32 (lock_table lm)"
  shows "detect_deadlock lm txn \<longleftrightarrow> (waits_for lm)\<^sup>+\<^sup>+ txn txn"
proof -
  have "{(a, b). b \<in> set (find_holder_for lm a)} = {(a, b). waits_for lm a b}"
    using find_holder_for_iff [OF assms] by blast
  then show ?thesis
    unfolding detect_deadlock_def dfs_loop_iff by (simp add: trancl_def)
qed

theorem detect_deadlock_exact_witness: "detect_deadlock crossed 2"
  using detect_deadlock_exact [OF crossed_find(1), of 2] crossed_waits
  by (meson tranclp.r_into_trancl tranclp_trans)

lemma unlock_all_free:
  assumes inv: "lm_inv lm" and "hm_find hash_u64 (txn_locks lm) txn = Some tables"
    and "hm_find hash_u64 (txn_record_locks lm) txn = Some keys"
  shows "(\<forall>t \<in> set tables. table_free_of (unlock_all lm txn) txn t) \<and>
    (\<forall>k \<in> set keys. record_free_of (unlock_all lm txn) txn k) \<and>
    hm_find hash_u64 (txn_locks (unlock_all lm txn)) txn = None \<and>
    hm_find hash_u64 (txn_record_locks (unlock_all lm txn)) txn = None"
proof -
  let ?l1 = "fold (\<lambda>t l. unlock_table l txn t) tables lm"
  let ?l2 = "fold (\<lambda>key l. release_record l txn key) keys ?l1"
  have inv1: "lm_inv ?l1" using inv by (simp add: lm_inv_fold lm_inv_unlock_table)
  then have inv2: "lm_inv ?l2" by (simp add: lm_inv_fold lm_inv_release_record)
  have "table_free_of ?l2 txn t" if "t \<in> set tables" for t
    using unlock_tables_free [OF inv, of t tables txn] that by (simp add: table_free_of_def)
  moreover have "record_free_of ?l2 txn k" if "k \<in> set keys" for k
    using release_records_free [OF inv1] that by blast
  ultimately show ?thesis
    using assms(2,3) inv2 by (simp add: unlock_all_def release_records_def Let_def hm.laws lm_invD)
qed



text \<open>Record locks in row-exclusive mode never conflict.  As long as every request on a record or key lock is in
  row-exclusive mode, the only mode the executors ask for, any transaction gets the lock at once, even while
  another transaction holds it: the lock does not serialise the transactions.\<close>

lemma row_exclusive_record_lock_shared:
  assumes "lm_step\<^sup>*\<^sup>* lm_init lm"
    and "\<And>obj. hm_find hash_u64 (record_locks lm) (record_lock_key t rid) = Some obj \<Longrightarrow> all_row_exclusive obj"
  shows "fst (lock_record_enter lm txn t rid RowExclusive) = LockDone"
  using lock_record_enter_row_exclusive [OF lm_reachable_inv [OF assms(1)]] assms(2) by blast

end
