(* ===== verification/Cstring.thy ===== *)
theory Cstring
  imports Prelude "HOL-Library.Char_ord"
begin

section \<open>Strings and the C library's number conversions\<close>

text \<open>
  \<^verbatim>\<open>String\<close> of \<^verbatim>\<open>src/src/container/string.{h,cpp}\<close> is a list of characters here; its
  comparison and its integer constructors are modelled, its small-buffer storage is not.
  The rest of the theory models what the sources use of the C library: truncating
  division, \<^verbatim>\<open>snprintf\<close> of integers with a width, and \<^verbatim>\<open>strtol\<close>.
  A \<^verbatim>\<open>const char*\<close> argument is the characters before the terminating NUL (\<open>c_str\<close>).
\<close>

subsection \<open>Truncating division\<close>

definition tdiv :: "int \<Rightarrow> int \<Rightarrow> int" where
  "tdiv a b = sgn a * sgn b * (\<bar>a\<bar> div \<bar>b\<bar>)"

definition trem :: "int \<Rightarrow> int \<Rightarrow> int" where
  "trem a b = a - tdiv a b * b"

lemma tdiv_nonneg: "0 \<le> a \<Longrightarrow> 0 < b \<Longrightarrow> tdiv a b = a div b"
  by (cases "a = 0") (simp_all add: tdiv_def)

lemma tdiv_neg: "a < 0 \<Longrightarrow> 0 < b \<Longrightarrow> tdiv a b = - ((- a) div b)"
  by (simp add: tdiv_def)

lemma trem_nonneg: "0 \<le> a \<Longrightarrow> 0 < b \<Longrightarrow> trem a b = a mod b"
  by (simp add: trem_def tdiv_nonneg minus_div_mult_eq_mod)

lemma trem_neg: "a < 0 \<Longrightarrow> 0 < b \<Longrightarrow> trem a b = - ((- a) mod b)"
  using minus_div_mult_eq_mod [of "- a" b] by (simp add: trem_def tdiv_neg)

text \<open>The sources floor a truncated quotient by hand: if the remainder is negative, the
  divisor is added to it and the quotient is decremented.\<close>

lemma floor_fixup:
  assumes "0 < b"
  shows "(if trem a b < 0 then tdiv a b - 1 else tdiv a b) = a div b"
    and "(if trem a b < 0 then trem a b + b else trem a b) = a mod b"
proof -
  let ?q = "if trem a b < 0 then tdiv a b - 1 else tdiv a b"
  let ?r = "if trem a b < 0 then trem a b + b else trem a b"
  have "a = b * ?q + ?r" by (simp add: trem_def algebra_simps)
  moreover have "0 \<le> ?r \<and> ?r < b"
  proof (cases "a < 0")
    case True
    have "0 \<le> (- a) mod b" "(- a) mod b < b" using assms by auto
    then have "- b < trem a b" "trem a b \<le> 0"
      unfolding trem_neg [OF True assms] by linarith+
    then show ?thesis using assms by simp
  next
    case False
    then show ?thesis
      using assms pos_mod_bound [of b a] pos_mod_sign [of b a] by (simp add: trem_nonneg)
  qed
  ultimately show "?q = a div b" "?r = a mod b"
    by (metis int_div_pos_eq, metis int_mod_pos_eq)
qed

subsection \<open>Comparison of strings\<close>

fun memcmp :: "string \<Rightarrow> string \<Rightarrow> int" where
  "memcmp (x # xs) (y # ys) =
     (if byte_of_char x < byte_of_char y then -1
      else if byte_of_char x > byte_of_char y then 1 else memcmp xs ys)"
| "memcmp _ _ = 0"

definition string_compare :: "string \<Rightarrow> string \<Rightarrow> int" where
  "string_compare s t =
     (let n = min (length s) (length t); r = memcmp (take n s) (take n t) in
      if r \<noteq> 0 then r
      else if length s < length t then -1
      else if length s > length t then 1 else 0)"

definition string_eq :: "string \<Rightarrow> string \<Rightarrow> bool" where
  "string_eq s t = (length s = length t \<and> memcmp s t = 0)"

lemma string_compare_Cons:
  "string_compare (x # xs) (y # ys) =
     (if byte_of_char x < byte_of_char y then -1
      else if byte_of_char x > byte_of_char y then 1 else string_compare xs ys)"
  by (auto simp: string_compare_def Let_def)

lemma string_compare_Nil [simp]:
  "string_compare [] [] = 0" "string_compare [] (y # ys) = -1" "string_compare (x # xs) [] = 1"
  by (simp_all add: string_compare_def)

lemma byte_of_char_inj [simp]: "byte_of_char x = byte_of_char y \<longleftrightarrow> x = y"
  by (metis char_of_byte_of_char)

text \<open>The sign of the comparison is the lexicographic order of the byte values.\<close>

lemma string_compare_lex:
  "string_compare s t =
     (if s = t then 0
      else if ord_class.lexordp (map of_char s :: nat list) (map of_char t)
      then -1 else 1)"
proof (induction s arbitrary: t)
  case Nil
  then show ?case by (cases t) auto
next
  case (Cons x xs)
  then show ?case
    by (cases t) (auto simp: string_compare_Cons word_less_nat_alt unat_byte_of_char)
qed

lemma memcmp_eq: "length s = length t \<Longrightarrow> memcmp s t = 0 \<longleftrightarrow> s = t"
  by (induction s t rule: list_induct2) (auto simp: not_less_iff_gr_or_eq)

lemma string_eq [simp]: "string_eq s t \<longleftrightarrow> s = t"
  using memcmp_eq by (auto simp: string_eq_def)

subsection \<open>Decimal digits\<close>

definition is_digit :: "char \<Rightarrow> bool" where
  "is_digit c = (CHR ''0'' \<le> c \<and> c \<le> CHR ''9'')"

definition digit_val :: "char \<Rightarrow> nat" where
  "digit_val c = of_char c - 48"

definition digit_char :: "nat \<Rightarrow> char" where
  "digit_char d = char_of (48 + d)"

lemma of_char_digit_char: "d < 10 \<Longrightarrow> of_char (digit_char d) = 48 + d"
  by (simp add: digit_char_def)

lemma is_digit_iff: "is_digit c \<longleftrightarrow> 48 \<le> (of_char c :: nat) \<and> (of_char c :: nat) \<le> 57"
  by (simp add: is_digit_def less_eq_char_def)

lemma is_digit_digit_char [simp]: "d < 10 \<Longrightarrow> is_digit (digit_char d)"
  by (simp add: is_digit_iff of_char_digit_char)

lemma digit_val_digit_char [simp]: "d < 10 \<Longrightarrow> digit_val (digit_char d) = d"
  by (simp add: digit_val_def of_char_digit_char)

lemma digit_char_0: "digit_char 0 = CHR ''0''"
  by (simp add: digit_char_def char_of_def bit_0)

lemma digit_char_digit_val: "is_digit c \<Longrightarrow> digit_char (digit_val c) = c"
  by (simp add: digit_char_def digit_val_def is_digit_iff)

lemma digit_val_less: "is_digit c \<Longrightarrow> digit_val c < 10"
  by (auto simp: digit_val_def is_digit_iff)

text \<open>The value of a run of digits, most significant first.\<close>

definition dec_val_from :: "nat \<Rightarrow> string \<Rightarrow> nat" where
  "dec_val_from = foldl (\<lambda>v c. v * 10 + digit_val c)"

abbreviation dec_val :: "string \<Rightarrow> nat" where
  "dec_val \<equiv> dec_val_from 0"

lemma dec_val_from_simps [simp]:
  "dec_val_from v [] = v" "dec_val_from v (c # s) = dec_val_from (v * 10 + digit_val c) s"
  "dec_val_from v (s @ t) = dec_val_from (dec_val_from v s) t"
  by (simp_all add: dec_val_from_def)

lemma dec_val_from_add: "dec_val_from v s = v * 10 ^ length s + dec_val s"
proof (induction s arbitrary: v)
  case (Cons c s)
  show ?case
    using Cons [of "v * 10 + digit_val c"] Cons [of "digit_val c"]
    by (simp add: algebra_simps)
qed simp

lemma dec_val_zeros [simp]: "dec_val_from v (replicate n CHR ''0'') = v * 10 ^ n"
  by (induction n arbitrary: v) (auto simp: digit_val_def)

lemma dec_val_bound: "list_all is_digit s \<Longrightarrow> dec_val s < 10 ^ length s"
proof (induction s)
  case (Cons c s)
  then have "digit_val c * 10 ^ length s \<le> 9 * 10 ^ length s"
    using digit_val_less [of c] by (intro mult_le_mono1) simp
  moreover have "dec_val s < 10 ^ length s" using Cons by simp
  ultimately have "digit_val c * 10 ^ length s + dec_val s < 10 * 10 ^ length s" by linarith
  then show ?case by (simp add: dec_val_from_add [of "digit_val c"])
qed simp

fun dec_digits :: "nat \<Rightarrow> string" where
  "dec_digits n = (if n < 10 then [digit_char n] else dec_digits (n div 10) @ [digit_char (n mod 10)])"

declare dec_digits.simps [simp del]

lemma dec_val_dec_digits [simp]: "dec_val (dec_digits n) = n"
  by (induction n rule: dec_digits.induct) (subst dec_digits.simps, auto)

lemma is_digit_dec_digits [simp]: "list_all is_digit (dec_digits n)"
  by (induction n rule: dec_digits.induct) (subst dec_digits.simps, auto)

lemma dec_digits_not_Nil [simp]: "dec_digits n \<noteq> []"
  by (subst dec_digits.simps) simp

lemma length_dec_digits: "n < 10 ^ k \<Longrightarrow> 0 < k \<Longrightarrow> length (dec_digits n) \<le> k"
proof (induction n arbitrary: k rule: dec_digits.induct)
  case (1 n)
  show ?case
  proof (cases "n < 10")
    case True
    with 1 show ?thesis by (subst dec_digits.simps) simp
  next
    case False
    with 1(2,3) obtain j where j: "k = Suc j" "0 < j" by (cases k; cases "k - 1") auto
    with 1(2) have "n div 10 < 10 ^ j" by (simp add: less_mult_imp_div_less mult.commute)
    with 1(1) [OF False] j False show ?thesis by (subst dec_digits.simps) simp
  qed
qed

text \<open>\<^verbatim>\<open>String(u64)\<close> and \<^verbatim>\<open>String(u32)\<close>: digits are produced from the least significant
  end and reversed.\<close>

fun rev_digits :: "nat \<Rightarrow> string" where
  "rev_digits n = (if n = 0 then [] else digit_char (n mod 10) # rev_digits (n div 10))"

declare rev_digits.simps [simp del]

definition string_of_u64 :: "u64 \<Rightarrow> string" where
  "string_of_u64 v = (if v = 0 then ''0'' else rev (rev_digits (unat v)))"

definition string_of_u32 :: "u32 \<Rightarrow> string" where
  "string_of_u32 v = (if v = 0 then ''0'' else rev (rev_digits (unat v)))"

lemma rev_rev_digits: "0 < n \<Longrightarrow> rev (rev_digits n) = dec_digits n"
proof (induction n rule: rev_digits.induct)
  case (1 n)
  show ?case
  proof (cases "n < 10")
    case True
    with 1 have "rev_digits n = [digit_char n]"
      by (simp add: rev_digits.simps [of n] rev_digits.simps [of 0])
    with True show ?thesis by (simp add: dec_digits.simps)
  next
    case False
    with 1 show ?thesis by (simp add: rev_digits.simps [of n] dec_digits.simps [of n])
  qed
qed

lemma string_of_u64_dec: "string_of_u64 v = dec_digits (unat v)"
  by (cases "v = 0") (auto simp: string_of_u64_def rev_rev_digits unat_gt_0 dec_digits.simps [of 0] digit_char_0)

lemma string_of_u32_dec: "string_of_u32 v = dec_digits (unat v)"
  by (cases "v = 0") (auto simp: string_of_u32_def rev_rev_digits unat_gt_0 dec_digits.simps [of 0] digit_char_0)

subsection \<open>Printing integers\<close>

text \<open>\<^verbatim>\<open>%d\<close> and \<^verbatim>\<open>%lld\<close>; \<^verbatim>\<open>%0wd\<close>, where the sign counts for the width.\<close>

definition print_int :: "int \<Rightarrow> string" where
  "print_int i = (if i < 0 then CHR ''-'' # dec_digits (nat (- i)) else dec_digits (nat i))"

definition zero_pad :: "nat \<Rightarrow> string \<Rightarrow> string" where
  "zero_pad w s = replicate (w - length s) CHR ''0'' @ s"

definition print_int_width :: "nat \<Rightarrow> int \<Rightarrow> string" where
  "print_int_width w i =
     (if i < 0 then CHR ''-'' # zero_pad (w - 1) (dec_digits (nat (- i)))
      else zero_pad w (dec_digits (nat i)))"

lemma zero_pad_digits [simp]: "list_all is_digit s \<Longrightarrow> list_all is_digit (zero_pad w s)"
  by (auto simp: zero_pad_def list_all_iff is_digit_iff)

lemma dec_val_zero_pad [simp]: "dec_val (zero_pad w s) = dec_val s"
  by (simp add: zero_pad_def)

lemma length_zero_pad: "length (zero_pad w s) = max w (length s)"
  by (simp add: zero_pad_def)

lemma print_width_digits:
  assumes "0 \<le> i" "i < 10 ^ w" "0 < w"
  shows "length (print_int_width w i) = w" "list_all is_digit (print_int_width w i)"
    "dec_val (print_int_width w i) = nat i"
proof -
  have "nat i < 10 ^ w" using assms by (simp add: nat_less_iff)
  then have "length (dec_digits (nat i)) \<le> w" using assms(3) by (rule length_dec_digits)
  then show "length (print_int_width w i) = w" "list_all is_digit (print_int_width w i)"
    "dec_val (print_int_width w i) = nat i"
    using assms by (simp_all add: print_int_width_def length_zero_pad)
qed

lemma length_print_int_width:
  assumes "\<bar>i\<bar> < 10 ^ k" "0 < k"
  shows "length (print_int_width w i) \<le> Suc (max w k)"
proof -
  have "nat \<bar>i\<bar> < 10 ^ k" using assms(1) by (simp add: nat_less_iff)
  then have "length (dec_digits (nat \<bar>i\<bar>)) \<le> k" using assms(2) by (rule length_dec_digits)
  then show ?thesis by (auto simp: print_int_width_def length_zero_pad abs_if split: if_splits)
qed

subsection \<open>C strings and \<^verbatim>\<open>strtol\<close>\<close>

definition c_str :: "string \<Rightarrow> string" where
  "c_str = takeWhile (\<lambda>c. c \<noteq> CHR 0x00)"

definition is_space :: "char \<Rightarrow> bool" where
  "is_space c = (c \<in> {CHR '' '', CHR 0x09, CHR 0x0A, CHR 0x0B, CHR 0x0C, CHR 0x0D})"

definition take_sign :: "string \<Rightarrow> bool \<times> string" where
  "take_sign s = (case s of
       c # r \<Rightarrow> if c = CHR ''-'' then (True, r) else if c = CHR ''+'' then (False, r) else (False, s)
     | [] \<Rightarrow> (False, []))"

text \<open>\<^verbatim>\<open>strtol\<close> in base 10 with a 64-bit \<^verbatim>\<open>long\<close>, and \<^verbatim>\<open>strtoll\<close>: the value saturates at the
  ends of the range; \<open>None\<close> is the case where no digits are found and the end pointer is
  the start of the text, otherwise the result carries the rest of the text.\<close>

definition strtol :: "string \<Rightarrow> (int \<times> string) option" where
  "strtol text =
     (let (neg, s) = take_sign (dropWhile is_space text);
          ds = takeWhile is_digit s;
          v = (if neg then - int (dec_val ds) else int (dec_val ds))
      in if ds = [] then None
         else Some (max (- (2 ^ 63)) (min (2 ^ 63 - 1) v), dropWhile is_digit s))"

lemma takeWhile_all: "list_all P s \<Longrightarrow> takeWhile P s = s"
  by (simp add: takeWhile_eq_all_conv list_all_iff)

lemma dropWhile_all: "list_all P s \<Longrightarrow> dropWhile P s = []"
  by (simp add: dropWhile_eq_Nil_conv list_all_iff)

lemma not_space_digit: "is_digit c \<Longrightarrow> \<not> is_space c \<and> c \<noteq> CHR ''-'' \<and> c \<noteq> CHR ''+'' \<and> c \<noteq> CHR 0x00"
  by (auto simp: is_digit_iff is_space_def)

lemma strtol_print_int:
  assumes "- (2 ^ 63) \<le> i" "i < 2 ^ 63"
  shows "strtol (print_int i) = Some (i, [])"
proof -
  obtain c r where cr: "dec_digits (nat \<bar>i\<bar>) = c # r" by (cases "dec_digits (nat \<bar>i\<bar>)") auto
  then have "is_digit c" using is_digit_dec_digits [of "nat \<bar>i\<bar>"] by simp
  then have "take_sign (dropWhile is_space (print_int i)) = (i < 0, dec_digits (nat \<bar>i\<bar>))"
    using cr not_space_digit [of c]
    by (auto simp: print_int_def take_sign_def is_space_def abs_if split: if_splits)
  then show ?thesis
    using assms by (auto simp: strtol_def takeWhile_all dropWhile_all Let_def)
qed

lemma c_str_print_int [simp]: "c_str (print_int i) = print_int i"
proof -
  have "\<forall>c \<in> set (dec_digits n). c \<noteq> CHR 0x00" for n
    using is_digit_dec_digits [of n] not_space_digit by (auto simp: list_all_iff)
  then show ?thesis by (auto simp: c_str_def print_int_def takeWhile_eq_all_conv)
qed

end
