(* ===== verification/Ieee754.thy ===== *)
theory Ieee754
  imports Cstring
begin

section \<open>Floating point\<close>

text \<open>
  The sources compute with \<^verbatim>\<open>float\<close> and \<^verbatim>\<open>double\<close>.  A floating-point number is its bit
  pattern, here a natural number; the format is given by the widths \<open>m\<close> of the fraction
  and \<open>e\<close> of the exponent (23, 8 for \<^verbatim>\<open>float\<close> and 52, 11 for \<^verbatim>\<open>double\<close>).  The magnitude of
  a finite number is an integral multiple of the smallest subnormal, so that every
  operation is exact integer arithmetic followed by one rounding to nearest, ties to even.
  An operation that produces a NaN gives the canonical quiet NaN: the language leaves sign
  and payload of a computed NaN unspecified, and only its printed sign could show them.

  The theory also models the conversions of the C library the sources call on floating
  point: \<^verbatim>\<open>%f\<close> of \<^verbatim>\<open>printf\<close>, \<^verbatim>\<open>strtod\<close> and \<^verbatim>\<open>strtof\<close>.
\<close>

subsection \<open>Fields of a bit pattern\<close>

definition fp_exp :: "nat \<Rightarrow> nat \<Rightarrow> nat \<Rightarrow> nat" where
  "fp_exp m e b = b div 2 ^ m mod 2 ^ e"

definition fp_frac :: "nat \<Rightarrow> nat \<Rightarrow> nat" where
  "fp_frac m b = b mod 2 ^ m"

definition fp_neg :: "nat \<Rightarrow> nat \<Rightarrow> nat \<Rightarrow> bool" where
  "fp_neg m e b = odd (b div 2 ^ (m + e))"

definition fp_is_nan :: "nat \<Rightarrow> nat \<Rightarrow> nat \<Rightarrow> bool" where
  "fp_is_nan m e b = (fp_exp m e b = 2 ^ e - 1 \<and> fp_frac m b \<noteq> 0)"

definition fp_is_inf :: "nat \<Rightarrow> nat \<Rightarrow> nat \<Rightarrow> bool" where
  "fp_is_inf m e b = (fp_exp m e b = 2 ^ e - 1 \<and> fp_frac m b = 0)"

definition fp_is_zero :: "nat \<Rightarrow> nat \<Rightarrow> nat \<Rightarrow> bool" where
  "fp_is_zero m e b = (b mod 2 ^ (m + e) = 0)"

text \<open>The magnitude in units of the smallest subnormal, and the number of these units
  (\<open>2 ^ fp_shift\<close>) in 1.\<close>

definition fp_mag :: "nat \<Rightarrow> nat \<Rightarrow> nat \<Rightarrow> nat" where
  "fp_mag m e b =
     (if fp_exp m e b = 0 then fp_frac m b else (2 ^ m + fp_frac m b) * 2 ^ (fp_exp m e b - 1))"

definition fp_shift :: "nat \<Rightarrow> nat \<Rightarrow> nat" where
  "fp_shift m e = 2 ^ (e - 1) - 2 + m"

definition fp_val :: "nat \<Rightarrow> nat \<Rightarrow> nat \<Rightarrow> int" where
  "fp_val m e b = (if fp_neg m e b then - int (fp_mag m e b) else int (fp_mag m e b))"

definition fp_pack :: "nat \<Rightarrow> nat \<Rightarrow> bool \<Rightarrow> nat \<Rightarrow> nat" where
  "fp_pack m e neg n = (if neg then 2 ^ (m + e) + n else n)"

definition fp_inf :: "nat \<Rightarrow> nat \<Rightarrow> nat" where
  "fp_inf m e = (2 ^ e - 1) * 2 ^ m"

definition fp_qnan :: "nat \<Rightarrow> nat \<Rightarrow> nat" where
  "fp_qnan m e = fp_inf m e + 2 ^ (m - 1)"

subsection \<open>Rounding\<close>

fun bit_len :: "nat \<Rightarrow> nat" where
  "bit_len n = (if n = 0 then 0 else Suc (bit_len (n div 2)))"

declare bit_len.simps [simp del]

definition half_even :: "nat \<Rightarrow> nat \<Rightarrow> nat" where
  "half_even num den =
     (let q = num div den; r = num mod den in if 2 * r > den \<or> 2 * r = den \<and> odd q then q + 1 else q)"

text \<open>The number nearest to \<open>num / den\<close> units.\<close>

definition fp_round :: "nat \<Rightarrow> nat \<Rightarrow> bool \<Rightarrow> nat \<Rightarrow> nat \<Rightarrow> nat" where
  "fp_round m e neg num den =
     (let k = bit_len (num div den) - (m + 1);
          n = k * 2 ^ m + half_even num (den * 2 ^ k)
      in fp_pack m e neg (min n (fp_inf m e)))"

subsection \<open>Comparison\<close>

definition fp_key :: "nat \<Rightarrow> nat \<Rightarrow> nat \<Rightarrow> int" where
  "fp_key m e b =
     (if fp_neg m e b then - int (b mod 2 ^ (m + e)) else int (b mod 2 ^ (m + e)))"

definition fp_less :: "nat \<Rightarrow> nat \<Rightarrow> nat \<Rightarrow> nat \<Rightarrow> bool" where
  "fp_less m e a b = (\<not> fp_is_nan m e a \<and> \<not> fp_is_nan m e b \<and> fp_key m e a < fp_key m e b)"

definition fp_le :: "nat \<Rightarrow> nat \<Rightarrow> nat \<Rightarrow> nat \<Rightarrow> bool" where
  "fp_le m e a b = (\<not> fp_is_nan m e a \<and> \<not> fp_is_nan m e b \<and> fp_key m e a \<le> fp_key m e b)"

definition fp_eq :: "nat \<Rightarrow> nat \<Rightarrow> nat \<Rightarrow> nat \<Rightarrow> bool" where
  "fp_eq m e a b = (\<not> fp_is_nan m e a \<and> \<not> fp_is_nan m e b \<and> fp_key m e a = fp_key m e b)"

subsection \<open>Arithmetic\<close>

definition fp_add :: "nat \<Rightarrow> nat \<Rightarrow> nat \<Rightarrow> nat \<Rightarrow> nat" where
  "fp_add m e a b =
     (if fp_is_nan m e a \<or> fp_is_nan m e b then fp_qnan m e
      else if fp_is_inf m e a
      then (if fp_is_inf m e b \<and> fp_neg m e a \<noteq> fp_neg m e b then fp_qnan m e else a)
      else if fp_is_inf m e b then b
      else
        (let s = fp_val m e a + fp_val m e b in
         if s = 0 then fp_pack m e (fp_neg m e a \<and> fp_neg m e b) 0
         else fp_round m e (s < 0) (nat \<bar>s\<bar>) 1))"

definition fp_minus :: "nat \<Rightarrow> nat \<Rightarrow> nat \<Rightarrow> nat" where
  "fp_minus m e b = fp_pack m e (\<not> fp_neg m e b) (b mod 2 ^ (m + e))"

definition fp_sub :: "nat \<Rightarrow> nat \<Rightarrow> nat \<Rightarrow> nat \<Rightarrow> nat" where
  "fp_sub m e a b = fp_add m e a (fp_minus m e b)"

definition fp_mul :: "nat \<Rightarrow> nat \<Rightarrow> nat \<Rightarrow> nat \<Rightarrow> nat" where
  "fp_mul m e a b =
     (let neg = (fp_neg m e a \<noteq> fp_neg m e b) in
      if fp_is_nan m e a \<or> fp_is_nan m e b then fp_qnan m e
      else if fp_is_inf m e a \<or> fp_is_inf m e b
      then (if fp_is_zero m e a \<or> fp_is_zero m e b then fp_qnan m e else fp_pack m e neg (fp_inf m e))
      else fp_round m e neg (fp_mag m e a * fp_mag m e b) (2 ^ fp_shift m e))"

definition fp_div :: "nat \<Rightarrow> nat \<Rightarrow> nat \<Rightarrow> nat \<Rightarrow> nat" where
  "fp_div m e a b =
     (let neg = (fp_neg m e a \<noteq> fp_neg m e b) in
      if fp_is_nan m e a \<or> fp_is_nan m e b then fp_qnan m e
      else if fp_is_inf m e a
      then (if fp_is_inf m e b then fp_qnan m e else fp_pack m e neg (fp_inf m e))
      else if fp_is_inf m e b then fp_pack m e neg 0
      else if fp_is_zero m e b
      then (if fp_is_zero m e a then fp_qnan m e else fp_pack m e neg (fp_inf m e))
      else fp_round m e neg (fp_mag m e a * 2 ^ fp_shift m e) (fp_mag m e b))"

subsection \<open>Conversions between formats and integers\<close>

definition fp_of_int :: "nat \<Rightarrow> nat \<Rightarrow> int \<Rightarrow> nat" where
  "fp_of_int m e i = fp_round m e (i < 0) (nat \<bar>i\<bar> * 2 ^ fp_shift m e) 1"

definition fp_trunc :: "nat \<Rightarrow> nat \<Rightarrow> nat \<Rightarrow> int" where
  "fp_trunc m e b =
     (let q = int (fp_mag m e b div 2 ^ fp_shift m e) in if fp_neg m e b then - q else q)"

definition fp_convert :: "nat \<Rightarrow> nat \<Rightarrow> nat \<Rightarrow> nat \<Rightarrow> nat \<Rightarrow> nat" where
  "fp_convert m e m' e' b =
     (if fp_is_nan m e b then fp_pack m' e' (fp_neg m e b) (fp_qnan m' e')
      else if fp_is_inf m e b then fp_pack m' e' (fp_neg m e b) (fp_inf m' e')
      else fp_round m' e' (fp_neg m e b)
        (fp_mag m e b * 2 ^ (fp_shift m' e' - fp_shift m e)) (2 ^ (fp_shift m e - fp_shift m' e')))"

subsection \<open>Printing with \<^verbatim>\<open>%f\<close>\<close>

definition fp_print :: "nat \<Rightarrow> nat \<Rightarrow> nat \<Rightarrow> string" where
  "fp_print m e b =
     (let body =
        (if fp_is_nan m e b then ''nan''
         else if fp_is_inf m e b then ''inf''
         else
           (let n = half_even (fp_mag m e b * 1000000) (2 ^ fp_shift m e)
            in dec_digits (n div 1000000) @ ''.'' @ zero_pad 6 (dec_digits (n mod 1000000))))
      in if fp_neg m e b then CHR ''-'' # body else body)"

subsection \<open>Reading with \<^verbatim>\<open>strtod\<close> and \<^verbatim>\<open>strtof\<close>\<close>

definition to_lower :: "char \<Rightarrow> char" where
  "to_lower c = (if CHR ''A'' \<le> c \<and> c \<le> CHR ''Z'' then char_of ((of_char c :: nat) + 32) else c)"

definition is_hex :: "char \<Rightarrow> bool" where
  "is_hex c = (is_digit c \<or> CHR ''a'' \<le> to_lower c \<and> to_lower c \<le> CHR ''f'')"

definition hex_val :: "char \<Rightarrow> nat" where
  "hex_val c = (if is_digit c then digit_val c else of_char (to_lower c) - 87)"

definition starts_ci :: "string \<Rightarrow> string \<Rightarrow> bool" where
  "starts_ci w s = (map to_lower (take (length w) s) = w)"

text \<open>An exponent part: a marker, an optional sign and at least one digit; without a digit
  nothing is consumed.\<close>

definition read_exponent :: "char \<Rightarrow> string \<Rightarrow> int \<times> string" where
  "read_exponent marker s =
     (case s of
        c # s1 \<Rightarrow>
          (let (neg, s2) = take_sign s1; ds = takeWhile is_digit s2 in
           if to_lower c = marker \<and> ds \<noteq> []
           then (if neg then - int (dec_val ds) else int (dec_val ds), dropWhile is_digit s2)
           else (0, s))
      | [] \<Rightarrow> (0, []))"

text \<open>The digits before and after the point, and the rest of the text.\<close>

definition read_mantissa :: "(char \<Rightarrow> bool) \<Rightarrow> string \<Rightarrow> string \<times> string \<times> string" where
  "read_mantissa digit s =
     (let ip = takeWhile digit s; s1 = dropWhile digit s in
      case s1 of
        c # s2 \<Rightarrow>
          if c = CHR ''.'' then (ip, takeWhile digit s2, dropWhile digit s2) else (ip, [], s1)
      | [] \<Rightarrow> (ip, [], []))"

definition power_ratio :: "nat \<Rightarrow> int \<Rightarrow> nat \<times> nat" where
  "power_ratio base x = (base ^ nat x, base ^ nat (- x))"

definition read_decimal :: "nat \<Rightarrow> nat \<Rightarrow> bool \<Rightarrow> string \<Rightarrow> (nat \<times> string) option" where
  "read_decimal m e neg s =
     (let (ip, fp, s1) = read_mantissa is_digit s in
      if ip = [] \<and> fp = [] then None
      else
        (let (x, s2) = read_exponent (CHR ''e'') s1;
             (up, down) = power_ratio 10 (x - int (length fp))
         in Some (fp_round m e neg (dec_val (ip @ fp) * up * 2 ^ fp_shift m e) down, s2)))"

definition read_hexadecimal :: "nat \<Rightarrow> nat \<Rightarrow> bool \<Rightarrow> string \<Rightarrow> (nat \<times> string) option" where
  "read_hexadecimal m e neg s =
     (let (ip, fp, s1) = read_mantissa is_hex s in
      if ip = [] \<and> fp = [] then None
      else
        (let (x, s2) = read_exponent (CHR ''p'') s1;
             (up, down) = power_ratio 2 (x - 4 * int (length fp))
         in Some (fp_round m e neg
              (foldl (\<lambda>v c. v * 16 + hex_val c) 0 (ip @ fp) * up * 2 ^ fp_shift m e) down, s2)))"

definition read_nan_payload :: "string \<Rightarrow> string" where
  "read_nan_payload s =
     (case s of
        c # s1 \<Rightarrow>
          (let s2 = dropWhile (\<lambda>x. is_digit x \<or> CHR ''a'' \<le> to_lower x \<and> to_lower x \<le> CHR ''z'' \<or> x = CHR ''_'') s1 in
           if c = CHR ''('' \<and> s2 \<noteq> [] \<and> hd s2 = CHR '')'' then tl s2 else s)
      | [] \<Rightarrow> [])"

definition fp_strto :: "nat \<Rightarrow> nat \<Rightarrow> string \<Rightarrow> (nat \<times> string) option" where
  "fp_strto m e text =
     (let (neg, s) = take_sign (dropWhile is_space text) in
      if starts_ci ''infinity'' s then Some (fp_pack m e neg (fp_inf m e), drop 8 s)
      else if starts_ci ''inf'' s then Some (fp_pack m e neg (fp_inf m e), drop 3 s)
      else if starts_ci ''nan'' s then Some (fp_pack m e neg (fp_qnan m e), read_nan_payload (drop 3 s))
      else if starts_ci ''0x'' s
      then (case read_hexadecimal m e neg (drop 2 s) of
              Some r \<Rightarrow> Some r
            | None \<Rightarrow> Some (fp_pack m e neg 0, drop 1 s))
      else read_decimal m e neg s)"

subsection \<open>Laws of the format\<close>

lemma bit_len_bounds: "n < 2 ^ bit_len n" "0 < n \<Longrightarrow> 2 ^ (bit_len n - 1) \<le> n"
proof -
  have "n < 2 ^ bit_len n \<and> (0 < n \<longrightarrow> 2 ^ (bit_len n - 1) \<le> n)"
  proof (induction n rule: bit_len.induct)
    case (1 n)
    show ?case
    proof (cases "n = 0")
      case False
      note IH = "1.IH" [OF False]
      have step: "bit_len n = Suc (bit_len (n div 2))" using False by (subst bit_len.simps) simp
      show ?thesis
      proof (cases "n = 1")
        case True
        then show ?thesis by (simp add: bit_len.simps [of "Suc 0"] bit_len.simps [of 0])
      next
        case n: False
        with False have "0 < n div 2" by simp
        then have "bit_len (n div 2) = Suc (bit_len (n div 2) - 1)"
          by (subst (1 2) bit_len.simps) simp
        then have "(2 :: nat) ^ bit_len (n div 2) = 2 * 2 ^ (bit_len (n div 2) - 1)"
          by (metis power_Suc)
        moreover define p where "p = (2 :: nat) ^ (bit_len (n div 2) - 1)"
        ultimately have "n div 2 < 2 * p" "p \<le> n div 2" "2 ^ bit_len n = 4 * p"
            "2 ^ (bit_len n - 1) = 2 * p"
          using IH \<open>0 < n div 2\<close> step by simp_all
        then show ?thesis by linarith
      qed
    qed (simp add: bit_len.simps [of 0])
  qed
  then show "n < 2 ^ bit_len n" "0 < n \<Longrightarrow> 2 ^ (bit_len n - 1) \<le> n" by auto
qed

lemma bit_len_eq: "2 ^ k \<le> n \<Longrightarrow> n < 2 ^ Suc k \<Longrightarrow> bit_len n = Suc k"
proof -
  assume n: "2 ^ k \<le> n" "n < 2 ^ Suc k"
  then have "0 < n" by (metis less_le_trans zero_less_numeral zero_less_power)
  then have "(2 :: nat) ^ (bit_len n - 1) < 2 ^ Suc k"
    using le_less_trans [OF bit_len_bounds(2) n(2)] by blast
  moreover have "(2 :: nat) ^ k < 2 ^ bit_len n" using le_less_trans [OF n(1) bit_len_bounds(1)] .
  moreover have "bit_len n \<noteq> 0" using \<open>0 < n\<close> by (subst bit_len.simps) simp
  ultimately show "bit_len n = Suc k"
    using power_less_imp_less_exp [of "2 :: nat"] by (metis One_nat_def Suc_lessI diff_Suc_1 less_antisym
        less_nat_zero_code not_less_eq numeral_eq_one_iff one_less_numeral_iff semiring_norm(76) old.nat.exhaust)
qed

lemma bit_len_le: "n < 2 ^ k \<Longrightarrow> bit_len n \<le> k"
proof (rule ccontr)
  assume n: "n < 2 ^ k" and "\<not> bit_len n \<le> k"
  then have "k \<le> bit_len n - 1" "bit_len n \<noteq> 0" by auto
  then have "0 < n" by (cases "n = 0") (auto simp: bit_len.simps [of 0])
  then have "2 ^ k \<le> n"
    using bit_len_bounds(2) [of n] power_increasing [OF \<open>k \<le> bit_len n - 1\<close>, of "2 :: nat"] by linarith
  with n show False by simp
qed

lemma half_even_exact: "0 < d \<Longrightarrow> half_even (q * d) d = q"
  by (simp add: half_even_def)

text \<open>A magnitude is a fraction of \<open>m + 1\<close> bits at most, shifted.\<close>

lemma fp_round_exact:
  assumes "2 ^ m \<le> q" "q < 2 ^ Suc m"
  shows "fp_round m e neg (q * 2 ^ k) 1 = fp_pack m e neg (min (k * 2 ^ m + q) (fp_inf m e))"
proof -
  have "2 ^ (m + k) \<le> q * 2 ^ k" "q * 2 ^ k < 2 ^ Suc (m + k)"
    using assms by (simp_all add: power_add)
  then have "bit_len (q * 2 ^ k) = Suc (m + k)" by (rule bit_len_eq)
  then show ?thesis by (simp add: fp_round_def half_even_exact)
qed

lemma fp_round_small:
  assumes "q < 2 ^ Suc m"
  shows "fp_round m e neg q 1 = fp_pack m e neg (min q (fp_inf m e))"
  using bit_len_le [OF assms] by (simp add: fp_round_def half_even_def)

lemma fp_inf_less: "0 < e \<Longrightarrow> fp_inf m e < 2 ^ (m + e)"
  by (simp add: fp_inf_def power_add algebra_simps)

lemma fp_exp_less: "n < fp_inf m e \<Longrightarrow> fp_exp m e n < 2 ^ e - 1"
proof -
  assume "n < fp_inf m e"
  then have "n div 2 ^ m < 2 ^ e - 1" by (simp add: fp_inf_def less_mult_imp_div_less)
  moreover from this have "n div 2 ^ m mod 2 ^ e = n div 2 ^ m" by simp
  ultimately show ?thesis by (simp add: fp_exp_def)
qed

lemma fp_fields_pack:
  assumes "n < 2 ^ (m + e)"
  shows "fp_exp m e (fp_pack m e neg n) = fp_exp m e n" "fp_frac m (fp_pack m e neg n) = fp_frac m n"
    "fp_neg m e (fp_pack m e neg n) = neg" "fp_pack m e neg n mod 2 ^ (m + e) = n"
proof -
  have "(2 ^ (m + e) + n) div 2 ^ m = 2 ^ e + n div 2 ^ m"
    by (simp add: power_add)
  then show "fp_exp m e (fp_pack m e neg n) = fp_exp m e n"
    by (simp add: fp_pack_def fp_exp_def)
  have "(2 ^ (m + e) + n) mod 2 ^ m = n mod 2 ^ m" by (simp add: power_add)
  then show "fp_frac m (fp_pack m e neg n) = fp_frac m n" by (simp add: fp_pack_def fp_frac_def)
  show "fp_neg m e (fp_pack m e neg n) = neg" "fp_pack m e neg n mod 2 ^ (m + e) = n"
    using assms by (simp_all add: fp_neg_def fp_pack_def div_add_self1)
qed

lemma fp_mag_pack [simp]: "n < 2 ^ (m + e) \<Longrightarrow> fp_mag m e (fp_pack m e neg n) = fp_mag m e n"
  by (simp add: fp_mag_def fp_fields_pack)

text \<open>Rounding a representable magnitude gives its bit pattern back.\<close>

lemma fp_round_mag:
  assumes n: "n < fp_inf m e"
  shows "fp_round m e neg (fp_mag m e n) 1 = fp_pack m e neg n"
proof -
  have "n div 2 ^ m < 2 ^ e - 1" using n by (simp add: fp_inf_def less_mult_imp_div_less)
  then have x: "fp_exp m e n = n div 2 ^ m" by (simp add: fp_exp_def)
  have dm: "n = n div 2 ^ m * 2 ^ m + fp_frac m n" by (simp only: fp_frac_def div_mult_mod_eq)
  have f: "fp_frac m n < 2 ^ m" by (simp add: fp_frac_def)
  show ?thesis
  proof (cases "n div 2 ^ m")
    case 0
    then have "fp_mag m e n = n" using x dm by (simp add: fp_mag_def)
    moreover have "n < 2 ^ Suc m" using 0 dm f by (simp)
    ultimately show ?thesis using n fp_round_small [of n m e neg] by simp
  next
    case (Suc k)
    then have "fp_mag m e n = (2 ^ m + fp_frac m n) * 2 ^ k" using x by (simp add: fp_mag_def)
    moreover have "k * 2 ^ m + (2 ^ m + fp_frac m n) = n" using dm Suc by simp
    ultimately show ?thesis
      using fp_round_exact [of m "2 ^ m + fp_frac m n" e neg k] f n by simp
  qed
qed

text \<open>An integer that fits the fraction converts exactly.\<close>

lemma fp_mag_shifted:
  assumes "2 ^ m \<le> q" "q < 2 ^ Suc m" "k + 2 < 2 ^ e"
  shows "k * 2 ^ m + q < fp_inf m e" "fp_mag m e (k * 2 ^ m + q) = q * 2 ^ k"
proof -
  define f where "f = q - 2 ^ m"
  have f: "q = 2 ^ m + f" "f < 2 ^ m" using assms by (simp_all add: f_def)
  have n: "k * 2 ^ m + q = (k + 1) * 2 ^ m + f" using f by simp
  have "(k + 2) * 2 ^ m \<le> (2 ^ e - 1) * 2 ^ m" using assms(3) by (intro mult_le_mono1) simp
  then show "k * 2 ^ m + q < fp_inf m e" using n f(2) by (simp add: fp_inf_def)
  have "(k * 2 ^ m + q) div 2 ^ m = k + 1" "(k * 2 ^ m + q) mod 2 ^ m = f" 
    unfolding n using f(2) by (simp_all only: div_mult_self3 mod_mult_self3 div_less mod_less)
  then show "fp_mag m e (k * 2 ^ m + q) = q * 2 ^ k"
    using assms(3) f(1) by (simp add: fp_mag_def fp_exp_def fp_frac_def)
qed

lemma fp_of_nat_exact:
  assumes a: "0 < a" "a < 2 ^ Suc m" and s: "m \<le> fp_shift m e" "fp_shift m e + 2 < 2 ^ e"
  obtains n where "n < fp_inf m e" "fp_mag m e n = a * 2 ^ fp_shift m e"
    "\<And>neg. fp_round m e neg (a * 2 ^ fp_shift m e) 1 = fp_pack m e neg n"
proof -
  define L where "L = bit_len a"
  have L: "2 ^ (L - 1) \<le> a" "a < 2 ^ L" "L \<le> Suc m" "0 < L"
    using bit_len_bounds [of a] a bit_len_le [OF a(2)] by (auto simp: L_def intro: gr0I)
  define j where "j = Suc m - L"
  have j: "L - 1 + j = m" "L + j = Suc m" "j \<le> m" using L by (simp_all add: j_def)
  have q: "2 ^ m \<le> a * 2 ^ j" "a * 2 ^ j < 2 ^ Suc m"
    using L(1,2) by (simp flip: j(1) add: power_add, simp flip: j(2) add: power_add)
  define k where "k = fp_shift m e - j"
  have "fp_shift m e = j + k" using j s by (simp add: k_def)
  then have eq: "a * 2 ^ fp_shift m e = a * 2 ^ j * 2 ^ k" by (simp add: power_add)
  have k: "k + 2 < 2 ^ e" using s by (simp add: k_def)
  show ?thesis
    using that fp_mag_shifted [OF q k] fp_round_exact [OF q] eq by (simp add: min_absorb1 less_imp_le)
qed

text \<open>The order of the bit patterns is the order of the magnitudes.\<close>

lemma fp_mag_mono:
  assumes "n < n'" "n' < fp_inf m e"
  shows "fp_mag m e n < fp_mag m e n'"
proof -
  have x: "fp_exp m e k = k div 2 ^ m" if "k < fp_inf m e" for k
  proof -
    have "k div 2 ^ m < 2 ^ e - 1" using that by (simp add: fp_inf_def less_mult_imp_div_less)
    then show ?thesis by (simp add: fp_exp_def)
  qed
  have f: "fp_frac m k < 2 ^ m" for k by (simp add: fp_frac_def)
  have dm: "k = k div 2 ^ m * 2 ^ m + fp_frac m k" for k by (simp only: fp_frac_def div_mult_mod_eq)
  have n: "n < fp_inf m e" using assms by simp
  show ?thesis
  proof (cases "n div 2 ^ m = n' div 2 ^ m")
    case True
    with dm [of n] dm [of n'] assms(1) have "fp_frac m n < fp_frac m n'" by simp
    with True show ?thesis by (simp add: fp_mag_def x [OF n] x [OF assms(2)])
  next
    case False
    with assms(1) have lt: "n div 2 ^ m < n' div 2 ^ m" by (meson div_le_mono le_neq_implies_less less_imp_le)
    then obtain k where k: "n' div 2 ^ m = Suc k" "n div 2 ^ m \<le> k" by (cases "n' div 2 ^ m") auto
    have "fp_mag m e n < 2 ^ m * 2 ^ (n div 2 ^ m)"
      using f [of n] by (cases "n div 2 ^ m") (simp_all add: fp_mag_def x [OF n])
    also have "\<dots> \<le> 2 ^ m * 2 ^ k" using k(2) by simp
    also have "\<dots> \<le> fp_mag m e n'" using k(1) by (simp add: fp_mag_def x [OF assms(2)])
    finally show ?thesis .
  qed
qed

lemma fp_mag_less_iff: "n < fp_inf m e \<Longrightarrow> n' < fp_inf m e \<Longrightarrow> fp_mag m e n < fp_mag m e n' \<longleftrightarrow> n < n'"
  using fp_mag_mono by (metis less_asym linorder_cases)

lemma fp_mag_mod: "fp_mag m e (b mod 2 ^ (m + e)) = fp_mag m e b"
proof -
  have "b mod 2 ^ (m + e) div 2 ^ m mod 2 ^ e = b div 2 ^ m mod 2 ^ e"
    by (simp add: power_add mod_mult2_eq)
  moreover have "b mod 2 ^ (m + e) mod 2 ^ m = b mod 2 ^ m" by (simp add: power_add mod_mult2_eq)
  ultimately show ?thesis by (simp add: fp_mag_def fp_exp_def fp_frac_def)
qed

definition fp_finite :: "nat \<Rightarrow> nat \<Rightarrow> nat \<Rightarrow> bool" where
  "fp_finite m e b = (b mod 2 ^ (m + e) < fp_inf m e)"

lemma fp_finite_not_nan: "fp_finite m e b \<Longrightarrow> \<not> fp_is_nan m e b"
  using fp_exp_less [of "b mod 2 ^ (m + e)" m e]
  by (simp add: fp_finite_def fp_is_nan_def fp_exp_def power_add mod_mult2_eq)

lemma signed_order:
  fixes na nb ma mb :: nat
  assumes "0 < ma \<longleftrightarrow> 0 < na" "0 < mb \<longleftrightarrow> 0 < nb" "ma < mb \<longleftrightarrow> na < nb" "mb < ma \<longleftrightarrow> nb < na"
  shows "(if s then - int na else int na) \<le> (if t then - int nb else int nb) \<longleftrightarrow>
      (if s then - int ma else int ma) \<le> (if t then - int mb else int mb)"
    and "(if s then - int na else int na) < (if t then - int nb else int nb) \<longleftrightarrow>
      (if s then - int ma else int ma) < (if t then - int mb else int mb)"
  using assms by (cases s; cases t; force)+

text \<open>Comparing finite numbers is comparing their values.\<close>

lemma fp_le_val:
  assumes "fp_finite m e a" "fp_finite m e b"
  shows "fp_le m e a b \<longleftrightarrow> fp_val m e a \<le> fp_val m e b"
    and "fp_less m e a b \<longleftrightarrow> fp_val m e a < fp_val m e b"
proof -
  let ?a = "a mod 2 ^ (m + e)" and ?b = "b mod 2 ^ (m + e)"
  have z: "fp_mag m e 0 = 0" by (simp add: fp_mag_def fp_exp_def fp_frac_def)
  have "0 < fp_inf m e" using assms(1) by (auto simp: fp_finite_def)
  then have pos: "0 < fp_mag m e ?a \<longleftrightarrow> 0 < ?a" "0 < fp_mag m e ?b \<longleftrightarrow> 0 < ?b"
    using fp_mag_less_iff [of 0 m e ?a] fp_mag_less_iff [of 0 m e ?b] assms z by (auto simp: fp_finite_def)
  have ab: "fp_mag m e ?a < fp_mag m e ?b \<longleftrightarrow> ?a < ?b" "fp_mag m e ?b < fp_mag m e ?a \<longleftrightarrow> ?b < ?a"
    using fp_mag_less_iff assms by (auto simp: fp_finite_def)
  show "fp_le m e a b \<longleftrightarrow> fp_val m e a \<le> fp_val m e b" "fp_less m e a b \<longleftrightarrow> fp_val m e a < fp_val m e b"
    unfolding fp_le_def fp_less_def fp_key_def fp_val_def fp_mag_mod [of m e a, symmetric] fp_mag_mod [of m e b, symmetric]
    using fp_finite_not_nan [OF assms(1)] fp_finite_not_nan [OF assms(2)] signed_order [OF pos ab] by blast+
qed

subsection \<open>The two formats of the language\<close>

lemma fp_shift_double: "fp_shift 52 11 = 1074" and fp_shift_float: "fp_shift 23 8 = 149"
  by (simp_all add: fp_shift_def)

lemma double_of_int_exact:
  assumes "\<bar>i\<bar> < 2 ^ 53"
  shows "fp_trunc 52 11 (fp_of_int 52 11 i) = i" "fp_of_int 52 11 i < 2 ^ 64"
    "fp_val 52 11 (fp_of_int 52 11 i) = i * 2 ^ 1074" "fp_finite 52 11 (fp_of_int 52 11 i)"
proof -
  have inf: "fp_inf 52 11 < 2 ^ (52 + 11)" by (rule fp_inf_less) simp
  obtain n where n: "n < fp_inf 52 11" "fp_mag 52 11 n = nat \<bar>i\<bar> * 2 ^ 1074"
    "fp_of_int 52 11 i = fp_pack 52 11 (i < 0) n"
  proof (cases "i = 0")
    case True
    show ?thesis
      by (rule that [of 0]) (simp_all add: True fp_of_int_def fp_inf_def fp_mag_def fp_exp_def fp_frac_def
          fp_round_def bit_len.simps [of 0] half_even_def)
  next
    case False
    have "0 < nat \<bar>i\<bar>" "nat \<bar>i\<bar> < 2 ^ Suc 52" using False assms by (simp_all add: nat_less_iff)
    moreover have "52 \<le> fp_shift 52 11" "fp_shift 52 11 + 2 < 2 ^ 11" by (simp_all add: fp_shift_def)
    ultimately obtain n where "n < fp_inf 52 11" "fp_mag 52 11 n = nat \<bar>i\<bar> * 2 ^ fp_shift 52 11"
      "\<And>neg. fp_round 52 11 neg (nat \<bar>i\<bar> * 2 ^ fp_shift 52 11) 1 = fp_pack 52 11 neg n"
      by (rule fp_of_nat_exact) blast
    then show ?thesis by (intro that [of n]) (simp_all add: fp_shift_double fp_of_int_def)
  qed
  have lt: "n < 2 ^ (52 + 11)" using n(1) inf by simp
  show "fp_trunc 52 11 (fp_of_int 52 11 i) = i"
    unfolding n(3) fp_trunc_def fp_mag_pack [OF lt] n(2) fp_fields_pack(3) [OF lt] fp_shift_double
    by (simp add: Let_def)
  show "fp_val 52 11 (fp_of_int 52 11 i) = i * 2 ^ 1074"
    unfolding n(3) fp_val_def fp_mag_pack [OF lt] n(2) fp_fields_pack(3) [OF lt] by simp
  show "fp_finite 52 11 (fp_of_int 52 11 i)"
    using n(1) unfolding n(3) fp_finite_def fp_fields_pack(4) [OF lt] .
  show "fp_of_int 52 11 i < 2 ^ 64" unfolding n(3) fp_pack_def using lt by simp
qed

end
