(* ===== verification/Datetime.thy ===== *)
theory Datetime
  imports Cstring
begin

section \<open>Dates and times\<close>

text \<open>
  Model of \<^verbatim>\<open>src/src/common/datetime.cpp\<close>: microseconds since the epoch are printed as a
  civil date and time and parsed back.  The intermediate \<^verbatim>\<open>int\<close>, \<^verbatim>\<open>unsigned\<close> and
  \<^verbatim>\<open>i64\<close> variables are integers here; every value the functions compute from a 64-bit
  number of microseconds or from the text of a date fits its C++ type (\<open>civil_bounds\<close>).
  \<open>snprintf_string n\<close> is the source's idiom of printing into a buffer of \<open>n\<close> bytes and
  building a \<^verbatim>\<open>String\<close> from the length \<^verbatim>\<open>snprintf\<close> returns: it is undefined when the text
  is longer than the buffer.
\<close>

definition snprintf_string :: "nat \<Rightarrow> string \<Rightarrow> string option" where
  "snprintf_string n s =
     (if length s < n then Some s
      else if length s = n then Some (take (n - 1) s @ [CHR 0x00])
      else None)"

subsection \<open>The civil calendar\<close>

definition is_leap_year :: "int \<Rightarrow> bool" where
  "is_leap_year year = (year mod 4 = 0 \<and> year mod 100 \<noteq> 0 \<or> year mod 400 = 0)"

definition days_in_month :: "int \<Rightarrow> int \<Rightarrow> int" where
  "days_in_month year month =
     (if month = 2 \<and> is_leap_year year then 29
      else [31, 28, 31, 30, 31, 30, 31, 31, 30, 31, 30, 31] ! nat (month - 1))"

definition days_from_civil :: "int \<Rightarrow> int \<Rightarrow> int \<Rightarrow> int" where
  "days_from_civil year0 month day =
     (let year = (if month \<le> 2 then year0 - 1 else year0);
          era = tdiv (if year \<ge> 0 then year else year - 399) 400;
          yoe = year - era * 400;
          doy = (153 * (month + (if month > 2 then - 3 else 9)) + 2) div 5 + day - 1;
          doe = yoe * 365 + yoe div 4 - yoe div 100 + doy
      in era * 146097 + doe - 719468)"

definition civil_from_days :: "int \<Rightarrow> int \<times> int \<times> int" where
  "civil_from_days z0 =
     (let z = z0 + 719468;
          era = tdiv (if z \<ge> 0 then z else z - 146096) 146097;
          doe = z - era * 146097;
          yoe = (doe - doe div 1460 + doe div 36524 - doe div 146096) div 365;
          y = yoe + era * 400;
          doy = doe - (365 * yoe + yoe div 4 - yoe div 100);
          mp = (5 * doy + 2) div 153;
          d = doy - (153 * mp + 2) div 5 + 1;
          m = mp + (if mp < 10 then 3 else - 9)
      in (if m \<le> 2 then y + 1 else y, m, d))"

subsection \<open>Parsing\<close>

fun parse_ndigits :: "nat \<Rightarrow> int \<Rightarrow> string \<Rightarrow> (int \<times> string) option" where
  "parse_ndigits 0 v s = Some (v, s)"
| "parse_ndigits (Suc n) v [] = None"
| "parse_ndigits (Suc n) v (c # s) =
     (if is_digit c then parse_ndigits n (v * 10 + int (digit_val c)) s else None)"

fun expect :: "char \<Rightarrow> string \<Rightarrow> string option" where
  "expect c (x # s) = (if x = c then Some s else None)"
| "expect c [] = None"

text \<open>The loop over the digits of the fraction: number of digits, value of the first six,
  rest of the text.\<close>

fun frac_loop :: "nat \<Rightarrow> int \<Rightarrow> string \<Rightarrow> nat \<times> int \<times> string" where
  "frac_loop digits micros (c # s) =
     (if is_digit c
      then frac_loop (digits + 1) (if digits < 6 then micros * 10 + int (digit_val c) else micros) s
      else (digits, micros, c # s))"
| "frac_loop digits micros [] = (digits, micros, [])"

function scale_micros :: "nat \<Rightarrow> int \<Rightarrow> int" where
  "scale_micros digits micros = (if digits < 6 then scale_micros (digits + 1) (micros * 10) else micros)"
  by auto
termination by (relation "measure (\<lambda>(d, _). 6 - d)") auto

declare scale_micros.simps [simp del]

definition parse_date :: "string \<Rightarrow> ((int \<times> int \<times> int) \<times> string) option" where
  "parse_date s0 =
     Option.bind (parse_ndigits 4 0 s0) (\<lambda>(year, s1).
     Option.bind (expect (CHR ''-'') s1) (\<lambda>s2.
     Option.bind (parse_ndigits 2 0 s2) (\<lambda>(month, s3).
     Option.bind (expect (CHR ''-'') s3) (\<lambda>s4.
     Option.bind (parse_ndigits 2 0 s4) (\<lambda>(day, s5).
       if year < 1 \<or> month < 1 \<or> month > 12 \<or> day < 1 \<or> day > days_in_month year month
       then None else Some ((year, month, day), s5))))))"

definition parse_fraction :: "string \<Rightarrow> (int \<times> string) option" where
  "parse_fraction s =
     (case s of
        c # s1 \<Rightarrow>
          if c = CHR ''.''
          then (case frac_loop 0 0 s1 of (digits, micros, s2) \<Rightarrow>
                  if digits = 0 \<or> digits > 6 then None else Some (scale_micros digits micros, s2))
          else Some (0, s)
      | [] \<Rightarrow> Some (0, []))"

definition parse_time :: "string \<Rightarrow> ((int \<times> int \<times> int \<times> int) \<times> string) option" where
  "parse_time s0 =
     (case s0 of
        [] \<Rightarrow> Some ((0, 0, 0, 0), [])
      | c # s1 \<Rightarrow>
          if c \<noteq> CHR '' '' \<and> c \<noteq> CHR ''T'' then None
          else
            Option.bind (parse_ndigits 2 0 s1) (\<lambda>(hour, s2).
            Option.bind (expect (CHR '':'') s2) (\<lambda>s3.
            Option.bind (parse_ndigits 2 0 s3) (\<lambda>(minute, s4).
            Option.bind (expect (CHR '':'') s4) (\<lambda>s5.
            Option.bind (parse_ndigits 2 0 s5) (\<lambda>(second, s6).
              if hour > 23 \<or> minute > 59 \<or> second > 59 then None
              else Option.bind (parse_fraction s6) (\<lambda>(micros, s7).
                Some ((hour, minute, second, micros), s7))))))))"

definition datetime_parse_utc :: "string \<Rightarrow> i64 option" where
  "datetime_parse_utc text =
     Option.bind (parse_date text) (\<lambda>((year, month, day), s1).
     Option.bind (parse_time s1) (\<lambda>((hour, minute, second, micros), s2).
       if s2 \<noteq> [] then None
       else
         (let days = days_from_civil year month day;
              seconds = days * 86400 + hour * 3600 + minute * 60 + second
          in if seconds > (2 ^ 63 - 1) div 1000000 \<or> seconds < - (2 ^ 63 div 1000000) then None
             else Some (word_of_int (seconds * 1000000 + micros)))))"

subsection \<open>Formatting\<close>

text \<open>\<^verbatim>\<open>frac\<close> without its trailing zeros.\<close>

definition trim_zeros :: "string \<Rightarrow> string" where
  "trim_zeros s = rev (dropWhile (\<lambda>c. c = CHR ''0'') (rev s))"

definition format_date :: "int \<Rightarrow> int \<Rightarrow> int \<Rightarrow> int \<Rightarrow> int \<Rightarrow> int \<Rightarrow> string" where
  "format_date year month day hour minute second =
     print_int_width 4 year @ ''-'' @ print_int_width 2 month @ ''-'' @ print_int_width 2 day @ '' '' @
     print_int_width 2 hour @ '':'' @ print_int_width 2 minute @ '':'' @ print_int_width 2 second"

definition datetime_format_utc :: "i64 \<Rightarrow> string option" where
  "datetime_format_utc micros =
     (let seconds0 = tdiv (sint micros) 1000000; usec0 = trem (sint micros) 1000000;
          usec = (if usec0 < 0 then usec0 + 1000000 else usec0);
          seconds = (if usec0 < 0 then seconds0 - 1 else seconds0);
          days0 = tdiv seconds 86400; sod0 = trem seconds 86400;
          sod = (if sod0 < 0 then sod0 + 86400 else sod0);
          days = (if sod0 < 0 then days0 - 1 else days0)
      in case civil_from_days days of (year, month, day) \<Rightarrow>
           (let text = format_date year month day (tdiv sod 3600) (tdiv (trem sod 3600) 60) (trem sod 60)
            in if usec = 0 then snprintf_string 40 text
               else snprintf_string 40 (text @ ''.'' @ trim_zeros (print_int_width 6 usec))))"

subsection \<open>The civil calendar is a bijection with the days\<close>

definition year_start :: "int \<Rightarrow> int" where
  "year_start y = 365 * y + y div 4 - y div 100"

lemma floor_tdiv: "0 < b \<Longrightarrow> c = b - 1 \<Longrightarrow> tdiv (if a \<ge> 0 then a else a - c) b = a div b"
proof (cases "a \<ge> 0")
  case False
  assume b: "0 < b" and c: "c = b - 1"
  have "(b - 1 - a) div b = - (a div b)"
  proof -
    have "a = b * (a div b) + a mod b" by simp
    moreover have "0 \<le> a mod b" "a mod b < b" using b by simp_all
    ultimately show ?thesis
      by (intro int_div_pos_eq [where r = "b - 1 - a mod b"]) (simp_all add: algebra_simps)
  qed
  moreover have "- (a - c) = b - 1 - a" using c by simp
  ultimately show ?thesis using False b c by (simp add: tdiv_neg)
qed (simp add: tdiv_nonneg)

text \<open>The year of a 400-year era, from the day of the era.\<close>

lemma year_of_era_within_century:
  fixes c k t :: int
  assumes c: "0 \<le> c" "c \<le> 3" and k: "0 \<le> k" "k \<le> 24" and t: "0 \<le> t" "t \<le> 1460"
  defines "r \<equiv> 1461 * k + t"
  assumes r: "r < 36524"
  shows "\<exists>j. 0 \<le> j \<and> j \<le> 3 \<and> (36500 * c + r - (24 * c + r) div 1460) div 365 = 100 * c + 4 * k + j \<and>
    365 * j \<le> t \<and> (t < 365 * (j + 1) \<or> j = 3)"
proof -
  define e where "e = (24 * c + k + t) div 1460"
  have "(24 * c + r) div 1460 = k + e"
  proof -
    have "24 * c + r = k * 1460 + (24 * c + k + t)" by (simp add: r_def)
    then show ?thesis by (simp add: e_def)
  qed
  moreover have e: "e = 0 \<and> t \<le> 1459 \<or> e = 1 \<and> 1364 \<le> t"
  proof (cases "24 * c + k + t < 1460")
    case True
    then show ?thesis using c k t by (simp add: e_def)
  next
    case False
    then have "e = 1"
      unfolding e_def using c k t by (intro int_div_pos_eq [where r = "24 * c + k + t - 1460"]) auto
    with False show ?thesis using c k by simp
  qed
  ultimately have "(36500 * c + r - (24 * c + r) div 1460) div 365 = (365 * (100 * c + 4 * k) + (t - e)) div 365"
    by (simp add: r_def algebra_simps)
  also have "\<dots> = 100 * c + 4 * k + (t - e) div 365" by simp
  finally show ?thesis
    using e t by (intro exI [of _ "(t - e) div 365"]) auto
qed

lemma year_of_era:
  fixes doe :: int
  assumes doe: "0 \<le> doe" "doe < 146097"
  defines "yoe \<equiv> (doe - doe div 1460 + doe div 36524 - doe div 146096) div 365"
  shows "0 \<le> yoe" "yoe \<le> 399" "year_start yoe \<le> doe" "doe - year_start yoe \<le> 365"
    "doe - year_start yoe = 365 \<Longrightarrow> is_leap_year (yoe + 1)"
proof -
  have "0 \<le> yoe \<and> yoe \<le> 399 \<and> year_start yoe \<le> doe \<and> doe - year_start yoe \<le> 365 \<and>
    (doe - year_start yoe = 365 \<longrightarrow> is_leap_year (yoe + 1))"
  proof (cases "doe = 146096")
    case True
    then show ?thesis by (simp add: yoe_def year_start_def is_leap_year_def)
  next
    case False
    define c r where "c = doe div 36524" and "r = doe mod 36524"
    define k t where "k = r div 1461" and "t = r mod 1461"
    have c: "0 \<le> c" "c \<le> 3" using doe False by (auto simp: c_def)
    have r: "0 \<le> r" "r < 36524" by (simp_all add: r_def)
    have k: "0 \<le> k" "k \<le> 24" using r by (auto simp: k_def)
    have t: "0 \<le> t" "t \<le> 1460" "r = 1461 * k + t" by (simp_all add: k_def t_def)
    have dr: "doe = 36524 * c + r" by (simp add: c_def r_def)
    have "doe div 1460 = 25 * c + (24 * c + r) div 1460"
    proof -
      have "doe = (25 * c) * 1460 + (24 * c + r)" by (simp add: dr)
      then show ?thesis by (simp add: div_mult_self3)
    qed
    moreover have "doe div 146096 = 0" using doe False by simp
    ultimately have yoe: "yoe = (36500 * c + r - (24 * c + r) div 1460) div 365"
      unfolding yoe_def c_def [symmetric] using dr by (simp add: algebra_simps)
    obtain j where j: "0 \<le> j" "j \<le> 3" "yoe = 100 * c + 4 * k + j" "365 * j \<le> t" "t < 365 * (j + 1) \<or> j = 3"
      using year_of_era_within_century [OF c k t(1,2)] r t(3) unfolding yoe by metis
    have "yoe div 4 = 25 * c + k" using j by simp
    moreover have "yoe div 100 = c" using j k by (intro int_div_pos_eq [where r = "4 * k + j"]) auto
    ultimately have "doe - year_start yoe = t - 365 * j"
      using j(3) dr t(3) by (simp add: year_start_def)
    moreover have "t - 365 * j = 365 \<longrightarrow> is_leap_year (yoe + 1)"
    proof
      assume "t - 365 * j = 365"
      with j t have tj: "t = 1460" "j = 3" by auto
      with r t(3) k have "k < 24" by auto
      then have "(yoe + 1) mod 100 \<noteq> 0"
        using j(3) tj k int_mod_pos_eq [of "yoe + 1" 100 c "4 * k + 4"] by simp
      moreover have "(yoe + 1) mod 4 = 0" using j(3) tj by simp
      ultimately show "is_leap_year (yoe + 1)" by (simp add: is_leap_year_def)
    qed
    ultimately show ?thesis using j c k t by auto
  qed
  then show "0 \<le> yoe" "yoe \<le> 399" "year_start yoe \<le> doe" "doe - year_start yoe \<le> 365"
    "doe - year_start yoe = 365 \<Longrightarrow> is_leap_year (yoe + 1)" by auto
qed

text \<open>Month and day of a year that starts in March, from the day of the year.\<close>

lemma month_of_year:
  fixes doy :: int
  assumes doy: "0 \<le> doy" "doy \<le> 365"
  defines "mp \<equiv> (5 * doy + 2) div 153"
  defines "d \<equiv> doy - (153 * mp + 2) div 5 + 1"
  shows "0 \<le> mp" "mp \<le> 11" "1 \<le> d"
    "d \<le> [31, 30, 31, 30, 31, 31, 30, 31, 30, 31, 31, if doy = 365 then 29 else 28] ! nat mp"
proof -
  have mp: "153 * mp \<le> 5 * doy + 2" "5 * doy + 2 < 153 * mp + 153" by (simp_all add: mp_def)
  then have "0 \<le> mp \<and> mp \<le> 11" using doy by auto
  then have "mp \<in> {0, 1, 2, 3, 4, 5, 6, 7, 8, 9, 10, 11}" by (simp, presburger)
  with mp doy show "0 \<le> mp" "mp \<le> 11" "1 \<le> d"
    "d \<le> [31, 30, 31, 30, 31, 31, 30, 31, 30, 31, 31, if doy = 365 then 29 else 28] ! nat mp"
    by (auto simp: d_def)
qed

lemma is_leap_year_era: "is_leap_year (y + era * 400) = is_leap_year y"
proof -
  have "(y + era * 400) mod 4 = y mod 4" "(y + era * 400) mod 100 = y mod 100"
    using mod_mult_self1 [of y "era * 100" 4] mod_mult_self1 [of y "era * 4" 100]
    by (simp_all add: mult.commute)
  then show ?thesis by (simp add: is_leap_year_def)
qed

lemma days_in_month_shift:
  assumes "mp \<in> {0, 1, 2, 3, 4, 5, 6, 7, 8, 9, 10, 11 :: int}"
  shows "days_in_month y (mp + (if mp < 10 then 3 else - 9)) =
    [31, 30, 31, 30, 31, 31, 30, 31, 30, 31, 31, if is_leap_year y then 29 else 28] ! nat mp"
  using assms by (elim insertE) (simp_all add: days_in_month_def)

lemma civil_from_days_props:
  assumes "civil_from_days z = (y, m, d)"
  shows "days_from_civil y m d = z" "1 \<le> m" "m \<le> 12" "1 \<le> d" "d \<le> days_in_month y m"
    "400 * ((z + 719468) div 146097) \<le> y" "y \<le> 400 * ((z + 719468) div 146097) + 400"
proof -
  define era doe where "era = (z + 719468) div 146097" and "doe = (z + 719468) mod 146097"
  define yoe where "yoe = (doe - doe div 1460 + doe div 36524 - doe div 146096) div 365"
  define doy where "doy = doe - year_start yoe"
  define mp where "mp = (5 * doy + 2) div 153"
  have doe: "0 \<le> doe" "doe < 146097" by (simp_all add: doe_def)
  note Y = year_of_era [OF doe, folded yoe_def, folded doy_def]
  have doy: "0 \<le> doy" "doy \<le> 365" using Y by (simp_all add: doy_def)
  note M = month_of_year [OF doy, folded mp_def]
  have z: "z = era * 146097 + doe - 719468" by (simp add: era_def doe_def)
  have T: "tdiv (if z + 719468 \<ge> 0 then z + 719468 else z + 719468 - 146096) 146097 = era"
    unfolding era_def by (rule floor_tdiv) simp_all
  have D: "z + 719468 - era * 146097 = doe" using z by simp
  have *: "m = mp + (if mp < 10 then 3 else - 9)" "d = doy - (153 * mp + 2) div 5 + 1"
    "y = (if m \<le> 2 then yoe + era * 400 + 1 else yoe + era * 400)"
    using assms
    unfolding civil_from_days_def Let_def T D yoe_def [symmetric] year_start_def [symmetric]
      doy_def [symmetric] mp_def [symmetric] prod.inject by blast+
  have m: "mp = m + (if m > 2 then - 3 else 9)" "1 \<le> m" "m \<le> 12" "m \<le> 2 \<longleftrightarrow> 10 \<le> mp"
    using * M by auto
  have Y1: "(if m \<le> 2 then y - 1 else y) = yoe + era * 400" using *(3) by auto
  have Y2: "tdiv (if yoe + era * 400 \<ge> 0 then yoe + era * 400 else yoe + era * 400 - 399) 400 = era"
    using Y by (subst floor_tdiv) simp_all
  have "(153 * mp + 2) div 5 + d - 1 = doy" using *(2) by simp
  then show "days_from_civil y m d = z"
    unfolding days_from_civil_def Let_def Y1 Y2 m(1) [symmetric] using z
    by (simp add: doy_def year_start_def)
  show "1 \<le> m" "m \<le> 12" "1 \<le> d" using m M * by auto
  show "400 * ((z + 719468) div 146097) \<le> y" "y \<le> 400 * ((z + 719468) div 146097) + 400"
    using Y *(3) by (auto simp: era_def [symmetric])
  have leap: "is_leap_year y" if "doy = 365" "mp = 11"
  proof -
    have "y = yoe + 1 + era * 400" using * that by simp
    then show ?thesis
      using Y(5) [OF that(1)] by (simp add: is_leap_year_era)
  qed
  have "mp \<in> {0, 1, 2, 3, 4, 5, 6, 7, 8, 9, 10, 11}" using M(1,2) by (simp, presburger)
  then have "days_in_month y m =
      [31, 30, 31, 30, 31, 31, 30, 31, 30, 31, 31, if is_leap_year y then 29 else 28] ! nat mp"
    unfolding *(1) by (rule days_in_month_shift)
  moreover have "[31, 30, 31, 30, 31, 31, 30, 31, 30, 31, 31, if doy = 365 then 29 else 28] ! nat mp \<le>
      ([31, 30, 31, 30, 31, 31, 30, 31, 30, 31, 31, if is_leap_year y then 29 else 28] ! nat mp :: int)"
    using leap M(1,2) by (cases "mp = 11") (auto simp: nth_Cons')
  ultimately show "d \<le> days_in_month y m" using M(4) *(2) by linarith
qed

subsection \<open>Parsing what was printed\<close>

lemma parse_ndigits_app:
  "list_all is_digit s \<Longrightarrow> length s = n \<Longrightarrow>
   parse_ndigits n (int v) (s @ r) = Some (int (dec_val_from v s), r)"
proof (induction n arbitrary: s v)
  case (Suc n)
  then obtain c s' where "s = c # s'" by (cases s) auto
  with Suc.IH [of s' "v * 10 + digit_val c"] Suc.prems show ?case by (simp add: algebra_simps)
qed simp

lemma parse_printed:
  assumes "0 \<le> i" "i < 10 ^ w" "0 < w"
  shows "parse_ndigits w 0 (print_int_width w i @ r) = Some (i, r)"
  using parse_ndigits_app [of "print_int_width w i" w 0 r] print_width_digits [OF assms] assms(1) by simp

lemma frac_loop_app:
  "list_all is_digit s \<Longrightarrow> n + length s \<le> 6 \<Longrightarrow>
   frac_loop n (int v) s = (n + length s, int (dec_val_from v s), [])"
proof (induction s arbitrary: n v)
  case (Cons c s)
  then show ?case using Cons.IH [of "n + 1" "v * 10 + digit_val c"] by (simp add: algebra_simps)
qed simp

lemma scale_micros_eq: "n \<le> 6 \<Longrightarrow> scale_micros n v = v * 10 ^ (6 - n)"
proof (induction n v rule: scale_micros.induct)
  case (1 n v)
  show ?case
  proof (cases "n < 6")
    case True
    then have "(10 :: int) ^ (6 - n) = 10 * 10 ^ (6 - (n + 1))"
      by (metis Suc_diff_Suc Suc_eq_plus1 power_Suc)
    with True 1 show ?thesis by (simp add: scale_micros.simps [of n v])
  next
    case False
    with 1 have "n = 6" by simp
    then show ?thesis by (simp add: scale_micros.simps [of 6 v])
  qed
qed

lemma trim_zeros_split: "\<exists>n. s = trim_zeros s @ replicate n CHR ''0''"
proof -
  have "rev s = takeWhile (\<lambda>c. c = CHR ''0'') (rev s) @ dropWhile (\<lambda>c. c = CHR ''0'') (rev s)" by simp
  moreover have "takeWhile (\<lambda>c. c = CHR ''0'') (rev s) =
      replicate (length (takeWhile (\<lambda>c. c = CHR ''0'') (rev s))) CHR ''0''"
    by (rule replicate_eqI [symmetric, THEN sym]) (auto dest: set_takeWhileD)
  ultimately have "s = trim_zeros s @ replicate (length (takeWhile (\<lambda>c. c = CHR ''0'') (rev s))) CHR ''0''"
    unfolding trim_zeros_def by (metis rev_append rev_replicate rev_rev_ident)
  then show ?thesis by blast
qed

lemma parse_fraction_printed:
  assumes "0 < u" "u < 1000000"
  shows "parse_fraction (CHR ''.'' # trim_zeros (print_int_width 6 u)) = Some (u, [])"
proof -
  let ?s = "print_int_width 6 u"
  have s: "length ?s = 6" "list_all is_digit ?s" "dec_val ?s = nat u"
    using print_width_digits [of u 6] assms by auto
  obtain n where n: "?s = trim_zeros ?s @ replicate n CHR ''0''" using trim_zeros_split by blast
  let ?t = "trim_zeros ?s"
  have t: "list_all is_digit ?t" "length ?t + n = 6"
    using s(1,2) n by (metis list_all_append, metis length_append length_replicate)
  have v: "dec_val ?t * 10 ^ n = nat u"
    using s(3) by (subst (asm) n) simp
  have "int (dec_val ?t) * 10 ^ (6 - length ?t) = int (dec_val ?t * 10 ^ n)"
  proof -
    have "6 - length ?t = n" using t(2) by simp
    then show ?thesis by simp
  qed
  also have "\<dots> = u" using v assms by simp
  finally have "int (dec_val ?t) * 10 ^ (6 - length ?t) = u" .
  moreover have "?t \<noteq> []" using v assms by (cases "?t = []") auto
  ultimately show ?thesis
    using frac_loop_app [of ?t 0 0] t scale_micros_eq [of "length ?t" "int (dec_val ?t)"]
    by (auto simp: parse_fraction_def)
qed

lemma parse_date_printed:
  assumes "1 \<le> y" "y \<le> 9999" "1 \<le> m" "m \<le> 12" "1 \<le> d" "d \<le> days_in_month y m"
  shows "parse_date (print_int_width 4 y @ CHR ''-'' # print_int_width 2 m @ CHR ''-'' # print_int_width 2 d @ r) =
    Some ((y, m, d), r)"
proof -
  have "m \<in> {1, 2, 3, 4, 5, 6, 7, 8, 9, 10, 11, 12}" using assms(3,4) by (simp, presburger)
  then have "d < 100" using assms(6) by (auto simp: days_in_month_def split: if_splits)
  then show ?thesis using assms by (simp add: parse_date_def parse_printed)
qed

lemma parse_time_printed:
  assumes "0 \<le> h" "h \<le> 23" "0 \<le> m" "m \<le> 59" "0 \<le> s" "s \<le> 59" and "parse_fraction r = Some (u, r')"
  shows "parse_time (CHR '' '' # print_int_width 2 h @ CHR '':'' # print_int_width 2 m @ CHR '':'' #
    print_int_width 2 s @ r) = Some ((h, m, s, u), r')"
  using assms by (simp add: parse_time_def parse_printed)

lemma datetime_format_floor:
  "datetime_format_utc micros =
     (let seconds = sint micros div 1000000; usec = sint micros mod 1000000;
          days = seconds div 86400; sod = seconds mod 86400
      in case civil_from_days days of (year, month, day) \<Rightarrow>
        (let text = format_date year month day (sod div 3600) (sod mod 3600 div 60) (sod mod 60)
         in snprintf_string 40 (text @ (if usec = 0 then [] else ''.'' @ trim_zeros (print_int_width 6 usec)))))"
proof -
  have "0 \<le> x mod 86400" for x :: int by simp
  then have "tdiv (x mod 86400) 3600 = x mod 86400 div 3600" "trem (x mod 86400) 3600 = x mod 86400 mod 3600"
    "trem (x mod 86400) 60 = x mod 86400 mod 60" for x
    by (simp_all add: tdiv_nonneg trem_nonneg)
  moreover have "tdiv (x mod 86400 mod 3600) 60 = x mod 86400 mod 3600 div 60" for x
    by (simp add: tdiv_nonneg)
  ultimately show ?thesis
    unfolding datetime_format_utc_def Let_def
    by (simp only: floor_fixup [of 1000000, simplified] floor_fixup [of 86400, simplified]) 
       (simp split: prod.splits)
qed

lemma length_trim_zeros: "length (trim_zeros s) \<le> length s"
  using length_dropWhile_le [of _ "rev s"] by (simp add: trim_zeros_def)

lemma civil_bounds:
  assumes "civil_from_days (sint (micros :: i64) div 1000000 div 86400) = (y, m, d)"
  shows "\<bar>y\<bar> < 10 ^ 6" "1 \<le> m" "m \<le> 12" "1 \<le> d" "d \<le> 31"
proof -
  let ?z = "sint micros div 1000000 div 86400"
  have "- (2 ^ 63) \<le> sint micros" "sint micros < 2 ^ 63"
    using sint_greater_eq [of micros] sint_less [of micros] by simp_all
  then have "- 731 \<le> (?z + 719468) div 146097" "(?z + 719468) div 146097 \<le> 736" by auto
  moreover define e where "e = (?z + 719468) div 146097"
  ultimately have "- 731 \<le> e" "e \<le> 736" "400 * e \<le> y" "y \<le> 400 * e + 400"
    using civil_from_days_props(6,7) [OF assms] by blast+
  then show "\<bar>y\<bar> < 10 ^ 6" by simp
  show m: "1 \<le> m" "m \<le> 12" "1 \<le> d" using civil_from_days_props [OF assms] by auto
  have "m \<in> {1, 2, 3, 4, 5, 6, 7, 8, 9, 10, 11, 12}" using m by (simp, presburger)
  then show "d \<le> 31"
    using civil_from_days_props(5) [OF assms] by (auto simp: days_in_month_def split: if_splits)
qed

lemma length_format_date:
  assumes "\<bar>y\<bar> < 10 ^ 6" "1 \<le> m" "m \<le> 12" "1 \<le> d" "d \<le> 31"
    and "0 \<le> h" "h < 24" "0 \<le> mi" "mi < 60" "0 \<le> s" "s < 60"
  shows "length (format_date y m d h mi s) \<le> 22"
proof -
  have len2: "length (print_int_width 2 i) = 2" if "0 \<le> i" "i < 100" for i
    using print_width_digits(1) [of i 2] that by simp
  have "length (print_int_width 4 y) \<le> 7"
    using length_print_int_width [OF assms(1), of 4] by simp
  then show ?thesis using assms by (simp add: format_date_def len2)
qed

lemma time_of_day:
  fixes sod :: int
  assumes "0 \<le> sod" "sod < 86400"
  shows "0 \<le> sod div 3600" "sod div 3600 < 24" "0 \<le> sod mod 3600 div 60" "sod mod 3600 div 60 < 60"
    "0 \<le> sod mod 60" "sod mod 60 < 60" "sod div 3600 * 3600 + sod mod 3600 div 60 * 60 + sod mod 60 = sod"
proof -
  have "sod mod 60 = sod mod 3600 mod 60" by (simp add: mod_mod_cancel)
  then show "sod div 3600 * 3600 + sod mod 3600 div 60 * 60 + sod mod 60 = sod" by simp
qed (use assms in auto)

lemma datetime_format_text:
  fixes micros :: i64
  assumes c: "civil_from_days (sint micros div 1000000 div 86400) = (y, m, d)"
  defines "sod \<equiv> sint micros div 1000000 mod 86400" and "usec \<equiv> sint micros mod 1000000"
  defines "text \<equiv> format_date y m d (sod div 3600) (sod mod 3600 div 60) (sod mod 60) @
    (if usec = 0 then [] else ''.'' @ trim_zeros (print_int_width 6 usec))"
  shows "length text < 40" "datetime_format_utc micros = Some text"
proof -
  have sod: "0 \<le> sod" "sod < 86400" by (simp_all add: sod_def)
  have "0 \<le> usec" "usec < 1000000" by (simp_all add: usec_def)
  then have "length (print_int_width 6 usec) = 6" using print_width_digits(1) [of usec 6] by simp
  then have "length (trim_zeros (print_int_width 6 usec)) \<le> 6"
    using length_trim_zeros [of "print_int_width 6 usec"] by simp
  then show len: "length text < 40"
    using length_format_date [OF civil_bounds [OF c] time_of_day(1-6) [OF sod]]
    unfolding text_def by (simp add: length_append split: if_split) 
  have "datetime_format_utc micros = snprintf_string 40 text"
    unfolding datetime_format_floor Let_def c prod.case text_def sod_def usec_def ..
  with len show "datetime_format_utc micros = Some text" by (simp add: snprintf_string_def)
qed

text \<open>Formatting a date never overruns its buffer.  For every 64-bit number of microseconds, negative years and
  six-digit years included, the text and its NUL fit the 40-byte buffer of \<^verbatim>\<open>datetime_format_utc\<close>, so the
  \<^verbatim>\<open>String\<close> is built from initialised bytes only.\<close>

lemma datetime_format_defined:
  "\<exists>s. datetime_format_utc micros = Some s \<and> length s < 40"
  using datetime_format_text prod_cases3 by metis

text \<open>C31: a printed date parses back.  For every number of microseconds whose civil year is between 1 and 9999 (the
  years the parser accepts), parsing the printed text gives the same microseconds.\<close>

theorem datetime_roundtrip:
  assumes c: "civil_from_days (sint micros div 1000000 div 86400) = (y, m, d)" and y: "1 \<le> y" "y \<le> 9999"
  shows "Option.bind (datetime_format_utc micros) datetime_parse_utc = Some micros"
proof -
  define sec usec where "sec = sint micros div 1000000" and "usec = sint micros mod 1000000"
  define sod where "sod = sec mod 86400"
  note P = civil_from_days_props [OF c]
  let ?date = "format_date y m d (sod div 3600) (sod mod 3600 div 60) (sod mod 60)"
  let ?frac = "if usec = 0 then [] else ''.'' @ trim_zeros (print_int_width 6 usec)"
  have usec: "0 \<le> usec" "usec < 1000000" and sod: "0 \<le> sod" "sod < 86400"
    by (simp_all add: usec_def sod_def)
  have fmt: "datetime_format_utc micros = Some (?date @ ?frac)"
    unfolding sod_def sec_def usec_def by (rule datetime_format_text(2) [OF c])
  have frac: "parse_fraction ?frac = Some (usec, [])"
    using parse_fraction_printed [of usec] usec by (auto simp: parse_fraction_def)
  define h mi s where "h = sod div 3600" and "mi = sod mod 3600 div 60" and "s = sod mod 60"
  note tod = time_of_day [OF sod, folded h_def mi_def s_def]
  have time: "parse_time (CHR '' '' # print_int_width 2 h @ CHR '':'' # print_int_width 2 mi @ CHR '':'' #
      print_int_width 2 s @ ?frac) = Some ((h, mi, s, usec), [])"
    using tod by (intro parse_time_printed frac) auto
  have "sec div 86400 * 86400 + sod = sec" by (simp add: sod_def)
  then have total: "days_from_civil y m d * 86400 + h * 3600 + mi * 60 + s = sec"
    using P(1) tod(7) unfolding sec_def [symmetric] by (metis add.assoc)
  have "- (2 ^ 63) \<le> sint micros" "sint micros < 2 ^ 63"
    using sint_greater_eq [of micros] sint_less [of micros] by simp_all
  moreover have "- 719468 \<le> sec div 86400"
  proof -
    define e where "e = (sec div 86400 + 719468) div 146097"
    have "y \<le> 400 * e + 400" using P(7) unfolding e_def sec_def .
    then have "0 \<le> e" using y by linarith
    then have "0 \<le> sec div 86400 + 719468" unfolding e_def by (simp only: pos_imp_zdiv_nonneg_iff)
    then show ?thesis by (simp only:)
  qed
  ultimately have "\<not> sec > (2 ^ 63 - 1) div 1000000" "\<not> sec < - (2 ^ 63 div 1000000)"
    by (auto simp: sec_def)
  moreover have "sec * 1000000 + usec = sint micros" by (simp add: sec_def usec_def)
  ultimately have "datetime_parse_utc (?date @ ?frac) = Some micros"
    unfolding datetime_parse_utc_def format_date_def h_def [symmetric] mi_def [symmetric] s_def [symmetric]
    using parse_date_printed [OF y P(2-5)] time total by (simp add: Let_def)
  with fmt show ?thesis by simp
qed

theorem datetime_roundtrip_witness:
  "Option.bind (datetime_format_utc 1700000000123450) datetime_parse_utc = Some 1700000000123450"
proof -
  have "civil_from_days 19675 = (2023, 11, 14)" by code_simp
  moreover have "sint (1700000000123450 :: i64) div 1000000 div 86400 = 19675" by simp
  ultimately have "civil_from_days (sint (1700000000123450 :: i64) div 1000000 div 86400) = (2023, 11, 14)"
    by (simp only:)
  then show ?thesis by (rule datetime_roundtrip) simp_all
qed

end
