(* ===== verification/Comparator.thy ===== *)
theory Comparator
  imports Prelude "HOL-Library.List_Lexorder"
begin

section \<open>Three-way comparisons\<close>

text \<open>
  The sources order values, index keys and tuples with functions that return a negative,
  zero or positive integer.  The locale \<open>comparator\<close> is what their clients (sorted pages,
  binary searches, merges) rely on: the function is a total preorder.  Comparing sequences
  element by element with a comparator per position, shorter sequences first, is again one.
\<close>

definition three_way :: "'a::linorder \<Rightarrow> 'a \<Rightarrow> int" where
  "three_way a b = (if a < b then -1 else if a > b then 1 else 0)"

locale comparator =
  fixes cmp :: "'a \<Rightarrow> 'a \<Rightarrow> int"
  assumes cmp_antisym: "sgn (cmp b a) = - sgn (cmp a b)"
    and cmp_trans: "cmp a b \<le> 0 \<Longrightarrow> cmp b c \<le> 0 \<Longrightarrow> cmp a c \<le> 0"
begin

lemma cmp_refl [simp]: "cmp a a = 0"
  using cmp_antisym [of a a] by (simp add: sgn_if split: if_splits)

lemma cmp_flip: "cmp b a < 0 \<longleftrightarrow> 0 < cmp a b" "cmp b a = 0 \<longleftrightarrow> cmp a b = 0" "0 < cmp b a \<longleftrightarrow> cmp a b < 0"
  using cmp_antisym [of b a] by (auto simp: sgn_if split: if_splits)

lemma cmp_flip_le: "cmp b a \<le> 0 \<longleftrightarrow> 0 \<le> cmp a b"
  using cmp_flip [of b a] by (metis not_le)

lemma cmp_total: "cmp a b \<le> 0 \<or> cmp b a \<le> 0"
  using cmp_flip_le [of b a] by linarith

lemma cmp_less_le_trans: "cmp a b < 0 \<Longrightarrow> cmp b c \<le> 0 \<Longrightarrow> cmp a c < 0"
proof (rule ccontr)
  assume ab: "cmp a b < 0" and bc: "cmp b c \<le> 0" and "\<not> cmp a c < 0"
  then have "cmp c a \<le> 0" using cmp_flip_le [of c a] by linarith
  then have "cmp b a \<le> 0" using cmp_trans [OF bc] by blast
  with ab cmp_flip_le [of b a] show False by linarith
qed

lemma cmp_le_less_trans: "cmp a b \<le> 0 \<Longrightarrow> cmp b c < 0 \<Longrightarrow> cmp a c < 0"
proof (rule ccontr)
  assume ab: "cmp a b \<le> 0" and bc: "cmp b c < 0" and "\<not> cmp a c < 0"
  then have "cmp c a \<le> 0" using cmp_flip_le [of c a] by linarith
  then have "cmp c b \<le> 0" using cmp_trans ab by blast
  with bc cmp_flip_le [of c b] show False by linarith
qed

lemma cmp_cong: "cmp a b = 0 \<Longrightarrow> sgn (cmp a c) = sgn (cmp b c)"
proof -
  assume ab: "cmp a b = 0"
  then have ba: "cmp b a = 0" using cmp_flip(2) by blast
  have "cmp a c \<le> 0 \<longleftrightarrow> cmp b c \<le> 0" using cmp_trans ab ba by (metis order_refl)
  moreover have "cmp a c < 0 \<longleftrightarrow> cmp b c < 0" using cmp_le_less_trans ab ba by (metis order_refl)
  ultimately show ?thesis by (auto simp: sgn_if)
qed

end

text \<open>A comparison by a rank in a linear order is a comparator.\<close>

lemma comparator_three_way: "comparator (\<lambda>a b. three_way (f a) (f b))"
  by unfold_locales (auto simp: three_way_def split: if_splits)

lemma comparator_flip: "comparator cmp \<Longrightarrow> comparator (\<lambda>a b. cmp b a)"
proof (unfold_locales, goal_cases)
  case (1 a b)
  then show ?case by (simp add: comparator.cmp_antisym [of cmp a b])
next
  case (2 a b c)
  then show ?case by (meson comparator.cmp_trans)
qed

lemma comparator_uminus: "comparator cmp \<Longrightarrow> comparator (\<lambda>a b. - cmp a b)"
proof (unfold_locales, goal_cases)
  case (1 b a)
  then show ?case by (simp add: sgn_minus comparator.cmp_antisym [of cmp b a])
next
  case (2 a b c)
  note flip = comparator.cmp_flip_le [OF 2(1)]
  have "cmp c a \<le> 0"
    using 2(2,3) flip [of b a] flip [of c b] comparator.cmp_trans [OF 2(1), of c b a] by linarith
  then show ?case using flip [of c a] by linarith
qed

subsection \<open>Sequences\<close>

text \<open>\<open>lex_compare cs\<close> compares position by position; \<open>cs i\<close> is the comparator of position
  \<open>i\<close> counted from the start.\<close>

fun lex_compare :: "(nat \<Rightarrow> 'a \<Rightarrow> 'a \<Rightarrow> int) \<Rightarrow> 'a list \<Rightarrow> 'a list \<Rightarrow> int" where
  "lex_compare cs (x # xs) (y # ys) =
     (if cs 0 x y \<noteq> 0 then cs 0 x y else lex_compare (\<lambda>i. cs (Suc i)) xs ys)"
| "lex_compare cs [] [] = 0"
| "lex_compare cs [] (y # ys) = -1"
| "lex_compare cs (x # xs) [] = 1"

lemma lex_compare_antisym:
  "(\<And>i. comparator (cs i)) \<Longrightarrow> sgn (lex_compare cs ys xs) = - sgn (lex_compare cs xs ys)"
proof (induction cs xs ys rule: lex_compare.induct)
  case (1 cs x xs y ys)
  have "cs 0 y x = 0 \<longleftrightarrow> cs 0 x y = 0" by (rule comparator.cmp_flip(2)) (rule 1(2))
  moreover have "sgn (cs 0 y x) = - sgn (cs 0 x y)" by (rule comparator.cmp_antisym) (rule 1(2))
  ultimately show ?case using 1(1) [OF _ 1(2)] by simp
qed simp_all

lemma lex_compare_trans:
  "(\<And>i. comparator (cs i)) \<Longrightarrow> lex_compare cs xs ys \<le> 0 \<Longrightarrow> lex_compare cs ys zs \<le> 0 \<Longrightarrow>
   lex_compare cs xs zs \<le> 0"
proof (induction xs arbitrary: cs ys zs)
  case Nil
  then show ?case by (cases zs) auto
next
  case (Cons x xs)
  obtain y ys' where ys: "ys = y # ys'" using Cons.prems(2) by (cases ys) auto
  obtain z zs' where zs: "zs = z # zs'" using Cons.prems(3) ys by (cases zs) auto
  have c: "comparator (cs 0)" by (rule Cons.prems(1))
  have xy: "cs 0 x y \<le> 0" and yz: "cs 0 y z \<le> 0"
    using Cons.prems(2,3) by (auto simp: ys zs split: if_splits)
  show ?case
  proof (cases "cs 0 x y = 0 \<and> cs 0 y z = 0")
    case True
    then have "cs 0 x z = 0" using comparator.cmp_cong [OF c, of x y z] by (simp add: sgn_if split: if_splits)
    with True Cons.IH [of "\<lambda>i. cs (Suc i)" ys' zs'] Cons.prems show ?thesis by (simp add: ys zs)
  next
    case False
    then have "cs 0 x z < 0"
      using xy yz comparator.cmp_less_le_trans [OF c, of x y z] comparator.cmp_le_less_trans [OF c, of x y z]
      by linarith
    then show ?thesis by (simp add: ys zs)
  qed
qed

lemma comparator_lex:
  assumes "\<And>i. comparator (cs i)"
  shows "comparator (lex_compare cs)"
  by unfold_locales (rule lex_compare_antisym [OF assms], rule lex_compare_trans [OF assms])

end
