(* ===== verification/Value.thy ===== *)
theory Value
  imports Ieee754 Datetime Comparator "HOL-Library.Product_Lexorder"
begin

section \<open>Column values\<close>

text \<open>
  Model of \<^verbatim>\<open>src/src/record/value.{h,cpp}\<close>: the tagged union of column values with its
  comparison, arithmetic, byte image, casts and text form.  Integers are words read as
  signed with \<open>sint\<close>; \<^verbatim>\<open>float\<close> and \<^verbatim>\<open>double\<close> are their bit patterns (theory \<open>Ieee754\<close>).
  Operations that can run into undefined behaviour return an option, with \<open>None\<close> for it.
  The type names of \<^verbatim>\<open>src/src/common/sql_types.cpp\<close> are at the end of the definitions.
\<close>

datatype type_id = KBool | KInt32 | KInt64 | KFloat | KDouble | KVarchar | KTimestamp | KDatetime | KNull

primrec type_code :: "type_id \<Rightarrow> nat" where
  "type_code KBool = 0"
| "type_code KInt32 = 1"
| "type_code KInt64 = 2"
| "type_code KFloat = 3"
| "type_code KDouble = 4"
| "type_code KVarchar = 5"
| "type_code KTimestamp = 6"
| "type_code KDatetime = 7"
| "type_code KNull = 255"

definition type_of_code :: "nat \<Rightarrow> type_id option" where
  "type_of_code n =
     (if n < 8 then Some ([KBool, KInt32, KInt64, KFloat, KDouble, KVarchar, KTimestamp, KDatetime] ! n)
      else if n = 255 then Some KNull else None)"

datatype db_value =
    VNull
  | VBool bool
  | VInt32 i32
  | VInt64 i64
  | VFloat u32
  | VDouble u64
  | VVarchar string
  | VTimestamp i64
  | VDatetime i64

primrec type_id_of :: "db_value \<Rightarrow> type_id" where
  "type_id_of VNull = KNull"
| "type_id_of (VBool _) = KBool"
| "type_id_of (VInt32 _) = KInt32"
| "type_id_of (VInt64 _) = KInt64"
| "type_id_of (VFloat _) = KFloat"
| "type_id_of (VDouble _) = KDouble"
| "type_id_of (VVarchar _) = KVarchar"
| "type_id_of (VTimestamp _) = KTimestamp"
| "type_id_of (VDatetime _) = KDatetime"

definition is_null :: "db_value \<Rightarrow> bool" where
  "is_null v = (type_id_of v = KNull)"

definition is_temporal :: "db_value \<Rightarrow> bool" where
  "is_temporal v = (type_id_of v = KTimestamp \<or> type_id_of v = KDatetime)"

subsection \<open>Comparison\<close>

definition fp_three_way :: "nat \<Rightarrow> nat \<Rightarrow> nat \<Rightarrow> nat \<Rightarrow> int" where
  "fp_three_way m e a b =
     (let lhs_nan = \<not> fp_eq m e a a; rhs_nan = \<not> fp_eq m e b b in
      if lhs_nan \<or> rhs_nan then (if lhs_nan then (if rhs_nan then 0 else 1) else -1)
      else if fp_less m e a b then -1
      else if fp_less m e b a then 1 else 0)"

definition value_compare :: "db_value \<Rightarrow> db_value \<Rightarrow> int" where
  "value_compare a b =
     (if type_id_of a \<noteq> type_id_of b
      then int (type_code (type_id_of a)) - int (type_code (type_id_of b))
      else case a of
          VNull \<Rightarrow> 0
        | VBool x \<Rightarrow> (case b of VBool y \<Rightarrow> three_way x y | _ \<Rightarrow> 0)
        | VInt32 x \<Rightarrow> (case b of VInt32 y \<Rightarrow> three_way (sint x) (sint y) | _ \<Rightarrow> 0)
        | VInt64 x \<Rightarrow> (case b of VInt64 y \<Rightarrow> three_way (sint x) (sint y) | _ \<Rightarrow> 0)
        | VTimestamp x \<Rightarrow> (case b of VTimestamp y \<Rightarrow> three_way (sint x) (sint y) | _ \<Rightarrow> 0)
        | VDatetime x \<Rightarrow> (case b of VDatetime y \<Rightarrow> three_way (sint x) (sint y) | _ \<Rightarrow> 0)
        | VFloat x \<Rightarrow> (case b of VFloat y \<Rightarrow> fp_three_way 23 8 (unat x) (unat y) | _ \<Rightarrow> 0)
        | VDouble x \<Rightarrow> (case b of VDouble y \<Rightarrow> fp_three_way 52 11 (unat x) (unat y) | _ \<Rightarrow> 0)
        | VVarchar x \<Rightarrow> (case b of VVarchar y \<Rightarrow> string_compare x y | _ \<Rightarrow> 0))"

definition value_eq :: "db_value \<Rightarrow> db_value \<Rightarrow> bool" where "value_eq a b = (value_compare a b = 0)"
definition value_ne :: "db_value \<Rightarrow> db_value \<Rightarrow> bool" where "value_ne a b = (value_compare a b \<noteq> 0)"
definition value_lt :: "db_value \<Rightarrow> db_value \<Rightarrow> bool" where "value_lt a b = (value_compare a b < 0)"
definition value_gt :: "db_value \<Rightarrow> db_value \<Rightarrow> bool" where "value_gt a b = (value_compare a b > 0)"
definition value_le :: "db_value \<Rightarrow> db_value \<Rightarrow> bool" where "value_le a b = (value_compare a b \<le> 0)"
definition value_ge :: "db_value \<Rightarrow> db_value \<Rightarrow> bool" where "value_ge a b = (value_compare a b \<ge> 0)"

subsection \<open>Arithmetic\<close>

definition promote :: "type_id \<Rightarrow> type_id \<Rightarrow> type_id" where
  "promote a0 b0 =
     (let a = (if a0 = KBool then KInt32 else a0); b = (if b0 = KBool then KInt32 else b0) in
      if a = b then a
      else if a = KDouble \<or> b = KDouble then KDouble
      else if a = KFloat \<or> b = KFloat then KFloat
      else if a = KInt64 \<or> b = KInt64 then KInt64
      else KInt32)"

fun to_i64 :: "db_value \<Rightarrow> int" where
  "to_i64 (VBool b) = (if b then 1 else 0)"
| "to_i64 (VInt32 a) = sint a"
| "to_i64 (VInt64 a) = sint a"
| "to_i64 _ = 0"

fun to_double_val :: "db_value \<Rightarrow> nat" where
  "to_double_val (VBool b) = fp_of_int 52 11 (if b then 1 else 0)"
| "to_double_val (VInt32 a) = fp_of_int 52 11 (sint a)"
| "to_double_val (VInt64 a) = fp_of_int 52 11 (sint a)"
| "to_double_val (VFloat f) = fp_convert 23 8 52 11 (unat f)"
| "to_double_val (VDouble d) = unat d"
| "to_double_val _ = 0"

fun to_float_val :: "db_value \<Rightarrow> nat" where
  "to_float_val (VBool b) = fp_of_int 23 8 (if b then 1 else 0)"
| "to_float_val (VInt32 a) = fp_of_int 23 8 (sint a)"
| "to_float_val (VInt64 a) = fp_of_int 23 8 (sint a)"
| "to_float_val (VFloat f) = unat f"
| "to_float_val _ = 0"

definition in_i32 :: "int \<Rightarrow> bool" where "in_i32 i = (- (2 ^ 31) \<le> i \<and> i \<le> 2 ^ 31 - 1)"
definition in_i64 :: "int \<Rightarrow> bool" where "in_i64 i = (- (2 ^ 63) \<le> i \<and> i \<le> 2 ^ 63 - 1)"

definition int32_or_null :: "int \<Rightarrow> db_value" where
  "int32_or_null i = (if in_i32 i then VInt32 (word_of_int i) else VNull)"

definition int64_or_null :: "int \<Rightarrow> db_value" where
  "int64_or_null i = (if in_i64 i then VInt64 (word_of_int i) else VNull)"

definition value_add :: "db_value \<Rightarrow> db_value \<Rightarrow> db_value" where
  "value_add a b =
     (if is_null a \<or> is_null b then VNull
      else if is_temporal a \<or> is_temporal b then VNull
      else case (a, b) of
        (VVarchar s, VVarchar t) \<Rightarrow> VVarchar (s @ t)
      | (VVarchar _, _) \<Rightarrow> VNull
      | (_, VVarchar _) \<Rightarrow> VNull
      | _ \<Rightarrow>
          (case promote (type_id_of a) (type_id_of b) of
             KInt32 \<Rightarrow> int32_or_null (to_i64 a + to_i64 b)
           | KInt64 \<Rightarrow> int64_or_null (to_i64 a + to_i64 b)
           | KFloat \<Rightarrow> VFloat (of_nat (fp_add 23 8 (to_float_val a) (to_float_val b)))
           | KDouble \<Rightarrow> VDouble (of_nat (fp_add 52 11 (to_double_val a) (to_double_val b)))
           | _ \<Rightarrow> VNull))"

definition value_sub :: "db_value \<Rightarrow> db_value \<Rightarrow> db_value" where
  "value_sub a b =
     (if is_null a \<or> is_null b then VNull
      else if is_temporal a \<or> is_temporal b then VNull
      else case promote (type_id_of a) (type_id_of b) of
          KInt32 \<Rightarrow> int32_or_null (to_i64 a - to_i64 b)
        | KInt64 \<Rightarrow> int64_or_null (to_i64 a - to_i64 b)
        | KFloat \<Rightarrow> VFloat (of_nat (fp_sub 23 8 (to_float_val a) (to_float_val b)))
        | KDouble \<Rightarrow> VDouble (of_nat (fp_sub 52 11 (to_double_val a) (to_double_val b)))
        | _ \<Rightarrow> VNull)"

definition value_mul :: "db_value \<Rightarrow> db_value \<Rightarrow> db_value" where
  "value_mul a b =
     (if is_null a \<or> is_null b then VNull
      else if is_temporal a \<or> is_temporal b then VNull
      else case promote (type_id_of a) (type_id_of b) of
          KInt32 \<Rightarrow> int32_or_null (to_i64 a * to_i64 b)
        | KInt64 \<Rightarrow> int64_or_null (to_i64 a * to_i64 b)
        | KFloat \<Rightarrow> VFloat (of_nat (fp_mul 23 8 (to_float_val a) (to_float_val b)))
        | KDouble \<Rightarrow> VDouble (of_nat (fp_mul 52 11 (to_double_val a) (to_double_val b)))
        | _ \<Rightarrow> VNull)"

definition value_div :: "db_value \<Rightarrow> db_value \<Rightarrow> db_value" where
  "value_div a b =
     (if is_null a \<or> is_null b then VNull
      else if is_temporal a \<or> is_temporal b then VNull
      else case promote (type_id_of a) (type_id_of b) of
          KInt32 \<Rightarrow>
            (if to_i64 b = 0 then VNull
             else if to_i64 a = - (2 ^ 31) \<and> to_i64 b = -1 then VNull
             else VInt32 (word_of_int (tdiv (to_i64 a) (to_i64 b))))
        | KInt64 \<Rightarrow>
            (if to_i64 b = 0 then VNull
             else if to_i64 a = - (2 ^ 63) \<and> to_i64 b = -1 then VNull
             else VInt64 (word_of_int (tdiv (to_i64 a) (to_i64 b))))
        | KFloat \<Rightarrow> VFloat (of_nat (fp_div 23 8 (to_float_val a) (to_float_val b)))
        | KDouble \<Rightarrow> VDouble (of_nat (fp_div 52 11 (to_double_val a) (to_double_val b)))
        | _ \<Rightarrow> VNull)"

text \<open>The remainder has no guard for the smallest integer divided by minus one, whose
  remainder is undefined in C++ (the quotient does not fit).\<close>

fun value_mod :: "db_value \<Rightarrow> db_value \<Rightarrow> db_value option" where
  "value_mod (VInt32 a) (VInt32 b) =
     (if b = 0 then Some VNull
      else if sint a = - (2 ^ 31) \<and> sint b = -1 then None
      else Some (VInt32 (word_of_int (trem (sint a) (sint b)))))"
| "value_mod (VInt64 a) (VInt64 b) =
     (if b = 0 then Some VNull
      else if sint a = - (2 ^ 63) \<and> sint b = -1 then None
      else Some (VInt64 (word_of_int (trem (sint a) (sint b)))))"
| "value_mod _ _ = Some VNull"

subsection \<open>Byte image\<close>

definition serialize_value :: "db_value \<Rightarrow> byte list" where
  "serialize_value v =
     of_nat (type_code (type_id_of v)) #
     (case v of
        VBool b \<Rightarrow> [if b then 1 else 0]
      | VInt32 x \<Rightarrow> put_word x
      | VInt64 x \<Rightarrow> put_word x
      | VTimestamp x \<Rightarrow> put_word x
      | VDatetime x \<Rightarrow> put_word x
      | VFloat x \<Rightarrow> put_word x
      | VDouble x \<Rightarrow> put_word x
      | VVarchar s \<Rightarrow> put_word (of_nat (length s) :: u32) @ bytes_of_string s
      | VNull \<Rightarrow> [])"

text \<open>Reading a word from the front of the buffer.\<close>

definition take_word :: "byte list \<Rightarrow> ('a::len word \<times> byte list) option" where
  "take_word bs =
     (let n = LENGTH('a) div 8 in
      if n \<le> length bs then Some (get_word (take n bs), drop n bs) else None)"

definition deserialize_value :: "byte list \<Rightarrow> db_value option" where
  "deserialize_value buf0 =
     (case buf0 of
        [] \<Rightarrow> None
      | t # buf \<Rightarrow>
          (case type_of_code (unat t) of
             Some KBool \<Rightarrow> (case buf of x # _ \<Rightarrow> Some (VBool (x = 1)) | [] \<Rightarrow> None)
           | Some KInt32 \<Rightarrow> map_option (VInt32 \<circ> fst) (take_word buf)
           | Some KInt64 \<Rightarrow> map_option (VInt64 \<circ> fst) (take_word buf)
           | Some KTimestamp \<Rightarrow> map_option (VTimestamp \<circ> fst) (take_word buf)
           | Some KDatetime \<Rightarrow> map_option (VDatetime \<circ> fst) (take_word buf)
           | Some KFloat \<Rightarrow> map_option (VFloat \<circ> fst) (take_word buf)
           | Some KDouble \<Rightarrow> map_option (VDouble \<circ> fst) (take_word buf)
           | Some KVarchar \<Rightarrow>
               Option.bind (take_word buf) (\<lambda>(len :: u32, rest).
                 if unat len \<le> length rest then Some (VVarchar (string_of_bytes (take (unat len) rest)))
                 else None)
           | _ \<Rightarrow> Some VNull))"

definition value_serialized_size :: "db_value \<Rightarrow> u32" where
  "value_serialized_size v =
     (case v of
        VBool _ \<Rightarrow> 2
      | VInt32 _ \<Rightarrow> 5
      | VInt64 _ \<Rightarrow> 9
      | VTimestamp _ \<Rightarrow> 9
      | VDatetime _ \<Rightarrow> 9
      | VFloat _ \<Rightarrow> 5
      | VDouble _ \<Rightarrow> 9
      | VVarchar s \<Rightarrow> 1 + 4 + of_nat (length s)
      | VNull \<Rightarrow> 1)"

definition type_size :: "type_id \<Rightarrow> u32" where
  "type_size t =
     (case t of KBool \<Rightarrow> 1 | KInt32 \<Rightarrow> 4 | KInt64 \<Rightarrow> 8 | KTimestamp \<Rightarrow> 8 | KDatetime \<Rightarrow> 8
      | KFloat \<Rightarrow> 4 | KDouble \<Rightarrow> 8 | KVarchar \<Rightarrow> 0 | KNull \<Rightarrow> 0)"

subsection \<open>Text form and casts\<close>

definition value_to_string :: "db_value \<Rightarrow> string option" where
  "value_to_string v =
     (case v of
        VBool b \<Rightarrow> Some (if b then ''1'' else ''0'')
      | VInt32 x \<Rightarrow> snprintf_string 64 (print_int (sint x))
      | VInt64 x \<Rightarrow> snprintf_string 64 (print_int (sint x))
      | VTimestamp x \<Rightarrow> datetime_format_utc x
      | VDatetime x \<Rightarrow> datetime_format_utc x
      | VFloat x \<Rightarrow> snprintf_string 64 (fp_print 23 8 (unat x))
      | VDouble x \<Rightarrow> snprintf_string 64 (fp_print 52 11 (unat x))
      | VVarchar s \<Rightarrow> Some s
      | VNull \<Rightarrow> Some ''NULL'')"

definition double_to_int32_value :: "nat \<Rightarrow> db_value" where
  "double_to_int32_value d =
     (if \<not> (fp_le 52 11 (fp_of_int 52 11 (- 2147483648)) d \<and> fp_le 52 11 d (fp_of_int 52 11 2147483647))
      then VNull else VInt32 (word_of_int (fp_trunc 52 11 d)))"

definition double_to_int64_value :: "nat \<Rightarrow> db_value" where
  "double_to_int64_value d =
     (if \<not> (fp_le 52 11 (fp_of_int 52 11 (- 9223372036854775808)) d \<and>
            fp_less 52 11 d (fp_of_int 52 11 9223372036854775808))
      then VNull else VInt64 (word_of_int (fp_trunc 52 11 d)))"

text \<open>The numeric casts that do not go through a string; \<open>None\<close> falls through to the slow
  path.\<close>

definition fast_cast :: "db_value \<Rightarrow> type_id \<Rightarrow> db_value option" where
  "fast_cast v target =
     (case target of
        KInt32 \<Rightarrow>
          (case v of
             VInt64 x \<Rightarrow> Some (int32_or_null (sint x))
           | VFloat x \<Rightarrow> Some (double_to_int32_value (fp_convert 23 8 52 11 (unat x)))
           | VDouble x \<Rightarrow> Some (double_to_int32_value (unat x))
           | VBool b \<Rightarrow> Some (VInt32 (if b then 1 else 0))
           | _ \<Rightarrow> None)
      | KInt64 \<Rightarrow>
          (case v of
             VInt32 x \<Rightarrow> Some (VInt64 (word_of_int (sint x)))
           | VFloat x \<Rightarrow> Some (double_to_int64_value (fp_convert 23 8 52 11 (unat x)))
           | VDouble x \<Rightarrow> Some (double_to_int64_value (unat x))
           | VBool b \<Rightarrow> Some (VInt64 (if b then 1 else 0))
           | _ \<Rightarrow> None)
      | KFloat \<Rightarrow>
          (case v of
             VInt32 x \<Rightarrow> Some (VFloat (of_nat (fp_of_int 23 8 (sint x))))
           | VInt64 x \<Rightarrow> Some (VFloat (of_nat (fp_of_int 23 8 (sint x))))
           | VDouble x \<Rightarrow> Some (VFloat (of_nat (fp_convert 52 11 23 8 (unat x))))
           | VBool b \<Rightarrow> Some (VFloat (of_nat (fp_of_int 23 8 (if b then 1 else 0))))
           | _ \<Rightarrow> None)
      | KDouble \<Rightarrow>
          (case v of
             VInt32 x \<Rightarrow> Some (VDouble (of_nat (fp_of_int 52 11 (sint x))))
           | VInt64 x \<Rightarrow> Some (VDouble (of_nat (fp_of_int 52 11 (sint x))))
           | VFloat x \<Rightarrow> Some (VDouble (of_nat (fp_convert 23 8 52 11 (unat x))))
           | VBool b \<Rightarrow> Some (VDouble (of_nat (fp_of_int 52 11 (if b then 1 else 0))))
           | _ \<Rightarrow> None)
      | KBool \<Rightarrow>
          (case v of
             VInt32 x \<Rightarrow> Some (VBool (x \<noteq> 0))
           | VInt64 x \<Rightarrow> Some (VBool (x \<noteq> 0))
           | VFloat x \<Rightarrow> Some (VBool (\<not> fp_eq 23 8 (unat x) 0))
           | VDouble x \<Rightarrow> Some (VBool (\<not> fp_eq 52 11 (unat x) 0))
           | _ \<Rightarrow> None)
      | _ \<Rightarrow> None)"

definition parse_value :: "string \<Rightarrow> type_id \<Rightarrow> db_value" where
  "parse_value s target =
     (case target of
        KInt32 \<Rightarrow>
          (case strtol (c_str s) of
             Some (v, []) \<Rightarrow> if in_i32 v then VInt32 (word_of_int v) else VNull
           | _ \<Rightarrow> VNull)
      | KInt64 \<Rightarrow>
          (case strtol (c_str s) of Some (v, []) \<Rightarrow> VInt64 (word_of_int v) | _ \<Rightarrow> VNull)
      | KFloat \<Rightarrow> (case fp_strto 23 8 (c_str s) of Some (v, _) \<Rightarrow> VFloat (of_nat v) | None \<Rightarrow> VNull)
      | KDouble \<Rightarrow> (case fp_strto 52 11 (c_str s) of Some (v, _) \<Rightarrow> VDouble (of_nat v) | None \<Rightarrow> VNull)
      | KBool \<Rightarrow>
          (if s \<in> {''true'', ''1'', ''t'', ''TRUE''} then VBool True
           else if s \<in> {''false'', ''0'', ''f'', ''FALSE''} then VBool False
           else VNull)
      | KVarchar \<Rightarrow> VVarchar s
      | KTimestamp \<Rightarrow> (case datetime_parse_utc (c_str s) of Some x \<Rightarrow> VTimestamp x | None \<Rightarrow> VNull)
      | KDatetime \<Rightarrow> (case datetime_parse_utc (c_str s) of Some x \<Rightarrow> VDatetime x | None \<Rightarrow> VNull)
      | KNull \<Rightarrow> VNull)"

definition cast_to :: "db_value \<Rightarrow> type_id \<Rightarrow> db_value option" where
  "cast_to v target =
     (if type_id_of v = KNull then Some VNull
      else if type_id_of v = target then Some v
      else case fast_cast v target of
          Some r \<Rightarrow> Some r
        | None \<Rightarrow> map_option (\<lambda>s. parse_value s target) (value_to_string v))"

subsection \<open>SQL names of the types\<close>

definition upper_ascii :: "string \<Rightarrow> string" where
  "upper_ascii = map (\<lambda>ch. if CHR ''a'' \<le> ch \<and> ch \<le> CHR ''z'' then char_of ((of_char ch :: nat) - 97 + 65) else ch)"

definition type_from_sql_name :: "string \<Rightarrow> type_id" where
  "type_from_sql_name name =
     (let upper = upper_ascii name in
      if upper = ''INT'' \<or> upper = ''INTEGER'' then KInt32
      else if upper = ''BIGINT'' \<or> upper = ''INT64'' then KInt64
      else if upper = ''FLOAT'' \<or> upper = ''REAL'' then KFloat
      else if upper = ''DOUBLE'' \<or> upper = ''DECIMAL'' \<or> upper = ''NUMERIC'' then KDouble
      else if upper = ''VARCHAR'' \<or> upper = ''TEXT'' then KVarchar
      else if upper = ''BOOL'' \<or> upper = ''BOOLEAN'' then KBool
      else if upper = ''TIMESTAMP'' then KTimestamp
      else if upper = ''DATETIME'' then KDatetime
      else KVarchar)"

definition sql_name_from_type :: "type_id \<Rightarrow> string" where
  "sql_name_from_type t =
     (case t of KBool \<Rightarrow> ''BOOL'' | KInt32 \<Rightarrow> ''INT'' | KInt64 \<Rightarrow> ''BIGINT'' | KFloat \<Rightarrow> ''FLOAT''
      | KDouble \<Rightarrow> ''DOUBLE'' | KVarchar \<Rightarrow> ''VARCHAR'' | KTimestamp \<Rightarrow> ''TIMESTAMP''
      | KDatetime \<Rightarrow> ''DATETIME'' | KNull \<Rightarrow> ''NULL'')"

section \<open>Laws of values\<close>

subsection \<open>The comparison is a total preorder\<close>

definition fp_rank :: "nat \<Rightarrow> nat \<Rightarrow> nat \<Rightarrow> int" where
  "fp_rank m e b = (if fp_is_nan m e b then 2 ^ (m + e) else fp_key m e b)"

lemma fp_key_less: "fp_key m e b < 2 ^ (m + e)"
proof -
  have "int (b mod 2 ^ (m + e)) < int (2 ^ (m + e))" by (simp only: of_nat_less_iff) simp
  then show ?thesis
    by (simp add: fp_key_def) (meson le_less_trans neg_le_0_iff_le of_nat_0_le_iff zero_less_numeral zero_less_power)
qed

lemma fp_three_way_rank: "fp_three_way m e a b = three_way (fp_rank m e a) (fp_rank m e b)"
  using fp_key_less [of m e a] fp_key_less [of m e b]
  by (simp add: fp_three_way_def three_way_def fp_rank_def fp_eq_def fp_less_def Let_def)

lemma string_compare_rank: "string_compare s t = three_way (map of_char s :: nat list) (map of_char t)"
proof (induction s arbitrary: t)
  case Nil
  then show ?case by (cases t) (simp_all add: three_way_def)
next
  case (Cons x xs)
  show ?case
  proof (cases t)
    case (Cons y ys)
    then show ?thesis
      using Cons.IH [of ys]
      by (cases "(of_char x :: nat)" "of_char y :: nat" rule: linorder_cases)
        (auto simp: string_compare_Cons three_way_def word_less_nat_alt unat_byte_of_char)
  qed (simp add: three_way_def)
qed

definition value_rank :: "db_value \<Rightarrow> nat \<times> int \<times> nat list" where
  "value_rank v =
     (type_code (type_id_of v),
      case v of
        VNull \<Rightarrow> (0, [])
      | VBool b \<Rightarrow> (if b then 1 else 0, [])
      | VInt32 x \<Rightarrow> (sint x, [])
      | VInt64 x \<Rightarrow> (sint x, [])
      | VFloat x \<Rightarrow> (fp_rank 23 8 (unat x), [])
      | VDouble x \<Rightarrow> (fp_rank 52 11 (unat x), [])
      | VVarchar s \<Rightarrow> (0, map of_char s)
      | VTimestamp x \<Rightarrow> (sint x, [])
      | VDatetime x \<Rightarrow> (sint x, []))"

lemma sgn_three_way [simp]: "sgn (three_way a b) = three_way a b"
  by (simp add: three_way_def)

lemma value_compare_rank: "sgn (value_compare a b) = three_way (value_rank a) (value_rank b)"
  by (cases a; cases b)
    (simp_all add: value_compare_def value_rank_def fp_three_way_rank string_compare_rank,
     simp_all add: three_way_def sgn_if)

lemma comparator_sgn:
  "comparator cmp \<Longrightarrow> (\<And>a b. sgn (cmp' a b) = sgn (cmp a b)) \<Longrightarrow> comparator cmp'"
proof (unfold_locales, goal_cases)
  case (1 b a)
  then show ?case by (simp add: comparator.cmp_antisym [of cmp b a])
next
  case (2 a b c)
  have "x \<le> 0 \<longleftrightarrow> sgn x \<le> 0" for x :: int by (simp add: sgn_if)
  with 2 show ?case by (metis comparator.cmp_trans)
qed

interpretation value_order: comparator value_compare
  by (rule comparator_sgn [OF comparator_three_way [of value_rank]]) (simp add: value_compare_rank)

text \<open>C23: \<^verbatim>\<open>Value::compare\<close> is a total preorder.  Swapping the arguments swaps the sign, any two values are comparable,
  and the order is transitive, NaNs and values of different types included.\<close>

theorem value_compare_order:
  "sgn (value_compare b a) = - sgn (value_compare a b) \<and>
   (value_compare a b \<le> 0 \<or> value_compare b a \<le> 0) \<and>
   (value_compare a b \<le> 0 \<longrightarrow> value_compare b c \<le> 0 \<longrightarrow> value_compare a c \<le> 0)"
  using value_order.cmp_antisym value_order.cmp_total value_order.cmp_trans by blast

theorem value_compare_order_witness:
  "value_compare (VInt32 3) (VVarchar ''x'') \<le> 0"
  using value_compare_order [of "VInt64 9" "VInt32 3" "VVarchar ''x''"]
  by (simp add: value_compare_def)

subsection \<open>Byte image\<close>

lemma take_word_put [codec]:
  "8 dvd LENGTH('a) \<Longrightarrow> take_word (put_word w @ r) = Some (w :: 'a::len word, r)"
  by (simp add: take_word_def get_put_word)

lemma take_put_u32 [simp]: "take_word (put_word w @ r) = Some (w :: u32, r)"
  and take_put_u64 [simp]: "take_word (put_word x @ r) = Some (x :: u64, r)"
  and take_put_u16 [simp]: "take_word (put_word y @ r) = Some (y :: u16, r)"
  by (simp_all add: take_word_put)

lemma unat_type_code [simp]: "unat (of_nat (type_code t) :: byte) = type_code t"
  by (cases t) simp_all

lemma type_of_code_inverse [simp]: "type_of_code (type_code t) = Some t"
  by (cases t) (simp_all add: type_of_code_def)

definition value_ok :: "db_value \<Rightarrow> bool" where
  "value_ok v = (case v of VVarchar s \<Rightarrow> length s + 5 < 2 ^ 32 | _ \<Rightarrow> True)"

lemma unat_length: "n < 2 ^ 32 \<Longrightarrow> unat (of_nat n :: u32) = n"
  by (simp add: unat_of_nat)

lemma deserialize_serialize: "value_ok v \<Longrightarrow> deserialize_value (serialize_value v @ r) = Some v"
  by (cases v) (auto simp: serialize_value_def deserialize_value_def value_ok_def unat_length type_of_code_def)

text \<open>The byte image of a value.  Reading back what \<^verbatim>\<open>Value::serialize\<close> wrote gives the same value, whatever bytes
  follow, and \<^verbatim>\<open>serialized_size\<close> is the number of bytes written, for every value whose image is shorter than
  4 GiB.\<close>

lemma value_serialize_roundtrip:
  assumes "value_ok v"
  shows "deserialize_value (serialize_value v @ rest) = Some v \<and>
    length (serialize_value v) = unat (value_serialized_size v)"
proof
  show "length (serialize_value v) = unat (value_serialized_size v)"
  proof (cases v)
    case (VVarchar s)
    with assms have "unat (5 + of_nat (length s) :: u32) = 5 + length s"
      using unat_length [of "5 + length s"] by (simp add: value_ok_def)
    with VVarchar show ?thesis by (simp add: serialize_value_def value_serialized_size_def)
  qed (simp_all add: serialize_value_def value_serialized_size_def)
qed (rule deserialize_serialize [OF assms])

subsection \<open>Integer arithmetic never wraps\<close>

lemma sint_word_of_int32: "in_i32 i \<Longrightarrow> sint (word_of_int i :: i32) = i"
  by (simp add: in_i32_def signed_take_bit_int_eq_self sint_sbintrunc')

lemma sint_word_of_int64: "in_i64 i \<Longrightarrow> sint (word_of_int i :: i64) = i"
  by (simp add: in_i64_def signed_take_bit_int_eq_self sint_sbintrunc')

lemma sint_in_i32 [simp]: "in_i32 (sint (x :: i32))"
  using sint_greater_eq [of x] sint_less [of x] by (simp add: in_i32_def)

lemma sint_in_i64 [simp]: "in_i64 (sint (x :: i64))"
  using sint_greater_eq [of x] sint_less [of x] by (simp add: in_i64_def)

definition is_integral :: "db_value \<Rightarrow> bool" where
  "is_integral v = (type_id_of v \<in> {KBool, KInt32, KInt64})"

definition fits_type :: "type_id \<Rightarrow> int \<Rightarrow> bool" where
  "fits_type t i = (if t = KInt64 then in_i64 i else in_i32 i)"

text \<open>The value \<open>v\<close> is the integer \<open>i\<close> at type \<open>t\<close>, or NULL when \<open>i\<close> does not fit it.\<close>

definition exact_at :: "type_id \<Rightarrow> db_value \<Rightarrow> int \<Rightarrow> bool" where
  "exact_at t v i = (if fits_type t i then type_id_of v = t \<and> to_i64 v = i else v = VNull)"

lemma exact_at_or_null:
  "exact_at KInt32 (int32_or_null i) i" "exact_at KInt64 (int64_or_null i) i"
  by (auto simp: exact_at_def fits_type_def int32_or_null_def int64_or_null_def sint_word_of_int32
      sint_word_of_int64)

lemma in_i32_in_i64: "in_i32 i \<Longrightarrow> in_i64 i"
  by (simp add: in_i32_def in_i64_def)

lemma in_range_01: "in_i32 0" "in_i32 1" "in_i64 0" "in_i64 1"
  by (simp_all add: in_i32_def in_i64_def)

lemma promote_integral:
  "is_integral x \<Longrightarrow> is_integral y \<Longrightarrow>
   promote (type_id_of x) (type_id_of y) = KInt32 \<and> in_i32 (to_i64 x) \<and> in_i32 (to_i64 y) \<or>
   promote (type_id_of x) (type_id_of y) = KInt64 \<and> in_i64 (to_i64 x) \<and> in_i64 (to_i64 y)"
  by (cases x; cases y)
    (auto simp: is_integral_def promote_def Let_def in_i32_in_i64 in_range_01)

lemma abs_tdiv: "\<bar>b\<bar> \<ge> 2 \<Longrightarrow> \<bar>tdiv a b\<bar> \<le> \<bar>a\<bar> div 2"
proof -
  assume b: "\<bar>b\<bar> \<ge> 2"
  have "\<bar>tdiv a b\<bar> = (if a = 0 \<or> b = 0 then 0 else \<bar>a\<bar> div \<bar>b\<bar>)"
    by (auto simp: tdiv_def abs_mult abs_sgn_eq pos_imp_zdiv_nonneg_iff)
  moreover have "\<bar>a\<bar> div \<bar>b\<bar> \<le> \<bar>a\<bar> div 2" using b by (intro zdiv_mono2) auto
  ultimately show ?thesis by auto
qed

lemma tdiv_fits:
  assumes "- M \<le> a" "a < M" "b \<noteq> 0" "0 < M"
  shows "- M \<le> tdiv a b \<and> tdiv a b < M \<longleftrightarrow> \<not> (a = - M \<and> b = -1)"
proof (cases "\<bar>b\<bar> \<ge> 2")
  case True
  then have "\<bar>tdiv a b\<bar> \<le> \<bar>a\<bar> div 2" by (rule abs_tdiv)
  then have "\<bar>tdiv a b\<bar> < M" using assms by linarith
  with True show ?thesis by auto
next
  case False
  with assms(3) have "b = 1 \<or> b = -1" by linarith
  moreover have "tdiv a 1 = a" "tdiv a (- 1) = - a" by (auto simp: tdiv_def abs_sgn [symmetric] sgn_if)
  ultimately show ?thesis using assms by auto
qed

lemma exact_div:
  assumes "is_integral x" "is_integral y" "to_i64 y \<noteq> 0"
  shows "exact_at (promote (type_id_of x) (type_id_of y)) (value_div x y) (tdiv (to_i64 x) (to_i64 y))"
proof -
  have nn: "\<not> is_null x" "\<not> is_null y" "\<not> is_temporal x" "\<not> is_temporal y"
    using assms(1,2) by (auto simp: is_integral_def is_null_def is_temporal_def)
  from promote_integral [OF assms(1,2)] show ?thesis
  proof
    assume p: "promote (type_id_of x) (type_id_of y) = KInt32 \<and> in_i32 (to_i64 x) \<and> in_i32 (to_i64 y)"
    then have "in_i32 (tdiv (to_i64 x) (to_i64 y)) \<longleftrightarrow> \<not> (to_i64 x = - (2 ^ 31) \<and> to_i64 y = -1)"
      using tdiv_fits [of "2 ^ 31" "to_i64 x" "to_i64 y"] assms(3) by (simp add: in_i32_def) linarith
    with p nn assms(3) show ?thesis
      by (auto simp: value_div_def exact_at_def fits_type_def sint_word_of_int32)
  next
    assume p: "promote (type_id_of x) (type_id_of y) = KInt64 \<and> in_i64 (to_i64 x) \<and> in_i64 (to_i64 y)"
    then have "in_i64 (tdiv (to_i64 x) (to_i64 y)) \<longleftrightarrow> \<not> (to_i64 x = - (2 ^ 63) \<and> to_i64 y = -1)"
      using tdiv_fits [of "2 ^ 63" "to_i64 x" "to_i64 y"] assms(3) by (simp add: in_i64_def) linarith
    with p nn assms(3) show ?thesis
      by (auto simp: value_div_def exact_at_def fits_type_def sint_word_of_int64)
  qed
qed

text \<open>C26: integer arithmetic is exact or NULL.  For operands of type bool, int or bigint the sum, difference, product
  and quotient are the mathematical results at the promoted type, or NULL when the result does not fit that type
  or the divisor is zero; no operation wraps around.\<close>

theorem integer_arithmetic_exact:
  assumes "is_integral x" "is_integral y"
  defines "t \<equiv> promote (type_id_of x) (type_id_of y)"
  shows "exact_at t (value_add x y) (to_i64 x + to_i64 y) \<and>
    exact_at t (value_sub x y) (to_i64 x - to_i64 y) \<and>
    exact_at t (value_mul x y) (to_i64 x * to_i64 y) \<and>
    (if to_i64 y = 0 then value_div x y = VNull else exact_at t (value_div x y) (tdiv (to_i64 x) (to_i64 y)))"
proof -
  have nn: "\<not> is_null x" "\<not> is_null y" "\<not> is_temporal x" "\<not> is_temporal y"
    using assms(1,2) by (auto simp: is_integral_def is_null_def is_temporal_def)
  have t: "t = KInt32 \<or> t = KInt64" using promote_integral [OF assms(1,2)] by (auto simp: t_def)
  have "value_add x y = (if t = KInt32 then int32_or_null (to_i64 x + to_i64 y)
      else int64_or_null (to_i64 x + to_i64 y))"
    using assms(1,2) t nn unfolding value_add_def t_def
    by (cases x; cases y) (auto simp: is_integral_def)
  with t nn have "exact_at t (value_add x y) (to_i64 x + to_i64 y)"
    "exact_at t (value_sub x y) (to_i64 x - to_i64 y)" "exact_at t (value_mul x y) (to_i64 x * to_i64 y)"
    using exact_at_or_null by (auto simp: value_sub_def value_mul_def t_def [symmetric])
  moreover have "value_div x y = VNull" if "to_i64 y = 0"
    using that t nn by (auto simp: value_div_def t_def [symmetric])
  ultimately show ?thesis using exact_div [OF assms(1,2)] by (simp add: t_def)
qed

theorem integer_arithmetic_exact_witness:
  "value_add (VInt32 2147483647) (VInt32 1) = VNull \<and>
   to_i64 (value_mul (VInt64 4294967296) (VBool True)) = 4294967296"
  using integer_arithmetic_exact [of "VInt32 2147483647" "VInt32 1"]
    integer_arithmetic_exact [of "VInt64 4294967296" "VBool True"]
  by (simp add: is_integral_def exact_at_def fits_type_def promote_def in_i32_def in_i64_def)

text \<open>Subtraction, multiplication and division read a string operand as zero, while addition answers NULL: the
  guard on strings of \<^verbatim>\<open>operator+\<close> is missing from the other operators.\<close>

lemma string_operand_is_zero:
  "value_sub (VVarchar s) (VInt64 x) = int64_or_null (- sint x) \<and>
   value_mul (VVarchar s) (VInt32 y) = VInt32 0 \<and>
   value_add (VVarchar s) (VInt64 x) = VNull"
  by (simp add: value_sub_def value_mul_def value_add_def is_null_def is_temporal_def promote_def
      int32_or_null_def in_i32_def)

text \<open>The remainder of the smallest integer by minus one is undefined.  This is the only operand pair for which
  \<^verbatim>\<open>operator%\<close> has no defined result.\<close>

lemma value_mod_undefined_iff:
  "value_mod x y = None \<longleftrightarrow>
     (\<exists>a b. x = VInt32 a \<and> y = VInt32 b \<and> sint a = - (2 ^ 31) \<and> sint b = -1) \<or>
     (\<exists>a b. x = VInt64 a \<and> y = VInt64 b \<and> sint a = - (2 ^ 63) \<and> sint b = -1)"
  by (cases "(x, y)" rule: value_mod.cases) (auto split: if_splits)

subsection \<open>Casts\<close>

lemma length_print_int64: "in_i64 i \<Longrightarrow> length (print_int i) \<le> 20"
  using length_dec_digits [of "nat \<bar>i\<bar>" 19]
  by (auto simp: print_int_def in_i64_def abs_if nat_less_iff split: if_splits)

lemma print_int_short: "in_i64 i \<Longrightarrow> snprintf_string 64 (print_int i) = Some (print_int i)"
  using length_print_int64 [of i] by (simp add: snprintf_string_def)

lemma cast_int64_varchar:
  "cast_to (VInt64 x) KVarchar = Some (VVarchar (print_int (sint x)))"
  "cast_to (VInt32 y) KVarchar = Some (VVarchar (print_int (sint y)))"
  by (simp_all add: cast_to_def fast_cast_def value_to_string_def print_int_short in_i32_in_i64 parse_value_def)

lemma strtol_print:
  assumes "in_i64 i"
  shows "strtol (print_int i) = Some (i, [])"
  using assms by (intro strtol_print_int) (simp_all add: in_i64_def)

lemma cast_varchar_int:
  "in_i64 i \<Longrightarrow> cast_to (VVarchar (print_int i)) KInt64 = Some (VInt64 (word_of_int i))"
  "in_i32 i \<Longrightarrow> cast_to (VVarchar (print_int i)) KInt32 = Some (VInt32 (word_of_int i))"
  by (simp_all add: cast_to_def fast_cast_def value_to_string_def parse_value_def strtol_print in_i32_in_i64)

lemma double_to_int32:
  assumes "in_i32 i"
  shows "double_to_int32_value (fp_of_int 52 11 i) = VInt32 (word_of_int i)"
proof -
  have b: "\<bar>i\<bar> < 2 ^ 53" using assms by (auto simp: in_i32_def)
  have "fp_le 52 11 (fp_of_int 52 11 (- 2147483648)) (fp_of_int 52 11 i)"
    "fp_le 52 11 (fp_of_int 52 11 i) (fp_of_int 52 11 2147483647)"
    using assms double_of_int_exact(3,4) [OF b] double_of_int_exact(3,4) [of "- 2147483648"]
      double_of_int_exact(3,4) [of 2147483647]
    by (simp_all add: fp_le_val in_i32_def)
  then show ?thesis by (simp add: double_to_int32_value_def double_of_int_exact(1) [OF b])
qed

text \<open>Integers survive casts.  Casting an int to bigint, to double or to varchar and back gives the int; casting a
  bigint to varchar and back gives the bigint.\<close>

lemma integer_cast_roundtrip:
  assumes "t \<in> {KInt64, KDouble, KVarchar}"
  shows "Option.bind (cast_to (VInt32 x) t) (\<lambda>v. cast_to v KInt32) = Some (VInt32 x) \<and>
    Option.bind (cast_to (VInt64 y) KVarchar) (\<lambda>v. cast_to v KInt64) = Some (VInt64 y)"
proof
  have "\<bar>sint x\<bar> < 2 ^ 53" using sint_in_i32 [of x] by (auto simp: in_i32_def)
  then have lt: "fp_of_int 52 11 (sint x) < 2 ^ LENGTH(64)" using double_of_int_exact(2) by simp
  have "sint (word_of_int (sint x) :: i64) = sint x" by (intro sint_word_of_int64 in_i32_in_i64) simp
  then have "fast_cast (VInt64 (word_of_int (sint x))) KInt32 = Some (VInt32 x)"
    unfolding fast_cast_def type_id.case db_value.case by (simp only:) (simp add: int32_or_null_def)
  then have "cast_to (VInt64 (word_of_int (sint x))) KInt32 = Some (VInt32 x)"
    by (simp add: cast_to_def)
  moreover have "cast_to (VDouble (of_nat (fp_of_int 52 11 (sint x)))) KInt32 = Some (VInt32 x)"
    using lt by (simp add: cast_to_def fast_cast_def unat_of_nat double_to_int32)
  moreover have "cast_to (VVarchar (print_int (sint x))) KInt32 = Some (VInt32 x)"
    by (simp add: cast_varchar_int)
  ultimately show "Option.bind (cast_to (VInt32 x) t) (\<lambda>v. cast_to v KInt32) = Some (VInt32 x)"
    using assms by (auto simp: cast_int64_varchar) (simp_all add: cast_to_def fast_cast_def)
  show "Option.bind (cast_to (VInt64 y) KVarchar) (\<lambda>v. cast_to v KInt64) = Some (VInt64 y)"
    by (simp add: cast_int64_varchar cast_varchar_int)
qed

lemma length_dec_digits_ge: "10 ^ k \<le> n \<Longrightarrow> k < length (dec_digits n)"
proof -
  assume "10 ^ k \<le> n"
  moreover have "n < 10 ^ length (dec_digits n)"
    using dec_val_bound [OF is_digit_dec_digits, of n] by simp
  ultimately have "(10 :: nat) ^ k < 10 ^ length (dec_digits n)" by (rule le_less_trans)
  then show ?thesis by (rule power_less_imp_less_exp [rotated]) simp
qed

lemma fp_print_length:
  "\<not> fp_is_nan m e b \<Longrightarrow> \<not> fp_is_inf m e b \<Longrightarrow>
   length (dec_digits (half_even (fp_mag m e b * 1000000) (2 ^ fp_shift m e) div 1000000)) + 7 \<le> length (fp_print m e b)"
  by (simp add: fp_print_def Let_def length_zero_pad max_def)

text \<open>Printing a large double is undefined.  The text of a finite double of magnitude \<open>10\<^sup>5\<^sup>8\<close> or more is longer than
  the 64-byte buffer of \<^verbatim>\<open>Value::to_string\<close>, which then builds a string from the untruncated length.\<close>

lemma large_double_to_string_undefined:
  assumes "fp_finite 52 11 (unat d)" "10 ^ 58 * 2 ^ 1074 \<le> fp_mag 52 11 (unat d)"
  shows "value_to_string (VDouble d) = None"
proof -
  let ?n = "half_even (fp_mag 52 11 (unat d) * 1000000) (2 ^ fp_shift 52 11)"
  have "10 ^ 64 * 2 ^ 1074 \<le> fp_mag 52 11 (unat d) * 1000000"
    using mult_le_mono1 [OF assms(2), of 1000000] by simp
  then have "10 ^ 64 \<le> fp_mag 52 11 (unat d) * 1000000 div 2 ^ fp_shift 52 11"
    by (simp add: less_eq_div_iff_mult_less_eq fp_shift_double)
  then have "10 ^ 64 \<le> ?n" unfolding half_even_def Let_def by simp
  then have "10 ^ 58 \<le> ?n div 1000000" by (simp add: less_eq_div_iff_mult_less_eq)
  then have "58 < length (dec_digits (?n div 1000000))" by (rule length_dec_digits_ge)
  moreover have "\<not> fp_is_nan 52 11 (unat d)" "\<not> fp_is_inf 52 11 (unat d)"
    using fp_finite_not_nan [OF assms(1)] fp_exp_less [of "unat d mod 2 ^ 63" 52 11] assms(1)
    by (auto simp: fp_is_inf_def fp_finite_def fp_exp_def mod_mult2_eq [of _ "2 ^ 52" "2 ^ 11", simplified])
  ultimately have "64 < length (fp_print 52 11 (unat d))" using fp_print_length [of 52 11 "unat d"] by linarith
  then show ?thesis by (simp add: value_to_string_def snprintf_string_def)
qed

end
