(* ===== verification/Schema.thy ===== *)
theory Schema
  imports Value
begin

section \<open>Table schemas\<close>

text \<open>
  Model of \<^verbatim>\<open>src/src/record/schema.{h,cpp}\<close>.  A schema is the list of its columns; the
  column type is kept as the byte of the enumeration, since \<^verbatim>\<open>deserialize\<close> accepts any
  byte there.  The readers work on the list of the bytes that are left before \<^verbatim>\<open>end\<close>.
\<close>

subsection \<open>Columns\<close>

record column =
  col_name :: string
  col_table_name :: string
  col_type :: u8
  col_not_null :: bool
  col_is_primary :: bool
  col_is_unique :: bool
  col_is_dropped :: bool
  col_varchar_length :: u32
  col_default_value :: string
  col_check_expr :: string

type_synonym schema = "column list"

definition type_byte :: "type_id \<Rightarrow> u8" where
  "type_byte t = of_nat (type_code t)"

definition default_column :: column where
  "default_column = \<lparr>col_name = [], col_table_name = [], col_type = type_byte KNull,
     col_not_null = False, col_is_primary = False, col_is_unique = False, col_is_dropped = False,
     col_varchar_length = 0, col_default_value = [], col_check_expr = []\<rparr>"

definition has_default :: "column \<Rightarrow> bool" where
  "has_default c = (col_default_value c \<noteq> [])"

text \<open>The text of a default is read with \<^verbatim>\<open>strtol\<close> and its relatives without checking
  where the number ends; a text without a number gives zero.\<close>

definition default_as_value :: "column \<Rightarrow> db_value" where
  "default_as_value c =
     (let d = col_default_value c in
      if d = [] then VNull
      else case type_of_code (unat (col_type c)) of
          Some KInt32 \<Rightarrow> VInt32 (word_of_int (case strtol (c_str d) of Some (v, _) \<Rightarrow> v | None \<Rightarrow> 0))
        | Some KInt64 \<Rightarrow> VInt64 (word_of_int (case strtol (c_str d) of Some (v, _) \<Rightarrow> v | None \<Rightarrow> 0))
        | Some KFloat \<Rightarrow> VFloat (of_nat (case fp_strto 23 8 (c_str d) of Some (v, _) \<Rightarrow> v | None \<Rightarrow> 0))
        | Some KDouble \<Rightarrow> VDouble (of_nat (case fp_strto 52 11 (c_str d) of Some (v, _) \<Rightarrow> v | None \<Rightarrow> 0))
        | Some KBool \<Rightarrow> VBool (d \<in> {''true'', ''1'', ''TRUE''})
        | Some KTimestamp \<Rightarrow> (case datetime_parse_utc (c_str d) of Some x \<Rightarrow> VTimestamp x | None \<Rightarrow> VNull)
        | Some KDatetime \<Rightarrow> (case datetime_parse_utc (c_str d) of Some x \<Rightarrow> VDatetime x | None \<Rightarrow> VNull)
        | _ \<Rightarrow> VVarchar d)"

subsection \<open>Operations on schemas\<close>

definition add_column :: "schema \<Rightarrow> column \<Rightarrow> schema" where
  "add_column s c = s @ [c]"

definition remove_column :: "schema \<Rightarrow> u32 \<Rightarrow> schema" where
  "remove_column s idx =
     (if unat idx < length s then take (unat idx) s @ drop (Suc (unat idx)) s else s)"

definition rename_column :: "schema \<Rightarrow> u32 \<Rightarrow> string \<Rightarrow> schema" where
  "rename_column s idx new_name =
     (if unat idx < length s then s[unat idx := (s ! unat idx)\<lparr>col_name := new_name\<rparr>] else s)"

definition get_column :: "schema \<Rightarrow> nat \<Rightarrow> column" where
  "get_column s idx = (if idx \<ge> length s then default_column else s ! idx)"

definition visible_column_count :: "schema \<Rightarrow> nat" where
  "visible_column_count s = fold (\<lambda>c n. if col_is_dropped c then n else n + 1) s 0"

definition has_dropped_columns :: "schema \<Rightarrow> bool" where
  "has_dropped_columns s = list_ex col_is_dropped s"

fun column_index_from :: "(column \<Rightarrow> bool) \<Rightarrow> nat \<Rightarrow> schema \<Rightarrow> int" where
  "column_index_from P i [] = -1"
| "column_index_from P i (c # cs) =
     (if col_is_dropped c then column_index_from P (i + 1) cs
      else if P c then int i else column_index_from P (i + 1) cs)"

definition get_column_index :: "schema \<Rightarrow> string \<Rightarrow> int" where
  "get_column_index s name = column_index_from (\<lambda>c. col_name c = name) 0 s"

definition get_qualified_column_index :: "schema \<Rightarrow> string \<Rightarrow> string \<Rightarrow> int" where
  "get_qualified_column_index s table column =
     column_index_from
       (\<lambda>c. col_name c = column \<and> (col_table_name c = [] \<or> col_table_name c = table)) 0 s"

text \<open>The string of a value: the empty string unless it is a VARCHAR.\<close>

definition get_string :: "db_value \<Rightarrow> string" where
  "get_string v = (case v of VVarchar s \<Rightarrow> s | _ \<Rightarrow> [])"

definition validate_column :: "column \<Rightarrow> db_value \<Rightarrow> string option" where
  "validate_column c v =
     (if col_is_dropped c then None
      else if col_not_null c \<and> is_null v then Some ''NOT NULL constraint violated''
      else if col_type c = type_byte KVarchar \<and> col_varchar_length c > 0 \<and> \<not> is_null v \<and>
              unat (col_varchar_length c) < length (get_string v)
      then Some ''value too long for declared VARCHAR(n) column''
      else if (col_type c = type_byte KTimestamp \<or> col_type c = type_byte KDatetime) \<and> \<not> is_null v \<and>
              type_byte (type_id_of v) \<noteq> col_type c \<and>
              \<not> (col_type c = type_byte KTimestamp \<and> type_id_of v = KDatetime) \<and>
              \<not> (col_type c = type_byte KDatetime \<and> type_id_of v = KTimestamp)
      then Some ''column type mismatch''
      else None)"

fun validate_columns :: "schema \<Rightarrow> db_value list \<Rightarrow> string option" where
  "validate_columns (c # cs) (v # vs) =
     (case validate_column c v of Some e \<Rightarrow> Some e | None \<Rightarrow> validate_columns cs vs)"
| "validate_columns _ _ = None"

definition validate_row :: "schema \<Rightarrow> db_value list \<Rightarrow> string option" where
  "validate_row s row =
     (if length row \<noteq> length s then Some ''row column count does not match table schema''
      else validate_columns s row)"

subsection \<open>Byte image\<close>

text \<open>A string with a 16-bit length: the length is truncated to 16 bits and so many bytes
  of the string follow.\<close>

definition put_string16 :: "string \<Rightarrow> byte list" where
  "put_string16 s =
     (let n = of_nat (length s) :: u16 in put_word n @ bytes_of_string (take (unat n) s))"

definition column_flags :: "column \<Rightarrow> byte" where
  "column_flags c =
     (if col_not_null c then 1 else 0) OR (if col_is_primary c then 2 else 0) OR
     (if col_is_unique c then 4 else 0) OR (if col_is_dropped c then 8 else 0)"

definition serialize_column :: "column \<Rightarrow> byte list" where
  "serialize_column c =
     put_string16 (col_name c) @ put_string16 (col_table_name c) @
     [col_type c, column_flags c] @ put_string16 (col_default_value c) @
     put_word (col_varchar_length c) @ put_string16 (col_check_expr c)"

definition serialize_schema :: "schema \<Rightarrow> byte list" where
  "serialize_schema s = put_word (of_nat (length s) :: u32) @ concat (map serialize_column s)"

text \<open>A length-prefixed string whose bytes must be there.\<close>

definition need_string16 :: "byte list \<Rightarrow> (string \<times> byte list) option" where
  "need_string16 bs =
     Option.bind (take_word bs) (\<lambda>(n :: u16, r).
       if unat n \<le> length r then Some (string_of_bytes (take (unat n) r), drop (unat n) r) else None)"

text \<open>A string that is left out, without moving on, when its bytes are not there.\<close>

definition opt_string16 :: "byte list \<Rightarrow> (string \<times> byte list) option" where
  "opt_string16 bs =
     Option.bind (take_word bs) (\<lambda>(n :: u16, r).
       if unat n > 0 \<and> unat n \<le> length r then Some (string_of_bytes (take (unat n) r), drop (unat n) r)
       else Some ([], r))"

definition deserialize_column :: "byte list \<Rightarrow> (column \<times> byte list) option" where
  "deserialize_column bs0 =
     Option.bind (need_string16 bs0) (\<lambda>(name, bs1).
     Option.bind (need_string16 bs1) (\<lambda>(tbl, bs2).
       case bs2 of
         t # flags # bs3 \<Rightarrow>
           (let c = default_column\<lparr>col_name := name, col_table_name := tbl, col_type := t,
                  col_not_null := (flags AND 1 \<noteq> 0), col_is_primary := (flags AND 2 \<noteq> 0),
                  col_is_unique := (flags AND 4 \<noteq> 0), col_is_dropped := (flags AND 8 \<noteq> 0)\<rparr>
            in case opt_string16 bs3 of
                 None \<Rightarrow> Some (c, bs3)
               | Some (dv, bs4) \<Rightarrow>
                   (let (vl, bs5) = (case take_word bs4 of None \<Rightarrow> (0, bs4) | Some (w, r) \<Rightarrow> (w, r));
                        (chk, bs6) = (case opt_string16 bs5 of None \<Rightarrow> ([], bs5) | Some r \<Rightarrow> r)
                    in Some (c\<lparr>col_default_value := dv, col_varchar_length := vl, col_check_expr := chk\<rparr>, bs6)))
       | _ \<Rightarrow> None))"

fun deserialize_columns :: "nat \<Rightarrow> schema \<Rightarrow> byte list \<Rightarrow> schema" where
  "deserialize_columns 0 acc bs = acc"
| "deserialize_columns (Suc n) acc bs =
     (case deserialize_column bs of
        None \<Rightarrow> []
      | Some (c, rest) \<Rightarrow> deserialize_columns n (add_column acc c) rest)"

definition deserialize_schema :: "byte list \<Rightarrow> schema" where
  "deserialize_schema bs =
     (case take_word bs of
        None \<Rightarrow> []
      | Some (n :: u32, rest) \<Rightarrow> if n > 4096 then [] else deserialize_columns (unat n) [] rest)"

definition schema_serialized_size :: "schema \<Rightarrow> nat" where
  "schema_serialized_size s =
     fold (\<lambda>c size. size + (2 + length (col_name c)) + (2 + length (col_table_name c)) + (1 + 1) +
       (2 + length (col_default_value c)) + 4 + (2 + length (col_check_expr c))) s 4"

subsection \<open>Reading back a schema\<close>

definition column_ok :: "column \<Rightarrow> bool" where
  "column_ok c = (length (col_name c) < 2 ^ 16 \<and> length (col_table_name c) < 2 ^ 16 \<and>
     length (col_default_value c) < 2 ^ 16 \<and> length (col_check_expr c) < 2 ^ 16)"

definition schema_ok :: "schema \<Rightarrow> bool" where
  "schema_ok s = (length s \<le> 4096 \<and> list_all column_ok s)"

lemma unat_length16: "n < 2 ^ 16 \<Longrightarrow> unat (of_nat n :: u16) = n"
  by (simp add: unat_of_nat)

lemma need_put_string16 [simp]: "length s < 2 ^ 16 \<Longrightarrow> need_string16 (put_string16 s @ r) = Some (s, r)"
  by (simp add: need_string16_def put_string16_def Let_def unat_length16)

lemma opt_put_string16 [simp]: "length s < 2 ^ 16 \<Longrightarrow> opt_string16 (put_string16 s @ r) = Some (s, r)"
  by (simp add: opt_string16_def put_string16_def Let_def unat_length16)

lemma length_put_string16: "length s < 2 ^ 16 \<Longrightarrow> length (put_string16 s) = 2 + length s"
  by (simp add: put_string16_def Let_def unat_length16)

lemma column_flags_bits:
  "column_flags c AND 1 \<noteq> 0 \<longleftrightarrow> col_not_null c" "column_flags c AND 2 \<noteq> 0 \<longleftrightarrow> col_is_primary c"
  "column_flags c AND 4 \<noteq> 0 \<longleftrightarrow> col_is_unique c" "column_flags c AND 8 \<noteq> 0 \<longleftrightarrow> col_is_dropped c"
  by (cases "col_not_null c"; cases "col_is_primary c"; cases "col_is_unique c"; cases "col_is_dropped c";
      simp add: column_flags_def)+

lemma deserialize_serialize_column:
  "column_ok c \<Longrightarrow> deserialize_column (serialize_column c @ r) = Some (c, r)"
  by (simp add: deserialize_column_def serialize_column_def column_ok_def column_flags_bits
      default_column_def)

lemma deserialize_serialize_columns:
  "list_all column_ok s \<Longrightarrow>
   deserialize_columns (length s) acc (concat (map serialize_column s) @ r) = acc @ s"
  by (induction s arbitrary: acc) (auto simp: deserialize_serialize_column add_column_def)

text \<open>C28: a schema survives its byte image.  For a schema of at most 4096 columns whose strings are shorter than
  64 KiB, \<^verbatim>\<open>Schema::deserialize\<close> of the image written by \<^verbatim>\<open>serialize\<close> gives the schema back, whatever bytes
  follow, and \<^verbatim>\<open>serialized_size\<close> is the length of the image.\<close>

theorem schema_roundtrip:
  assumes "schema_ok s"
  shows "deserialize_schema (serialize_schema s @ rest) = s \<and>
    length (serialize_schema s) = schema_serialized_size s"
proof
  have "\<not> (of_nat (length s) :: u32) > 4096"
    using assms by (simp add: schema_ok_def word_less_nat_alt unat_of_nat)
  then show "deserialize_schema (serialize_schema s @ rest) = s"
    using assms deserialize_serialize_columns [of s "[]" rest]
    by (simp add: deserialize_schema_def serialize_schema_def schema_ok_def unat_of_nat)
  have "length (serialize_column c) = length (col_name c) + length (col_table_name c) +
      length (col_default_value c) + length (col_check_expr c) + 14" if "column_ok c" for c
    using that by (simp add: serialize_column_def column_ok_def length_put_string16)
  then have "list_all column_ok t \<Longrightarrow>
      fold (\<lambda>c size. size + (2 + length (col_name c)) + (2 + length (col_table_name c)) + (1 + 1) +
        (2 + length (col_default_value c)) + 4 + (2 + length (col_check_expr c))) t k =
      k + length (concat (map serialize_column t))" for t k
    by (induction t arbitrary: k) auto
  then show "length (serialize_schema s) = schema_serialized_size s"
    using assms by (simp add: serialize_schema_def schema_serialized_size_def schema_ok_def)
qed

theorem schema_roundtrip_witness:
  "deserialize_schema (serialize_schema
     [default_column\<lparr>col_name := ''id'', col_type := 1, col_is_primary := True\<rparr>,
      default_column\<lparr>col_name := ''txt'', col_type := 5, col_varchar_length := 20, col_default_value := ''x''\<rparr>] @ [9]) =
     [default_column\<lparr>col_name := ''id'', col_type := 1, col_is_primary := True\<rparr>,
      default_column\<lparr>col_name := ''txt'', col_type := 5, col_varchar_length := 20, col_default_value := ''x''\<rparr>]"
  using schema_roundtrip
    [of "[default_column\<lparr>col_name := ''id'', col_type := 1, col_is_primary := True\<rparr>,
      default_column\<lparr>col_name := ''txt'', col_type := 5, col_varchar_length := 20, col_default_value := ''x''\<rparr>]" "[9]"]
  by (simp add: schema_ok_def column_ok_def default_column_def)

subsection \<open>Row validation\<close>

lemma validate_columns_None:
  "length row = length s \<Longrightarrow>
   validate_columns s row = None \<longleftrightarrow> (\<forall>i < length s. validate_column (s ! i) (row ! i) = None)"
  by (induction row s rule: list_induct2) (auto simp: less_Suc_eq_0_disj split: option.splits)

text \<open>What an accepted row satisfies.  \<^verbatim>\<open>validate_row\<close> accepts a row exactly when it has one value per column and
  every column that is not dropped has its constraints satisfied: no NULL where NOT NULL is declared, no string
  longer than the declared length, and only timestamps and datetimes in temporal columns.\<close>

lemma validate_row_accepts:
  "validate_row s row = None \<longleftrightarrow>
     length row = length s \<and>
     (\<forall>i < length s. \<not> col_is_dropped (s ! i) \<longrightarrow>
        (col_not_null (s ! i) \<longrightarrow> row ! i \<noteq> VNull) \<and>
        (col_type (s ! i) = type_byte KVarchar \<and> 0 < col_varchar_length (s ! i) \<longrightarrow>
           length (get_string (row ! i)) \<le> unat (col_varchar_length (s ! i))) \<and>
        (col_type (s ! i) \<in> {type_byte KTimestamp, type_byte KDatetime} \<longrightarrow>
           row ! i = VNull \<or> type_id_of (row ! i) \<in> {KTimestamp, KDatetime}))"
proof -
  have null: "is_null v \<longleftrightarrow> v = VNull" for v by (cases v) (simp_all add: is_null_def)
  have ty: "type_byte a = type_byte b \<longleftrightarrow> a = b" for a b by (cases a; cases b) (simp_all add: type_byte_def)
  have "validate_column c v = None \<longleftrightarrow> (\<not> col_is_dropped c \<longrightarrow>
      (col_not_null c \<longrightarrow> v \<noteq> VNull) \<and>
      (col_type c = type_byte KVarchar \<and> 0 < col_varchar_length c \<longrightarrow>
         length (get_string v) \<le> unat (col_varchar_length c)) \<and>
      (col_type c \<in> {type_byte KTimestamp, type_byte KDatetime} \<longrightarrow>
         v = VNull \<or> type_id_of v \<in> {KTimestamp, KDatetime}))" for c v
    by (cases "v = VNull"; cases "col_is_dropped c"; cases "col_type c = type_byte KTimestamp";
        cases "col_type c = type_byte KDatetime")
      (auto simp add: validate_column_def null get_string_def ty not_less word_gt_0)
  then show ?thesis using validate_columns_None [of row s] by (auto simp: validate_row_def)
qed

end
