(* ===== verification/Resource_Manager.thy ===== *)
theory Resource_Manager
  imports Prelude
begin

section \<open>Resource admission\<close>

text \<open>
  Model of \<^verbatim>\<open>src/src/common/resource_manager.{h,cpp}\<close>: the counters of connections, queries,
  transactions, memory and temporary space, kept at their width.  Every function runs under
  one latch; a function that waits on the condition variable is split at the wait into an
  entry, one evaluation of the loop (\<open>poll\<close>) and the time-out, so that the step relation
  \<open>rm_step\<close> can interleave them with the functions of other threads.
\<close>

subsection \<open>Limits and counters\<close>

record limits =
  max_connections :: u32
  max_active_queries :: u32
  max_active_write_queries :: u32
  max_active_transactions :: u32
  admission_queue_size :: u32
  query_memory_limit :: u64
  temp_file_limit_bytes :: u64

record resource_snapshot =
  active_connections :: u32
  active_queries :: u32
  active_write_queries :: u32
  waiting_queries :: u32
  memory_reserved :: u64
  temp_bytes_used :: u64
  rejected_connections :: u64
  rejected_queries :: u64
  admission_timeouts :: u64
  active_transactions :: u32
  waiting_transactions :: u32
  transaction_timeouts :: u64

definition initial_stats :: resource_snapshot where
  "initial_stats = \<lparr>active_connections = 0, active_queries = 0, active_write_queries = 0, waiting_queries = 0,
     memory_reserved = 0, temp_bytes_used = 0, rejected_connections = 0, rejected_queries = 0,
     admission_timeouts = 0, active_transactions = 0, waiting_transactions = 0, transaction_timeouts = 0\<rparr>"

subsection \<open>Connections\<close>

definition acquire_connection :: "limits \<Rightarrow> resource_snapshot \<Rightarrow> bool \<times> resource_snapshot" where
  "acquire_connection lim s =
     (if max_connections lim \<noteq> 0 \<and> active_connections s \<ge> max_connections lim
      then (False, s\<lparr>rejected_connections := rejected_connections s + 1\<rparr>)
      else (True, s\<lparr>active_connections := active_connections s + 1\<rparr>))"

definition release_connection :: "resource_snapshot \<Rightarrow> resource_snapshot" where
  "release_connection s =
     (if active_connections s > 0 then s\<lparr>active_connections := active_connections s - 1\<rparr> else s)"

subsection \<open>Queries\<close>

definition acquire_query_enter :: "limits \<Rightarrow> resource_snapshot \<Rightarrow> bool \<times> resource_snapshot" where
  "acquire_query_enter lim s =
     (if admission_queue_size lim \<noteq> 0 \<and> waiting_queries s \<ge> admission_queue_size lim
      then (False, s\<lparr>rejected_queries := rejected_queries s + 1\<rparr>)
      else (True, s\<lparr>waiting_queries := waiting_queries s + 1\<rparr>))"

definition query_ok :: "limits \<Rightarrow> resource_snapshot \<Rightarrow> bool \<Rightarrow> u64 \<Rightarrow> bool" where
  "query_ok lim s is_write memory_reservation =
     ((max_active_queries lim = 0 \<or> active_queries s < max_active_queries lim) \<and>
      (\<not> is_write \<or> max_active_write_queries lim = 0 \<or> active_write_queries s < max_active_write_queries lim) \<and>
      (memory_reservation = 0 \<or> query_memory_limit lim = 0 \<or>
       memory_reserved s + memory_reservation \<le> query_memory_limit lim))"

definition acquire_query_poll :: "limits \<Rightarrow> resource_snapshot \<Rightarrow> bool \<Rightarrow> u64 \<Rightarrow> bool \<times> resource_snapshot" where
  "acquire_query_poll lim s is_write memory_reservation =
     (if query_ok lim s is_write memory_reservation
      then (True, s\<lparr>waiting_queries := waiting_queries s - 1, active_queries := active_queries s + 1,
          active_write_queries := (if is_write then active_write_queries s + 1 else active_write_queries s),
          memory_reserved := memory_reserved s + memory_reservation\<rparr>)
      else (False, s))"

definition acquire_query_timeout :: "resource_snapshot \<Rightarrow> resource_snapshot" where
  "acquire_query_timeout s =
     s\<lparr>waiting_queries := waiting_queries s - 1, admission_timeouts := admission_timeouts s + 1,
       rejected_queries := rejected_queries s + 1\<rparr>"

definition sub_or_zero :: "u64 \<Rightarrow> u64 \<Rightarrow> u64" where
  "sub_or_zero reserved bytes = (if bytes > reserved then 0 else reserved - bytes)"

definition release_query :: "resource_snapshot \<Rightarrow> bool \<Rightarrow> u64 \<Rightarrow> resource_snapshot" where
  "release_query s is_write memory_reservation =
     s\<lparr>active_queries := (if active_queries s > 0 then active_queries s - 1 else active_queries s),
       active_write_queries :=
         (if is_write \<and> active_write_queries s > 0 then active_write_queries s - 1 else active_write_queries s),
       memory_reserved := sub_or_zero (memory_reserved s) memory_reservation\<rparr>"

subsection \<open>Transactions\<close>

definition acquire_transaction_enter :: "resource_snapshot \<Rightarrow> resource_snapshot" where
  "acquire_transaction_enter s = s\<lparr>waiting_transactions := waiting_transactions s + 1\<rparr>"

definition acquire_transaction_poll :: "limits \<Rightarrow> resource_snapshot \<Rightarrow> bool \<times> resource_snapshot" where
  "acquire_transaction_poll lim s =
     (if max_active_transactions lim = 0 \<or> active_transactions s < max_active_transactions lim
      then (True, s\<lparr>waiting_transactions := waiting_transactions s - 1,
          active_transactions := active_transactions s + 1\<rparr>)
      else (False, s))"

definition acquire_transaction_timeout :: "resource_snapshot \<Rightarrow> resource_snapshot" where
  "acquire_transaction_timeout s =
     s\<lparr>waiting_transactions := waiting_transactions s - 1, transaction_timeouts := transaction_timeouts s + 1\<rparr>"

definition release_transaction :: "resource_snapshot \<Rightarrow> resource_snapshot" where
  "release_transaction s =
     (if active_transactions s > 0 then s\<lparr>active_transactions := active_transactions s - 1\<rparr> else s)"

subsection \<open>Memory and temporary space\<close>

definition reserve_memory :: "limits \<Rightarrow> resource_snapshot \<Rightarrow> u64 \<Rightarrow> bool \<times> resource_snapshot" where
  "reserve_memory lim s bytes =
     (if query_memory_limit lim \<noteq> 0 \<and> memory_reserved s + bytes > query_memory_limit lim then (False, s)
      else (True, s\<lparr>memory_reserved := memory_reserved s + bytes\<rparr>))"

definition release_memory :: "resource_snapshot \<Rightarrow> u64 \<Rightarrow> resource_snapshot" where
  "release_memory s bytes = s\<lparr>memory_reserved := sub_or_zero (memory_reserved s) bytes\<rparr>"

definition reserve_temp :: "limits \<Rightarrow> resource_snapshot \<Rightarrow> u64 \<Rightarrow> bool \<times> resource_snapshot" where
  "reserve_temp lim s bytes =
     (if temp_file_limit_bytes lim \<noteq> 0 \<and> temp_bytes_used s + bytes > temp_file_limit_bytes lim then (False, s)
      else (True, s\<lparr>temp_bytes_used := temp_bytes_used s + bytes\<rparr>))"

definition release_temp :: "resource_snapshot \<Rightarrow> u64 \<Rightarrow> resource_snapshot" where
  "release_temp s bytes = s\<lparr>temp_bytes_used := sub_or_zero (temp_bytes_used s) bytes\<rparr>"

section \<open>The counters of every run\<close>

text \<open>Who holds what, as the guards and callers of the source know it: the number of open
  connections, running transactions and waiting queries, the running queries with their
  reservations, and the other reservations.\<close>

record holders =
  conns :: nat
  txns :: nat
  waiters :: nat
  queries :: "(bool \<times> u64) list"
  mem_held :: "u64 list"
  temp_held :: "u64 list"

definition no_holders :: holders where
  "no_holders = \<lparr>conns = 0, txns = 0, waiters = 0, queries = [], mem_held = [], temp_held = []\<rparr>"

text \<open>A request is of sane size when adding it to a full budget does not wrap around.\<close>

definition sane :: "u64 \<Rightarrow> u64 \<Rightarrow> bool" where
  "sane limit bytes \<longleftrightarrow> unat limit + unat bytes < 2 ^ 64"

inductive rm_step :: "limits \<Rightarrow> resource_snapshot \<times> holders \<Rightarrow> resource_snapshot \<times> holders \<Rightarrow> bool" for lim where
  connect: "acquire_connection lim s = (ok, s') \<Longrightarrow> rm_step lim (s, h) (s', if ok then h\<lparr>conns := Suc (conns h)\<rparr> else h)"
| disconnect: "conns h = Suc n \<Longrightarrow> rm_step lim (s, h) (release_connection s, h\<lparr>conns := n\<rparr>)"
| query_enter: "acquire_query_enter lim s = (ok, s') \<Longrightarrow>
    rm_step lim (s, h) (s', if ok then h\<lparr>waiters := Suc (waiters h)\<rparr> else h)"
| query_poll: "waiters h = Suc n \<Longrightarrow> sane (query_memory_limit lim) m \<Longrightarrow> acquire_query_poll lim s w m = (ok, s') \<Longrightarrow>
    rm_step lim (s, h) (s', if ok then h\<lparr>waiters := n, queries := (w, m) # queries h\<rparr> else h)"
| query_timeout: "waiters h = Suc n \<Longrightarrow> rm_step lim (s, h) (acquire_query_timeout s, h\<lparr>waiters := n\<rparr>)"
| query_release: "(w, m) \<in> set (queries h) \<Longrightarrow>
    rm_step lim (s, h) (release_query s w m, h\<lparr>queries := remove1 (w, m) (queries h)\<rparr>)"
| txn_enter: "rm_step lim (s, h) (acquire_transaction_enter s, h)"
| txn_poll: "acquire_transaction_poll lim s = (ok, s') \<Longrightarrow>
    rm_step lim (s, h) (s', if ok then h\<lparr>txns := Suc (txns h)\<rparr> else h)"
| txn_timeout: "rm_step lim (s, h) (acquire_transaction_timeout s, h)"
| txn_release: "txns h = Suc n \<Longrightarrow> rm_step lim (s, h) (release_transaction s, h\<lparr>txns := n\<rparr>)"
| mem_reserve: "sane (query_memory_limit lim) m \<Longrightarrow> reserve_memory lim s m = (ok, s') \<Longrightarrow>
    rm_step lim (s, h) (s', if ok then h\<lparr>mem_held := m # mem_held h\<rparr> else h)"
| mem_release: "m \<in> set (mem_held h) \<Longrightarrow>
    rm_step lim (s, h) (release_memory s m, h\<lparr>mem_held := remove1 m (mem_held h)\<rparr>)"
| temp_reserve: "sane (temp_file_limit_bytes lim) m \<Longrightarrow> reserve_temp lim s m = (ok, s') \<Longrightarrow>
    rm_step lim (s, h) (s', if ok then h\<lparr>temp_held := m # temp_held h\<rparr> else h)"
| temp_release: "m \<in> set (temp_held h) \<Longrightarrow>
    rm_step lim (s, h) (release_temp s m, h\<lparr>temp_held := remove1 m (temp_held h)\<rparr>)"

abbreviation bytes_of :: "u64 list \<Rightarrow> nat" where
  "bytes_of ms \<equiv> sum_list (map unat ms)"

abbreviation writers :: "holders \<Rightarrow> nat" where
  "writers h \<equiv> length (filter fst (queries h))"

text \<open>A counter with a limit is exact and within the limit; without a limit (0) nothing is claimed.\<close>

definition counted :: "'a::len word \<Rightarrow> 'a word \<Rightarrow> nat \<Rightarrow> bool" where
  "counted limit x n \<longleftrightarrow> (limit \<noteq> 0 \<longrightarrow> unat x = n \<and> n \<le> unat limit)"

definition writers_counted :: "limits \<Rightarrow> resource_snapshot \<Rightarrow> holders \<Rightarrow> bool" where
  "writers_counted lim s h \<longleftrightarrow>
     (max_active_queries lim \<noteq> 0 \<longrightarrow> unat (active_write_queries s) = writers h \<and>
        (max_active_write_queries lim \<noteq> 0 \<longrightarrow> writers h \<le> unat (max_active_write_queries lim)))"

definition rm_inv :: "limits \<Rightarrow> resource_snapshot \<times> holders \<Rightarrow> bool" where
  "rm_inv lim = (\<lambda>(s, h).
     counted (max_connections lim) (active_connections s) (conns h) \<and>
     counted (max_active_transactions lim) (active_transactions s) (txns h) \<and>
     counted (admission_queue_size lim) (waiting_queries s) (waiters h) \<and>
     counted (max_active_queries lim) (active_queries s) (length (queries h)) \<and>
     writers_counted lim s h \<and>
     counted (query_memory_limit lim) (memory_reserved s) (bytes_of (map snd (queries h)) + bytes_of (mem_held h)) \<and>
     counted (temp_file_limit_bytes lim) (temp_bytes_used s) (bytes_of (temp_held h)))"

subsection \<open>Counters step by step\<close>

lemma unat_inc:
  fixes x y :: "'a::len word"
  assumes "x < y"
  shows "unat (x + 1) = Suc (unat x)"
proof -
  have "unat y < 2 ^ LENGTH('a)" by (rule unsigned_less)
  then have "Suc (unat x) < 2 ^ LENGTH('a)" using assms unfolding word_less_nat_alt by linarith
  then show ?thesis by (simp add: unat_word_ariths(1))
qed

lemma unat_dec: "unat x = Suc n \<Longrightarrow> unat (x - 1) = n" for x :: "'a::len word"
  by (metis diff_Suc_1 unat_eq_zero unat_minus_one Zero_not_Suc)

lemma counted_inc: "counted limit x n \<Longrightarrow> limit = 0 \<or> x < limit \<Longrightarrow> counted limit (x + 1) (Suc n)"
  by (auto simp: counted_def unat_inc word_less_nat_alt)

lemma counted_dec: "counted limit x (Suc n) \<Longrightarrow> counted limit (x - 1) n"
  by (auto simp: counted_def unat_dec)

lemma counted_release: "counted limit x (Suc n) \<Longrightarrow> counted limit (if 0 < x then x - 1 else x) n"
  using counted_dec [of limit x n] by (auto simp: counted_def word_less_nat_alt)

lemma counted_reserve:
  assumes "counted limit x n" "sane limit m" "m = 0 \<or> limit = 0 \<or> x + m \<le> limit"
  shows "counted limit (x + m) (n + unat m)"
proof (cases "limit = 0")
  case False
  then have x: "unat x = n" "n \<le> unat limit" using assms(1) by (simp_all add: counted_def)
  then have "unat (x + m) = n + unat m"
    using assms(2) by (simp add: sane_def unat_word_ariths(1))
  then show ?thesis using assms(3) x False by (auto simp: counted_def word_le_nat_alt)
qed (simp add: counted_def)

lemma counted_give_back: "counted limit x (n + unat m) \<Longrightarrow> counted limit (sub_or_zero x m) n"
  by (auto simp: counted_def sub_or_zero_def word_less_nat_alt unat_sub word_le_nat_alt)

lemma bytes_of_remove1: "m \<in> set ms \<Longrightarrow> bytes_of (remove1 m ms) + unat m = bytes_of ms"
  by (induction ms) auto

lemma queries_remove1:
  assumes "(w, m) \<in> set qs"
  shows "Suc (length (remove1 (w, m) qs)) = length qs"
    "length (filter fst (remove1 (w, m) qs)) + (if w then 1 else 0) = length (filter fst qs)"
    "bytes_of (map snd (remove1 (w, m) qs)) + unat m = bytes_of (map snd qs)"
  using assms by (induction qs) auto

lemma rm_inv_init: "rm_inv lim (initial_stats, no_holders)"
  by (simp add: rm_inv_def initial_stats_def no_holders_def counted_def writers_counted_def)

lemma rm_inv_poll:
  assumes inv: "rm_inv lim (s, h)" and w: "waiters h = Suc n" and m: "sane (query_memory_limit lim) m"
    and ok: "query_ok lim s w m"
  shows "rm_inv lim (snd (acquire_query_poll lim s w m), h\<lparr>waiters := n, queries := (w, m) # queries h\<rparr>)"
proof -
  have "writers_counted lim (snd (acquire_query_poll lim s w m)) (h\<lparr>waiters := n, queries := (w, m) # queries h\<rparr>)"
  proof (cases "w \<and> max_active_queries lim \<noteq> 0")
    case True
    have W: "unat (active_write_queries s) = writers h" "length (queries h) = unat (active_queries s)"
        "active_queries s < max_active_queries lim"
      using inv ok True by (auto simp: rm_inv_def writers_counted_def counted_def query_ok_def)
    then have "active_write_queries s < max_active_queries lim"
      using length_filter_le [of fst "queries h"] by (simp add: word_less_nat_alt)
    then have "unat (active_write_queries s + 1) = Suc (writers h)" using unat_inc W(1) by metis
    then show ?thesis
      using ok True W(1) by (auto simp: writers_counted_def acquire_query_poll_def query_ok_def word_less_nat_alt)
  qed (use inv ok in \<open>auto simp: rm_inv_def writers_counted_def acquire_query_poll_def\<close>)
  moreover have "counted (max_active_queries lim) (active_queries s + 1) (Suc (length (queries h)))"
    using inv ok by (intro counted_inc) (auto simp: rm_inv_def query_ok_def)
  moreover have "counted (query_memory_limit lim) (memory_reserved s + m)
      (bytes_of (map snd (queries h)) + bytes_of (mem_held h) + unat m)"
    using inv ok m by (intro counted_reserve) (auto simp: rm_inv_def query_ok_def)
  moreover have "counted (admission_queue_size lim) (waiting_queries s - 1) n"
    using inv w by (intro counted_dec) (simp add: rm_inv_def)
  ultimately show ?thesis using inv ok by (simp add: rm_inv_def acquire_query_poll_def ac_simps)
qed

lemma rm_inv_release_query:
  assumes inv: "rm_inv lim (s, h)" and q: "(w, m) \<in> set (queries h)"
  shows "rm_inv lim (release_query s w m, h\<lparr>queries := remove1 (w, m) (queries h)\<rparr>)"
proof -
  note Q = queries_remove1 [OF q]
  have "counted (max_active_queries lim) (if 0 < active_queries s then active_queries s - 1 else active_queries s)
      (length (remove1 (w, m) (queries h)))"
    using inv Q(1) by (intro counted_release) (simp add: rm_inv_def)
  moreover have "counted (query_memory_limit lim) (sub_or_zero (memory_reserved s) m)
      (bytes_of (map snd (remove1 (w, m) (queries h))) + bytes_of (mem_held h))"
  proof (rule counted_give_back)
    have "bytes_of (map snd (remove1 (w, m) (queries h))) + bytes_of (mem_held h) + unat m =
        bytes_of (map snd (queries h)) + bytes_of (mem_held h)" using Q(3) by linarith
    then show "counted (query_memory_limit lim) (memory_reserved s)
        (bytes_of (map snd (remove1 (w, m) (queries h))) + bytes_of (mem_held h) + unat m)"
      using inv by (simp only: rm_inv_def split_conv)
  qed
  moreover have "writers_counted lim (release_query s w m) (h\<lparr>queries := remove1 (w, m) (queries h)\<rparr>)"
  proof (cases w)
    case True
    then show ?thesis
      using inv Q(2) unat_dec [of "active_write_queries s" "length (filter fst (remove1 (w, m) (queries h)))"]
      by (auto simp: rm_inv_def writers_counted_def release_query_def word_less_nat_alt)
  qed (use inv Q(2) in \<open>simp add: rm_inv_def writers_counted_def release_query_def\<close>)
  ultimately show ?thesis using inv by (simp add: rm_inv_def release_query_def)
qed

lemma rm_step_inv:
  assumes "rm_step lim c c'" "rm_inv lim c"
  shows "rm_inv lim c'"
  using assms
proof (induction rule: rm_step.induct)
  case (connect s ok s' h)
  then show ?case
    by (auto simp: rm_inv_def acquire_connection_def writers_counted_def not_le intro: counted_inc split: if_splits)
next
  case (disconnect h n s)
  then have "counted (max_connections lim) (if 0 < active_connections s then active_connections s - 1
      else active_connections s) n" by (intro counted_release) (simp add: rm_inv_def)
  then show ?case
    using disconnect by (cases "0 < active_connections s") (simp_all add: rm_inv_def release_connection_def writers_counted_def)
next
  case (query_enter s ok s' h)
  then show ?case
    by (auto simp: rm_inv_def acquire_query_enter_def writers_counted_def not_le intro: counted_inc split: if_splits)
next
  case (query_poll h n m s w ok s')
  then show ?case
    using rm_inv_poll [of lim s h n m w] by (cases "query_ok lim s w m") (auto simp: acquire_query_poll_def)
next
  case (query_timeout h n s)
  then show ?case
    by (simp add: rm_inv_def acquire_query_timeout_def writers_counted_def counted_dec)
next
  case (query_release w m h s)
  then show ?case by (intro rm_inv_release_query)
next
  case (txn_poll s ok s' h)
  then show ?case
    by (auto simp: rm_inv_def acquire_transaction_poll_def writers_counted_def intro: counted_inc split: if_splits)
next
  case (txn_release h n s)
  then have "counted (max_active_transactions lim) (if 0 < active_transactions s then active_transactions s - 1
      else active_transactions s) n" by (intro counted_release) (simp add: rm_inv_def)
  then show ?case
    using txn_release
    by (cases "0 < active_transactions s") (simp_all add: rm_inv_def release_transaction_def writers_counted_def)
next
  case (mem_reserve m s ok s' h)
  then have "counted (query_memory_limit lim) (memory_reserved s + m)
      (bytes_of (map snd (queries h)) + bytes_of (mem_held h) + unat m)" if ok
    using that by (intro counted_reserve) (auto simp: rm_inv_def reserve_memory_def not_less split: if_splits)
  then show ?case
    using mem_reserve
    by (cases ok) (auto simp: rm_inv_def reserve_memory_def writers_counted_def ac_simps split: if_splits)
next
  case (mem_release m h s)
  then have "counted (query_memory_limit lim) (memory_reserved s)
      (bytes_of (map snd (queries h)) + bytes_of (remove1 m (mem_held h)) + unat m)"
    using bytes_of_remove1 [of m "mem_held h"] by (simp add: rm_inv_def add.assoc)
  then show ?case
    using mem_release counted_give_back by (simp add: rm_inv_def release_memory_def writers_counted_def)
next
  case (temp_reserve m s ok s' h)
  then have "counted (temp_file_limit_bytes lim) (temp_bytes_used s + m) (bytes_of (temp_held h) + unat m)" if ok
    using that by (intro counted_reserve) (auto simp: rm_inv_def reserve_temp_def not_less split: if_splits)
  then show ?case
    using temp_reserve
    by (cases ok) (auto simp: rm_inv_def reserve_temp_def writers_counted_def ac_simps split: if_splits)
next
  case (temp_release m h s)
  then have "counted (temp_file_limit_bytes lim) (temp_bytes_used s) (bytes_of (remove1 m (temp_held h)) + unat m)"
    using bytes_of_remove1 [of m "temp_held h"] by (simp add: rm_inv_def)
  then show ?case
    using temp_release counted_give_back by (simp add: rm_inv_def release_temp_def writers_counted_def)
qed (simp_all add: rm_inv_def acquire_transaction_enter_def acquire_transaction_timeout_def writers_counted_def)

lemma rm_reachable_inv: "(rm_step lim)\<^sup>*\<^sup>* (initial_stats, no_holders) c \<Longrightarrow> rm_inv lim c"
  by (induction rule: rtranclp_induct) (auto intro: rm_inv_init rm_step_inv)

section \<open>Properties\<close>


definition small_limits :: limits where
  "small_limits = \<lparr>max_connections = 2, max_active_queries = 1, max_active_write_queries = 1,
     max_active_transactions = 1, admission_queue_size = 1, query_memory_limit = 100, temp_file_limit_bytes = 0\<rparr>"


text \<open>A request so large that the sum wraps around passes the memory limit: whatever the limit is, asking for two to
  the power of 64 minus the bytes in use is granted and leaves no byte reserved.\<close>

lemma reserve_memory_wraps:
  "fst (reserve_memory lim s (- memory_reserved s)) \<and>
   memory_reserved (snd (reserve_memory lim s (- memory_reserved s))) = 0"
  by (simp add: reserve_memory_def)

end
