(* ===== verification/Txn_Status_Log.thy ===== *)
theory Txn_Status_Log
  imports Hash_Map
begin

section \<open>The transaction status log\<close>

text \<open>
  Model of \<^verbatim>\<open>src/src/transaction/txn_status_log.{h,cpp}\<close>: an append-only file of 9-byte
  records and the table of final states read from it.  The file is the list of its bytes;
  what the operating system does with a write (how many of the nine bytes reach the file,
  whether the flush succeeds) is an input of \<open>status_record\<close>.
\<close>

datatype txn_final_state = FinalCommitted | FinalAborted

primrec final_code :: "txn_final_state \<Rightarrow> u8" where
  "final_code FinalCommitted = 1"
| "final_code FinalAborted = 2"

record status_log =
  log_file :: "byte list"
  log_open :: bool
  log_states :: "(u64, u8) hash_map"

definition status_image :: "u64 \<Rightarrow> txn_final_state \<Rightarrow> byte list" where
  "status_image xid state = put_word xid @ [final_code state]"

text \<open>The constructor's loop: whole records are entered, a shorter rest ends it.\<close>

function replay_loop :: "byte list \<Rightarrow> (u64, u8) hash_map \<Rightarrow> (u64, u8) hash_map" where
  "replay_loop file m =
     (if length file < 9 then m
      else replay_loop (drop 9 file) (hm_insert hash_u64 (get_word (take 8 file)) (file ! 8) m))"
  by pat_completeness auto
termination by (relation "measure (\<lambda>(file, m). length file)") auto

declare replay_loop.simps [simp del]

definition open_status_log :: "byte list \<Rightarrow> status_log" where
  "open_status_log file = \<lparr>log_file = file, log_open = True, log_states = replay_loop file hm_empty\<rparr>"

definition status_record :: "status_log \<Rightarrow> u64 \<Rightarrow> txn_final_state \<Rightarrow> nat \<Rightarrow> bool \<Rightarrow> bool \<times> status_log" where
  "status_record log xid state written synced =
     (if \<not> log_open log then (False, log)
      else
        (written \<ge> 9 \<and> synced,
         log\<lparr>log_states := hm_insert hash_u64 xid (final_code state) (log_states log),
             log_file := log_file log @ take written (status_image xid state)\<rparr>))"

text \<open>The answer is the stored byte read as an enumerator; only \<^verbatim>\<open>kCommitted\<close> and \<^verbatim>\<open>kAborted\<close>
  are ever compared against.\<close>

definition log_status :: "status_log \<Rightarrow> u64 \<Rightarrow> u8 option" where
  "log_status log xid = hm_find hash_u64 (log_states log) xid"

definition log_size :: "status_log \<Rightarrow> nat" where
  "log_size log = hm_size (log_states log)"

section \<open>Laws\<close>

fun records_image :: "(u64 \<times> txn_final_state) list \<Rightarrow> byte list" where
  "records_image [] = []"
| "records_image ((x, s) # rs) = status_image x s @ records_image rs"

lemma length_status_image [simp]: "length (status_image x s) = 9"
  by (simp add: status_image_def)

lemma status_image_fields [simp]:
  "get_word (take 8 (status_image x s)) = x" "(status_image x s @ rest) ! 8 = final_code s"
  by (simp_all add: status_image_def nth_append)

lemma replay_records:
  "length rest < 9 \<Longrightarrow> replay_loop (records_image rs @ rest) m =
     fold (\<lambda>(k, v). hm_insert hash_u64 k v) (map (\<lambda>(x, s). (x, final_code s)) rs) m"
proof (induction rs arbitrary: m)
  case Nil
  then show ?case by (simp add: replay_loop.simps)
next
  case (Cons r rs)
  obtain x s where r: "r = (x, s)" by (cases r)
  show ?case
    using Cons unfolding r by (subst replay_loop.simps) simp
qed

lemma records_image_snoc: "records_image (rs @ [(x, s)]) = records_image rs @ status_image x s"
  by (induction rs rule: records_image.induct) auto

lemma log_status_open:
  assumes "length rest < 9"
  shows "log_status (open_status_log (records_image rs @ rest)) =
    map_of (rev (map (\<lambda>(x, s). (x, final_code s)) rs))"
  using assms hm.find_fold_insert [OF hm.invar_empty, of hash_u64]
  by (simp add: fun_eq_iff log_status_def open_status_log_def replay_records hm.find_empty)

text \<open>A log that was opened and then written whole records.\<close>

inductive logged :: "status_log \<Rightarrow> (u64 \<times> txn_final_state) list \<Rightarrow> bool" where
  opened: "length rest = 0 \<Longrightarrow> logged (open_status_log (records_image rs @ rest)) rs"
| recorded: "logged log rs \<Longrightarrow> status_record log x s n sync = (ok, log') \<Longrightarrow> n \<ge> 9 \<Longrightarrow> logged log' (rs @ [(x, s)])"

lemma logged_states:
  "logged log rs \<Longrightarrow> log_open log \<and> log_file log = records_image rs \<and> hm_inv hash_u64 (log_states log) \<and>
     log_status log = map_of (rev (map (\<lambda>(x, s). (x, final_code s)) rs))"
proof (induction rule: logged.induct)
  case (opened rest rs)
  have "hm_inv hash_u64 (log_states (open_status_log (records_image rs)))"
    using replay_records [of "[]" rs] by (simp add: open_status_log_def hm.invar_fold_insert hm.invar_empty)
  then show ?case
    using opened log_status_open [of rest rs] by (simp add: open_status_log_def)
next
  case (recorded log rs x s n sync ok log')
  then have log': "log' = log\<lparr>log_states := hm_insert hash_u64 x (final_code s) (log_states log),
      log_file := log_file log @ status_image x s\<rparr>"
    by (auto simp: status_record_def)
  then show ?case
    using recorded by (auto simp: records_image_snoc log_status_def fun_eq_iff hm.laws)
qed

section \<open>Properties\<close>



text \<open>A torn record hides every later one.  The constructor skips a torn record at the end of the file but leaves its
  bytes there, and the file is opened for appending: after one torn record of \<open>k\<close> bytes, \<open>0 < k < 9\<close>, the next record
  is written, reported durable and lost at the following restart, where its bytes are read shifted.\<close>

lemma torn_record_hides_next:
  assumes "k < 9" "0 < k"
  defines "torn \<equiv> replicate k (0 :: byte)"
  defines "log \<equiv> snd (status_record (open_status_log torn) 1 FinalCommitted 9 True)"
  shows "fst (status_record (open_status_log torn) 1 FinalCommitted 9 True) \<and> log_status log 1 = Some 1 \<and>
    log_status (open_status_log (log_file log)) 1 = None"
proof -
  let ?file = "torn @ status_image 1 FinalCommitted"
  have lf: "log_file log = ?file"
    by (simp add: log_def status_record_def open_status_log_def)
  obtain bs where bs: "take 8 ?file = 0 # bs"
    using assms(2) by (cases k) (auto simp: torn_def)
  have "(get_word (take 8 ?file) :: u64) = 256 * of_nat (le_nat bs)" unfolding bs by (simp add: get_word_def)
  then have "even (get_word (take 8 ?file) :: u64)" by simp
  then have ne: "(get_word (take 8 ?file) :: u64) \<noteq> 1" by (metis odd_one)
  have "replay_loop ?file hm_empty = hm_insert hash_u64 (get_word (take 8 ?file)) (?file ! 8) hm_empty"
    using assms(1) by (subst replay_loop.simps, subst replay_loop.simps) (simp add: torn_def)
  then have "log_status (open_status_log ?file) 1 = None"
    using ne by (simp add: open_status_log_def log_status_def hm.laws)
  moreover have "log_status log 1 = Some 1"
    using assms(1) by (simp add: log_def status_record_def open_status_log_def torn_def log_status_def
        replay_loop.simps hm.laws)
  ultimately show ?thesis by (simp add: lf status_record_def open_status_log_def)
qed

end
