(* ===== verification/Transaction.thy ===== *)
theory Transaction
  imports Lock_Manager Schema Resource_Manager Txn_Status_Log
begin

section \<open>Transactions\<close>

text \<open>
  Model of \<^verbatim>\<open>src/src/transaction/transaction.{h,cpp}\<close>: the transaction object with its undo log
  and read set, the slot table of the transaction manager, snapshots, visibility, the
  serialisability check, commit, rollback and rollback to a savepoint.

  The manager's state is the record \<open>txn_manager\<close>.  The lock manager, the admission counters and
  the status log are the models of these components.  The write-ahead log, the heap, the
  indexes and the catalog are seen through the calls the manager makes: an operation returns the
  list of its calls in order (\<open>db_call\<close>), and what these components answer is the record \<open>db_env\<close>.
  A function that releases the latch in its middle is split there, so that the step relation of
  the next theory can interleave the parts.
\<close>

subsection \<open>Undo records\<close>

datatype undo_type = UInsert | UDelete | UHotInsert | UHotDelete
  | DdlCreateTable | DdlDropTable | DdlCreateIndex | DdlDropIndex
  | DdlAlterAddColumn | DdlAlterDropColumn | DdlAlterRenameColumn

primrec undo_code :: "undo_type \<Rightarrow> nat" where
  "undo_code UInsert = 0"
| "undo_code UDelete = 1"
| "undo_code UHotInsert = 2"
| "undo_code UHotDelete = 3"
| "undo_code DdlCreateTable = 10"
| "undo_code DdlDropTable = 11"
| "undo_code DdlCreateIndex = 12"
| "undo_code DdlDropIndex = 13"
| "undo_code DdlAlterAddColumn = 14"
| "undo_code DdlAlterDropColumn = 15"
| "undo_code DdlAlterRenameColumn = 16"

abbreviation is_ddl :: "undo_type \<Rightarrow> bool" where
  "is_ddl ty \<equiv> undo_code ty \<ge> 10"

text \<open>The index into the DDL infos is only set, and only read, for DDL records; it is 0 here for
  the others.\<close>

record undo_record =
  u_type :: undo_type
  u_table :: u32
  u_rid :: record_id
  u_ddl_idx :: nat

record ddl_saved_index =
  si_index_id :: u32
  si_index_name :: string
  si_table_id :: u32
  si_key_columns :: "u32 list"
  si_is_unique :: bool

record ddl_undo_info =
  ddl_table_name :: string
  ddl_saved_schema :: schema
  ddl_saved_indexes :: "ddl_saved_index list"
  ddl_auto_index_ids :: "u32 list"
  ddl_single_index :: ddl_saved_index
  ddl_column_position :: u32
  ddl_rename_from :: string
  ddl_deferred_deletes :: "string list"

type_synonym read_record = "u32 \<times> record_id"

subsection \<open>The transaction object\<close>

datatype txn_state = TxnActive | TxnCommitted | TxnAborted
datatype isolation_level = Snapshot | Serializable

record txn =
  t_id :: u64
  t_snapshot :: u64
  t_commit :: u64
  t_state :: txn_state
  t_active :: "u64 list"
  t_undo :: "undo_record list"
  t_ddl :: "ddl_undo_info list"
  t_reads :: "read_record list"
  t_isolation :: isolation_level
  t_resource :: bool

definition new_txn :: "u64 \<Rightarrow> u64 \<Rightarrow> u64 list \<Rightarrow> txn" where
  "new_txn txn_id snapshot_id active_snapshot =
     \<lparr>t_id = txn_id, t_snapshot = snapshot_id, t_commit = 0, t_state = TxnActive, t_active = active_snapshot,
      t_undo = [], t_ddl = [], t_reads = [], t_isolation = Snapshot, t_resource = False\<rparr>"

definition record_read :: "txn \<Rightarrow> u32 \<Rightarrow> record_id \<Rightarrow> txn" where
  "record_read t table_id rid =
     (if t_isolation t \<noteq> Serializable then t
      else if (table_id, rid) \<in> set (t_reads t) then t
      else t\<lparr>t_reads := t_reads t @ [(table_id, rid)]\<rparr>)"

definition dml_record :: "undo_type \<Rightarrow> u32 \<Rightarrow> record_id \<Rightarrow> undo_record" where
  "dml_record ty table_id rid = \<lparr>u_type = ty, u_table = table_id, u_rid = rid, u_ddl_idx = 0\<rparr>"

definition record_insert :: "txn \<Rightarrow> u32 \<Rightarrow> record_id \<Rightarrow> txn" where
  "record_insert t table_id rid = t\<lparr>t_undo := t_undo t @ [dml_record UInsert table_id rid]\<rparr>"

definition record_delete :: "txn \<Rightarrow> u32 \<Rightarrow> record_id \<Rightarrow> txn" where
  "record_delete t table_id rid = t\<lparr>t_undo := t_undo t @ [dml_record UDelete table_id rid]\<rparr>"

definition record_hot_insert :: "txn \<Rightarrow> u32 \<Rightarrow> record_id \<Rightarrow> txn" where
  "record_hot_insert t table_id rid = t\<lparr>t_undo := t_undo t @ [dml_record UHotInsert table_id rid]\<rparr>"

definition record_hot_delete :: "txn \<Rightarrow> u32 \<Rightarrow> record_id \<Rightarrow> txn" where
  "record_hot_delete t table_id rid = t\<lparr>t_undo := t_undo t @ [dml_record UHotDelete table_id rid]\<rparr>"

definition record_ddl :: "txn \<Rightarrow> undo_type \<Rightarrow> u32 \<Rightarrow> ddl_undo_info \<Rightarrow> txn" where
  "record_ddl t ty table_id info =
     t\<lparr>t_ddl := t_ddl t @ [info],
       t_undo := t_undo t @ [\<lparr>u_type = ty, u_table = table_id, u_rid = \<lparr>rid_page = 0, rid_slot = 0\<rparr>,
         u_ddl_idx = length (t_ddl t)\<rparr>]\<rparr>"

definition undo_mark :: "txn \<Rightarrow> nat" where
  "undo_mark t = length (t_undo t)"

definition truncate_undo :: "txn \<Rightarrow> nat \<Rightarrow> txn" where
  "truncate_undo t mark =
     (let ddl_remove = length (filter (\<lambda>r. is_ddl (u_type r)) (drop mark (t_undo t)))
      in t\<lparr>t_undo := take mark (t_undo t), t_ddl := take (length (t_ddl t) - ddl_remove) (t_ddl t)\<rparr>)"

subsection \<open>The transaction manager\<close>

text \<open>The reserved field \<^verbatim>\<open>home_page\<close> of a slot is written but never read and is left out.\<close>

record txn_slot =
  s_txn_id :: u64
  s_snapshot :: u64
  s_commit :: u64
  s_state :: txn_state

record committed_write_set =
  cw_commit :: u64
  cw_txn :: u64
  cw_writes :: "read_record list"

record txn_manager =
  tm_slots :: "txn_slot list"
  tm_next :: u64
  tm_isolation :: isolation_level
  tm_log :: "status_log option"
  tm_history :: "committed_write_set list"

definition kFrozenTxnId :: u64 where
  "kFrozenTxnId = 2"

definition free_slot :: txn_slot where
  "free_slot = \<lparr>s_txn_id = 0, s_snapshot = 0, s_commit = 0, s_state = TxnActive\<rparr>"

definition new_manager :: "nat \<Rightarrow> txn_manager" where
  "new_manager slots =
     \<lparr>tm_slots = replicate (if slots = 0 then 1 else slots) free_slot, tm_next = 1, tm_isolation = Snapshot,
      tm_log = None, tm_history = []\<rparr>"

definition set_default_isolation :: "txn_manager \<Rightarrow> isolation_level \<Rightarrow> txn_manager" where
  "set_default_isolation tm level = tm\<lparr>tm_isolation := level\<rparr>"

definition set_status_log :: "txn_manager \<Rightarrow> status_log \<Rightarrow> txn_manager" where
  "set_status_log tm log = tm\<lparr>tm_log := Some log\<rparr>"

definition find_slot :: "txn_manager \<Rightarrow> u64 \<Rightarrow> nat option" where
  "find_slot tm txn_id = first_index (\<lambda>s. s_txn_id s = txn_id) (tm_slots tm)"

definition find_active_slot :: "txn_manager \<Rightarrow> u64 \<Rightarrow> nat option" where
  "find_active_slot tm txn_id = first_index (\<lambda>s. s_txn_id s = txn_id \<and> s_state s = TxnActive) (tm_slots tm)"

definition slot_free :: "txn_slot \<Rightarrow> bool" where
  "slot_free s = (s_txn_id s = 0 \<or> s_state s \<noteq> TxnActive)"

definition occupied_slot :: "u64 \<Rightarrow> u64 \<Rightarrow> txn_slot" where
  "occupied_slot txn_id snapshot_id =
     \<lparr>s_txn_id = txn_id, s_snapshot = snapshot_id, s_commit = 0, s_state = TxnActive\<rparr>"

definition alloc_slot :: "txn_manager \<Rightarrow> u64 \<Rightarrow> u64 \<Rightarrow> (nat \<times> txn_manager) option" where
  "alloc_slot tm txn_id snapshot_id =
     map_option (\<lambda>i. (i, tm\<lparr>tm_slots := (tm_slots tm)[i := occupied_slot txn_id snapshot_id]\<rparr>))
       (first_index slot_free (tm_slots tm))"

definition next_snapshot_id :: "txn_manager \<Rightarrow> u64 \<times> txn_manager" where
  "next_snapshot_id tm = (tm_next tm, tm\<lparr>tm_next := tm_next tm + 1\<rparr>)"

text \<open>The latched part of \<^verbatim>\<open>begin\<close>: the free slot, the active ids, the new ids.\<close>

definition begin_section :: "txn_manager \<Rightarrow> (txn \<times> txn_manager) option" where
  "begin_section tm =
     (case first_index slot_free (tm_slots tm) of
        None \<Rightarrow> None
      | Some i \<Rightarrow>
          (let active_snapshot = map s_txn_id (filter (\<lambda>s. \<not> slot_free s) (tm_slots tm));
               txn_id = tm_next tm;
               snapshot_id = txn_id + 1
           in Some ((new_txn txn_id snapshot_id active_snapshot)
                 \<lparr>t_resource := True, t_isolation := tm_isolation tm\<rparr>,
               tm\<lparr>tm_next := snapshot_id, tm_slots := (tm_slots tm)[i := occupied_slot txn_id snapshot_id]\<rparr>)))"

subsection \<open>Questions about transactions\<close>

definition get_txn_state :: "txn_manager \<Rightarrow> u64 \<Rightarrow> txn_state option" where
  "get_txn_state tm txn_id = map_option s_state (List.find (\<lambda>s. s_txn_id s = txn_id) (tm_slots tm))"

definition get_commit_id :: "txn_manager \<Rightarrow> u64 \<Rightarrow> u64" where
  "get_commit_id tm txn_id =
     (case List.find (\<lambda>s. s_txn_id s = txn_id) (tm_slots tm) of Some s \<Rightarrow> s_commit s | None \<Rightarrow> 0)"

definition is_txn_committed :: "txn_manager \<Rightarrow> u64 \<Rightarrow> bool" where
  "is_txn_committed tm txn_id =
     (case List.find (\<lambda>s. s_txn_id s = txn_id) (tm_slots tm) of
        Some s \<Rightarrow> s_state s = TxnCommitted
      | None \<Rightarrow>
          (case tm_log tm of
             None \<Rightarrow> False
           | Some log \<Rightarrow> (case log_status log txn_id of None \<Rightarrow> False | Some c \<Rightarrow> c = final_code FinalCommitted)))"

definition active_min :: "(txn_slot \<Rightarrow> u64) \<Rightarrow> txn_slot list \<Rightarrow> u64 \<Rightarrow> u64" where
  "active_min key ss start =
     fold (\<lambda>s m. if s_state s = TxnActive \<and> s_txn_id s \<noteq> 0 \<and> key s < m then key s else m) ss start"

definition get_oldest_active_txn_id :: "txn_manager \<Rightarrow> u64" where
  "get_oldest_active_txn_id tm = active_min s_txn_id (tm_slots tm) (tm_next tm)"

definition has_active_transactions :: "txn_manager \<Rightarrow> bool" where
  "has_active_transactions tm = list_ex (\<lambda>s. s_state s = TxnActive \<and> s_txn_id s \<noteq> 0) (tm_slots tm)"

definition ensure_next_txn_id_at_least :: "txn_manager \<Rightarrow> u64 \<Rightarrow> txn_manager" where
  "ensure_next_txn_id_at_least tm next_id = (if next_id > tm_next tm then tm\<lparr>tm_next := next_id\<rparr> else tm)"

definition is_uncommitted :: "txn_manager \<Rightarrow> u64 \<Rightarrow> bool" where
  "is_uncommitted tm xid =
     (case Option.bind (tm_log tm) (\<lambda>log. log_status log xid) of
        Some c \<Rightarrow> c = final_code FinalAborted
      | None \<Rightarrow> (case get_txn_state tm xid of Some live \<Rightarrow> live \<noteq> TxnCommitted | None \<Rightarrow> False))"

definition is_visible :: "txn_manager \<Rightarrow> u64 \<Rightarrow> u64 \<Rightarrow> txn \<Rightarrow> bool" where
  "is_visible tm xmin xmax t =
     (if xmin = 0 then False
      else if xmin = kFrozenTxnId then xmax = 0
      else if xmin = t_id t then xmax \<noteq> t_id t
      else if xmin < t_snapshot t
      then
        (if xmin \<in> set (t_active t) then False
         else if is_uncommitted tm xmin then False
         else if xmax = 0 then True
         else if xmax = t_id t then False
         else if xmax \<ge> t_snapshot t then True
         else if xmax \<in> set (t_active t) then True
         else if is_uncommitted tm xmax then True
         else False)
      else False)"

subsection \<open>The serialisability check\<close>

definition ssi_check_conflict :: "txn_manager \<Rightarrow> txn \<Rightarrow> bool" where
  "ssi_check_conflict tm t =
     (if t_reads t = [] then False
      else list_ex (\<lambda>e. cw_txn e \<noteq> t_id t \<and> \<not> cw_commit e < t_snapshot t \<and>
          list_ex (\<lambda>w. w \<in> set (t_reads t)) (cw_writes e)) (tm_history tm))"

definition prune_committed_history :: "txn_manager \<Rightarrow> txn_manager" where
  "prune_committed_history tm =
     (if \<not> has_active_transactions tm then tm\<lparr>tm_history := []\<rparr>
      else tm\<lparr>tm_history := filter (\<lambda>e. cw_commit e \<ge> active_min s_snapshot (tm_slots tm) (tm_next tm)) (tm_history tm)\<rparr>)"

subsection \<open>The rest of the database\<close>

datatype db_call =
    WalBegin u64
  | WalCommit u64
  | WalAbort u64
  | WalUndoInsert u64 u32 record_id
  | WalUndoDelete u64 u32 record_id
  | DeleteIndexEntries u32 record_id
  | RollbackInsert u32 record_id u64
  | RollbackDelete u32 record_id u64
  | UndoDdl undo_type u32 ddl_undo_info
  | CommitDdlDeferred "ddl_undo_info list"
  | PruneObsolete u32 record_id u64 u64 u64

text \<open>What the other components answer during one operation.  The answers about one undo record
  (whether its tuple is readable, whether the compensating log record was written) are numbered
  by the position of the record in the undo log.\<close>

record db_env =
  commit_lsn :: u64
  abort_lsn :: u64
  heap_exists :: "u32 \<Rightarrow> bool"
  table_exists :: "u32 \<Rightarrow> bool"
  tuple_readable :: "nat \<Rightarrow> bool"
  undo_logged :: "nat \<Rightarrow> bool"
  log_written :: nat
  log_synced :: bool

subsection \<open>Undoing one record\<close>

definition apply_undo_record ::
  "db_env \<Rightarrow> nat \<Rightarrow> undo_record \<Rightarrow> u64 \<Rightarrow> bool \<Rightarrow> u64 \<Rightarrow> ddl_undo_info option \<Rightarrow> bool \<times> db_call list" where
  "apply_undo_record env i rec lsn for_savepoint txn_id ddl_info =
     (if is_ddl (u_type rec)
      then (case ddl_info of None \<Rightarrow> (True, []) | Some info \<Rightarrow> (True, [UndoDdl (u_type rec) (u_table rec) info]))
      else if \<not> heap_exists env (u_table rec) then (True, [])
      else if \<not> table_exists env (u_table rec) then (True, [])
      else
        (let table = u_table rec; rid = u_rid rec in
         case u_type rec of
           UInsert \<Rightarrow>
             (if for_savepoint \<and> \<not> undo_logged env i then (False, [WalUndoInsert txn_id table rid])
              else (True, (if for_savepoint then [WalUndoInsert txn_id table rid] else []) @
                (if tuple_readable env i then [DeleteIndexEntries table rid] else []) @ [RollbackInsert table rid lsn]))
         | UHotInsert \<Rightarrow>
             (if for_savepoint \<and> \<not> undo_logged env i then (False, [WalUndoInsert txn_id table rid])
              else (True, (if for_savepoint then [WalUndoInsert txn_id table rid] else []) @ [RollbackInsert table rid lsn]))
         | UDelete \<Rightarrow>
             (if for_savepoint \<and> \<not> undo_logged env i then (False, [WalUndoDelete txn_id table rid])
              else (True, (if for_savepoint then [WalUndoDelete txn_id table rid] else []) @ [RollbackDelete table rid lsn]))
         | UHotDelete \<Rightarrow>
             (if for_savepoint \<and> \<not> undo_logged env i then (False, [WalUndoDelete txn_id table rid])
              else (True, (if for_savepoint then [WalUndoDelete txn_id table rid] else []) @ [RollbackDelete table rid lsn]))
         | _ \<Rightarrow> (True, [])))"

text \<open>The info a DDL record refers to; an index outside the vector is undefined (\<open>None\<close>).\<close>

definition ddl_info_for :: "txn \<Rightarrow> undo_record \<Rightarrow> ddl_undo_info option option" where
  "ddl_info_for t rec =
     (if is_ddl (u_type rec)
      then if u_ddl_idx rec < length (t_ddl t) then Some (Some (t_ddl t ! u_ddl_idx rec)) else None
      else Some None)"

text \<open>The loop of a full rollback, over the positions of the undo log from the last one down.\<close>

fun rollback_loop :: "db_env \<Rightarrow> txn \<Rightarrow> u64 \<Rightarrow> nat list \<Rightarrow> db_call list option" where
  "rollback_loop env t lsn [] = Some []"
| "rollback_loop env t lsn (i # is) =
     (case ddl_info_for t (t_undo t ! i) of
        None \<Rightarrow> None
      | Some info \<Rightarrow>
          map_option (\<lambda>calls. snd (apply_undo_record env i (t_undo t ! i) lsn False (t_id t) info) @ calls)
            (rollback_loop env t lsn is))"

fun savepoint_loop :: "db_env \<Rightarrow> txn \<Rightarrow> nat list \<Rightarrow> (bool \<times> db_call list) option" where
  "savepoint_loop env t [] = Some (True, [])"
| "savepoint_loop env t (i # is) =
     (case ddl_info_for t (t_undo t ! i) of
        None \<Rightarrow> None
      | Some info \<Rightarrow>
          (case apply_undo_record env i (t_undo t ! i) 0 True (t_id t) info of
             (False, calls) \<Rightarrow> Some (False, calls)
           | (True, calls) \<Rightarrow> map_option (\<lambda>(ok, rest). (ok, calls @ rest)) (savepoint_loop env t is)))"

definition rollback_to_savepoint :: "db_env \<Rightarrow> txn \<Rightarrow> nat \<Rightarrow> (bool \<times> txn \<times> db_call list) option" where
  "rollback_to_savepoint env t mark =
     (if mark \<ge> length (t_undo t) then Some (True, t, [])
      else map_option (\<lambda>(ok, calls). (ok, if ok then truncate_undo t mark else t, calls))
        (savepoint_loop env t (rev [mark..<length (t_undo t)])))"

subsection \<open>Rollback\<close>

definition abort_section :: "txn_manager \<Rightarrow> u64 \<Rightarrow> txn_manager" where
  "abort_section tm xid =
     (case find_slot tm xid of
        None \<Rightarrow> tm
      | Some i \<Rightarrow> tm\<lparr>tm_slots := (tm_slots tm)[i := (tm_slots tm ! i)\<lparr>s_state := TxnAborted\<rparr>]\<rparr>)"

definition log_final_state :: "db_env \<Rightarrow> txn_manager \<Rightarrow> u64 \<Rightarrow> txn_final_state \<Rightarrow> txn_manager" where
  "log_final_state env tm xid state =
     tm\<lparr>tm_log := map_option (\<lambda>log. snd (status_record log xid state (log_written env) (log_synced env))) (tm_log tm)\<rparr>"

text \<open>The state of the database a transaction ends in: the manager, the locks and the admission counters.\<close>

record txn_db =
  db_tm :: txn_manager
  db_locks :: lock_manager
  db_stats :: resource_snapshot

definition release_resource :: "txn \<Rightarrow> resource_snapshot \<Rightarrow> resource_snapshot" where
  "release_resource t stats = (if t_resource t then release_transaction stats else stats)"

definition rollback_txn :: "db_env \<Rightarrow> txn_db \<Rightarrow> txn \<Rightarrow> (txn_db \<times> db_call list) option" where
  "rollback_txn env db t =
     (let tm1 = abort_section (db_tm db) (t_id t);
          tm2 = log_final_state env tm1 (t_id t) FinalAborted
      in map_option
        (\<lambda>calls. (db\<lparr>db_tm := tm2, db_locks := unlock_all (db_locks db) (t_id t),
            db_stats := release_resource t (db_stats db)\<rparr>, WalAbort (t_id t) # calls))
        (rollback_loop env t (abort_lsn env) (rev [0..<length (t_undo t)])))"

subsection \<open>Commit\<close>

definition write_set :: "txn \<Rightarrow> read_record list" where
  "write_set t = map (\<lambda>r. (u_table r, u_rid r)) (t_undo t)"

text \<open>The latched part of \<^verbatim>\<open>commit\<close>; the second result is the oldest active id for pruning.\<close>

definition publish_section :: "txn_manager \<Rightarrow> txn \<Rightarrow> txn_manager \<times> u64" where
  "publish_section tm t =
     (let commit_id = tm_next tm;
          next_id = commit_id + 1;
          slots = (case find_active_slot tm (t_id t) of
              None \<Rightarrow> tm_slots tm
            | Some i \<Rightarrow> (tm_slots tm)[i := (tm_slots tm ! i)\<lparr>s_commit := commit_id, s_state := TxnCommitted\<rparr>]);
          oldest_active = active_min s_txn_id slots next_id;
          entry = \<lparr>cw_commit = commit_id, cw_txn = t_id t, cw_writes = write_set t\<rparr>
      in (prune_committed_history (tm\<lparr>tm_next := next_id, tm_slots := slots, tm_history := tm_history tm @ [entry]\<rparr>),
          oldest_active))"

definition prune_calls :: "db_env \<Rightarrow> txn \<Rightarrow> u64 \<Rightarrow> db_call list" where
  "prune_calls env t oldest_active =
     map (\<lambda>r. PruneObsolete (u_table r) (u_rid r) oldest_active (t_id t) (commit_lsn env))
       (filter (\<lambda>r. (u_type r = UDelete \<or> u_type r = UHotDelete) \<and> heap_exists env (u_table r)) (t_undo t))"

definition finish_commit :: "db_env \<Rightarrow> txn_db \<Rightarrow> txn \<Rightarrow> txn_db \<times> db_call list" where
  "finish_commit env db t =
     (let (tm1, oldest_active) = publish_section (db_tm db) t;
          tm2 = log_final_state env tm1 (t_id t) FinalCommitted
      in (db\<lparr>db_tm := tm2, db_locks := unlock_all (db_locks db) (t_id t),
             db_stats := release_resource t (db_stats db)\<rparr>,
          WalCommit (t_id t) # (if t_ddl t = [] then [] else [CommitDdlDeferred (t_ddl t)]) @
            prune_calls env t oldest_active))"

text \<open>The thread's current transaction is given by its id; committing another one, or none, answers false.\<close>

definition commit_txn ::
  "db_env \<Rightarrow> txn_db \<Rightarrow> u64 option \<Rightarrow> txn option \<Rightarrow> (bool \<times> u64 option \<times> txn_db \<times> db_call list) option" where
  "commit_txn env db current txn =
     (case txn of
        None \<Rightarrow> Some (False, current, db, [])
      | Some t \<Rightarrow>
          if current \<noteq> Some (t_id t) then Some (False, current, db, [])
          else if t_isolation t = Serializable \<and> ssi_check_conflict (db_tm db) t
          then map_option (\<lambda>(db', calls). (False, None, db', calls)) (rollback_txn env db t)
          else if commit_lsn env = 0
          then map_option (\<lambda>(db', calls). (False, None, db', WalCommit (t_id t) # calls)) (rollback_txn env db t)
          else (let (db', calls) = finish_commit env db t in Some (True, None, db', calls)))"

definition rollback_current ::
  "db_env \<Rightarrow> txn_db \<Rightarrow> u64 option \<Rightarrow> txn option \<Rightarrow> (bool \<times> u64 option \<times> txn_db \<times> db_call list) option" where
  "rollback_current env db current txn =
     (case txn of
        None \<Rightarrow> Some (False, current, db, [])
      | Some t \<Rightarrow>
          if current \<noteq> Some (t_id t) then Some (False, current, db, [])
          else map_option (\<lambda>(db', calls). (True, None, db', calls)) (rollback_txn env db t))"

text \<open>\<^verbatim>\<open>begin\<close> after the admission counters let the transaction in: without a free slot the admission is given back.\<close>

definition begin_txn :: "txn_db \<Rightarrow> u64 option \<Rightarrow> (txn option \<times> u64 option \<times> txn_db \<times> db_call list)" where
  "begin_txn db current =
     (case current of
        Some _ \<Rightarrow> (None, current, db\<lparr>db_stats := release_transaction (db_stats db)\<rparr>, [])
      | None \<Rightarrow>
          (case begin_section (db_tm db) of
             None \<Rightarrow> (None, None, db\<lparr>db_stats := release_transaction (db_stats db)\<rparr>, [])
           | Some (t, tm') \<Rightarrow> (Some t, Some (t_id t), db\<lparr>db_tm := tm'\<rparr>, [WalBegin (t_id t)])))"

section \<open>The undo log\<close>

text \<open>The DDL records of the log refer to the saved infos one after the other.\<close>

definition ddl_indices :: "undo_record list \<Rightarrow> nat list" where
  "ddl_indices us = map u_ddl_idx (filter (\<lambda>r. is_ddl (u_type r)) us)"

definition undo_ok :: "txn \<Rightarrow> bool" where
  "undo_ok t \<longleftrightarrow> ddl_indices (t_undo t) = [0..<length (t_ddl t)]"

text \<open>What a transaction does between two points of its life.\<close>

inductive txn_work :: "txn \<Rightarrow> txn \<Rightarrow> bool" where
  idle: "txn_work t t"
| read: "txn_work t t' \<Longrightarrow> txn_work t (record_read t' tbl rid)"
| insert: "txn_work t t' \<Longrightarrow> txn_work t (record_insert t' tbl rid)"
| delete: "txn_work t t' \<Longrightarrow> txn_work t (record_delete t' tbl rid)"
| hot_insert: "txn_work t t' \<Longrightarrow> txn_work t (record_hot_insert t' tbl rid)"
| hot_delete: "txn_work t t' \<Longrightarrow> txn_work t (record_hot_delete t' tbl rid)"
| ddl: "txn_work t t' \<Longrightarrow> is_ddl ty \<Longrightarrow> txn_work t (record_ddl t' ty tbl info)"

lemmas record_defs = record_read_def record_insert_def record_delete_def record_hot_insert_def record_hot_delete_def
  record_ddl_def dml_record_def

lemma ddl_indices_append [simp]: "ddl_indices (us @ vs) = ddl_indices us @ ddl_indices vs"
  by (simp add: ddl_indices_def)

lemma ddl_indices_simps [simp]:
  "ddl_indices [] = []"
  "ddl_indices (r # us) = (if is_ddl (u_type r) then u_ddl_idx r # ddl_indices us else ddl_indices us)"
  by (simp_all add: ddl_indices_def)

lemma length_ddl_indices: "length (ddl_indices us) = length (filter (\<lambda>r. is_ddl (u_type r)) us)"
  by (simp add: ddl_indices_def)

lemma undo_ok_new: "undo_ok (new_txn i s a)"
  by (simp add: undo_ok_def new_txn_def)

lemma txn_work_extends:
  assumes "txn_work t t'"
  shows "\<exists>us infos. t_undo t' = t_undo t @ us \<and> t_ddl t' = t_ddl t @ infos \<and>
    ddl_indices us = [length (t_ddl t)..<length (t_ddl t) + length infos] \<and> t_id t' = t_id t"
  using assms
proof (induction rule: txn_work.induct)
  case (ddl t t' ty tbl info)
  then obtain us infos where "t_undo t' = t_undo t @ us" "t_ddl t' = t_ddl t @ infos"
    "ddl_indices us = [length (t_ddl t)..<length (t_ddl t) + length infos]" "t_id t' = t_id t" by blast
  then show ?case using ddl.hyps(2)
    by (intro exI [of _ "us @ [\<lparr>u_type = ty, u_table = tbl, u_rid = \<lparr>rid_page = 0, rid_slot = 0\<rparr>,
         u_ddl_idx = length (t_ddl t')\<rparr>]"] exI [of _ "infos @ [info]"]) (simp add: record_ddl_def)
qed (auto simp: record_defs)

lemma txn_work_undo_ok: "txn_work t t' \<Longrightarrow> undo_ok t \<Longrightarrow> undo_ok t'"
proof -
  assume "txn_work t t'" "undo_ok t"
  then obtain us infos where "t_undo t' = t_undo t @ us" "t_ddl t' = t_ddl t @ infos"
    "ddl_indices us = [length (t_ddl t)..<length (t_ddl t) + length infos]"
    using txn_work_extends by blast
  then show ?thesis
    using \<open>undo_ok t\<close> upt_add_eq_append [of 0 "length (t_ddl t)" "length infos"] by (simp add: undo_ok_def)
qed

lemma undo_ok_truncate:
  assumes "undo_ok t"
  shows "undo_ok (truncate_undo t mark)"
proof -
  have split: "ddl_indices (take mark (t_undo t)) @ ddl_indices (drop mark (t_undo t)) = [0..<length (t_ddl t)]"
    using assms by (simp add: undo_ok_def flip: ddl_indices_append)
  let ?n = "length (ddl_indices (take mark (t_undo t)))"
  have "ddl_indices (take mark (t_undo t)) = take ?n [0..<length (t_ddl t)]"
    by (metis append_eq_conv_conj split)
  moreover have len: "?n + length (ddl_indices (drop mark (t_undo t))) = length (t_ddl t)"
    using arg_cong [OF split, of length] by simp
  ultimately have "ddl_indices (take mark (t_undo t)) = [0..<?n]"
    by (metis add_0 le_add1 take_upt)
  moreover have "length (t_ddl t) - length (ddl_indices (drop mark (t_undo t))) = ?n" using len by linarith
  ultimately show ?thesis
    by (simp add: undo_ok_def truncate_undo_def Let_def length_ddl_indices [symmetric])
qed

lemma ddl_info_defined:
  assumes "undo_ok t" "i < length (t_undo t)"
  shows "ddl_info_for t (t_undo t ! i) \<noteq> None"
proof (cases "is_ddl (u_type (t_undo t ! i))")
  case True
  then have "u_ddl_idx (t_undo t ! i) \<in> set (ddl_indices (t_undo t))"
    using assms(2) by (auto simp: ddl_indices_def)
  then show ?thesis using assms(1) True by (simp add: undo_ok_def ddl_info_for_def)
qed (simp add: ddl_info_for_def)

subsection \<open>What a rollback undoes\<close>

text \<open>The one call that takes a recorded change back.\<close>

definition reversal :: "txn \<Rightarrow> u64 \<Rightarrow> undo_record \<Rightarrow> db_call" where
  "reversal t lsn rec =
     (if is_ddl (u_type rec) then UndoDdl (u_type rec) (u_table rec) (t_ddl t ! u_ddl_idx rec)
      else if u_type rec = UInsert \<or> u_type rec = UHotInsert then RollbackInsert (u_table rec) (u_rid rec) lsn
      else RollbackDelete (u_table rec) (u_rid rec) lsn)"

fun is_reversal :: "db_call \<Rightarrow> bool" where
  "is_reversal (RollbackInsert _ _ _) = True"
| "is_reversal (RollbackDelete _ _ _) = True"
| "is_reversal (UndoDdl _ _ _) = True"
| "is_reversal _ = False"

definition tables_present :: "db_env \<Rightarrow> txn \<Rightarrow> bool" where
  "tables_present env t \<longleftrightarrow> (\<forall>r \<in> set (t_undo t). heap_exists env (u_table r) \<and> table_exists env (u_table r))"

lemma undo_one:
  assumes "ddl_info_for t rec = Some info" "heap_exists env (u_table rec)" "table_exists env (u_table rec)"
  shows "fst (apply_undo_record env i rec lsn sp xid info) \<Longrightarrow>
      filter is_reversal (snd (apply_undo_record env i rec lsn sp xid info)) = [reversal t lsn rec]"
    and "fst (apply_undo_record env i rec lsn sp xid info) \<longleftrightarrow> is_ddl (u_type rec) \<or> \<not> sp \<or> undo_logged env i"
  using assms
  by (cases "u_type rec"; auto simp: apply_undo_record_def reversal_def ddl_info_for_def Let_def split: if_splits)+

lemma rollback_loop_calls:
  assumes "undo_ok t" "tables_present env t" "\<And>i. i \<in> set is \<Longrightarrow> i < length (t_undo t)"
  shows "\<exists>calls. rollback_loop env t lsn is = Some calls \<and>
    filter is_reversal calls = map (\<lambda>i. reversal t lsn (t_undo t ! i)) is"
  using assms(3)
proof (induction "is")
  case (Cons i js)
  have i: "i < length (t_undo t)" using Cons.prems by simp
  obtain info where info: "ddl_info_for t (t_undo t ! i) = Some info" using ddl_info_defined [OF assms(1) i] by blast
  have "heap_exists env (u_table (t_undo t ! i))" "table_exists env (u_table (t_undo t ! i))"
    using assms(2) nth_mem [OF i] by (simp_all add: tables_present_def)
  note U = undo_one [OF info this]
  show ?case using Cons.IH Cons.prems info U by auto
qed simp

lemma savepoint_loop_calls:
  assumes "undo_ok t" "tables_present env t" "\<And>i. i \<in> set is \<Longrightarrow> i < length (t_undo t)"
  shows "\<exists>ok calls. savepoint_loop env t is = Some (ok, calls) \<and>
    (ok \<longleftrightarrow> (\<forall>i \<in> set is. is_ddl (u_type (t_undo t ! i)) \<or> undo_logged env i)) \<and>
    (ok \<longrightarrow> filter is_reversal calls = map (\<lambda>i. reversal t 0 (t_undo t ! i)) is)"
  using assms(3)
proof (induction "is")
  case (Cons i js)
  have i: "i < length (t_undo t)" using Cons.prems by simp
  obtain info where info: "ddl_info_for t (t_undo t ! i) = Some info" using ddl_info_defined [OF assms(1) i] by blast
  have "heap_exists env (u_table (t_undo t ! i))" "table_exists env (u_table (t_undo t ! i))"
    using assms(2) nth_mem [OF i] by (simp_all add: tables_present_def)
  note U = undo_one [OF info this, of i 0 True "t_id t"]
  obtain ok calls where A: "apply_undo_record env i (t_undo t ! i) 0 True (t_id t) info = (ok, calls)" by fastforce
  show ?case using Cons.IH Cons.prems info U A by (cases ok) auto
qed auto

inductive txn_life :: "txn \<Rightarrow> bool" where
  start: "txn_life ((new_txn i s a)\<lparr>t_resource := r, t_isolation := lvl\<rparr>)"
| work: "txn_life t \<Longrightarrow> txn_work t t' \<Longrightarrow> txn_life t'"
| savepoint: "txn_life t \<Longrightarrow> rollback_to_savepoint env t mark = Some (ok, t', calls) \<Longrightarrow> txn_life t'"

lemma txn_life_undo_ok: "txn_life t \<Longrightarrow> undo_ok t"
proof (induction rule: txn_life.induct)
  case (start i s a r lvl)
  then show ?case using undo_ok_new by (simp add: undo_ok_def)
next
  case (work t t')
  then show ?case by (blast intro: txn_work_undo_ok)
next
  case (savepoint t env mark ok t' calls)
  then show ?case by (auto simp: rollback_to_savepoint_def undo_ok_truncate split: if_splits prod.splits)
qed

lemma map_nth_rev: "map (\<lambda>i. f (xs ! i)) (rev [m..<length xs]) = map f (rev (drop m xs))"
proof -
  have "map (\<lambda>i. f (xs ! i)) [m..<length xs] = map f (drop m xs)"
    by (rule nth_equalityI) simp_all
  then show ?thesis by (simp only: rev_map [symmetric])
qed

lemma rollback_loop_all:
  assumes "undo_ok t" "tables_present env t"
  shows "\<exists>calls. rollback_loop env t lsn (rev [0..<length (t_undo t)]) = Some calls \<and>
    filter is_reversal calls = map (reversal t lsn) (rev (t_undo t))"
  using rollback_loop_calls [OF assms, of "rev [0..<length (t_undo t)]" lsn] map_nth_rev [of "reversal t lsn" "t_undo t" 0]
  by simp

section \<open>Properties\<close>

text \<open>C15: a rollback takes back every change, last one first.  For a transaction at any point of its life, savepoint
  rollbacks included, a full rollback is defined (no DDL record refers outside the saved infos) and makes exactly one
  reversing call for each record of the undo log, in the opposite order, provided its tables still exist.\<close>

theorem rollback_reverses:
  assumes "txn_life t" "tables_present env t"
  shows "\<exists>db' calls. rollback_txn env db t = Some (db', calls) \<and>
    filter is_reversal calls = map (reversal t (abort_lsn env)) (rev (t_undo t))"
  using rollback_loop_all [OF txn_life_undo_ok [OF assms(1)] assms(2), of "abort_lsn env"]
  by (auto simp: rollback_txn_def Let_def)

text \<open>C16: rolling back to a savepoint restores it.  After any work since the savepoint, the undo log and the saved DDL
  infos are those of the savepoint, one reversing call was made for each later record in the opposite order, and the
  call answers true, exactly when every compensating log record could be written.\<close>

theorem savepoint_restores:
  assumes "txn_life t" "txn_work t t'" "tables_present env t'"
  shows "\<exists>ok t'' calls. rollback_to_savepoint env t' (undo_mark t) = Some (ok, t'', calls) \<and>
    (ok \<longleftrightarrow> (\<forall>i \<in> {undo_mark t..<length (t_undo t')}. is_ddl (u_type (t_undo t' ! i)) \<or> undo_logged env i)) \<and>
    (ok \<longrightarrow> t_undo t'' = t_undo t \<and> t_ddl t'' = t_ddl t \<and>
       filter is_reversal calls = map (reversal t' 0) (rev (drop (undo_mark t) (t_undo t'))))"
proof -
  let ?m = "undo_mark t" and ?is = "rev [undo_mark t..<length (t_undo t')]"
  have ok': "undo_ok t'" using txn_work_undo_ok [OF assms(2)] txn_life_undo_ok [OF assms(1)] by blast
  obtain us infos where ext: "t_undo t' = t_undo t @ us" "t_ddl t' = t_ddl t @ infos"
      "ddl_indices us = [length (t_ddl t)..<length (t_ddl t) + length infos]"
    using txn_work_extends [OF assms(2)] by blast
  have trunc: "t_undo (truncate_undo t' ?m) = t_undo t" "t_ddl (truncate_undo t' ?m) = t_ddl t"
  proof -
    have "length (filter (\<lambda>r. is_ddl (u_type r)) us) = length infos"
      using ext(3) length_ddl_indices [of us] by simp
    then show "t_undo (truncate_undo t' ?m) = t_undo t" "t_ddl (truncate_undo t' ?m) = t_ddl t"
      using ext by (simp_all add: truncate_undo_def Let_def undo_mark_def)
  qed
  obtain ok calls where L: "savepoint_loop env t' ?is = Some (ok, calls)"
      "ok \<longleftrightarrow> (\<forall>i \<in> set ?is. is_ddl (u_type (t_undo t' ! i)) \<or> undo_logged env i)"
      "ok \<longrightarrow> filter is_reversal calls = map (\<lambda>i. reversal t' 0 (t_undo t' ! i)) ?is"
    using savepoint_loop_calls [OF ok' assms(3), of ?is] by auto
  show ?thesis
  proof (cases "us = []")
    case True
    then have "infos = []" using arg_cong [OF ext(3), of length] by simp
    then show ?thesis using ext True by (auto simp: rollback_to_savepoint_def undo_mark_def)
  next
    case False
    then have "rollback_to_savepoint env t' ?m = Some (ok, if ok then truncate_undo t' ?m else t', calls)"
      using L(1) ext by (simp add: rollback_to_savepoint_def undo_mark_def)
    then show ?thesis using L(2,3) trunc map_nth_rev [of "reversal t' 0" "t_undo t'" ?m] by auto
  qed
qed

definition sample_env :: db_env where
  "sample_env = \<lparr>commit_lsn = 9, abort_lsn = 8, heap_exists = (\<lambda>_. True), table_exists = (\<lambda>_. True),
     tuple_readable = (\<lambda>_. True), undo_logged = (\<lambda>_. True), log_written = 9, log_synced = True\<rparr>"

definition sample_txn :: txn where
  "sample_txn = record_insert (new_txn 3 4 []) 7 \<lparr>rid_page = 1, rid_slot = 2\<rparr>"

lemma sample_txn_life: "txn_life (new_txn 3 4 [])" "txn_work (new_txn 3 4 []) sample_txn"
  using txn_life.start [where i = 3 and s = 4 and a = "[]" and r = False and lvl = Snapshot] txn_work.insert [OF txn_work.idle]
  by (simp_all add: new_txn_def sample_txn_def)

theorem rollback_reverses_witness:
  "\<exists>db' calls. rollback_txn sample_env \<lparr>db_tm = new_manager 1, db_locks = lm_init, db_stats = initial_stats\<rparr> sample_txn =
      Some (db', calls) \<and> filter is_reversal calls = [RollbackInsert 7 \<lparr>rid_page = 1, rid_slot = 2\<rparr> 8]"
proof -
  have "tables_present sample_env sample_txn" by (simp add: tables_present_def sample_env_def)
  from rollback_reverses [OF txn_life.work [OF sample_txn_life] this] show ?thesis
    by (simp add: sample_txn_def sample_env_def new_txn_def record_defs reversal_def)
qed

theorem savepoint_restores_witness:
  "\<exists>t'' calls. rollback_to_savepoint sample_env sample_txn 0 = Some (True, t'', calls) \<and> t_undo t'' = []"
proof -
  have "tables_present sample_env sample_txn" by (simp add: tables_present_def sample_env_def)
  from savepoint_restores [OF sample_txn_life this] show ?thesis
    by (auto simp: undo_mark_def new_txn_def sample_env_def)
qed

end
