(* ===== verification/Txn_Snapshots.thy ===== *)
theory Txn_Snapshots
  imports Transaction
begin

section \<open>Snapshots under concurrency\<close>

text \<open>
  The transactions of all threads over one manager.  A state has the manager, the running
  transactions, each with the set of transactions that had committed when it began, the sets of
  committed and aborted transactions, and the write sets of all commits.  The steps are the
  latched parts of the manager's operations in any order.  The flip of a slot to aborted and the entry
  in the status log are one step here; \<open>recycled_abort_visible\<close> shows what happens when
  another transaction begins between them.
\<close>

record txn_sys =
  sy_tm :: txn_manager
  sy_live :: "u64 \<rightharpoonup> txn \<times> u64 set"
  sy_committed :: "u64 set"
  sy_aborted :: "u64 set"
  sy_commits :: "committed_write_set list"

definition known :: "txn_sys \<Rightarrow> u64 set" where
  "known s = dom (sy_live s) \<union> sy_committed s \<union> sy_aborted s"

text \<open>A database that was opened with the states of earlier runs in its status log; the first new
  id is above 2, the id that marks frozen rows.\<close>

definition txn_sys_start :: "txn_sys \<Rightarrow> bool" where
  "txn_sys_start s \<longleftrightarrow>
     (\<exists>n log next lvl.
        sy_tm s = \<lparr>tm_slots = replicate n free_slot, tm_next = next, tm_isolation = lvl, tm_log = Some log, tm_history = []\<rparr> \<and>
        log_open log \<and> hm_inv hash_u64 (log_states log) \<and> 2 < next \<and>
        (\<forall>x \<in> sy_committed s \<union> sy_aborted s. 0 < x \<and> x < next) \<and> sy_committed s \<inter> sy_aborted s = {} \<and>
        (\<forall>x \<in> sy_aborted s. log_status log x = Some 2) \<and> (\<forall>x \<in> sy_committed s. log_status log x \<in> {None, Some 1}) \<and>
        (\<forall>x. log_status log x \<noteq> None \<longrightarrow> x \<in> sy_committed s \<union> sy_aborted s)) \<and>
     sy_live s = Map.empty \<and> sy_commits s = []"

definition id_space :: "txn_manager \<Rightarrow> bool" where
  "id_space tm \<longleftrightarrow> unat (tm_next tm) + 2 < 2 ^ 64"

inductive txn_step :: "txn_sys \<Rightarrow> txn_sys \<Rightarrow> bool" where
  begin_step: "begin_section (sy_tm s) = Some (t, tm') \<Longrightarrow> id_space (sy_tm s) \<Longrightarrow>
    txn_step s (s\<lparr>sy_tm := tm', sy_live := (sy_live s)(t_id t \<mapsto> (t, sy_committed s))\<rparr>)"
| work_step: "sy_live s x = Some (t, C) \<Longrightarrow> txn_work t t' \<Longrightarrow>
    txn_step s (s\<lparr>sy_live := (sy_live s)(x \<mapsto> (t', C))\<rparr>)"
| publish_step: "sy_live s x = Some (t, C) \<Longrightarrow> id_space (sy_tm s) \<Longrightarrow>
    txn_step s (s\<lparr>sy_tm := fst (publish_section (sy_tm s) t), sy_live := (sy_live s)(x := None),
      sy_committed := insert x (sy_committed s),
      sy_commits := sy_commits s @ [\<lparr>cw_commit = tm_next (sy_tm s), cw_txn = x, cw_writes = write_set t\<rparr>]\<rparr>)"
| log_step: "x \<in> sy_committed s \<Longrightarrow> txn_step s (s\<lparr>sy_tm := log_final_state env (sy_tm s) x FinalCommitted\<rparr>)"
| abort_step: "sy_live s x = Some (t, C) \<Longrightarrow>
    txn_step s (s\<lparr>sy_tm := log_final_state env (abort_section (sy_tm s) x) x FinalAborted,
      sy_live := (sy_live s)(x := None), sy_aborted := insert x (sy_aborted s)\<rparr>)"
| isolation_step: "txn_step s (s\<lparr>sy_tm := set_default_isolation (sy_tm s) lvl\<rparr>)"
| next_step: "txn_step s (s\<lparr>sy_tm := ensure_next_txn_id_at_least (sy_tm s) n\<rparr>)"

subsection \<open>The invariant\<close>

definition log_agrees :: "txn_sys \<Rightarrow> bool" where
  "log_agrees s \<longleftrightarrow>
     (\<exists>log. tm_log (sy_tm s) = Some log \<and> log_open log \<and> hm_inv hash_u64 (log_states log) \<and>
        (\<forall>x \<in> sy_aborted s. log_status log x = Some 2) \<and> (\<forall>x \<in> sy_committed s. log_status log x \<in> {None, Some 1}) \<and>
        (\<forall>x. log_status log x \<noteq> None \<longrightarrow> x \<in> sy_committed s \<union> sy_aborted s))"

definition slot_agrees :: "txn_sys \<Rightarrow> txn_slot \<Rightarrow> bool" where
  "slot_agrees s sl \<longleftrightarrow>
     s_txn_id sl = 0 \<or>
     (case s_state sl of
        TxnActive \<Rightarrow> (\<exists>t C. sy_live s (s_txn_id sl) = Some (t, C) \<and> t_snapshot t = s_snapshot sl)
      | TxnCommitted \<Rightarrow> s_txn_id sl \<in> sy_committed s
      | TxnAborted \<Rightarrow> s_txn_id sl \<in> sy_aborted s)"

definition unique_ids :: "txn_slot list \<Rightarrow> bool" where
  "unique_ids ss \<longleftrightarrow>
     (\<forall>i < length ss. \<forall>j < length ss. s_txn_id (ss ! i) = s_txn_id (ss ! j) \<longrightarrow> s_txn_id (ss ! i) \<noteq> 0 \<longrightarrow> i = j)"

definition slots_agree :: "txn_sys \<Rightarrow> bool" where
  "slots_agree s \<longleftrightarrow>
     (\<forall>sl \<in> set (tm_slots (sy_tm s)). slot_agrees s sl) \<and> unique_ids (tm_slots (sy_tm s)) \<and>
     (\<forall>x \<in> dom (sy_live s). \<exists>sl \<in> set (tm_slots (sy_tm s)). s_txn_id sl = x \<and> s_state sl = TxnActive)"

definition ids_agree :: "txn_sys \<Rightarrow> bool" where
  "ids_agree s \<longleftrightarrow>
     dom (sy_live s) \<inter> sy_committed s = {} \<and> dom (sy_live s) \<inter> sy_aborted s = {} \<and>
     sy_committed s \<inter> sy_aborted s = {} \<and> (\<forall>x \<in> known s. 0 < x \<and> x < tm_next (sy_tm s))"

definition snapshot_agrees :: "txn_sys \<Rightarrow> u64 \<Rightarrow> txn \<Rightarrow> u64 set \<Rightarrow> bool" where
  "snapshot_agrees s x t C \<longleftrightarrow>
     t_id t = x \<and> x < t_snapshot t \<and> t_snapshot t \<le> tm_next (sy_tm s) \<and> C \<subseteq> sy_committed s \<and> 2 < x \<and>
     (\<forall>y \<in> C. y < t_snapshot t \<and> y \<notin> set (t_active t)) \<and>
     (\<forall>y \<in> known s. y \<noteq> x \<longrightarrow> y < t_snapshot t \<longrightarrow> y \<notin> set (t_active t) \<longrightarrow> y \<in> C \<union> sy_aborted s)"

definition history_agrees :: "txn_sys \<Rightarrow> bool" where
  "history_agrees s \<longleftrightarrow>
     set (tm_history (sy_tm s)) \<subseteq> set (sy_commits s) \<and> (\<forall>e \<in> set (sy_commits s). cw_commit e < tm_next (sy_tm s)) \<and>
     (\<forall>x t C. sy_live s x = Some (t, C) \<longrightarrow>
        (\<forall>e \<in> set (sy_commits s). t_snapshot t \<le> cw_commit e \<longrightarrow> e \<in> set (tm_history (sy_tm s))))"

definition txn_inv :: "txn_sys \<Rightarrow> bool" where
  "txn_inv s \<longleftrightarrow> log_agrees s \<and> slots_agree s \<and> ids_agree s \<and> history_agrees s \<and> 2 < tm_next (sy_tm s) \<and>
     (\<forall>x t C. sy_live s x = Some (t, C) \<longrightarrow> snapshot_agrees s x t C)"

lemma txn_inv_start:
  assumes "txn_sys_start s"
  shows "txn_inv s"
  using assms
  by (auto simp: txn_inv_def txn_sys_start_def log_agrees_def slots_agree_def slot_agrees_def ids_agree_def
      history_agrees_def known_def free_slot_def unique_ids_def)

subsection \<open>Replacing a slot\<close>

lemma unique_idsD:
  "unique_ids ss \<Longrightarrow> i < length ss \<Longrightarrow> j < length ss \<Longrightarrow> s_txn_id (ss ! i) = s_txn_id (ss ! j) \<Longrightarrow> s_txn_id (ss ! i) \<noteq> 0 \<Longrightarrow> i = j"
  by (simp add: unique_ids_def)

lemma unique_ids_update:
  assumes "unique_ids ss" "i < length ss"
    "s_txn_id sl \<notin> s_txn_id ` set ss \<or> s_txn_id sl = s_txn_id (ss ! i)"
  shows "unique_ids (ss[i := sl])"
proof -
  have "s_txn_id sl \<noteq> s_txn_id (ss ! j)" if "j < length ss" "j \<noteq> i" "s_txn_id sl \<noteq> 0" for j
    using assms that by (auto simp: unique_ids_def)
  then have *: "s_txn_id sl = s_txn_id (ss ! j) \<Longrightarrow> s_txn_id sl \<noteq> 0 \<Longrightarrow> j < length ss \<Longrightarrow> j = i" for j by blast
  show ?thesis
    unfolding unique_ids_def
  proof (intro allI impI)
    fix a b
    assume ab: "a < length (ss[i := sl])" "b < length (ss[i := sl])"
      "s_txn_id (ss[i := sl] ! a) = s_txn_id (ss[i := sl] ! b)" "s_txn_id (ss[i := sl] ! a) \<noteq> 0"
    consider "a = i" "b = i" | "a = i" "b \<noteq> i" | "a \<noteq> i" "b = i" | "a \<noteq> i" "b \<noteq> i" by blast
    then show "a = b"
    proof cases
      case 2
      then show ?thesis using ab * [of b] assms(2) by simp
    next
      case 3
      then show ?thesis using ab * [of a] assms(2) by simp
    next
      case 4
      then show ?thesis using ab unique_idsD [OF assms(1), of a b] by simp
    qed simp
  qed
qed

text \<open>A changed slot agrees when the others keep agreeing and every running transaction keeps its slot.\<close>

lemma slots_agree_update:
  assumes old: "slots_agree s" and slots: "tm_slots (sy_tm s') = (tm_slots (sy_tm s))[i := sl]" and i: "i < length (tm_slots (sy_tm s))"
    and keep: "\<And>sl'. sl' \<in> set (tm_slots (sy_tm s)) \<Longrightarrow> slot_agrees s sl' \<Longrightarrow>
      s_txn_id sl' \<noteq> s_txn_id (tm_slots (sy_tm s) ! i) \<or> s_txn_id sl' = 0 \<Longrightarrow> slot_agrees s' sl'"
    and new: "slot_agrees s' sl" "s_txn_id sl \<notin> s_txn_id ` set (tm_slots (sy_tm s)) \<or> s_txn_id sl = s_txn_id (tm_slots (sy_tm s) ! i)"
    and live: "\<And>x. x \<in> dom (sy_live s') \<Longrightarrow> x = s_txn_id sl \<and> s_state sl = TxnActive \<or>
      x \<in> dom (sy_live s) \<and> \<not> (s_txn_id (tm_slots (sy_tm s) ! i) = x \<and> s_state (tm_slots (sy_tm s) ! i) = TxnActive)"
  shows "slots_agree s'"
proof -
  let ?ss = "tm_slots (sy_tm s)"
  have d: "unique_ids ?ss" using old by (simp add: slots_agree_def)
  have "slot_agrees s' sl'" if mem: "sl' \<in> set (?ss[i := sl])" for sl'
  proof -
    obtain j where j: "j < length ?ss" "sl' = ?ss[i := sl] ! j"
      using mem unfolding in_set_conv_nth length_list_update by blast
    show ?thesis
    proof (cases "j = i")
      case False
      then have sl': "sl' = ?ss ! j" using j by simp
      moreover have "slot_agrees s (?ss ! j)" using old j(1) by (simp add: slots_agree_def)
      moreover have "s_txn_id (?ss ! j) \<noteq> s_txn_id (?ss ! i) \<or> s_txn_id (?ss ! j) = 0"
        using unique_idsD [OF d j(1) i] False by blast
      ultimately show ?thesis using keep [OF nth_mem [OF j(1)]] by blast
    qed (use j i new(1) in simp)
  qed
  moreover have "unique_ids (?ss[i := sl])" using d i new(2) by (rule unique_ids_update)
  moreover have "\<exists>sl' \<in> set (?ss[i := sl]). s_txn_id sl' = x \<and> s_state sl' = TxnActive" if "x \<in> dom (sy_live s')" for x
    using live [OF that]
  proof
    assume "x = s_txn_id sl \<and> s_state sl = TxnActive"
    then show ?thesis using i by (metis set_update_memI)
  next
    assume x: "x \<in> dom (sy_live s) \<and> \<not> (s_txn_id (?ss ! i) = x \<and> s_state (?ss ! i) = TxnActive)"
    then obtain sl' where sl': "sl' \<in> set ?ss" "s_txn_id sl' = x" "s_state sl' = TxnActive"
      using old unfolding slots_agree_def by blast
    then obtain j where "j < length ?ss" "?ss ! j = sl'" by (auto simp: in_set_conv_nth)
    moreover from this have "j \<noteq> i" using x sl' by auto
    ultimately have "sl' \<in> set (?ss[i := sl])" by (metis length_list_update nth_list_update_neq nth_mem)
    then show ?thesis using sl' by blast
  qed
  ultimately show ?thesis using slots by (simp add: slots_agree_def)
qed

lemma slot_agrees_tm [simp]: "slot_agrees (s\<lparr>sy_tm := tm\<rparr>) sl = slot_agrees s sl"
  by (simp add: slot_agrees_def split: txn_state.split)

lemma slot_id_known: "slot_agrees s sl \<Longrightarrow> s_txn_id sl \<noteq> 0 \<Longrightarrow> s_txn_id sl \<in> known s"
  by (auto simp: slot_agrees_def known_def split: txn_state.splits)

subsection \<open>Every step keeps the invariant\<close>

lemma txn_invD:
  assumes "txn_inv s"
  shows "log_agrees s" "slots_agree s" "ids_agree s" "history_agrees s" "2 < tm_next (sy_tm s)"
    "sy_live s x = Some (t, C) \<Longrightarrow> snapshot_agrees s x t C"
  using assms by (simp_all add: txn_inv_def)

lemma slots_agreeD:
  assumes "slots_agree s"
  shows "sl \<in> set (tm_slots (sy_tm s)) \<Longrightarrow> slot_agrees s sl" "unique_ids (tm_slots (sy_tm s))"
    "x \<in> dom (sy_live s) \<Longrightarrow> \<exists>sl \<in> set (tm_slots (sy_tm s)). s_txn_id sl = x \<and> s_state sl = TxnActive"
  using assms by (simp_all add: slots_agree_def)

lemma ids_agreeD:
  assumes "ids_agree s"
  shows "x \<in> dom (sy_live s) \<Longrightarrow> x \<notin> sy_committed s" "x \<in> dom (sy_live s) \<Longrightarrow> x \<notin> sy_aborted s"
    "x \<in> sy_committed s \<Longrightarrow> x \<notin> sy_aborted s" "x \<in> known s \<Longrightarrow> 0 < x" "x \<in> known s \<Longrightarrow> x < tm_next (sy_tm s)"
  using assms by (auto simp: ids_agree_def)

lemma id_space_less: "id_space tm \<Longrightarrow> tm_next tm < tm_next tm + 1"
  by (simp add: id_space_def word_less_nat_alt unat_word_ariths(1))

text \<open>A running transaction is in exactly one slot, and that slot is active.\<close>

lemma live_slot:
  assumes inv: "txn_inv s" and x: "sy_live s x = Some (t, C)"
  shows "find_slot (sy_tm s) x = find_active_slot (sy_tm s) x"
    "\<exists>i. find_active_slot (sy_tm s) x = Some i \<and> i < length (tm_slots (sy_tm s)) \<and>
      s_txn_id (tm_slots (sy_tm s) ! i) = x \<and> s_state (tm_slots (sy_tm s) ! i) = TxnActive"
proof -
  note S = slots_agreeD [OF txn_invD(2) [OF inv]]
  obtain sl where sl: "sl \<in> set (tm_slots (sy_tm s))" "s_txn_id sl = x" "s_state sl = TxnActive"
    using S(3) [of x] x by blast
  have x0: "0 < x" using ids_agreeD(4) [OF txn_invD(3) [OF inv], of x] x by (auto simp: known_def)
  have act: "s_state sl' = TxnActive" if "sl' \<in> set (tm_slots (sy_tm s))" "s_txn_id sl' = x" for sl'
  proof -
    obtain i j where "i < length (tm_slots (sy_tm s))" "tm_slots (sy_tm s) ! i = sl'"
      "j < length (tm_slots (sy_tm s))" "tm_slots (sy_tm s) ! j = sl"
      using sl(1) \<open>sl' \<in> _\<close> by (auto simp: in_set_conv_nth)
    then show ?thesis using unique_idsD [OF S(2), of i j] sl that x0 by auto
  qed
  have eq: "first_index P xs = first_index Q xs" if "\<And>a. a \<in> set xs \<Longrightarrow> P a = Q a" for P Q and xs :: "txn_slot list"
    using that by (induction xs) auto
  show "find_slot (sy_tm s) x = find_active_slot (sy_tm s) x"
    unfolding find_slot_def find_active_slot_def using act by (intro eq) auto
  have "find_active_slot (sy_tm s) x \<noteq> None"
    unfolding find_active_slot_def first_index_None using sl by blast
  then show "\<exists>i. find_active_slot (sy_tm s) x = Some i \<and> i < length (tm_slots (sy_tm s)) \<and>
      s_txn_id (tm_slots (sy_tm s) ! i) = x \<and> s_state (tm_slots (sy_tm s) ! i) = TxnActive"
    unfolding find_active_slot_def using first_index_Some by fastforce
qed

lemma begin_sectionE:
  assumes "begin_section tm = Some (t, tm')"
  obtains i where "i < length (tm_slots tm)" "slot_free (tm_slots tm ! i)" "t_id t = tm_next tm" "t_snapshot t = tm_next tm + 1"
    "t_active t = map s_txn_id (filter (\<lambda>s. \<not> slot_free s) (tm_slots tm))" "t_reads t = []" "t_undo t = []"
    "tm' = tm\<lparr>tm_next := tm_next tm + 1, tm_slots := (tm_slots tm)[i := occupied_slot (tm_next tm) (tm_next tm + 1)]\<rparr>"
proof -
  obtain i where i: "first_index slot_free (tm_slots tm) = Some i"
    using assms by (auto simp: begin_section_def split: option.splits)
  show thesis
    by (rule that [of i]) (use assms i first_index_Some [OF i] in \<open>auto simp: begin_section_def Let_def new_txn_def\<close>)
qed

lemma begin_keeps:
  assumes inv: "txn_inv s" and b: "begin_section (sy_tm s) = Some (t, tm')" and sp: "id_space (sy_tm s)"
  shows "txn_inv (s\<lparr>sy_tm := tm', sy_live := (sy_live s)(t_id t \<mapsto> (t, sy_committed s))\<rparr>)" (is "txn_inv ?s")
proof -
  obtain i where i: "i < length (tm_slots (sy_tm s))" "slot_free (tm_slots (sy_tm s) ! i)" "t_id t = tm_next (sy_tm s)"
      "t_snapshot t = tm_next (sy_tm s) + 1" "t_active t = map s_txn_id (filter (\<lambda>s. \<not> slot_free s) (tm_slots (sy_tm s)))"
      "tm' = (sy_tm s)\<lparr>tm_next := tm_next (sy_tm s) + 1,
         tm_slots := (tm_slots (sy_tm s))[i := occupied_slot (tm_next (sy_tm s)) (tm_next (sy_tm s) + 1)]\<rparr>"
    using begin_sectionE [OF b] .
  let ?N = "tm_next (sy_tm s)" and ?ss = "tm_slots (sy_tm s)"
  note S = slots_agreeD [OF txn_invD(2) [OF inv]] and I = ids_agreeD [OF txn_invD(3) [OF inv]]
  have N: "?N < ?N + 1" "2 < ?N" using id_space_less [OF sp] txn_invD(5) [OF inv] by simp_all
  then have N0: "0 < ?N" by (cases "?N = 0") (simp_all add: word_gt_0)
  have lt: "x < ?N" if "x \<in> known s" for x using I(5) [OF that] .
  have new: "?N \<notin> known s" using lt by blast
  have ids: "s_txn_id sl \<noteq> ?N" if "sl \<in> set ?ss" for sl
    using slot_id_known [OF S(1) [OF that]] new N(2) by (cases "s_txn_id sl = 0") auto
  have "log_agrees ?s" using txn_invD(1) [OF inv] by (simp add: log_agrees_def i)
  moreover have "slots_agree ?s"
  proof (rule slots_agree_update [OF txn_invD(2) [OF inv] _ i(1), where sl = "occupied_slot ?N (?N + 1)"])
    show "slot_agrees ?s sl" if "sl \<in> set ?ss" "slot_agrees s sl" for sl
      using that ids by (auto simp: slot_agrees_def i(3) split: txn_state.splits)
    show "slot_agrees ?s (occupied_slot ?N (?N + 1))" using i(3,4) by (simp add: slot_agrees_def occupied_slot_def)
    show "x = s_txn_id (occupied_slot ?N (?N + 1)) \<and> s_state (occupied_slot ?N (?N + 1)) = TxnActive \<or>
        x \<in> dom (sy_live s) \<and> \<not> (s_txn_id (?ss ! i) = x \<and> s_state (?ss ! i) = TxnActive)" if "x \<in> dom (sy_live ?s)" for x
    proof (cases "x = ?N")
      case False
      then have x: "x \<in> dom (sy_live s)" using that i(3) by (auto split: if_splits)
      then have "0 < x" using I(4) [of x] by (simp add: known_def)
      then show ?thesis using x i(2) by (auto simp: slot_free_def)
    qed (simp add: occupied_slot_def)
    show "s_txn_id (occupied_slot ?N (?N + 1)) \<notin> s_txn_id ` set ?ss \<or>
        s_txn_id (occupied_slot ?N (?N + 1)) = s_txn_id (?ss ! i)"
      using ids by (force simp: occupied_slot_def)
  qed (use i(6) in \<open>simp add: occupied_slot_def\<close>)
  moreover have kn: "known ?s = insert ?N (known s)" by (auto simp: known_def i(3))
  have lt1: "x < ?N + 1" if "x \<in> known s" for x using lt [OF that] N(1) by (rule less_trans)
  have "?N \<notin> sy_committed s" "?N \<notin> sy_aborted s" using new by (auto simp: known_def)
  then have "ids_agree ?s"
    using txn_invD(3) [OF inv] N N0 lt1 unfolding ids_agree_def kn by (auto simp: i(3,6))
  moreover have "history_agrees ?s"
    using txn_invD(4) [OF inv] N(1) by (auto simp: history_agrees_def i(3,4,6) intro: less_trans)
  moreover have "snapshot_agrees ?s x t' C" if "sy_live ?s x = Some (t', C)" for x t' C
  proof (cases "x = ?N")
    case True
    then have t': "t' = t" "C = sy_committed s" using that i(3) by auto
    have act: "y \<in> set (t_active t) \<longleftrightarrow> y \<in> dom (sy_live s)" for y
    proof
      assume "y \<in> set (t_active t)"
      then obtain sl where "sl \<in> set ?ss" "\<not> slot_free sl" "y = s_txn_id sl" using i(5) by auto
      then show "y \<in> dom (sy_live s)" using S(1) [of sl] by (auto simp: slot_agrees_def slot_free_def)
    next
      assume y: "y \<in> dom (sy_live s)"
      then obtain sl where "sl \<in> set ?ss" "s_txn_id sl = y" "s_state sl = TxnActive" using S(3) by blast
      moreover have "0 < y" using I(4) [of y] y by (simp add: known_def)
      ultimately show "y \<in> set (t_active t)" using i(5) by (auto simp: slot_free_def)
    qed
    have "y < ?N + 1" if "y \<in> known s" for y using lt [OF that] N(1) by simp
    then show ?thesis
      using N I(1) act unfolding snapshot_agrees_def kn t' True by (auto simp: i known_def)
  next
    case False
    then have "snapshot_agrees s x t' C" using that txn_invD(6) [OF inv] i(3) by simp
    then show ?thesis
      using N(1) unfolding snapshot_agrees_def kn by (auto simp: i(6) intro: less_imp_le order_trans)
  qed
  ultimately show ?thesis using N by (simp add: txn_inv_def i(6))
qed

lemma active_min_le:
  "active_min key ss start \<le> start"
  "sl \<in> set ss \<Longrightarrow> s_state sl = TxnActive \<Longrightarrow> s_txn_id sl \<noteq> 0 \<Longrightarrow> active_min key ss start \<le> key sl"
proof -
  have "active_min key ss start \<le> start \<and>
    (\<forall>sl \<in> set ss. s_state sl = TxnActive \<longrightarrow> s_txn_id sl \<noteq> 0 \<longrightarrow> active_min key ss start \<le> key sl)"
  proof (induction ss arbitrary: start)
    case (Cons a ss)
    define m where "m = (if s_state a = TxnActive \<and> s_txn_id a \<noteq> 0 \<and> key a < start then key a else start)"
    have "m \<le> start" "s_state a = TxnActive \<Longrightarrow> s_txn_id a \<noteq> 0 \<Longrightarrow> m \<le> key a" by (auto simp: m_def)
    moreover have "active_min key (a # ss) start = active_min key ss m" by (simp add: active_min_def m_def)
    ultimately show ?case using Cons.IH [of m] by (auto intro: order_trans)
  qed (simp add: active_min_def)
  then show "active_min key ss start \<le> start"
    "sl \<in> set ss \<Longrightarrow> s_state sl = TxnActive \<Longrightarrow> s_txn_id sl \<noteq> 0 \<Longrightarrow> active_min key ss start \<le> key sl" by auto
qed

lemma prune_simps [simp]:
  "tm_slots (prune_committed_history tm) = tm_slots tm" "tm_next (prune_committed_history tm) = tm_next tm"
  "tm_log (prune_committed_history tm) = tm_log tm"
  by (simp_all add: prune_committed_history_def)

lemma prune_keeps_needed:
  assumes "sl \<in> set (tm_slots tm)" "s_state sl = TxnActive" "s_txn_id sl \<noteq> 0" "e \<in> set (tm_history tm)"
    "s_snapshot sl \<le> cw_commit e"
  shows "e \<in> set (tm_history (prune_committed_history tm))"
proof -
  have "has_active_transactions tm" using assms by (auto simp: has_active_transactions_def list_ex_iff)
  moreover have "active_min s_snapshot (tm_slots tm) (tm_next tm) \<le> cw_commit e"
    using active_min_le(2) [OF assms(1-3), of s_snapshot "tm_next tm"] assms(5) by (rule order_trans)
  ultimately show ?thesis using assms(4) by (simp add: prune_committed_history_def)
qed

lemma prune_subset: "set (tm_history (prune_committed_history tm)) \<subseteq> set (tm_history tm)"
  by (auto simp: prune_committed_history_def)

lemma history_needed:
  "txn_inv s \<Longrightarrow> sy_live s x = Some (t, C) \<Longrightarrow> e \<in> set (sy_commits s) \<Longrightarrow> t_snapshot t \<le> cw_commit e \<Longrightarrow>
   e \<in> set (tm_history (sy_tm s))"
  by (drule txn_invD(4)) (simp add: history_agrees_def, blast)

lemma publish_keeps:
  assumes inv: "txn_inv s" and x: "sy_live s x = Some (t, C)" and sp: "id_space (sy_tm s)"
  defines "e \<equiv> \<lparr>cw_commit = tm_next (sy_tm s), cw_txn = x, cw_writes = write_set t\<rparr>"
  shows "txn_inv (s\<lparr>sy_tm := fst (publish_section (sy_tm s) t), sy_live := (sy_live s)(x := None),
      sy_committed := insert x (sy_committed s), sy_commits := sy_commits s @ [e]\<rparr>)" (is "txn_inv ?s")
proof -
  let ?tm = "sy_tm s" and ?ss = "tm_slots (sy_tm s)" and ?N = "tm_next (sy_tm s)"
  note I = ids_agreeD [OF txn_invD(3) [OF inv]] and SN = txn_invD(6) [OF inv]
  have tx: "t_id t = x" using SN [OF x] by (simp add: snapshot_agrees_def)
  obtain i where i: "find_active_slot ?tm x = Some i" "i < length ?ss" "s_txn_id (?ss ! i) = x" "s_state (?ss ! i) = TxnActive"
    using live_slot(2) [OF inv x] by blast
  define sl where "sl = (?ss ! i)\<lparr>s_commit := ?N, s_state := TxnCommitted\<rparr>"
  define tm1 where "tm1 = ?tm\<lparr>tm_next := ?N + 1, tm_slots := ?ss[i := sl], tm_history := tm_history ?tm @ [e]\<rparr>"
  have tm': "sy_tm ?s = prune_committed_history tm1"
    using i(1) by (simp add: publish_section_def Let_def tx tm1_def sl_def e_def)
  have slots': "tm_slots (sy_tm ?s) = ?ss[i := sl]" "tm_next (sy_tm ?s) = ?N + 1" "tm_log (sy_tm ?s) = tm_log ?tm"
    unfolding tm' by (simp_all add: tm1_def)
  have N: "?N < ?N + 1" by (rule id_space_less [OF sp])
  have kx: "x \<in> known s" using x by (auto simp: known_def)
  have kn: "known ?s = known s" using x by (auto simp: known_def)
  have "log_agrees ?s"
    using txn_invD(1) [OF inv] I(1,2) [of x] x slots'(3) unfolding log_agrees_def by fastforce
  moreover have "slots_agree ?s"
  proof (rule slots_agree_update [OF txn_invD(2) [OF inv] slots'(1) i(2)])
    show "slot_agrees ?s sl'" if "slot_agrees s sl'" "s_txn_id sl' \<noteq> s_txn_id (?ss ! i) \<or> s_txn_id sl' = 0" for sl'
      using that i(3) by (auto simp: slot_agrees_def split: txn_state.splits)
    show "slot_agrees ?s sl" by (simp add: slot_agrees_def sl_def i(3))
  qed (use i in \<open>auto simp: sl_def\<close>)
  moreover have "ids_agree ?s"
    using txn_invD(3) [OF inv] I(1,2) [of x] x N unfolding ids_agree_def kn slots'(2) by (auto intro: less_trans)
  moreover have "snapshot_agrees ?s y t' C'" if "sy_live ?s y = Some (t', C')" for y t' C'
    using SN [of y t' C'] that N unfolding snapshot_agrees_def kn slots'(2)
    by (auto split: if_splits intro: less_imp_le order_trans)
  moreover have "history_agrees ?s"
    unfolding history_agrees_def
  proof (intro conjI ballI allI impI)
    have H: "set (tm_history ?tm) \<subseteq> set (sy_commits s)" "\<forall>e \<in> set (sy_commits s). cw_commit e < ?N"
      using txn_invD(4) [OF inv] by (simp_all add: history_agrees_def)
    show "set (tm_history (sy_tm ?s)) \<subseteq> set (sy_commits ?s)"
      using prune_subset [of tm1] H(1) unfolding tm' by (auto simp: tm1_def)
    show "cw_commit e' < tm_next (sy_tm ?s)" if "e' \<in> set (sy_commits ?s)" for e'
      using that H(2) N unfolding slots'(2) by (auto simp: e_def intro: less_trans)
    fix y t' C' e'
    assume y: "sy_live ?s y = Some (t', C')" and e': "e' \<in> set (sy_commits ?s)" "t_snapshot t' \<le> cw_commit e'"
    have y': "sy_live s y = Some (t', C')" "y \<noteq> x" using y by (auto split: if_splits)
    obtain sl' where sl': "sl' \<in> set ?ss" "s_txn_id sl' = y" "s_state sl' = TxnActive"
      using slots_agreeD(3) [OF txn_invD(2) [OF inv], of y] y'(1) by blast
    have "0 < y" using I(4) [of y] y'(1) by (auto simp: known_def)
    then have sn: "s_snapshot sl' = t_snapshot t'"
      using slots_agreeD(1) [OF txn_invD(2) [OF inv] sl'(1)] sl' y'(1) by (auto simp: slot_agrees_def)
    have "sl' \<in> set (?ss[i := sl])"
      using sl' y'(2) i(2,3) by (metis in_set_conv_nth length_list_update nth_list_update_neq)
    moreover have "e' \<in> set (tm_history tm1)"
      using e' history_needed [OF inv y'(1)] by (auto simp: tm1_def)
    ultimately show "e' \<in> set (tm_history (sy_tm ?s))"
      unfolding tm' using sl' sn e'(2) \<open>0 < y\<close> by (intro prune_keeps_needed [of sl']) (auto simp: tm1_def)
  qed
  moreover have "2 < tm_next (sy_tm ?s)" using N txn_invD(5) [OF inv] unfolding slots'(2) by (meson less_trans)
  ultimately show ?thesis by (simp add: txn_inv_def)
qed

lemma log_final_state_simps [simp]:
  "tm_slots (log_final_state env tm x c) = tm_slots tm" "tm_next (log_final_state env tm x c) = tm_next tm"
  "tm_history (log_final_state env tm x c) = tm_history tm"
  by (simp_all add: log_final_state_def)

lemma log_final_state_log:
  assumes "tm_log tm = Some log" "log_open log" "hm_inv hash_u64 (log_states log)"
  shows "\<exists>log'. tm_log (log_final_state env tm x c) = Some log' \<and> log_open log' \<and> hm_inv hash_u64 (log_states log') \<and>
    log_status log' = (log_status log)(x \<mapsto> final_code c)"
  using assms by (simp add: log_final_state_def status_record_def log_status_def fun_eq_iff hm.laws)

lemma log_keeps:
  assumes inv: "txn_inv s" and x: "x \<in> sy_committed s"
  shows "txn_inv (s\<lparr>sy_tm := log_final_state env (sy_tm s) x FinalCommitted\<rparr>)" (is "txn_inv ?s")
proof -
  obtain log where log: "tm_log (sy_tm s) = Some log" "log_open log" "hm_inv hash_u64 (log_states log)"
      "\<forall>y \<in> sy_aborted s. log_status log y = Some 2" "\<forall>y \<in> sy_committed s. log_status log y \<in> {None, Some 1}"
      "\<forall>y. log_status log y \<noteq> None \<longrightarrow> y \<in> sy_committed s \<union> sy_aborted s"
    using txn_invD(1) [OF inv] by (auto simp: log_agrees_def)
  have "log_agrees ?s"
    using log_final_state_log [OF log(1-3), of env x FinalCommitted] log(4-) x ids_agreeD(3) [OF txn_invD(3) [OF inv], of x]
    by (auto simp: log_agrees_def)
  moreover have "slots_agree ?s" using txn_invD(2) [OF inv] by (simp add: slots_agree_def)
  moreover have kn: "known ?s = known s" by (simp add: known_def)
  ultimately show ?thesis
    using inv by (auto simp: txn_inv_def ids_agree_def history_agrees_def snapshot_agrees_def kn)
qed

lemma abort_keeps:
  assumes inv: "txn_inv s" and x: "sy_live s x = Some (t, C)"
  shows "txn_inv (s\<lparr>sy_tm := log_final_state env (abort_section (sy_tm s) x) x FinalAborted,
      sy_live := (sy_live s)(x := None), sy_aborted := insert x (sy_aborted s)\<rparr>)" (is "txn_inv ?s")
proof -
  let ?tm = "sy_tm s" and ?ss = "tm_slots (sy_tm s)"
  note I = ids_agreeD [OF txn_invD(3) [OF inv]]
  obtain i where i: "find_slot ?tm x = Some i" "i < length ?ss" "s_txn_id (?ss ! i) = x" "s_state (?ss ! i) = TxnActive"
    using live_slot [OF inv x] by auto
  define sl where "sl = (?ss ! i)\<lparr>s_state := TxnAborted\<rparr>"
  have ab: "abort_section ?tm x = ?tm\<lparr>tm_slots := ?ss[i := sl]\<rparr>" using i(1) by (simp add: abort_section_def sl_def)
  obtain log where log: "tm_log ?tm = Some log" "log_open log" "hm_inv hash_u64 (log_states log)"
      "\<forall>y \<in> sy_aborted s. log_status log y = Some 2" "\<forall>y \<in> sy_committed s. log_status log y \<in> {None, Some 1}"
      "\<forall>y. log_status log y \<noteq> None \<longrightarrow> y \<in> sy_committed s \<union> sy_aborted s"
    using txn_invD(1) [OF inv] by (auto simp: log_agrees_def)
  have xn: "x \<notin> sy_committed s" "x \<notin> sy_aborted s" using I(1,2) [of x] x by auto
  have "log_agrees ?s"
    using log_final_state_log [of "abort_section ?tm x" log env x FinalAborted] log xn
    by (auto simp: log_agrees_def ab)
  moreover have "slots_agree ?s"
  proof (rule slots_agree_update [OF txn_invD(2) [OF inv] _ i(2)])
    show "tm_slots (sy_tm ?s) = ?ss[i := sl]" by (simp add: ab)
    show "slot_agrees ?s sl'" if "slot_agrees s sl'" "s_txn_id sl' \<noteq> s_txn_id (?ss ! i) \<or> s_txn_id sl' = 0" for sl'
      using that i(3) by (auto simp: slot_agrees_def split: txn_state.splits)
    show "slot_agrees ?s sl" by (simp add: slot_agrees_def sl_def i(3))
  qed (use i in \<open>auto simp: sl_def\<close>)
  moreover have kn: "known ?s = known s" using x by (auto simp: known_def)
  have "ids_agree ?s" using txn_invD(3) [OF inv] xn unfolding ids_agree_def kn by (auto simp: ab)
  moreover have "snapshot_agrees ?s y t' C'" if "sy_live ?s y = Some (t', C')" for y t' C'
    using txn_invD(6) [OF inv, of y t' C'] that unfolding snapshot_agrees_def kn by (auto simp: ab split: if_splits)
  moreover have "history_agrees ?s"
    using txn_invD(4) [OF inv] unfolding history_agrees_def by (auto simp: ab split: if_splits)
  ultimately show ?thesis using txn_invD(5) [OF inv] by (simp add: txn_inv_def ab)
qed

lemma work_keeps:
  assumes inv: "txn_inv s" and x: "sy_live s x = Some (t, C)" and w: "txn_work t t'"
  shows "txn_inv (s\<lparr>sy_live := (sy_live s)(x \<mapsto> (t', C))\<rparr>)" (is "txn_inv ?s")
proof -
  have t': "t_id t' = t_id t" "t_snapshot t' = t_snapshot t" "t_active t' = t_active t"
    using w by (induction rule: txn_work.induct) (auto simp: record_defs)
  have d: "dom (sy_live ?s) = dom (sy_live s)" using x by auto
  have kn: "known ?s = known s" unfolding known_def d by simp
  have sa: "slot_agrees ?s sl \<longleftrightarrow> slot_agrees s sl" for sl
    using x t' by (auto simp: slot_agrees_def split: txn_state.splits)
  have "slots_agree ?s" using txn_invD(2) [OF inv] unfolding slots_agree_def sa d by simp
  moreover have "ids_agree ?s" using txn_invD(3) [OF inv] unfolding ids_agree_def kn d by simp
  moreover have "history_agrees ?s"
    using txn_invD(4) [OF inv] history_needed [OF inv] x t'(2) unfolding history_agrees_def by (auto split: if_splits)
  moreover have "snapshot_agrees ?s y u D" if "sy_live ?s y = Some (u, D)" for y u D
    using txn_invD(6) [OF inv] x that t' unfolding snapshot_agrees_def kn by (auto split: if_splits)
  ultimately show ?thesis using inv by (simp add: txn_inv_def log_agrees_def)
qed

lemma txn_step_inv: "txn_step s s' \<Longrightarrow> txn_inv s \<Longrightarrow> txn_inv s'"
proof (induction rule: txn_step.induct)
  case (isolation_step s lvl)
  have "known (s\<lparr>sy_tm := set_default_isolation (sy_tm s) lvl\<rparr>) = known s" by (simp add: known_def)
  then show ?case
    using isolation_step unfolding txn_inv_def slots_agree_def ids_agree_def history_agrees_def snapshot_agrees_def log_agrees_def
    by (simp add: set_default_isolation_def)
next
  case (next_step s n)
  let ?s = "s\<lparr>sy_tm := ensure_next_txn_id_at_least (sy_tm s) n\<rparr>"
  have kn: "known ?s = known s" by (simp add: known_def)
  have le: "tm_next (sy_tm s) \<le> tm_next (sy_tm ?s)" and
    same: "tm_slots (sy_tm ?s) = tm_slots (sy_tm s)" "tm_log (sy_tm ?s) = tm_log (sy_tm s)"
      "tm_history (sy_tm ?s) = tm_history (sy_tm s)"
    by (simp_all add: ensure_next_txn_id_at_least_def less_imp_le)
  have "log_agrees ?s" "slots_agree ?s" "2 < tm_next (sy_tm ?s)"
    using txn_invD(1,2,5) [OF next_step] le unfolding log_agrees_def slots_agree_def same by (simp, simp, meson less_le_trans)
  moreover have "ids_agree ?s" "history_agrees ?s"
    using txn_invD(3,4) [OF next_step] le unfolding ids_agree_def history_agrees_def kn same by (auto intro: less_le_trans)
  moreover have "snapshot_agrees ?s x t C" if "sy_live ?s x = Some (t, C)" for x t C
    using txn_invD(6) [OF next_step, of x t C] that le unfolding snapshot_agrees_def kn by (auto intro: order_trans)
  ultimately show ?case by (simp add: txn_inv_def)
qed (auto intro: begin_keeps work_keeps publish_keeps log_keeps abort_keeps)

lemma txn_reachable_inv: "txn_step\<^sup>*\<^sup>* s0 s \<Longrightarrow> txn_sys_start s0 \<Longrightarrow> txn_inv s"
  by (induction rule: rtranclp_induct) (auto intro: txn_inv_start txn_step_inv)

subsection \<open>What a transaction sees\<close>

lemma uncommitted_iff:
  assumes inv: "txn_inv s" and y: "y \<in> sy_committed s \<union> sy_aborted s"
  shows "is_uncommitted (sy_tm s) y \<longleftrightarrow> y \<in> sy_aborted s"
proof -
  obtain log where log: "tm_log (sy_tm s) = Some log"
      "\<forall>y \<in> sy_aborted s. log_status log y = Some 2" "\<forall>y \<in> sy_committed s. log_status log y \<in> {None, Some 1}"
    using txn_invD(1) [OF inv] by (auto simp: log_agrees_def)
  note I = ids_agreeD [OF txn_invD(3) [OF inv]]
  show ?thesis
  proof (cases "y \<in> sy_aborted s")
    case True
    then show ?thesis using log by (simp add: is_uncommitted_def)
  next
    case False
    then have yc: "y \<in> sy_committed s" using y by blast
    have "s_state sl = TxnCommitted" if "List.find (\<lambda>s. s_txn_id s = y) (tm_slots (sy_tm s)) = Some sl" for sl
    proof -
      have "sl \<in> set (tm_slots (sy_tm s))" "s_txn_id sl = y" using that by (auto simp: find_Some_iff)
      moreover from this(1) have "slot_agrees s sl" by (rule slots_agreeD(1) [OF txn_invD(2) [OF inv]])
      moreover have "0 < y" using I(4) [of y] yc by (simp add: known_def)
      ultimately show ?thesis
        using yc False I(1) [of y] by (cases "s_state sl") (auto simp: slot_agrees_def)
    qed
    then show ?thesis
      using log yc False by (auto simp: is_uncommitted_def get_txn_state_def split: option.splits)
  qed
qed

lemma visible_iff:
  assumes inv: "txn_inv s" and t: "sy_live s x = Some (t, C)" and xmin: "xmin \<in> known s" "xmin \<noteq> 2"
    and xmax: "xmax = 0 \<or> xmax \<in> known s"
  shows "is_visible (sy_tm s) xmin xmax t \<longleftrightarrow>
    (if xmin = x then xmax \<noteq> x else xmin \<in> C \<and> xmax \<noteq> x \<and> xmax \<notin> C)"
proof -
  note I = ids_agreeD [OF txn_invD(3) [OF inv]]
  have A: "t_id t = x" "x < t_snapshot t" "C \<subseteq> sy_committed s" "\<forall>y \<in> C. y < t_snapshot t \<and> y \<notin> set (t_active t)"
    "\<And>y. y \<in> known s \<Longrightarrow> y \<noteq> x \<Longrightarrow> y < t_snapshot t \<Longrightarrow> y \<notin> set (t_active t) \<Longrightarrow> y \<in> C \<union> sy_aborted s"
    using txn_invD(6) [OF inv t] by (auto simp: snapshot_agrees_def)
  have xC: "x \<notin> C" using I(1) [of x] t A(3) by auto
  have key: "y \<in> C \<longleftrightarrow> y < t_snapshot t \<and> y \<notin> set (t_active t) \<and> \<not> is_uncommitted (sy_tm s) y"
    if "y \<in> known s" "y \<noteq> x" for y
  proof
    assume "y \<in> C"
    then have "y \<in> sy_committed s" "y \<notin> sy_aborted s" using A(3) I(3) [of y] by auto
    then show "y < t_snapshot t \<and> y \<notin> set (t_active t) \<and> \<not> is_uncommitted (sy_tm s) y"
      using uncommitted_iff [OF inv, of y] A(4) \<open>y \<in> C\<close> by blast
  next
    assume "y < t_snapshot t \<and> y \<notin> set (t_active t) \<and> \<not> is_uncommitted (sy_tm s) y"
    then show "y \<in> C" using A(3) A(5) [OF that] uncommitted_iff [OF inv, of y] by blast
  qed
  have nz: "xmin \<noteq> 0" "x \<noteq> 0" "0 \<notin> C" using I(4) [of xmin] I(4) [of x] I(4) [of 0] xmin t A(3) by (auto simp: known_def)
  show ?thesis
  proof (cases "xmin = x")
    case True
    then show ?thesis using nz xmin(2) A(1) by (simp add: is_visible_def kFrozenTxnId_def)
  next
    case False
    have "is_visible (sy_tm s) xmin xmax t \<longleftrightarrow> xmin \<in> C \<and> (xmax = 0 \<or> xmax \<noteq> x \<and>
        \<not> (xmax < t_snapshot t \<and> xmax \<notin> set (t_active t) \<and> \<not> is_uncommitted (sy_tm s) xmax))"
      using nz xmin(2) A(1) False key [OF xmin(1) False] by (auto simp: is_visible_def kFrozenTxnId_def not_less)
    also have "\<dots> \<longleftrightarrow> xmin \<in> C \<and> xmax \<noteq> x \<and> xmax \<notin> C"
      using xmax key [of xmax] nz by auto
    finally show ?thesis using False by simp
  qed
qed

text \<open>Ids are never reused: what a running transaction counts as committed before it stays the same.\<close>

lemma step_keeps_snapshot:
  assumes "txn_step s s'" "txn_inv s" "x \<in> known s" "sy_live s x = None \<or> (\<exists>t. sy_live s x = Some (t, C))"
  shows "x \<in> known s' \<and> (sy_live s' x = None \<or> (\<exists>t. sy_live s' x = Some (t, C)))"
  using assms
proof (induction rule: txn_step.induct)
  case (begin_step s t tm')
  have "t_id t = tm_next (sy_tm s)" by (rule begin_sectionE [OF begin_step(1)])
  then have "t_id t \<noteq> x" using ids_agreeD(5) [OF txn_invD(3) [OF begin_step(3)] begin_step(4)] by auto
  then show ?case using begin_step(4,5) by (auto simp: known_def)
qed (auto simp: known_def)

lemma steps_keep_snapshot:
  assumes "txn_step\<^sup>*\<^sup>* s s'" "txn_inv s" "sy_live s x = Some (t, C)" "sy_live s' x = Some (t', C')"
  shows "C' = C" "txn_inv s'"
proof -
  have "txn_inv s' \<and> x \<in> known s' \<and> (sy_live s' x = None \<or> (\<exists>t. sy_live s' x = Some (t, C)))"
    using assms(1)
  proof (induction rule: rtranclp_induct)
    case base
    then show ?case using assms(2,3) by (auto simp: known_def)
  next
    case (step y z)
    then show ?case using step_keeps_snapshot [of y z x C] txn_step_inv by blast
  qed
  then show "C' = C" "txn_inv s'" using assms(4) by auto
qed

lemma steps_keep_known: "txn_step\<^sup>*\<^sup>* s s' \<Longrightarrow> known s \<subseteq> known s'"
proof (induction rule: rtranclp_induct)
  case (step y z)
  from step(2) have "known y \<subseteq> known z"
    by (induction rule: txn_step.induct) (auto simp: known_def)
  with step(3) show ?case by blast
qed simp

lemma reachable_undo_ok:
  assumes "txn_step\<^sup>*\<^sup>* s0 s" "txn_sys_start s0" "sy_live s x = Some (t, C)"
  shows "undo_ok t"
  using assms(1,3)
proof (induction arbitrary: x t C rule: rtranclp_induct)
  case base
  then show ?case using assms(2) by (auto simp: txn_sys_start_def)
next
  case (step y z)
  from step(2) show ?case
  proof cases
    case (begin_step t' tm')
    then have "undo_ok t'"
      by (auto simp: begin_section_def Let_def undo_ok_def new_txn_def split: option.splits)
    then show ?thesis using begin_step step(3,4) by (auto split: if_splits)
  next
    case (work_step x' t1 C' t2)
    then show ?thesis using step(3,4) txn_work_undo_ok by (auto split: if_splits)
  qed (use step(3,4) in \<open>auto split: if_splits\<close>)
qed

lemma find_unique_slot:
  assumes "unique_ids ss" "i < length ss" "s_txn_id (ss ! i) \<noteq> 0" "s_txn_id sl = s_txn_id (ss ! i)"
  shows "List.find (\<lambda>s. s_txn_id s = s_txn_id (ss ! i)) (ss[i := sl]) = Some sl"
proof -
  have "\<not> s_txn_id (ss[i := sl] ! j) = s_txn_id (ss ! i)" if "j < i" for j
    using unique_idsD [OF assms(1), of j i] assms(2,3) that by auto
  then show ?thesis using assms(2,4) by (auto simp: find_Some_iff intro!: exI [of _ i])
qed

text \<open>What the two ways to end leave in the manager.\<close>

lemma publish_commits:
  assumes "txn_inv s" "sy_live s x = Some (t, C)" "id_space (sy_tm s)"
  shows "is_txn_committed (log_final_state env (fst (publish_section (sy_tm s) t)) x FinalCommitted) x"
proof -
  have "t_id t = x" using txn_invD(6) [OF assms(1,2)] by (simp add: snapshot_agrees_def)
  moreover obtain i where "find_active_slot (sy_tm s) x = Some i" "i < length (tm_slots (sy_tm s))"
      "s_txn_id (tm_slots (sy_tm s) ! i) = x"
    using live_slot(2) [OF assms(1,2)] by blast
  moreover have "x \<noteq> 0" using txn_invD(6) [OF assms(1,2)] by (auto simp: snapshot_agrees_def)
  ultimately show ?thesis
    using find_unique_slot [of "tm_slots (sy_tm s)" i] slots_agreeD(2) [OF txn_invD(2) [OF assms(1)]]
    by (simp add: is_txn_committed_def publish_section_def Let_def)
qed

lemma abort_aborts:
  assumes "txn_inv s" "sy_live s x = Some (t, C)"
  shows "\<not> is_txn_committed (log_final_state env (abort_section (sy_tm s) x) x FinalAborted) x"
proof -
  obtain i where "find_slot (sy_tm s) x = Some i" "i < length (tm_slots (sy_tm s))" "s_txn_id (tm_slots (sy_tm s) ! i) = x"
    using live_slot [OF assms] by auto
  moreover have "x \<noteq> 0" using txn_invD(6) [OF assms] by (auto simp: snapshot_agrees_def)
  ultimately show ?thesis
    using find_unique_slot [of "tm_slots (sy_tm s)" i] slots_agreeD(2) [OF txn_invD(2) [OF assms(1)]]
    by (simp add: is_txn_committed_def abort_section_def)
qed

section \<open>A run\<close>

text \<open>Two serialisable transactions, 3 and 4, run at once over a database in which transaction 1 had committed.
  Each reads the row the other one changes.\<close>

definition run_tm :: "txn_slot list \<Rightarrow> u64 \<Rightarrow> committed_write_set list \<Rightarrow> txn_manager" where
  "run_tm ss n h = \<lparr>tm_slots = ss, tm_next = n, tm_isolation = Serializable, tm_log = Some (open_status_log []), tm_history = h\<rparr>"

definition run_row :: "u64 \<Rightarrow> record_id" where
  "run_row p = \<lparr>rid_page = p, rid_slot = 0\<rparr>"

definition run_txn :: "u64 \<Rightarrow> u64 list \<Rightarrow> txn" where
  "run_txn x act = (new_txn x (x + 1) act)\<lparr>t_resource := True, t_isolation := Serializable\<rparr>"

definition run_3 :: txn where
  "run_3 = record_delete (record_read (run_txn 3 []) 1 (run_row 1)) 1 (run_row 2)"

definition run_4 :: txn where
  "run_4 = record_delete (record_read (run_txn 4 [3]) 1 (run_row 2)) 1 (run_row 1)"

definition run_0 :: txn_sys where
  "run_0 = \<lparr>sy_tm = run_tm [free_slot, free_slot] 3 [], sy_live = Map.empty, sy_committed = {1}, sy_aborted = {}, sy_commits = []\<rparr>"

definition run_both :: txn_sys where
  "run_both = \<lparr>sy_tm = run_tm [occupied_slot 3 4, occupied_slot 4 5] 5 [],
     sy_live = [3 \<mapsto> (run_3, {1}), 4 \<mapsto> (run_4, {1})], sy_committed = {1}, sy_aborted = {}, sy_commits = []\<rparr>"

definition run_entry :: committed_write_set where
  "run_entry = \<lparr>cw_commit = 5, cw_txn = 3, cw_writes = [(1, run_row 2)]\<rparr>"

definition run_published :: txn_sys where
  "run_published = \<lparr>sy_tm = run_tm [(occupied_slot 3 4)\<lparr>s_commit := 5, s_state := TxnCommitted\<rparr>, occupied_slot 4 5] 6 [run_entry],
     sy_live = [4 \<mapsto> (run_4, {1})], sy_committed = {3, 1}, sy_aborted = {}, sy_commits = [run_entry]\<rparr>"

lemma empty_log: "log_status (open_status_log []) = Map.empty" "log_open (open_status_log [])"
  "hm_inv hash_u64 (log_states (open_status_log []))"
  using log_status_open [of "[]" "[]"] hm.invar_empty [of hash_u64]
  by (simp_all add: open_status_log_def replay_loop.simps)

lemma run_start: "txn_sys_start run_0"
  using empty_log
  by (auto simp: txn_sys_start_def run_0_def run_tm_def intro!: exI [of _ "Suc (Suc 0)"])

lemma run_begin_3: "begin_section (run_tm [free_slot, free_slot] 3 []) =
    Some (run_txn 3 [], run_tm [occupied_slot 3 4, free_slot] 4 [])"
  by (simp add: begin_section_def slot_free_def free_slot_def run_tm_def run_txn_def Let_def)

lemma run_begin_4: "begin_section (run_tm [occupied_slot 3 4, free_slot] 4 []) =
    Some (run_txn 4 [3], run_tm [occupied_slot 3 4, occupied_slot 4 5] 5 [])"
  by (simp add: begin_section_def slot_free_def free_slot_def occupied_slot_def run_tm_def run_txn_def Let_def)

lemma run_steps: "txn_step\<^sup>*\<^sup>* run_0 run_both" "txn_step run_both run_published"
proof -
  define a where "a = run_0\<lparr>sy_tm := run_tm [occupied_slot 3 4, free_slot] 4 [], sy_live := [3 \<mapsto> (run_txn 3 [], {1})]\<rparr>"
  define b where "b = a\<lparr>sy_tm := run_tm [occupied_slot 3 4, occupied_slot 4 5] 5 [],
    sy_live := [3 \<mapsto> (run_txn 3 [], {1}), 4 \<mapsto> (run_txn 4 [3], {1})]\<rparr>"
  define c where "c = b\<lparr>sy_live := [3 \<mapsto> (run_3, {1}), 4 \<mapsto> (run_txn 4 [3], {1})]\<rparr>"
  have "txn_step run_0 a"
    using begin_step [of run_0 "run_txn 3 []"] run_begin_3
    by (simp add: a_def run_0_def id_space_def run_tm_def run_txn_def new_txn_def)
  moreover have "txn_step a b"
    using begin_step [of a "run_txn 4 [3]"] run_begin_4
    by (simp add: a_def b_def run_0_def id_space_def run_tm_def run_txn_def new_txn_def)
  moreover have "txn_step b c"
    using work_step [of b 3 "run_txn 3 []" "{1}" run_3] unfolding run_3_def
    by (simp add: a_def b_def c_def run_3_def txn_work.intros fun_upd_twist)
  moreover have "txn_step c run_both"
    using work_step [of c 4 "run_txn 4 [3]" "{1}" run_4] unfolding run_4_def
    by (simp add: a_def b_def c_def run_4_def txn_work.intros run_both_def run_0_def)
  ultimately show "txn_step\<^sup>*\<^sup>* run_0 run_both" by (meson rtranclp.rtrancl_into_rtrancl rtranclp.rtrancl_refl)
  have "publish_section (sy_tm run_both) run_3 = (sy_tm run_published, 4)"
    by (simp add: run_both_def run_published_def publish_section_def run_3_def run_txn_def new_txn_def record_defs run_tm_def
        find_active_slot_def occupied_slot_def active_min_def prune_committed_history_def has_active_transactions_def
        write_set_def run_entry_def Let_def)
  moreover have "write_set run_3 = [(1, run_row 2)]"
    by (simp add: write_set_def run_3_def record_defs run_txn_def new_txn_def)
  ultimately show "txn_step run_both run_published"
    using publish_step [of run_both 3 run_3 "{1}"]
    by (simp add: run_both_def run_published_def id_space_def run_tm_def run_entry_def fun_upd_twist)
qed

section \<open>Properties\<close>





text \<open>C14: the serialisability check misses no commit.  Although the history of write sets is pruned at every commit, the
  check of a running transaction answers true exactly when some transaction of the whole run committed after the
  transaction began and wrote a row the transaction read.\<close>

theorem ssi_check_exact:
  assumes "txn_sys_start s0" "txn_step\<^sup>*\<^sup>* s0 s" "sy_live s x = Some (t, C)"
  shows "ssi_check_conflict (sy_tm s) t \<longleftrightarrow>
    (\<exists>e \<in> set (sy_commits s). cw_txn e \<noteq> x \<and> t_snapshot t \<le> cw_commit e \<and> set (cw_writes e) \<inter> set (t_reads t) \<noteq> {})"
proof -
  have inv: "txn_inv s" by (rule txn_reachable_inv [OF assms(2,1)])
  have "set (tm_history (sy_tm s)) \<subseteq> set (sy_commits s)" using txn_invD(4) [OF inv] by (simp add: history_agrees_def)
  moreover have "t_id t = x" using txn_invD(6) [OF inv assms(3)] by (simp add: snapshot_agrees_def)
  ultimately show ?thesis
    using history_needed [OF inv assms(3)] by (auto simp: ssi_check_conflict_def list_ex_iff not_less)
qed

theorem ssi_check_exact_witness: "ssi_check_conflict (sy_tm run_published) run_4 \<and> \<not> ssi_check_conflict (sy_tm run_both) run_4"
proof -
  have r: "txn_step\<^sup>*\<^sup>* run_0 run_published" using run_steps by (rule rtranclp.rtrancl_into_rtrancl)
  have l: "sy_live run_published 4 = Some (run_4, {1})" "sy_live run_both 4 = Some (run_4, {1})"
    by (simp_all add: run_published_def run_both_def)
  show ?thesis
    using ssi_check_exact [OF run_start r l(1)] ssi_check_exact [OF run_start run_steps(1) l(2)]
    by (simp add: run_published_def run_both_def run_entry_def run_4_def run_txn_def new_txn_def record_defs)
qed



lemma frozen_visible: "All (is_visible tm 2 0)"
  by (intro allI) (simp add: is_visible_def kFrozenTxnId_def)

text \<open>Ids of a fresh database.  The second of two transactions that run at once on a new manager has the id that
  marks frozen rows, so every transaction sees the rows it inserts before it commits.\<close>

lemma second_transaction_frozen:
  "case begin_section (new_manager 2) of None \<Rightarrow> False | Some (t1, tm1) \<Rightarrow>
   (case begin_section tm1 of None \<Rightarrow> False | Some (t2, tm2) \<Rightarrow>
      get_txn_state tm2 (t_id t2) = Some TxnActive \<and> (\<forall>t. is_visible tm2 (t_id t2) 0 t))"
  by (simp add: new_manager_def numeral_2_eq_2 begin_section_def slot_free_def free_slot_def occupied_slot_def Let_def
      new_txn_def get_txn_state_def, rule frozen_visible)

end
