(* ===== verification/Tuple.thy ===== *)
theory Tuple
  imports Schema
begin

section \<open>Rows\<close>

text \<open>
  Model of \<^verbatim>\<open>src/src/record/tuple.{h,cpp}\<close>: a row with its version header, its image in a
  page, and the three readers of that image (the whole row, a projection, one column).
  A buffer of \<^verbatim>\<open>length\<close> bytes is the list of these bytes; the cursor \<^verbatim>\<open>buf\<close> with its bound
  \<^verbatim>\<open>end\<close> is the list of the bytes still to be read.
\<close>

record tuple =
  t_xmin :: u64
  t_xmax :: u64
  t_next_page :: u64
  t_next_slot :: u16
  t_values :: "db_value list"

definition empty_tuple :: tuple where
  "empty_tuple = \<lparr>t_xmin = 0, t_xmax = 0, t_next_page = 0, t_next_slot = 0, t_values = []\<rparr>"

definition get_value :: "tuple \<Rightarrow> nat \<Rightarrow> db_value" where
  "get_value t i = (if i \<ge> length (t_values t) then VNull else t_values t ! i)"

definition set_value :: "tuple \<Rightarrow> nat \<Rightarrow> db_value \<Rightarrow> tuple" where
  "set_value t i v = (if i < length (t_values t) then t\<lparr>t_values := (t_values t)[i := v]\<rparr> else t)"

definition tuple_compare :: "tuple \<Rightarrow> tuple \<Rightarrow> nat \<Rightarrow> int" where
  "tuple_compare a b i =
     (if i \<ge> length (t_values a) \<or> i \<ge> length (t_values b) then 0
      else value_compare (t_values a ! i) (t_values b ! i))"

subsection \<open>Writing a row\<close>

definition bitmap_bit :: "nat \<Rightarrow> byte" where
  "bitmap_bit i = push_bit (i mod 8) 1"

definition null_bitmap :: "db_value list \<Rightarrow> byte list" where
  "null_bitmap vs =
     fold (\<lambda>i bm. if is_null (vs ! i) then bm[i div 8 := bm ! (i div 8) OR bitmap_bit i] else bm)
       [0..<length vs] (replicate ((length vs + 7) div 8) 0)"

definition tuple_header :: "tuple \<Rightarrow> byte list" where
  "tuple_header t =
     put_word (t_xmin t) @ put_word (t_xmax t) @ put_word (t_next_page t) @ put_word (t_next_slot t)"

definition serialize_to_page :: "tuple \<Rightarrow> byte list" where
  "serialize_to_page t =
     tuple_header t @ put_word (of_nat (length (t_values t)) :: u32) @ null_bitmap (t_values t) @
     concat (map (\<lambda>v. if is_null v then [] else serialize_value v) (t_values t))"

definition tuple_serialized_size :: "tuple \<Rightarrow> nat" where
  "tuple_serialized_size t =
     fold (\<lambda>v size. if is_null v then size else size + unat (value_serialized_size v)) (t_values t)
       (30 + (length (t_values t) + 7) div 8)"

subsection \<open>Reading one value\<close>

definition take_bytes :: "nat \<Rightarrow> byte list \<Rightarrow> (byte list \<times> byte list) option" where
  "take_bytes n bs = (if n \<le> length bs then Some (take n bs, drop n bs) else None)"

definition read_value_bounded :: "byte list \<Rightarrow> (db_value \<times> byte list) option" where
  "read_value_bounded bs0 =
     (case bs0 of
        [] \<Rightarrow> None
      | t # bs \<Rightarrow>
          (case type_of_code (unat t) of
             Some KBool \<Rightarrow> (case bs of x # r \<Rightarrow> Some (VBool (x = 1), r) | [] \<Rightarrow> None)
           | Some KInt32 \<Rightarrow> map_option (apfst VInt32) (take_word bs)
           | Some KInt64 \<Rightarrow> map_option (apfst VInt64) (take_word bs)
           | Some KTimestamp \<Rightarrow> map_option (apfst VTimestamp) (take_word bs)
           | Some KDatetime \<Rightarrow> map_option (apfst VDatetime) (take_word bs)
           | Some KFloat \<Rightarrow> map_option (apfst VFloat) (take_word bs)
           | Some KDouble \<Rightarrow> map_option (apfst VDouble) (take_word bs)
           | Some KVarchar \<Rightarrow>
               Option.bind (take_word bs) (\<lambda>(len :: u32, r).
                 map_option (apfst (VVarchar \<circ> string_of_bytes)) (take_bytes (unat len) r))
           | Some KNull \<Rightarrow> Some (VNull, bs)
           | None \<Rightarrow> None))"

definition skip_value_bounded :: "byte list \<Rightarrow> byte list option" where
  "skip_value_bounded bs0 =
     (case bs0 of
        [] \<Rightarrow> None
      | t # bs \<Rightarrow>
          (case type_of_code (unat t) of
             Some KBool \<Rightarrow> map_option snd (take_bytes 1 bs)
           | Some KInt32 \<Rightarrow> map_option snd (take_bytes 4 bs)
           | Some KFloat \<Rightarrow> map_option snd (take_bytes 4 bs)
           | Some KInt64 \<Rightarrow> map_option snd (take_bytes 8 bs)
           | Some KTimestamp \<Rightarrow> map_option snd (take_bytes 8 bs)
           | Some KDatetime \<Rightarrow> map_option snd (take_bytes 8 bs)
           | Some KDouble \<Rightarrow> map_option snd (take_bytes 8 bs)
           | Some KVarchar \<Rightarrow>
               Option.bind (take_word bs) (\<lambda>(len :: u32, r). map_option snd (take_bytes (unat len) r))
           | Some KNull \<Rightarrow> Some bs
           | None \<Rightarrow> None))"

subsection \<open>Reading a row\<close>

definition bitmap_null :: "byte list \<Rightarrow> nat \<Rightarrow> bool" where
  "bitmap_null bm i = (bm ! (i div 8) AND bitmap_bit i \<noteq> 0)"

text \<open>The header of a buffer of at least 30 bytes: the row without values, the number of
  columns, and the bytes after the header.\<close>

definition read_tuple_header :: "byte list \<Rightarrow> (tuple \<times> u32 \<times> byte list) option" where
  "read_tuple_header bs =
     (if length bs < 30 then None
      else Some (\<lparr>t_xmin = get_word (take 8 bs), t_xmax = get_word (take 8 (drop 8 bs)),
                  t_next_page = get_word (take 8 (drop 16 bs)), t_next_slot = get_word (take 2 (drop 24 bs)),
                  t_values = []\<rparr>,
                 get_word (take 4 (drop 26 bs)), drop 30 bs))"

fun read_values :: "byte list \<Rightarrow> nat \<Rightarrow> nat list \<Rightarrow> byte list \<Rightarrow> db_value list \<Rightarrow> db_value list option" where
  "read_values bm cc [] bs acc = Some acc"
| "read_values bm cc (i # js) bs acc =
     (if bitmap_null bm i
      then read_values bm cc js bs (if i < cc then acc @ [VNull] else acc)
      else case read_value_bounded bs of
          None \<Rightarrow> None
        | Some (v, bs') \<Rightarrow> read_values bm cc js bs' (if i < cc then acc @ [v] else acc))"

text \<open>Columns added after the row was written get their default.\<close>

definition pad_defaults :: "schema \<Rightarrow> db_value list \<Rightarrow> db_value list" where
  "pad_defaults s vs = vs @ map default_as_value (drop (length vs) s)"

definition deserialize_from_page :: "byte list \<Rightarrow> schema \<Rightarrow> tuple" where
  "deserialize_from_page buf s =
     (case read_tuple_header buf of
        None \<Rightarrow> empty_tuple
      | Some (t, num_cols, bs) \<Rightarrow>
          (if num_cols > 4096 then t
           else
             (case take_bytes ((unat num_cols + 7) div 8) bs of
                None \<Rightarrow> t
              | Some (bm, bs') \<Rightarrow>
                  (case read_values bm (length s) [0..<unat num_cols] bs' [] of
                     None \<Rightarrow> t
                   | Some vs \<Rightarrow> t\<lparr>t_values := pad_defaults s vs\<rparr>))))"

definition read_header_from_page :: "byte list \<Rightarrow> (u64 \<times> u64 \<times> u64 \<times> u16) option" where
  "read_header_from_page buf =
     (if length buf < 30 then None
      else Some (get_word (take 8 buf), get_word (take 8 (drop 8 buf)), get_word (take 8 (drop 16 buf)),
                 get_word (take 2 (drop 24 buf))))"

subsection \<open>Reading a projection\<close>

definition source_to_output :: "nat \<Rightarrow> nat list \<Rightarrow> nat option list" where
  "source_to_output num_cols proj =
     fold (\<lambda>i m. if proj ! i < num_cols then m[proj ! i := Some i] else m)
       [0..<length proj] (replicate num_cols None)"

fun project_values ::
  "byte list \<Rightarrow> nat option list \<Rightarrow> nat list \<Rightarrow> byte list \<Rightarrow> db_value list \<Rightarrow> db_value list option" where
  "project_values bm s2o [] bs out = Some out"
| "project_values bm s2o (i # js) bs out =
     (if bitmap_null bm i then project_values bm s2o js bs out
      else case s2o ! i of
          Some pos \<Rightarrow>
            (case read_value_bounded bs of
               None \<Rightarrow> None
             | Some (v, bs') \<Rightarrow> project_values bm s2o js bs' (out[pos := v]))
        | None \<Rightarrow>
            (case skip_value_bounded bs of
               None \<Rightarrow> None
             | Some bs' \<Rightarrow> project_values bm s2o js bs' out))"

definition project_defaults :: "schema \<Rightarrow> nat list \<Rightarrow> nat \<Rightarrow> db_value list \<Rightarrow> db_value list" where
  "project_defaults src proj num_cols out =
     fold (\<lambda>i vs.
         let c = proj ! i in
         if c < num_cols \<or> c \<ge> length src then vs
         else if has_default (get_column src c) then vs[i := default_as_value (get_column src c)]
         else vs)
       [0..<length proj] out"

definition deserialize_projected_from_page ::
  "byte list \<Rightarrow> schema \<Rightarrow> schema \<Rightarrow> nat list \<Rightarrow> tuple" where
  "deserialize_projected_from_page buf src out_schema proj =
     (if proj = [] then deserialize_from_page buf out_schema
      else case read_tuple_header buf of
          None \<Rightarrow> empty_tuple
        | Some (t, num_cols, bs) \<Rightarrow>
            (if num_cols > 4096 then t
             else
               (case take_bytes ((unat num_cols + 7) div 8) bs of
                  None \<Rightarrow> t
                | Some (bm, bs') \<Rightarrow>
                    (case project_values bm (source_to_output (unat num_cols) proj) [0..<unat num_cols] bs'
                            (replicate (length proj) VNull) of
                       None \<Rightarrow> t
                     | Some vs \<Rightarrow> t\<lparr>t_values := project_defaults src proj (unat num_cols) vs\<rparr>))))"

subsection \<open>Reading one column\<close>

text \<open>This reader does not bound the number of columns, and \<^verbatim>\<open>num_cols + 7\<close> wraps around in
  32 bits; the test of a bitmap bit behind the end of the buffer is undefined (the outer
  \<open>None\<close>).  The inner \<open>None\<close> is the answer false.\<close>

fun read_column_loop :: "byte list \<Rightarrow> nat \<Rightarrow> nat list \<Rightarrow> byte list \<Rightarrow> db_value option option" where
  "read_column_loop bm idx [] bs = Some None"
| "read_column_loop bm idx (i # js) bs =
     (if i div 8 \<ge> length bm then None
      else if i = idx
      then (if bitmap_null bm i then Some (Some VNull) else Some (map_option fst (read_value_bounded bs)))
      else if bitmap_null bm i then read_column_loop bm idx js bs
      else case skip_value_bounded bs of
          None \<Rightarrow> Some None
        | Some bs' \<Rightarrow> read_column_loop bm idx js bs')"

definition read_column_from_page :: "byte list \<Rightarrow> schema \<Rightarrow> nat \<Rightarrow> db_value option option" where
  "read_column_from_page buf s idx =
     (if idx \<ge> length s then Some None
      else case read_tuple_header buf of
          None \<Rightarrow> Some None
        | Some (_, num_cols, bs) \<Rightarrow>
            (if idx \<ge> unat num_cols then Some (Some (default_as_value (get_column s idx)))
             else
               (let bitmap_size = unat ((num_cols + 7) div 8) in
                if bitmap_size > length bs then Some None
                else read_column_loop bs idx [0..<unat num_cols] (drop bitmap_size bs))))"

section \<open>The readers agree with the writer\<close>

subsection \<open>The NULL bitmap\<close>

lemma bitmap_null_bit: "bitmap_null bm i \<longleftrightarrow> bit (bm ! (i div 8)) (i mod 8)"
  by (simp add: bitmap_null_def bitmap_bit_def bit_iff_and_push_bit_not_eq_0)

lemma bitmap_null_set:
  assumes "j div 8 < length bm"
  shows "bitmap_null (bm[j div 8 := bm ! (j div 8) OR bitmap_bit j]) i \<longleftrightarrow> bitmap_null bm i \<or> i = j"
proof -
  have "bit (bitmap_bit j) (i mod 8) \<longleftrightarrow> i mod 8 = j mod 8"
    by (auto simp: bitmap_bit_def bit_exp_iff)
  moreover have "i = j \<longleftrightarrow> i div 8 = j div 8 \<and> i mod 8 = j mod 8" by (metis div_mult_mod_eq)
  ultimately show ?thesis
    using assms by (auto simp: bitmap_null_bit nth_list_update' bit_or_iff)
qed

lemma length_fold_bitmap [simp]:
  "length (fold (\<lambda>i bm. if P i then bm[i div 8 := f i bm] else bm) js bm) = length bm"
  by (induction js arbitrary: bm) auto

lemma fold_bitmap:
  "\<forall>j \<in> set js. j div 8 < length bm \<Longrightarrow>
   bitmap_null (fold (\<lambda>i bm. if P i then bm[i div 8 := bm ! (i div 8) OR bitmap_bit i] else bm) js bm) k \<longleftrightarrow>
   bitmap_null bm k \<or> k \<in> set js \<and> P k"
  by (induction js arbitrary: bm) (auto simp: bitmap_null_set)

lemma length_null_bitmap [simp]: "length (null_bitmap vs) = (length vs + 7) div 8"
  by (simp add: null_bitmap_def)

lemma bitmap_index: "i < n \<Longrightarrow> i div 8 < (n + 7) div 8" for i n :: nat
  by linarith

lemma null_bitmap_iff: "i < length vs \<Longrightarrow> bitmap_null (null_bitmap vs) i \<longleftrightarrow> is_null (vs ! i)"
  unfolding null_bitmap_def
  by (subst fold_bitmap) (auto simp: bitmap_index bitmap_null_bit)

lemma bitmap_null_append: "i div 8 < length bm \<Longrightarrow> bitmap_null (bm @ r) i = bitmap_null bm i"
  by (simp add: bitmap_null_bit nth_append)

subsection \<open>Values\<close>

lemma read_serialize: "value_ok v \<Longrightarrow> read_value_bounded (serialize_value v @ r) = Some (v, r)"
  by (cases v) (auto simp: serialize_value_def read_value_bounded_def value_ok_def unat_length
      type_of_code_def take_bytes_def)

lemma snd_take_word:
  "map_option snd (take_word bs :: ('a::len word \<times> byte list) option) =
   map_option snd (take_bytes (LENGTH('a) div 8) bs)"
  by (simp add: take_word_def take_bytes_def Let_def)

lemma skip_read: "skip_value_bounded bs = map_option snd (read_value_bounded bs)"
proof (cases bs)
  case (Cons t r)
  show ?thesis
  proof (cases "type_of_code (unat t)")
    case (Some k)
    have w: "map_option (snd \<circ> apfst f) x = map_option snd x" for f :: "'a \<Rightarrow> 'b" and x :: "('a \<times> byte list) option"
      by (cases x) auto
    show ?thesis
      using Cons Some snd_take_word [of r, where 'a = 32] snd_take_word [of r, where 'a = 64]
      by (cases k) (auto simp: skip_value_bounded_def read_value_bounded_def option.map_comp w take_bytes_def
          split: list.splits option.splits bind_splits)
  qed (simp add: Cons skip_value_bounded_def read_value_bounded_def)
qed (simp add: skip_value_bounded_def read_value_bounded_def)

abbreviation value_image :: "db_value \<Rightarrow> byte list" where
  "value_image v \<equiv> (if is_null v then [] else serialize_value v)"

abbreviation images :: "db_value list \<Rightarrow> nat list \<Rightarrow> byte list" where
  "images vs js \<equiv> concat (map (\<lambda>i. value_image (vs ! i)) js)"

text \<open>The bitmap and the bytes describe the values of the row at the positions \<open>js\<close>.\<close>

definition describes :: "byte list \<Rightarrow> db_value list \<Rightarrow> nat list \<Rightarrow> bool" where
  "describes bm vs js \<longleftrightarrow> (\<forall>i \<in> set js. bitmap_null bm i = is_null (vs ! i) \<and> value_ok (vs ! i))"

lemma describes_Cons [simp]:
  "describes bm vs (i # js) \<longleftrightarrow> bitmap_null bm i = is_null (vs ! i) \<and> value_ok (vs ! i) \<and> describes bm vs js"
  by (auto simp: describes_def)

lemma is_null_iff: "is_null v \<longleftrightarrow> v = VNull"
  by (cases v) (simp_all add: is_null_def)

lemma read_values_images:
  "describes bm vs js \<Longrightarrow>
   read_values bm cc js (images vs js @ r) acc = Some (acc @ map ((!) vs) (filter (\<lambda>i. i < cc) js))"
  by (induction js arbitrary: acc) (auto simp: read_serialize is_null_iff)

lemma filter_upt: "map ((!) vs) (filter (\<lambda>i. i < cc) [0..<length vs]) = take cc vs"
proof -
  have "filter (\<lambda>i. i < cc) [0..<n] = [0..<min cc n]" for n :: nat
    by (induction n) (auto simp: min_def le_Suc_eq)
  then show ?thesis by (auto intro: nth_equalityI)
qed

subsection \<open>Whole rows\<close>

definition tuple_ok :: "tuple \<Rightarrow> bool" where
  "tuple_ok t = (length (t_values t) \<le> 4096 \<and> list_all value_ok (t_values t))"

lemma tuple_image:
  "serialize_to_page t @ r =
   tuple_header t @ put_word (of_nat (length (t_values t)) :: u32) @ null_bitmap (t_values t) @
   images (t_values t) [0..<length (t_values t)] @ r"
proof -
  have "map (\<lambda>i. value_image (t_values t ! i)) [0..<length (t_values t)] = map value_image (t_values t)"
    by (rule nth_equalityI) auto
  then show ?thesis by (simp add: serialize_to_page_def)
qed

lemma read_header_image:
  "read_tuple_header (tuple_header t @ put_word n @ r) = Some (t\<lparr>t_values := []\<rparr>, n, r)"
  by (cases t) (simp add: read_tuple_header_def tuple_header_def)

lemma unat_tuple_length: "tuple_ok t \<Longrightarrow> unat (of_nat (length (t_values t)) :: u32) = length (t_values t)"
  by (simp add: tuple_ok_def unat_of_nat)

lemma describes_tuple:
  "tuple_ok t \<Longrightarrow> describes (null_bitmap (t_values t)) (t_values t) [0..<length (t_values t)]"
  by (auto simp: describes_def null_bitmap_iff tuple_ok_def list_all_length)

lemma take_bitmap:
  "tuple_ok t \<Longrightarrow> take_bytes ((unat (of_nat (length (t_values t)) :: u32) + 7) div 8)
     (null_bitmap (t_values t) @ r) = Some (null_bitmap (t_values t), r)"
  by (simp add: take_bytes_def unat_tuple_length)

lemma not_too_many: "tuple_ok t \<Longrightarrow> \<not> (of_nat (length (t_values t)) :: u32) > 4096"
  by (simp add: tuple_ok_def word_less_nat_alt unat_of_nat)

text \<open>The row a reader with schema \<open>s\<close> sees: surplus stored columns are cut off, missing
  ones get their defaults.\<close>

definition row_at_schema :: "schema \<Rightarrow> tuple \<Rightarrow> tuple" where
  "row_at_schema s t = t\<lparr>t_values := pad_defaults s (take (length s) (t_values t))\<rparr>"

lemma deserialize_image:
  assumes "tuple_ok t"
  shows "deserialize_from_page (serialize_to_page t @ rest) s = row_at_schema s t"
  using not_too_many [OF assms] take_bitmap [OF assms] unat_tuple_length [OF assms]
    read_values_images [OF describes_tuple [OF assms], of "length s" rest "[]"]
  by (simp add: deserialize_from_page_def tuple_image read_header_image filter_upt row_at_schema_def)

lemma length_value_image: "value_ok v \<Longrightarrow> length (serialize_value v) = unat (value_serialized_size v)"
proof (cases v)
  case (VVarchar s)
  assume "value_ok v"
  with VVarchar have "unat (5 + of_nat (length s) :: u32) = 5 + length s"
    using unat_length [of "5 + length s"] by (simp add: value_ok_def)
  with VVarchar show ?thesis by (simp add: serialize_value_def value_serialized_size_def)
qed (simp_all add: serialize_value_def value_serialized_size_def)

lemma length_images:
  "list_all value_ok vs \<Longrightarrow>
   fold (\<lambda>v size. if is_null v then size else size + unat (value_serialized_size v)) vs k =
   k + length (concat (map value_image vs))"
  by (induction vs arbitrary: k) (auto simp: length_value_image)

text \<open>C22: a row survives its page image.  Reading the image of a row of at most 4096 columns with a schema gives the
  header of the row and its values, cut off or padded with column defaults to the number of columns of the
  schema, whatever bytes follow the image; \<^verbatim>\<open>serialized_size\<close> is the length of the image.\<close>

theorem tuple_roundtrip:
  assumes "tuple_ok t"
  shows "deserialize_from_page (serialize_to_page t @ rest) s = row_at_schema s t \<and>
    length (serialize_to_page t) = tuple_serialized_size t"
proof
  show "length (serialize_to_page t) = tuple_serialized_size t"
    using assms by (simp add: serialize_to_page_def tuple_serialized_size_def tuple_header_def tuple_ok_def
        length_images)
qed (rule deserialize_image [OF assms])

definition sample_row :: tuple where
  "sample_row = \<lparr>t_xmin = 5, t_xmax = 0, t_next_page = 0, t_next_slot = 0,
     t_values = [VInt32 7, VNull, VVarchar ''hi'']\<rparr>"

definition sample_schema :: schema where
  "sample_schema = [default_column\<lparr>col_type := 1\<rparr>, default_column, default_column\<lparr>col_type := 5\<rparr>,
     default_column\<lparr>col_type := 5, col_default_value := ''d''\<rparr>]"

lemma sample_row_ok: "tuple_ok sample_row"
  by (simp add: sample_row_def tuple_ok_def value_ok_def)

theorem tuple_roundtrip_witness:
  "t_values (deserialize_from_page (serialize_to_page sample_row @ [1, 2]) sample_schema) =
     [VInt32 7, VNull, VVarchar ''hi'', VVarchar ''d'']"
  using tuple_roundtrip [OF sample_row_ok, of "[1, 2]" sample_schema]
  by (simp add: row_at_schema_def pad_defaults_def sample_row_def sample_schema_def default_as_value_def
      default_column_def type_of_code_def)

subsection \<open>One column\<close>

lemma read_column_loop_image:
  "describes bm vs js \<Longrightarrow> \<forall>i \<in> set js. i div 8 < length bm \<Longrightarrow> idx \<in> set js \<Longrightarrow> distinct js \<Longrightarrow>
   read_column_loop bm idx js (images vs js @ r) = Some (Some (vs ! idx))"
  by (induction js) (auto simp: skip_read read_serialize is_null_iff)

lemma read_column_image:
  assumes ok: "tuple_ok t" and idx: "idx < length s"
  shows "read_column_from_page (serialize_to_page t @ rest) s idx = Some (Some (get_value (row_at_schema s t) idx))"
proof (cases "idx < length (t_values t)")
  case True
  let ?n = "length (t_values t)" and ?vs = "t_values t"
  let ?bs = "null_bitmap ?vs @ images ?vs [0..<?n] @ rest"
  have n: "?n \<le> 4096" using ok by (simp add: tuple_ok_def)
  then have size: "unat (((of_nat ?n :: u32) + 7) div 8) = (?n + 7) div 8"
    using unat_of_nat [of "?n + 7", where 'a = 32] by (simp add: unat_div)
  have "describes ?bs ?vs [0..<?n]"
    using describes_tuple [OF ok] by (auto simp: describes_def bitmap_null_append bitmap_index)
  moreover have "\<forall>i \<in> set [0..<?n]. i div 8 < length ?bs" using bitmap_index by (auto intro: trans_less_add1)
  ultimately have "read_column_loop ?bs idx [0..<?n] (images ?vs [0..<?n] @ rest) = Some (Some (?vs ! idx))"
    using True by (intro read_column_loop_image) auto
  then show ?thesis
    using True idx size unat_tuple_length [OF ok]
    by (simp add: read_column_from_page_def tuple_image read_header_image get_value_def row_at_schema_def
        pad_defaults_def nth_append)
next
  case False
  then show ?thesis
    using idx unat_tuple_length [OF ok]
    by (simp add: read_column_from_page_def tuple_image read_header_image get_value_def row_at_schema_def
        pad_defaults_def nth_append get_column_def)
qed

text \<open>Reading one column agrees with reading the row.  On the image of a row, \<^verbatim>\<open>read_column_from_page\<close> answers true
  with the value \<^verbatim>\<open>deserialize_from_page\<close> has in that column, defaults of added columns included.\<close>

lemma read_column_agrees:
  assumes "tuple_ok t" and "idx < length s"
  shows "read_column_from_page (serialize_to_page t @ rest) s idx =
    Some (Some (get_value (deserialize_from_page (serialize_to_page t @ rest) s) idx))"
  using read_column_image [OF assms] deserialize_image [OF assms(1)] by simp

subsection \<open>Projections\<close>

lemma project_values_image:
  "describes bm vs js \<Longrightarrow>
   project_values bm s2o js (images vs js @ r) out =
     Some (fold (\<lambda>i out. case s2o ! i of Some pos \<Rightarrow> if is_null (vs ! i) then out else out[pos := vs ! i] | None \<Rightarrow> out)
       js out)"
  by (induction js arbitrary: out) (auto simp: skip_read read_serialize is_null_iff split: option.splits)

lemma length_source_to_output [simp]: "length (source_to_output n proj) = n"
proof -
  have "length (fold (\<lambda>i m. if proj ! i < n then m[proj ! i := Some i] else m) js m) = length m" for js m
    by (induction js arbitrary: m) auto
  then show ?thesis by (simp add: source_to_output_def)
qed

lemma source_to_output_fold:
  "distinct proj \<Longrightarrow> set js \<subseteq> {..<length proj} \<Longrightarrow> c < n \<Longrightarrow> length m = n \<Longrightarrow> distinct js \<Longrightarrow>
   fold (\<lambda>i m. if proj ! i < n then m[proj ! i := Some i] else m) js m ! c = Some p \<longleftrightarrow>
   p \<in> set js \<and> proj ! p = c \<or> c \<notin> (!) proj ` set js \<and> m ! c = Some p"
proof (induction js arbitrary: m)
  case (Cons j js)
  then show ?case
    by (auto simp: nth_list_update' nth_eq_iff_index_eq)
qed simp

lemma source_to_output_nth:
  "distinct proj \<Longrightarrow> c < n \<Longrightarrow>
   source_to_output n proj ! c = Some p \<longleftrightarrow> p < length proj \<and> proj ! p = c"
  unfolding source_to_output_def by (subst source_to_output_fold) auto

lemma project_fold:
  assumes "\<And>i j p. i \<in> set js \<Longrightarrow> j \<in> set js \<Longrightarrow> s2o ! i = Some p \<Longrightarrow> s2o ! j = Some p \<Longrightarrow> i = j"
    and "distinct js" and "p < length out"
  shows "fold (\<lambda>i out. case s2o ! i of Some pos \<Rightarrow> if P i then out else out[pos := f i] | None \<Rightarrow> out) js out ! p =
    (case List.find (\<lambda>i. s2o ! i = Some p) js of Some i \<Rightarrow> if P i then out ! p else f i | None \<Rightarrow> out ! p)"
  using assms
proof (induction js arbitrary: out)
  case (Cons j js)
  have none: "List.find (\<lambda>i. s2o ! i = Some p) js = None" if "s2o ! j = Some p"
    using that Cons.prems(1,2) by (auto simp: find_None_iff)
  have IH: "q < length out' \<Longrightarrow> q = p \<Longrightarrow>
      fold (\<lambda>i out. case s2o ! i of Some pos \<Rightarrow> if P i then out else out[pos := f i] | None \<Rightarrow> out) js out' ! q =
      (case List.find (\<lambda>i. s2o ! i = Some p) js of Some i \<Rightarrow> if P i then out' ! q else f i | None \<Rightarrow> out' ! q)"
    for q out' using Cons.IH [of out'] Cons.prems(1,2) by auto
  show ?case
    using Cons.prems(3) none IH by (auto simp: nth_list_update' split: option.splits)
qed simp

lemma length_project_fold [simp]:
  "length (fold (\<lambda>i out. case s2o ! i of Some pos \<Rightarrow> if P i then out else out[pos := f i] | None \<Rightarrow> out) js out) = length out"
  by (induction js arbitrary: out) (auto split: option.splits)

lemma project_defaults_nth:
  assumes "length out = length proj"
  shows "length (project_defaults src proj n out) = length proj"
    and "p < length proj \<Longrightarrow> project_defaults src proj n out ! p =
      (if proj ! p \<ge> n \<and> proj ! p < length src \<and> has_default (src ! (proj ! p))
       then default_as_value (src ! (proj ! p)) else out ! p)"
proof -
  let ?g = "\<lambda>i vs. let c = proj ! i in if c < n \<or> c \<ge> length src then vs
    else if has_default (get_column src c) then vs[i := default_as_value (get_column src c)] else vs"
  have len: "length (fold ?g js xs) = length xs" for js xs
    by (induction js arbitrary: xs) (auto simp: Let_def)
  then show "length (project_defaults src proj n out) = length proj"
    using assms by (simp add: project_defaults_def)
  have "distinct js \<Longrightarrow> p < length xs \<Longrightarrow> fold ?g js xs ! p =
      (if p \<in> set js \<and> proj ! p \<ge> n \<and> proj ! p < length src \<and> has_default (src ! (proj ! p))
       then default_as_value (src ! (proj ! p)) else xs ! p)" for js xs p
    by (induction js arbitrary: xs) (auto simp: Let_def nth_list_update' get_column_def)
  then show "p < length proj \<Longrightarrow> project_defaults src proj n out ! p =
      (if proj ! p \<ge> n \<and> proj ! p < length src \<and> has_default (src ! (proj ! p))
       then default_as_value (src ! (proj ! p)) else out ! p)"
    using assms by (simp add: project_defaults_def)
qed

text \<open>The value a projection finds for output position \<open>p\<close> among the stored columns.\<close>

lemma project_image:
  assumes ok: "tuple_ok t" and "proj \<noteq> []"
    and inj: "\<And>i j p. i < length (t_values t) \<Longrightarrow> j < length (t_values t) \<Longrightarrow>
      source_to_output (length (t_values t)) proj ! i = Some p \<Longrightarrow>
      source_to_output (length (t_values t)) proj ! j = Some p \<Longrightarrow> i = j"
  obtains out where "length out = length proj"
    "deserialize_projected_from_page (serialize_to_page t @ rest) src os proj =
       t\<lparr>t_values := project_defaults src proj (length (t_values t)) out\<rparr>"
    "\<And>p. p < length proj \<Longrightarrow> out ! p =
       (case List.find (\<lambda>i. source_to_output (length (t_values t)) proj ! i = Some p) [0..<length (t_values t)] of
          Some i \<Rightarrow> t_values t ! i | None \<Rightarrow> VNull)"
proof -
  let ?vs = "t_values t" and ?s2o = "source_to_output (length (t_values t)) proj"
  let ?out = "fold (\<lambda>i out. case ?s2o ! i of Some pos \<Rightarrow> if is_null (?vs ! i) then out else out[pos := ?vs ! i] | None \<Rightarrow> out)
    [0..<length ?vs] (replicate (length proj) VNull)"
  have "?out ! p = (case List.find (\<lambda>i. ?s2o ! i = Some p) [0..<length ?vs] of Some i \<Rightarrow> ?vs ! i | None \<Rightarrow> VNull)"
    if "p < length proj" for p
    by (subst project_fold) (use inj that in \<open>auto simp: is_null_iff split: option.splits\<close>)
  moreover have "deserialize_projected_from_page (serialize_to_page t @ rest) src os proj =
      t\<lparr>t_values := project_defaults src proj (length ?vs) ?out\<rparr>"
    using not_too_many [OF ok] take_bitmap [OF ok] unat_tuple_length [OF ok] assms(2)
      project_values_image [OF describes_tuple [OF ok], of ?s2o rest "replicate (length proj) VNull"]
    by (simp add: deserialize_projected_from_page_def tuple_image read_header_image)
  ultimately show ?thesis by (intro that [of ?out]) simp_all
qed

lemma find_unique: "c < n \<Longrightarrow> (\<And>i. i < n \<Longrightarrow> P i \<longleftrightarrow> i = c) \<Longrightarrow> List.find P [0..<n] = Some c"
  by (auto simp: find_Some_iff)

lemma default_without: "\<not> has_default c \<Longrightarrow> default_as_value c = VNull"
  by (simp add: has_default_def default_as_value_def)

lemma projected_value:
  assumes ok: "tuple_ok t" and proj: "proj \<noteq> []" "distinct proj" "\<forall>c \<in> set proj. c < length src"
  shows "deserialize_projected_from_page (serialize_to_page t @ rest) src os proj =
    t\<lparr>t_values := map (get_value (row_at_schema src t)) proj\<rparr>"
proof -
  let ?n = "length (t_values t)"
  have s2o: "source_to_output ?n proj ! c = Some p \<longleftrightarrow> p < length proj \<and> proj ! p = c" if "c < ?n" for c p
    using source_to_output_nth [OF proj(2) that] .
  then have inj: "i = j" if "i < ?n" "j < ?n" "source_to_output ?n proj ! i = Some p"
    "source_to_output ?n proj ! j = Some p" for i j p using that by metis
  obtain out where out: "length out = length proj"
    "deserialize_projected_from_page (serialize_to_page t @ rest) src os proj =
       t\<lparr>t_values := project_defaults src proj ?n out\<rparr>"
    "\<And>p. p < length proj \<Longrightarrow> out ! p = (case List.find (\<lambda>i. source_to_output ?n proj ! i = Some p) [0..<?n] of
          Some i \<Rightarrow> t_values t ! i | None \<Rightarrow> VNull)"
    by (rule project_image [OF ok proj(1), of rest src os]) (use inj in blast)+
  have "project_defaults src proj ?n out = map (get_value (row_at_schema src t)) proj"
  proof (rule nth_equalityI)
    fix p assume "p < length (project_defaults src proj ?n out)"
    then have p: "p < length proj" by (simp add: project_defaults_nth(1) [OF out(1)])
    then have src: "proj ! p < length src" using proj(3) by simp
    have find: "List.find (\<lambda>i. source_to_output ?n proj ! i = Some p) [0..<?n] =
        (if proj ! p < ?n then Some (proj ! p) else None)"
    proof (cases "proj ! p < ?n")
      case True
      then show ?thesis using s2o p by (auto intro!: find_unique)
    next
      case False
      then show ?thesis using s2o by (auto simp: find_None_iff)
    qed
    show "project_defaults src proj ?n out ! p = map (get_value (row_at_schema src t)) proj ! p"
      using p src find out(3) [OF p] default_without [of "src ! (proj ! p)"]
      by (simp add: project_defaults_nth(2) [OF out(1)] get_value_def row_at_schema_def pad_defaults_def nth_append)
  qed (simp add: project_defaults_nth(1) [OF out(1)])
  with out(2) show ?thesis by simp
qed

text \<open>A projection agrees with reading the row.  On the image of a row, \<^verbatim>\<open>deserialize_projected_from_page\<close> with a
  non-empty list of distinct columns of the source schema gives the header of the row and, in the order of the
  list, the values \<^verbatim>\<open>deserialize_from_page\<close> has in these columns.\<close>

lemma projection_agrees:
  assumes "tuple_ok t" and "proj \<noteq> []" "distinct proj" "\<forall>c \<in> set proj. c < length src"
  shows "deserialize_projected_from_page (serialize_to_page t @ rest) src os proj =
    (let row = deserialize_from_page (serialize_to_page t @ rest) src
     in row\<lparr>t_values := map (get_value row) proj\<rparr>)"
  using projected_value [OF assms] deserialize_image [OF assms(1)]
  by (simp add: row_at_schema_def)

text \<open>A column listed twice in a projection loses a value.  With the column list \<open>[c, c]\<close> the first output is NULL
  and only the second one has the value: the map from source columns to outputs keeps one position per column.\<close>

lemma duplicate_projection_loses_value:
  assumes "tuple_ok t" and "c < length (t_values t)"
  shows "t_values (deserialize_projected_from_page (serialize_to_page t @ rest) src os [c, c]) =
    [VNull, t_values t ! c]"
proof -
  let ?n = "length (t_values t)"
  have s2o: "source_to_output ?n [c, c] = (replicate ?n None)[c := Some 1]"
    using assms(2) by (simp add: source_to_output_def)
  have at: "source_to_output ?n [c, c] ! i = Some p \<longleftrightarrow> i = c \<and> p = 1" if "i < ?n" for i p
    using that assms(2) by (auto simp: s2o nth_list_update')
  obtain out where out: "length out = length [c, c]"
    "deserialize_projected_from_page (serialize_to_page t @ rest) src os [c, c] =
       t\<lparr>t_values := project_defaults src [c, c] ?n out\<rparr>"
    "\<And>p. p < length [c, c] \<Longrightarrow> out ! p = (case List.find (\<lambda>i. source_to_output ?n [c, c] ! i = Some p) [0..<?n] of
          Some i \<Rightarrow> t_values t ! i | None \<Rightarrow> VNull)"
    by (rule project_image [OF assms(1), of "[c, c]" rest src os]) (use at in auto)
  have "List.find (\<lambda>i. source_to_output ?n [c, c] ! i = Some 0) [0..<?n] = None"
    using at by (auto simp: find_None_iff)
  moreover have "List.find (\<lambda>i. source_to_output ?n [c, c] ! i = Some 1) [0..<?n] = Some c"
    using at assms(2) by (intro find_unique) auto
  ultimately have "out = [VNull, t_values t ! c]"
    using out(1) out(3) [of 0] out(3) [of 1] by (auto simp: length_Suc_conv)
  moreover have "project_defaults src [c, c] ?n out = out"
    using assms(2) by (simp add: project_defaults_def Let_def)
  ultimately show ?thesis using out(2) by simp
qed

end
