(* ===== verification/Tuple_Key.thy ===== *)
theory Tuple_Key
  imports Tuple
begin

section \<open>Hash keys of rows\<close>

text \<open>
  Model of \<^verbatim>\<open>src/src/common/tuple_key.h\<close>: the text keys under which the executors file rows
  for DISTINCT, GROUP BY, UNION and hash joins.  \<open>print_g p\<close> is \<^verbatim>\<open>%.pg\<close> of \<^verbatim>\<open>printf\<close> on a double.
\<close>

subsection \<open>Printing with \<^verbatim>\<open>%.pg\<close>\<close>

function neg_exp :: "nat \<Rightarrow> nat \<Rightarrow> nat" where
  "neg_exp num den = (if num = 0 \<or> num * 10 \<ge> den then 1 else 1 + neg_exp (num * 10) den)"
  by auto
termination by (relation "measure (\<lambda>(num, den). den - num)") auto

text \<open>The exponent of the leading decimal digit of \<open>num / den\<close>.\<close>

definition dec_exponent :: "nat \<Rightarrow> nat \<Rightarrow> int" where
  "dec_exponent num den =
     (if num \<ge> den then int (length (dec_digits (num div den))) - 1 else - int (neg_exp num den))"

definition sig_digits :: "nat \<Rightarrow> nat \<Rightarrow> nat \<Rightarrow> string \<times> int" where
  "sig_digits p num den =
     (let x = dec_exponent num den;
          scale = int p - 1 - x;
          d = half_even (num * 10 ^ nat scale) (den * 10 ^ nat (- scale))
      in if d \<ge> 10 ^ p then (dec_digits (10 ^ (p - 1)), x + 1) else (dec_digits d, x))"

definition with_fraction :: "string \<Rightarrow> string \<Rightarrow> string" where
  "with_fraction ip frac = (let f = trim_zeros frac in if f = [] then ip else ip @ ''.'' @ f)"

definition print_g :: "nat \<Rightarrow> nat \<Rightarrow> string" where
  "print_g p b =
     (let body =
        (if fp_is_nan 52 11 b then ''nan''
         else if fp_is_inf 52 11 b then ''inf''
         else if fp_is_zero 52 11 b then ''0''
         else
           (let (ds, x) = sig_digits p (fp_mag 52 11 b) (2 ^ fp_shift 52 11) in
            if x < - 4 \<or> x \<ge> int p
            then with_fraction (take 1 ds) (drop 1 ds) @ ''e'' @ (if x < 0 then ''-'' else ''+'') @
                 zero_pad 2 (dec_digits (nat \<bar>x\<bar>))
            else if x \<ge> 0 then with_fraction (take (nat x + 1) ds) (drop (nat x + 1) ds)
            else with_fraction ''0'' (replicate (nat (- x) - 1) CHR ''0'' @ ds)))
      in if fp_neg 52 11 b then CHR ''-'' # body else body)"

subsection \<open>Keys\<close>

text \<open>\<^verbatim>\<open>if (d == 0.0) d = 0.0;\<close> turns a negative zero into a positive one.\<close>

definition no_neg_zero :: "nat \<Rightarrow> nat" where
  "no_neg_zero d = (if fp_eq 52 11 d 0 then 0 else d)"

definition value_key_text :: "db_value \<Rightarrow> string" where
  "value_key_text v =
     (case v of
        VBool b \<Rightarrow> if b then ''1'' else ''0''
      | VInt32 x \<Rightarrow> print_int (sint x)
      | VInt64 x \<Rightarrow> print_int (sint x)
      | VTimestamp x \<Rightarrow> print_int (sint x)
      | VDatetime x \<Rightarrow> print_int (sint x)
      | VFloat x \<Rightarrow> print_g 9 (no_neg_zero (fp_convert 23 8 52 11 (unat x)))
      | VDouble x \<Rightarrow> print_g 17 (no_neg_zero (unat x))
      | VVarchar s \<Rightarrow> s
      | VNull \<Rightarrow> ''NULL'')"

definition encode_value_key :: "db_value \<Rightarrow> string" where
  "encode_value_key v =
     string_of_u64 (of_nat (type_code (type_id_of v))) @ '':'' @
     (if is_null v then ''NULL;''
      else string_of_u64 (of_nat (length (value_key_text v))) @ ''#'' @ value_key_text v @ '';'')"

definition make_values_key :: "db_value list \<Rightarrow> string" where
  "make_values_key vs =
     string_of_u64 (of_nat (length vs)) @ ''|'' @ concat (map encode_value_key vs)"

definition make_tuple_key :: "tuple \<Rightarrow> string" where
  "make_tuple_key t =
     string_of_u64 (of_nat (length (t_values t))) @ ''|'' @
     concat (map (\<lambda>i. encode_value_key (get_value t i)) [0..<length (t_values t)])"

fun projected_key_loop :: "db_value list \<Rightarrow> bool \<Rightarrow> nat list \<Rightarrow> string \<Rightarrow> string option" where
  "projected_key_loop vs skip [] out = Some out"
| "projected_key_loop vs skip (c # cs) out =
     (if c \<ge> length vs then None
      else if skip \<and> is_null (vs ! c) then None
      else projected_key_loop vs skip cs (out @ encode_value_key (vs ! c)))"

definition make_projected_values_key :: "db_value list \<Rightarrow> nat list \<Rightarrow> bool \<Rightarrow> string option" where
  "make_projected_values_key vs columns skip_if_any_null =
     projected_key_loop vs skip_if_any_null columns (string_of_u64 (of_nat (length columns)) @ ''|'')"

definition make_projected_tuple_key :: "tuple \<Rightarrow> nat list \<Rightarrow> bool \<Rightarrow> string option" where
  "make_projected_tuple_key t columns skip_if_any_null =
     projected_key_loop (t_values t) skip_if_any_null columns (string_of_u64 (of_nat (length columns)) @ ''|'')"

section \<open>Keys identify rows\<close>

lemma takeWhile_dec: "\<not> is_digit c \<Longrightarrow> takeWhile is_digit (dec_digits n @ c # r) = dec_digits n"
  using is_digit_dec_digits [of n] by (simp add: takeWhile_append list_all_iff)

lemma dec_digits_inj: "dec_digits a = dec_digits b \<Longrightarrow> a = b"
  by (metis dec_val_dec_digits)

lemma dec_prefix:
  assumes "dec_digits a @ c # r = dec_digits b @ c # r'" "\<not> is_digit c"
  shows "a = b \<and> r = r'"
proof -
  have "dec_digits a = dec_digits b" using assms takeWhile_dec by metis
  with assms show ?thesis using dec_digits_inj by auto
qed

lemma print_int_inj:
  assumes "print_int i = print_int j"
  shows "i = j"
proof -
  have hd: "hd (dec_digits n) \<noteq> CHR ''-''" for n
    using is_digit_dec_digits [of n] not_space_digit by (cases "dec_digits n") auto
  show ?thesis
  proof (cases "i < 0 \<longleftrightarrow> j < 0")
    case True
    with assms show ?thesis by (auto simp: print_int_def split: if_splits dest!: dec_digits_inj)
  next
    case False
    with assms hd [of "nat i"] hd [of "nat j"] show ?thesis
      by (auto simp: print_int_def split: if_splits) (metis list.sel(1))+
  qed
qed

definition float_free :: "db_value \<Rightarrow> bool" where
  "float_free v = (type_id_of v \<noteq> KFloat \<and> type_id_of v \<noteq> KDouble)"

lemma value_key_text_inj:
  "type_id_of v = type_id_of w \<Longrightarrow> float_free v \<Longrightarrow> value_key_text v = value_key_text w \<Longrightarrow> v = w"
  by (cases v; cases w)
    (auto simp: value_key_text_def float_free_def dest!: print_int_inj split: if_splits
      intro: signed_word_eqI)

lemma key_text_length:
  assumes "value_ok v" "float_free v"
  shows "length (value_key_text v) < 2 ^ 64"
proof -
  have "length (print_int (sint x)) < 2 ^ 64" for x :: i64
    using length_print_int64 [of "sint x"] by simp
  moreover have "length (print_int (sint x)) < 2 ^ 64" for x :: i32
    using length_print_int64 [of "sint x"] by (simp add: in_i32_in_i64)
  ultimately show ?thesis
    using assms by (cases v) (auto simp: value_key_text_def value_ok_def float_free_def)
qed

lemma string_of_nat: "n < 2 ^ 64 \<Longrightarrow> string_of_u64 (of_nat n) = dec_digits n"
  by (simp add: string_of_u64_dec unat_of_nat)

lemma type_code_less: "type_code t < 2 ^ 64"
  by (cases t) simp_all

lemma type_code_inj: "type_code s = type_code t \<Longrightarrow> s = t"
  by (cases s; cases t) simp_all

lemma encode_prefix_free:
  assumes v: "value_ok v" "float_free v" and w: "value_ok w" "float_free w"
    and eq: "encode_value_key v @ r = encode_value_key w @ r'"
  shows "v = w \<and> r = r'"
proof -
  let ?body = "\<lambda>v r. (if is_null v then ''NULL;'' else
    dec_digits (length (value_key_text v)) @ ''#'' @ value_key_text v @ '';'') @ r"
  have enc: "encode_value_key u @ q = dec_digits (type_code (type_id_of u)) @ CHR '':'' # ?body u q"
    if "value_ok u" "float_free u" for u q
    using string_of_nat [OF type_code_less] string_of_nat [OF key_text_length [OF that]]
    by (simp add: encode_value_key_def)
  have "type_code (type_id_of v) = type_code (type_id_of w)" and body: "?body v r = ?body w r'"
    using dec_prefix [OF eq [unfolded enc [OF v] enc [OF w]]] by (simp_all add: is_digit_def)
  then have ty: "type_id_of v = type_id_of w" by (blast dest: type_code_inj)
  show ?thesis
  proof (cases "is_null v")
    case True
    with ty body show ?thesis by (auto simp: is_null_def is_null_iff [unfolded is_null_def])
  next
    case False
    with ty have nw: "\<not> is_null w" by (simp add: is_null_def)
    have "dec_digits (length (value_key_text v)) @ CHR ''#'' # value_key_text v @ CHR '';'' # r =
        dec_digits (length (value_key_text w)) @ CHR ''#'' # value_key_text w @ CHR '';'' # r'"
      using body False nw by simp
    from dec_prefix [OF this]
    have "length (value_key_text v) = length (value_key_text w)"
      "value_key_text v @ CHR '';'' # r = value_key_text w @ CHR '';'' # r'" by (simp_all add: is_digit_def)
    then show ?thesis using value_key_text_inj [OF ty v(2)] by simp
  qed
qed

lemma concat_keys_inj:
  "length vs = length ws \<Longrightarrow> list_all (\<lambda>v. value_ok v \<and> float_free v) vs \<Longrightarrow>
   list_all (\<lambda>v. value_ok v \<and> float_free v) ws \<Longrightarrow>
   concat (map encode_value_key vs) = concat (map encode_value_key ws) \<Longrightarrow> vs = ws"
proof (induction vs ws rule: list_induct2)
  case (Cons v vs w ws)
  then show ?case
    using encode_prefix_free [of v w "concat (map encode_value_key vs)" "concat (map encode_value_key ws)"]
    by simp
qed simp

text \<open>C27: equal hash keys mean equal rows.  For rows without FLOAT and DOUBLE values, \<^verbatim>\<open>make_values_key\<close> gives the same text
  for two rows exactly when the rows are equal: no choice of strings can make two different rows collide.\<close>

theorem values_key_injective:
  assumes "list_all (\<lambda>v. value_ok v \<and> float_free v) vs" "list_all (\<lambda>v. value_ok v \<and> float_free v) ws"
    and "length vs < 2 ^ 32" "length ws < 2 ^ 32"
  shows "make_values_key vs = make_values_key ws \<longleftrightarrow> vs = ws"
proof
  assume "make_values_key vs = make_values_key ws"
  then have "dec_digits (length vs) @ CHR ''|'' # concat (map encode_value_key vs) =
      dec_digits (length ws) @ CHR ''|'' # concat (map encode_value_key ws)"
    using assms(3,4) by (simp add: make_values_key_def string_of_nat)
  from dec_prefix [OF this]
  have "length vs = length ws" "concat (map encode_value_key vs) = concat (map encode_value_key ws)"
    by (simp_all add: is_digit_def)
  then show "vs = ws" using concat_keys_inj assms(1,2) by blast
qed simp

theorem values_key_injective_witness:
  "make_values_key [VVarchar ''a;5:1#b''] \<noteq> make_values_key [VVarchar ''a'', VVarchar ''b'']"
  using values_key_injective [of "[VVarchar ''a;5:1#b'']" "[VVarchar ''a'', VVarchar ''b'']"]
  by (simp add: value_ok_def float_free_def)

lemma tuple_key_values: "make_tuple_key t = make_values_key (t_values t)"
proof -
  have "map (\<lambda>i. encode_value_key (get_value t i)) [0..<length (t_values t)] = map encode_value_key (t_values t)"
    by (rule nth_equalityI) (auto simp: get_value_def)
  then show ?thesis by (simp add: make_tuple_key_def make_values_key_def)
qed

lemma projected_key_loop_eq:
  "projected_key_loop vs skip cs out =
     (if \<forall>c \<in> set cs. c < length vs \<and> \<not> (skip \<and> is_null (vs ! c))
      then Some (out @ concat (map (\<lambda>c. encode_value_key (vs ! c)) cs)) else None)"
  by (induction cs arbitrary: out) auto

text \<open>A projected key is the key of the projection.  \<^verbatim>\<open>make_projected_values_key\<close> answers false exactly when a column
  is out of range, or NULL where NULLs are to be skipped, and otherwise gives the key of the projected values.\<close>

lemma projected_key_eq:
  "make_projected_values_key vs cols skip =
     (if \<forall>c \<in> set cols. c < length vs \<and> \<not> (skip \<and> vs ! c = VNull)
      then Some (make_values_key (map ((!) vs) cols)) else None)"
  by (simp add: make_projected_values_key_def projected_key_loop_eq make_values_key_def is_null_iff comp_def)

text \<open>The two signs of NaN.  \<^verbatim>\<open>Value::compare\<close> calls all NaNs equal, but the keys of a NaN and of the same NaN with its
  sign bit set differ, so grouping by key separates rows that compare equal.\<close>

lemma nan_keys_differ:
  "value_compare (VDouble 0x7FF8000000000000) (VDouble 0xFFF8000000000000) = 0 \<and>
   encode_value_key (VDouble 0x7FF8000000000000) \<noteq> encode_value_key (VDouble 0xFFF8000000000000)"
proof
  show "value_compare (VDouble 0x7FF8000000000000) (VDouble 0xFFF8000000000000) = 0"
    by (simp add: value_compare_def fp_three_way_def fp_eq_def fp_is_nan_def fp_exp_def fp_frac_def)
  have "value_key_text (VDouble 0x7FF8000000000000) = ''nan''" "value_key_text (VDouble 0xFFF8000000000000) = ''-nan''"
    by (simp_all add: value_key_text_def no_neg_zero_def fp_eq_def fp_is_nan_def fp_exp_def fp_frac_def print_g_def
        fp_neg_def)
  then show "encode_value_key (VDouble 0x7FF8000000000000) \<noteq> encode_value_key (VDouble 0xFFF8000000000000)"
    by (simp add: encode_value_key_def is_null_def)
qed

end
