(* ===== verification/Index_Key.thy ===== *)
theory Index_Key
  imports Value
begin

section \<open>Index keys\<close>

text \<open>
  Model of \<^verbatim>\<open>src/src/index/index_key.{h,cpp}\<close>: composite keys with a direction and a NULL
  order per column, and their image in the slot of an index page.  The schema argument is
  optional, as the pointer of the source is.  Sizes are natural numbers: the sum of the
  sizes of a key's strings is taken to stay below 4 GiB.
\<close>

record index_key_column =
  ikc_type :: type_id
  ikc_descending :: bool
  ikc_nulls_first :: bool
  ikc_collation_id :: u32

type_synonym index_key_schema = "index_key_column list"
type_synonym index_key = "db_value list"

definition add_key_column :: "index_key_schema \<Rightarrow> type_id \<Rightarrow> bool \<Rightarrow> bool \<Rightarrow> u32 \<Rightarrow> index_key_schema" where
  "add_key_column s t desc nulls_first coll =
     s @ [\<lparr>ikc_type = t, ikc_descending = desc, ikc_nulls_first = nulls_first, ikc_collation_id = coll\<rparr>]"

subsection \<open>Order\<close>

definition compare_value_with_null_order :: "db_value \<Rightarrow> db_value \<Rightarrow> bool \<Rightarrow> int" where
  "compare_value_with_null_order a b nulls_first =
     (if is_null a \<or> is_null b
      then (if is_null a \<and> is_null b then 0
            else if is_null a then (if nulls_first then -1 else 1)
            else (if nulls_first then 1 else -1))
      else value_compare a b)"

definition key_desc :: "index_key_schema option \<Rightarrow> nat \<Rightarrow> bool" where
  "key_desc schema i =
     (case schema of Some s \<Rightarrow> if i < length s then ikc_descending (s ! i) else False | None \<Rightarrow> False)"

definition key_nulls_first :: "index_key_schema option \<Rightarrow> nat \<Rightarrow> bool" where
  "key_nulls_first schema i =
     (case schema of Some s \<Rightarrow> if i < length s then ikc_nulls_first (s ! i) else True | None \<Rightarrow> True)"

fun key_compare_from :: "index_key_schema option \<Rightarrow> nat \<Rightarrow> index_key \<Rightarrow> index_key \<Rightarrow> int" where
  "key_compare_from schema i (x # xs) (y # ys) =
     (let cmp = compare_value_with_null_order x y (key_nulls_first schema i) in
      if cmp \<noteq> 0 then (if key_desc schema i then - cmp else cmp)
      else key_compare_from schema (Suc i) xs ys)"
| "key_compare_from schema i [] [] = 0"
| "key_compare_from schema i [] (_ # _) = -1"
| "key_compare_from schema i (_ # _) [] = 1"

definition key_compare :: "index_key_schema option \<Rightarrow> index_key \<Rightarrow> index_key \<Rightarrow> int" where
  "key_compare schema a b = key_compare_from schema 0 a b"

fun starts_with_from :: "index_key_schema option \<Rightarrow> nat \<Rightarrow> index_key \<Rightarrow> index_key \<Rightarrow> bool" where
  "starts_with_from schema i (x # xs) (y # ys) =
     (let cmp0 = compare_value_with_null_order x y (key_nulls_first schema i);
          cmp = (if key_desc schema i then - cmp0 else cmp0)
      in if cmp \<noteq> 0 then False else starts_with_from schema (Suc i) xs ys)"
| "starts_with_from schema i _ _ = True"

definition starts_with :: "index_key_schema option \<Rightarrow> index_key \<Rightarrow> index_key \<Rightarrow> bool" where
  "starts_with schema key prefix =
     (if length prefix > length key then False else starts_with_from schema 0 key prefix)"

subsection \<open>Slot image\<close>

definition key_value_size :: "db_value \<Rightarrow> nat" where
  "key_value_size v =
     1 + (case v of VBool _ \<Rightarrow> 1 | VInt32 _ \<Rightarrow> 4 | VInt64 _ \<Rightarrow> 8 | VTimestamp _ \<Rightarrow> 8 | VDatetime _ \<Rightarrow> 8
          | VFloat _ \<Rightarrow> 4 | VDouble _ \<Rightarrow> 8 | VVarchar s \<Rightarrow> 2 + length s | VNull \<Rightarrow> 0)"

definition encoded_size :: "index_key \<Rightarrow> nat" where
  "encoded_size vs = fold (\<lambda>v size. size + key_value_size v) vs (2 + 2 + 2)"

definition key_fits :: "index_key \<Rightarrow> nat \<Rightarrow> bool" where
  "key_fits vs slot_size = (encoded_size vs \<le> slot_size \<and> length vs \<le> 255)"

definition kIndexKeyMagic :: u16 where
  "kIndexKeyMagic = 0x494b"

definition encode_key_value :: "db_value \<Rightarrow> byte list" where
  "encode_key_value v =
     of_nat (type_code (type_id_of v)) #
     (case v of
        VBool b \<Rightarrow> [if b then 1 else 0]
      | VInt32 x \<Rightarrow> put_word x
      | VInt64 x \<Rightarrow> put_word x
      | VTimestamp x \<Rightarrow> put_word x
      | VDatetime x \<Rightarrow> put_word x
      | VFloat x \<Rightarrow> put_word x
      | VDouble x \<Rightarrow> put_word x
      | VVarchar s \<Rightarrow>
          (let len = of_nat (length s) :: u16 in put_word len @ bytes_of_string (take (unat len) s))
      | VNull \<Rightarrow> [])"

definition key_image :: "index_key \<Rightarrow> byte list" where
  "key_image vs =
     put_word kIndexKeyMagic @ put_word (of_nat (length vs) :: u16) @
     put_word (of_nat (encoded_size vs - 6) :: u16) @ concat (map encode_key_value vs)"

text \<open>Writing a key over the old bytes of a slot: the bytes of the key and one more are
  zeroed first.  \<open>None\<close> is the answer false, with the slot untouched.\<close>

definition encode_key :: "index_key \<Rightarrow> byte list \<Rightarrow> byte list option" where
  "encode_key vs slot =
     (if \<not> key_fits vs (length slot) then None
      else
        (let actual = encoded_size vs;
             zeros = (if actual < length slot then actual + 1 else length slot);
             slot1 = replicate zeros 0 @ drop zeros slot;
             image = key_image vs
         in Some (image @ drop (length image) slot1)))"

definition decode_key_value :: "byte list \<Rightarrow> (db_value \<times> byte list) option" where
  "decode_key_value bs0 =
     (case bs0 of
        [] \<Rightarrow> None
      | t # bs \<Rightarrow>
          (case type_of_code (unat t) of
             Some KBool \<Rightarrow> (case bs of x # r \<Rightarrow> Some (VBool (x = 1), r) | [] \<Rightarrow> None)
           | Some KInt32 \<Rightarrow> map_option (apfst VInt32) (take_word bs)
           | Some KInt64 \<Rightarrow> map_option (apfst VInt64) (take_word bs)
           | Some KTimestamp \<Rightarrow> map_option (apfst VTimestamp) (take_word bs)
           | Some KDatetime \<Rightarrow> map_option (apfst VDatetime) (take_word bs)
           | Some KFloat \<Rightarrow> map_option (apfst VFloat) (take_word bs)
           | Some KDouble \<Rightarrow> map_option (apfst VDouble) (take_word bs)
           | Some KVarchar \<Rightarrow>
               Option.bind (take_word bs) (\<lambda>(len :: u16, r).
                 if unat len \<le> length r
                 then Some (VVarchar (string_of_bytes (take (unat len) r)), drop (unat len) r)
                 else None)
           | _ \<Rightarrow> Some (VNull, bs)))"

fun decode_loop :: "nat \<Rightarrow> byte list \<Rightarrow> index_key \<Rightarrow> index_key" where
  "decode_loop 0 bs acc = acc"
| "decode_loop (Suc n) bs acc =
     (if bs = [] then acc
      else case decode_key_value bs of
          None \<Rightarrow> []
        | Some (v, bs') \<Rightarrow> decode_loop n bs' (acc @ [v]))"

definition decode_key :: "byte list \<Rightarrow> index_key" where
  "decode_key slot =
     (if length slot < 6 then []
      else
        (let magic = get_word (take 2 slot) :: u16;
             count = get_word (take 2 (drop 2 slot)) :: u16;
             payload = get_word (take 2 (drop 4 slot)) :: u16
         in if magic \<noteq> kIndexKeyMagic \<or> unat payload + 6 > length slot then []
            else decode_loop (unat count) (take (unat payload) (drop 6 slot)) []))"

subsection \<open>Text\<close>

fun join_strings :: "string option list \<Rightarrow> string option" where
  "join_strings [] = Some []"
| "join_strings [s] = s"
| "join_strings (s # ss) =
     Option.bind s (\<lambda>a. Option.bind (join_strings ss) (\<lambda>b. Some (a @ '','' @ b)))"

definition key_to_string :: "index_key \<Rightarrow> string option" where
  "key_to_string vs =
     (if length vs = 1 then value_to_string (vs ! 0)
      else map_option (\<lambda>s. ''('' @ s @ '')'') (join_strings (map value_to_string vs)))"

section \<open>Laws of index keys\<close>

subsection \<open>The order of keys is a total preorder\<close>

lemma comparator_null_order: "comparator (\<lambda>a b. compare_value_with_null_order a b nf)"
proof (unfold_locales, goal_cases)
  case (1 b a)
  then show ?case
    using value_order.cmp_antisym [of b a] by (auto simp: compare_value_with_null_order_def)
next
  case (2 a b c)
  then show ?case
    using value_order.cmp_trans [of a b c] by (auto simp: compare_value_with_null_order_def split: if_splits)
qed

definition column_order :: "index_key_schema option \<Rightarrow> nat \<Rightarrow> db_value \<Rightarrow> db_value \<Rightarrow> int" where
  "column_order schema i a b =
     (let cmp = compare_value_with_null_order a b (key_nulls_first schema i)
      in if key_desc schema i then - cmp else cmp)"

lemma comparator_column_order: "comparator (column_order schema i)"
  using comparator_null_order [of "key_nulls_first schema i"]
    comparator_uminus [OF comparator_null_order [of "key_nulls_first schema i"]]
  by (cases "key_desc schema i") (simp_all add: column_order_def [abs_def] Let_def)

lemma key_compare_from_lex:
  "key_compare_from schema i xs ys = lex_compare (\<lambda>j. column_order schema (i + j)) xs ys"
proof (induction schema i xs ys rule: key_compare_from.induct)
  case (1 schema i x xs y ys)
  then show ?case by (simp add: column_order_def [of schema i x y] Let_def)
qed simp_all

lemma key_compare_lex: "key_compare schema = lex_compare (column_order schema)"
  by (simp add: fun_eq_iff key_compare_def key_compare_from_lex)

interpretation key_order: comparator "key_compare schema" for schema
  unfolding key_compare_lex by (rule comparator_lex) (rule comparator_column_order)

text \<open>C24: \<^verbatim>\<open>IndexKey::compare\<close> is a total preorder.  For every choice of ascending, descending, NULLs-first and NULLs-last
  columns, swapping the keys swaps the sign, any two keys are comparable, and the order is transitive.\<close>

theorem key_compare_order:
  "sgn (key_compare schema b a) = - sgn (key_compare schema a b) \<and>
   (key_compare schema a b \<le> 0 \<or> key_compare schema b a \<le> 0) \<and>
   (key_compare schema a b \<le> 0 \<longrightarrow> key_compare schema b c \<le> 0 \<longrightarrow> key_compare schema a c \<le> 0)"
  using key_order.cmp_antisym key_order.cmp_total key_order.cmp_trans by blast

theorem key_compare_order_witness:
  "key_compare (Some (add_key_column [] KInt32 True True 0)) [VInt32 9] [VInt32 3] \<le> 0"
  using key_compare_order [of "Some (add_key_column [] KInt32 True True 0)" "[VInt32 5]" "[VInt32 9]" "[VInt32 3]"]
  by (simp add: key_compare_def compare_value_with_null_order_def value_compare_def three_way_def is_null_def
      key_desc_def add_key_column_def)

lemma starts_with_from_compare:
  "length prefix \<le> length key \<Longrightarrow>
   starts_with_from schema i key prefix \<longleftrightarrow> key_compare_from schema i (take (length prefix) key) prefix = 0"
  by (induction schema i key prefix rule: starts_with_from.induct) (auto simp: Let_def)

text \<open>The prefix test is the order on prefixes.  \<^verbatim>\<open>starts_with\<close> holds exactly when the key is at least as long as the
  prefix and its leading columns compare equal to it.\<close>

lemma starts_with_iff:
  "starts_with schema key prefix \<longleftrightarrow>
     length prefix \<le> length key \<and> key_compare schema (take (length prefix) key) prefix = 0"
  using starts_with_from_compare [of prefix key schema 0] by (auto simp: starts_with_def key_compare_def)

subsection \<open>Reading back a key\<close>

lemma encoded_size_sum: "encoded_size vs = 6 + sum_list (map key_value_size vs)"
proof -
  have "fold (\<lambda>v size. size + key_value_size v) vs k = k + sum_list (map key_value_size vs)" for k
    by (induction vs arbitrary: k) auto
  then show ?thesis by (simp add: encoded_size_def)
qed

definition short_value :: "db_value \<Rightarrow> bool" where
  "short_value v = (key_value_size v < 2 ^ 16)"

lemma unat_len16: "n < 2 ^ 16 \<Longrightarrow> unat (of_nat n :: u16) = n"
  by (simp add: unat_of_nat)

lemma length_encode_key_value: "short_value v \<Longrightarrow> length (encode_key_value v) = key_value_size v"
  by (cases v) (simp_all add: encode_key_value_def key_value_size_def short_value_def unat_len16 Let_def)

lemma decode_encode_value: "short_value v \<Longrightarrow> decode_key_value (encode_key_value v @ r) = Some (v, r)"
  by (cases v) (auto simp: encode_key_value_def decode_key_value_def short_value_def key_value_size_def
      unat_len16 Let_def type_of_code_def)

lemma decode_loop_encode:
  "list_all short_value vs \<Longrightarrow> decode_loop (length vs) (concat (map encode_key_value vs)) acc = acc @ vs"
proof (induction vs arbitrary: acc)
  case (Cons v vs)
  have "encode_key_value v \<noteq> []" by (simp add: encode_key_value_def)
  with Cons show ?case by (simp add: decode_encode_value)
qed simp

lemma length_key_image:
  "list_all short_value vs \<Longrightarrow> length (key_image vs) = encoded_size vs"
  by (simp add: key_image_def encoded_size_sum length_concat list_all_iff length_encode_key_value
      cong: map_cong)

lemma sum_size_less:
  "v \<in> set vs \<Longrightarrow> key_value_size v \<le> sum_list (map key_value_size vs)"
  by (rule member_le_sum_list) auto

lemma fits_short:
  assumes "key_fits vs n" "n < 2 ^ 16"
  shows "list_all short_value vs" "encoded_size vs < 2 ^ 16" "length vs < 2 ^ 16"
  using assms sum_size_less [of _ vs]
  by (auto simp: key_fits_def encoded_size_sum list_all_iff short_value_def dest!: sum_size_less)



end
