(* ===== verification/Page.thy ===== *)
theory Page
  imports Prelude
begin

section \<open>Slotted pages\<close>

text \<open>
  Model of \<^verbatim>\<open>src/src/storage/page.{h,cpp}\<close>: an 8 KiB page is the list of its bytes, with a
  24-byte header, an array of 6-byte line pointers that grows upwards and tuple data that
  grows downwards from the reserved tail.  All offsets, lengths and slot numbers are 16-bit
  words with the source's wrap-around.  A copy that would leave the page is undefined
  (\<open>None\<close>); the invariant \<open>page_inv\<close> excludes it.
\<close>

subsection \<open>Bytes of a page\<close>

type_synonym page = "byte list"

definition peek :: "page \<Rightarrow> nat \<Rightarrow> nat \<Rightarrow> byte list" where
  "peek p off n = take n (drop off p)"

definition poke :: "page \<Rightarrow> nat \<Rightarrow> byte list \<Rightarrow> page" where
  "poke p off bs = take off p @ bs @ drop (off + length bs) p"

definition kDataUpperBound :: u16 where
  "kDataUpperBound = 8184"

definition kNullSlot :: u16 where
  "kNullSlot = 0xFFFF"

definition max_align :: "u16 \<Rightarrow> u16" where
  "max_align n = (n + 7) AND NOT 7"

definition num_tuples :: "page \<Rightarrow> u16" where
  "num_tuples p = get_word (peek p 20 2)"

definition set_num_tuples :: "page \<Rightarrow> u16 \<Rightarrow> page" where
  "set_num_tuples p n = poke p 20 (put_word n)"

definition set_free_space_offset :: "page \<Rightarrow> u16 \<Rightarrow> page" where
  "set_free_space_offset p n = poke p 18 (put_word n)"

definition page_init :: "u64 \<Rightarrow> u16 \<Rightarrow> page" where
  "page_init page_id page_type =
     put_word page_id @ put_word (0 :: u64) @ put_word page_type @ put_word (24 :: u16) @
     put_word (0 :: u16) @ put_word (0 :: u16) @ replicate (8192 - 24) 0"

subsection \<open>Line pointers\<close>

definition LP_UNUSED :: u16 where "LP_UNUSED = 0"
definition LP_NORMAL :: u16 where "LP_NORMAL = 1"
definition LP_REDIRECT :: u16 where "LP_REDIRECT = 2"
definition LP_DEAD :: u16 where "LP_DEAD = 3"

record line_ptr =
  lp_offset :: u16
  lp_length :: u16
  lp_flags :: u16

definition lp_is_valid :: "line_ptr \<Rightarrow> bool" where
  "lp_is_valid lp = (lp_flags lp = LP_NORMAL \<and> lp_offset lp > 0 \<and> lp_length lp > 0)"

definition lp_is_dead :: "line_ptr \<Rightarrow> bool" where
  "lp_is_dead lp = (lp_flags lp = LP_DEAD)"

definition lp_is_redirect :: "line_ptr \<Rightarrow> bool" where
  "lp_is_redirect lp = (lp_flags lp = LP_REDIRECT)"

definition lp_is_usable :: "line_ptr \<Rightarrow> bool" where
  "lp_is_usable lp = (lp_flags lp = LP_UNUSED \<or> lp_flags lp = LP_DEAD)"

definition normal_lp :: "u16 \<Rightarrow> u16 \<Rightarrow> line_ptr" where
  "normal_lp off len = \<lparr>lp_offset = off, lp_length = len, lp_flags = LP_NORMAL\<rparr>"

definition unused_lp :: line_ptr where
  "unused_lp = \<lparr>lp_offset = 0, lp_length = 0, lp_flags = LP_UNUSED\<rparr>"

definition redirect_lp :: "u16 \<Rightarrow> line_ptr" where
  "redirect_lp target = \<lparr>lp_offset = target, lp_length = 0, lp_flags = LP_REDIRECT\<rparr>"

definition encode_lp :: "line_ptr \<Rightarrow> byte list" where
  "encode_lp lp = put_word (lp_offset lp) @ put_word (lp_length lp) @ put_word (lp_flags lp)"

definition decode_lp :: "byte list \<Rightarrow> line_ptr" where
  "decode_lp bs = \<lparr>lp_offset = get_word (take 2 bs), lp_length = get_word (take 2 (drop 2 bs)),
     lp_flags = get_word (take 2 (drop 4 bs))\<rparr>"

text \<open>The address of a line pointer is computed in 16 bits; a null pointer is \<open>None\<close>.\<close>

definition lp_address :: "u16 \<Rightarrow> nat option" where
  "lp_address idx = (let offset = 24 + idx * 6 in if unat offset + 6 > 8192 then None else Some (unat offset))"

definition line_pointer :: "page \<Rightarrow> u16 \<Rightarrow> line_ptr option" where
  "line_pointer p idx = map_option (\<lambda>a. decode_lp (peek p a 6)) (lp_address idx)"

definition store_lp :: "page \<Rightarrow> u16 \<Rightarrow> line_ptr \<Rightarrow> page" where
  "store_lp p idx lp = (case lp_address idx of None \<Rightarrow> p | Some a \<Rightarrow> poke p a (encode_lp lp))"

definition slots :: "u16 \<Rightarrow> u16 list" where
  "slots num = map of_nat [0..<unat num]"

subsection \<open>Inserting\<close>

text \<open>The first strategy: the first UNUSED slot is remembered, and the first usable slot
  with enough room for the tuple is taken.\<close>

fun reuse_loop :: "page \<Rightarrow> u16 \<Rightarrow> u16 list \<Rightarrow> u16 \<Rightarrow> u16 \<times> u16 option" where
  "reuse_loop p aligned [] reusable = (reusable, None)"
| "reuse_loop p aligned (i # js) reusable =
     (case line_pointer p i of
        Some lp \<Rightarrow>
          if lp_is_usable lp
          then
            (let reusable' = (if lp_flags lp = LP_UNUSED \<and> reusable = kNullSlot then i else reusable) in
             if lp_length lp > 0 \<and> aligned \<le> max_align (lp_length lp) then (reusable', Some i)
             else reuse_loop p aligned js reusable')
          else reuse_loop p aligned js reusable
      | None \<Rightarrow> reuse_loop p aligned js reusable)"

definition min_tuple_offset :: "page \<Rightarrow> u16 \<Rightarrow> u16" where
  "min_tuple_offset p num =
     fold (\<lambda>i m. case line_pointer p i of
         Some lp \<Rightarrow> if lp_offset lp > 0 \<and> lp_offset lp < m then lp_offset lp else m
       | None \<Rightarrow> m) (slots num) kDataUpperBound"

text \<open>The second strategy, shared with \<^verbatim>\<open>insert_tuple_at\<close>: the tuple goes below all others.
  The result is the slot number and the page; \<^verbatim>\<open>kNullSlot\<close> leaves the page as it is.\<close>

definition append_tuple :: "page \<Rightarrow> byte list \<Rightarrow> u16 \<Rightarrow> bool \<Rightarrow> (u16 \<times> page) option" where
  "append_tuple p tuple_data target new_slot =
     (let num = num_tuples p;
          length16 = of_nat (length tuple_data) :: u16;
          aligned_len = max_align length16;
          lp_end = 24 + (if new_slot then num + 1 else num) * 6;
          m = min_tuple_offset p num
      in if aligned_len > m then Some (kNullSlot, p)
         else
           (let tuple_offset = m - aligned_len in
            if lp_end > tuple_offset then Some (kNullSlot, p)
            else case line_pointer p target of
                None \<Rightarrow> Some (kNullSlot, p)
              | Some _ \<Rightarrow>
                  map_option
                    (\<lambda>p2. (target, set_free_space_offset (if new_slot then set_num_tuples p2 (num + 1) else p2) lp_end))
                    (write_at (store_lp p target (normal_lp tuple_offset length16)) (unat tuple_offset) tuple_data)))"

definition insert_tuple :: "page \<Rightarrow> byte list \<Rightarrow> (u16 \<times> page) option" where
  "insert_tuple p tuple_data =
     (let num = num_tuples p;
          length16 = of_nat (length tuple_data) :: u16;
          aligned_len = max_align length16
      in case reuse_loop p aligned_len (slots num) kNullSlot of
           (_, Some i) \<Rightarrow>
             (case line_pointer p i of
                None \<Rightarrow> None
              | Some lp \<Rightarrow>
                  map_option (Pair i)
                    (write_at (store_lp p i (normal_lp (lp_offset lp) length16)) (unat (lp_offset lp)) tuple_data))
         | (reusable, None) \<Rightarrow>
             append_tuple p tuple_data (if reusable = kNullSlot then num else reusable) (reusable = kNullSlot))"

definition insert_tuple_at :: "page \<Rightarrow> byte list \<Rightarrow> u16 \<Rightarrow> (u16 \<times> page) option" where
  "insert_tuple_at p tuple_data target =
     (let num = num_tuples p in
      if target > num then Some (kNullSlot, p)
      else if target < num \<and> (case line_pointer p target of Some lp \<Rightarrow> lp_is_valid lp | None \<Rightarrow> False)
      then Some (kNullSlot, p)
      else append_tuple p tuple_data target (target = num))"

subsection \<open>Slot states\<close>

definition mark_dead :: "page \<Rightarrow> u16 \<Rightarrow> bool \<times> page" where
  "mark_dead p idx =
     (if idx \<ge> num_tuples p then (False, p)
      else case line_pointer p idx of
          None \<Rightarrow> (False, p)
        | Some lp \<Rightarrow>
            if \<not> lp_is_valid lp then (False, p)
            else (True, store_lp p idx (lp\<lparr>lp_flags := LP_DEAD\<rparr>)))"

definition reclaim_slot :: "page \<Rightarrow> u16 \<Rightarrow> bool \<times> page" where
  "reclaim_slot p idx =
     (if idx \<ge> num_tuples p then (False, p)
      else case line_pointer p idx of
          None \<Rightarrow> (False, p)
        | Some _ \<Rightarrow> (True, store_lp p idx unused_lp))"

definition redirect_slot :: "page \<Rightarrow> u16 \<Rightarrow> u16 \<Rightarrow> bool \<times> page" where
  "redirect_slot p idx target =
     (if idx \<ge> num_tuples p \<or> target \<ge> num_tuples p then (False, p)
      else case line_pointer p idx of
          None \<Rightarrow> (False, p)
        | Some _ \<Rightarrow> (True, store_lp p idx (redirect_lp target)))"

definition redirect_target :: "page \<Rightarrow> u16 \<Rightarrow> u16" where
  "redirect_target p idx =
     (case line_pointer p idx of
        Some lp \<Rightarrow> if lp_is_redirect lp then lp_offset lp else kNullSlot
      | None \<Rightarrow> kNullSlot)"

subsection \<open>Reading\<close>

text \<open>\<^verbatim>\<open>get_tuple_data\<close> and \<^verbatim>\<open>get_tuple_length\<close> together: the bytes the pointer and the length denote.\<close>

definition get_tuple_length :: "page \<Rightarrow> u16 \<Rightarrow> u16" where
  "get_tuple_length p idx =
     (case line_pointer p idx of
        Some lp \<Rightarrow> if lp_is_valid lp then lp_length lp else 0
      | None \<Rightarrow> 0)"

definition get_tuple_data :: "page \<Rightarrow> u16 \<Rightarrow> nat option" where
  "get_tuple_data p idx =
     (case line_pointer p idx of
        Some lp \<Rightarrow> if lp_is_valid lp then Some (unat (lp_offset lp)) else None
      | None \<Rightarrow> None)"

definition get_tuple :: "page \<Rightarrow> u16 \<Rightarrow> byte list option" where
  "get_tuple p idx = map_option (\<lambda>a. peek p a (unat (get_tuple_length p idx))) (get_tuple_data p idx)"

subsection \<open>Space\<close>

definition get_free_space :: "page \<Rightarrow> u16" where
  "get_free_space p =
     (let lp_end = 24 + num_tuples p * 6; m = min_tuple_offset p (num_tuples p)
      in if m < lp_end then 0 else m - lp_end)"

fun space_loop :: "page \<Rightarrow> u16 \<Rightarrow> u16 list \<Rightarrow> bool \<Rightarrow> bool \<times> bool" where
  "space_loop p aligned [] has_unused = (False, has_unused)"
| "space_loop p aligned (i # js) has_unused =
     (case line_pointer p i of
        Some lp \<Rightarrow>
          if \<not> lp_is_usable lp then space_loop p aligned js has_unused
          else if lp_flags lp = LP_UNUSED then space_loop p aligned js True
          else if lp_flags lp = LP_DEAD \<and> aligned \<le> max_align (lp_length lp) then (True, has_unused)
          else space_loop p aligned js has_unused
      | None \<Rightarrow> space_loop p aligned js has_unused)"

definition has_enough_space :: "page \<Rightarrow> u16 \<Rightarrow> bool" where
  "has_enough_space p tuple_size =
     (let num = num_tuples p; aligned_len = max_align tuple_size in
      case space_loop p aligned_len (slots num) False of
        (True, _) \<Rightarrow> True
      | (False, has_unused) \<Rightarrow>
          (let lp_end = 24 + (if has_unused then num else num + 1) * 6; m = min_tuple_offset p num in
           if aligned_len > m then False else lp_end \<le> m - aligned_len))"

subsection \<open>Pruning\<close>

definition prune_dead :: "page \<Rightarrow> u16 list \<Rightarrow> page \<times> u16" where
  "prune_dead p js =
     fold (\<lambda>i (p, reclaimed). case line_pointer p i of
         Some lp \<Rightarrow> if lp_is_dead lp then (store_lp p i unused_lp, reclaimed + 1) else (p, reclaimed)
       | None \<Rightarrow> (p, reclaimed)) js (p, 0)"

fun gather_loop :: "page \<Rightarrow> u16 list \<Rightarrow> u16 \<Rightarrow> byte list \<Rightarrow> byte list option" where
  "gather_loop p [] write_end tmp = Some tmp"
| "gather_loop p (i # js) write_end tmp =
     (case line_pointer p i of
        Some lp \<Rightarrow>
          if \<not> lp_is_valid lp then gather_loop p js write_end tmp
          else
            (let w = write_end - max_align (lp_length lp) in
             Option.bind (read_at p (unat (lp_offset lp)) (unat (lp_length lp))) (\<lambda>bs.
             Option.bind (write_at tmp (unat w) bs) (\<lambda>tmp'. gather_loop p js w tmp')))
      | None \<Rightarrow> gather_loop p js write_end tmp)"

fun scatter_loop :: "page \<Rightarrow> u16 list \<Rightarrow> u16 \<Rightarrow> byte list \<Rightarrow> page option" where
  "scatter_loop p [] cursor tmp = Some p"
| "scatter_loop p (i # js) cursor tmp =
     (case line_pointer p i of
        Some lp \<Rightarrow>
          if \<not> lp_is_valid lp then scatter_loop p js cursor tmp
          else
            (let c = cursor - max_align (lp_length lp) in
             Option.bind (read_at tmp (unat c) (unat (lp_length lp))) (\<lambda>bs.
             Option.bind (write_at p (unat c) bs) (\<lambda>p'.
               scatter_loop (store_lp p' i (lp\<lparr>lp_offset := c\<rparr>)) js c tmp)))
      | None \<Rightarrow> scatter_loop p js cursor tmp)"

text \<open>The scratch buffer is uninitialised in the source; only bytes the first loop wrote are
  copied out of it, so its initial contents (zeros here) do not show.\<close>

definition prune :: "page \<Rightarrow> (u16 \<times> page) option" where
  "prune p =
     (let js = slots (num_tuples p) in
      if \<not> list_ex (\<lambda>i. case line_pointer p i of Some lp \<Rightarrow> lp_is_dead lp | None \<Rightarrow> False) js
      then Some (0, p)
      else
        (let (p1, reclaimed) = prune_dead p js in
         Option.bind (gather_loop p1 js kDataUpperBound (replicate 8192 0)) (\<lambda>tmp.
         Option.bind (scatter_loop p1 js kDataUpperBound tmp) (\<lambda>p2.
           Some (reclaimed, set_free_space_offset p2 (24 + num_tuples p2 * 6))))))"

section \<open>The page invariant\<close>

subsection \<open>Bytes\<close>

lemma length_poke [simp]: "off + length bs \<le> length p \<Longrightarrow> length (poke p off bs) = length p"
  by (simp add: poke_def)

lemma write_at_poke: "off + length bs \<le> length p \<Longrightarrow> write_at p off bs = Some (poke p off bs)"
  by (simp add: write_at_def poke_def)

lemma read_at_peek: "off + n \<le> length p \<Longrightarrow> read_at p off n = Some (peek p off n)"
  by (simp add: read_at_def peek_def)

lemma length_peek: "off + n \<le> length p \<Longrightarrow> length (peek p off n) = n"
  by (simp add: peek_def)

lemma peek_poke_same:
  "off + length bs \<le> length p \<Longrightarrow> n = length bs \<Longrightarrow> peek (poke p off bs) off n = bs"
  by (simp add: peek_def poke_def)

lemma peek_poke_other:
  assumes "off + length bs \<le> length p" "o' + n \<le> off \<or> off + length bs \<le> o'"
  shows "peek (poke p off bs) o' n = peek p o' n"
proof (cases "o' + n \<le> length p")
  case True
  then show ?thesis
    using read_write_other [OF write_at_poke [OF assms(1)] assms(2)] assms(1)
    by (simp add: read_at_def peek_def)
next
  case False
  have "peek (poke p off bs) o' n = drop o' (poke p off bs)" "peek p o' n = drop o' p"
    using False assms(1) by (simp_all add: peek_def)
  then show ?thesis
    using assms False by (auto simp: poke_def)
qed

subsection \<open>Line pointers by number\<close>

definition sl :: "page \<Rightarrow> nat \<Rightarrow> line_ptr" where
  "sl p i = decode_lp (peek p (24 + 6 * i) 6)"

definition nt :: "page \<Rightarrow> nat" where
  "nt p = unat (num_tuples p)"

lemma decode_encode_lp [simp]: "decode_lp (encode_lp lp) = lp"
  by (cases lp) (simp add: decode_lp_def encode_lp_def)

lemma length_encode_lp [simp]: "length (encode_lp lp) = 6"
  by (simp add: encode_lp_def)

lemma lp_address_nat:
  assumes "i \<le> 1360"
  shows "lp_address (of_nat i) = Some (24 + 6 * i)"
proof -
  have "24 + of_nat i * 6 = (of_nat (24 + 6 * i) :: u16)" by simp
  moreover have "unat (of_nat (24 + 6 * i) :: u16) = 24 + 6 * i"
    using assms by (simp only: unat_of_nat) simp
  ultimately have "unat (24 + of_nat i * 6 :: u16) = 24 + 6 * i" by (simp only:)
  then show ?thesis using assms by (simp add: lp_address_def Let_def)
qed

lemma line_pointer_nat: "i \<le> 1360 \<Longrightarrow> line_pointer p (of_nat i) = Some (sl p i)"
  by (simp add: line_pointer_def lp_address_nat sl_def)

lemma store_lp_nat: "i \<le> 1360 \<Longrightarrow> store_lp p (of_nat i) lp = poke p (24 + 6 * i) (encode_lp lp)"
  by (simp add: store_lp_def lp_address_nat)

lemma unat_max_align:
  assumes "unat n \<le> 65528"
  shows "unat (max_align n) = (unat n + 7) div 8 * 8"
proof -
  have m: "(7 :: u16) = mask 3" by (simp add: mask_eq_exp_minus_1)
  have "max_align n = push_bit 3 (drop_bit 3 (n + 7))"
    unfolding max_align_def m by (rule bit_word_eqI) (auto simp: bit_simps bit_mask_iff)
  moreover have "unat (n + 7) = unat n + 7"
    using assms by (simp add: unat_word_ariths(1))
  ultimately have "unat (max_align n) = take_bit 16 (push_bit 3 (drop_bit 3 (unat n + 7)))"
    by (simp add: unsigned_push_bit_eq unat_drop_bit_eq)
  also have "\<dots> = (unat n + 7) div 8 * 8"
    using assms by (simp add: drop_bit_eq_div push_bit_eq_mult take_bit_eq_mod)
  finally show ?thesis .
qed

abbreviation room :: "line_ptr \<Rightarrow> nat" where
  "room lp \<equiv> (unat (lp_length lp) + 7) div 8 * 8"

abbreviation owns :: "line_ptr \<Rightarrow> bool" where
  "owns lp \<equiv> lp_flags lp = LP_NORMAL \<or> lp_flags lp = LP_DEAD"

abbreviation region :: "line_ptr \<Rightarrow> nat set" where
  "region lp \<equiv> {unat (lp_offset lp)..<unat (lp_offset lp) + room lp}"

text \<open>A slot is empty, owns an aligned stretch of the data area, or redirects to a slot.\<close>

definition slot_ok :: "nat \<Rightarrow> line_ptr \<Rightarrow> bool" where
  "slot_ok n lp \<longleftrightarrow>
     lp = unused_lp \<or>
     owns lp \<and> 24 + 6 * n \<le> unat (lp_offset lp) \<and> unat (lp_offset lp) + room lp \<le> 8184 \<and>
       (lp_flags lp = LP_DEAD \<longrightarrow> 0 < lp_length lp) \<or>
     (\<exists>t. lp = redirect_lp t \<and> unat t < n)"

definition page_inv :: "page \<Rightarrow> bool" where
  "page_inv p \<longleftrightarrow>
     length p = 8192 \<and> 24 + 6 * nt p \<le> 8184 \<and> (\<forall>i < nt p. slot_ok (nt p) (sl p i)) \<and>
     (\<forall>i < nt p. \<forall>j < nt p. i \<noteq> j \<longrightarrow> owns (sl p i) \<longrightarrow> owns (sl p j) \<longrightarrow>
        region (sl p i) \<inter> region (sl p j) = {})"

lemma page_invD:
  assumes "page_inv p"
  shows "length p = 8192" "24 + 6 * nt p \<le> 8184" "i < nt p \<Longrightarrow> slot_ok (nt p) (sl p i)"
    "i < nt p \<Longrightarrow> j < nt p \<Longrightarrow> i \<noteq> j \<Longrightarrow> owns (sl p i) \<Longrightarrow> owns (sl p j) \<Longrightarrow> region (sl p i) \<inter> region (sl p j) = {}"
  using assms unfolding page_inv_def by blast+

lemma lp_flags_distinct [simp]:
  "LP_UNUSED \<noteq> LP_NORMAL" "LP_UNUSED \<noteq> LP_DEAD" "LP_UNUSED \<noteq> LP_REDIRECT" "LP_NORMAL \<noteq> LP_UNUSED"
  "LP_NORMAL \<noteq> LP_DEAD" "LP_NORMAL \<noteq> LP_REDIRECT" "LP_DEAD \<noteq> LP_UNUSED" "LP_DEAD \<noteq> LP_NORMAL"
  "LP_DEAD \<noteq> LP_REDIRECT" "LP_REDIRECT \<noteq> LP_UNUSED" "LP_REDIRECT \<noteq> LP_NORMAL" "LP_REDIRECT \<noteq> LP_DEAD"
  by (simp_all add: LP_UNUSED_def LP_NORMAL_def LP_REDIRECT_def LP_DEAD_def)

lemma lp_simps [simp]:
  "lp_flags unused_lp = LP_UNUSED" "lp_offset unused_lp = 0" "lp_length unused_lp = 0"
  "lp_flags (redirect_lp t) = LP_REDIRECT" "lp_offset (redirect_lp t) = t" "lp_length (redirect_lp t) = 0"
  "lp_flags (normal_lp a b) = LP_NORMAL" "lp_offset (normal_lp a b) = a" "lp_length (normal_lp a b) = b"
  by (simp_all add: unused_lp_def redirect_lp_def normal_lp_def)

lemmas lp_flag_defs = LP_UNUSED_def LP_NORMAL_def LP_REDIRECT_def LP_DEAD_def

lemma sl_poke_lp:
  "length p = 8192 \<Longrightarrow> i \<le> 1360 \<Longrightarrow> j \<le> 1360 \<Longrightarrow>
   sl (poke p (24 + 6 * i) (encode_lp lp)) j = (if i = j then lp else sl p j)"
proof (cases "i = j")
  case False
  then have "24 + 6 * j + 6 \<le> 24 + 6 * i \<or> 24 + 6 * i + 6 \<le> 24 + 6 * j" by linarith
  with False show "length p = 8192 \<Longrightarrow> i \<le> 1360 \<Longrightarrow> j \<le> 1360 \<Longrightarrow> ?thesis"
    by (simp add: sl_def peek_poke_other)
qed (simp add: sl_def peek_poke_same)

lemma sl_poke_data:
  "off + length bs \<le> length p \<Longrightarrow> 24 + 6 * Suc i \<le> off \<Longrightarrow> sl (poke p off bs) i = sl p i"
  by (simp add: sl_def peek_poke_other)

lemma nt_poke: "off + length bs \<le> length p \<Longrightarrow> 22 \<le> off \<Longrightarrow> nt (poke p off bs) = nt p"
  by (simp add: nt_def num_tuples_def peek_poke_other)

lemma num_tuples_nt: "num_tuples p = of_nat (nt p)"
  by (simp add: nt_def)

lemma set_num_tuples_simps:
  assumes "length p = 8192"
  shows "length (set_num_tuples p n) = 8192" "sl (set_num_tuples p n) i = sl p i" "nt (set_num_tuples p n) = unat n"
    "24 \<le> off \<Longrightarrow> peek (set_num_tuples p n) off k = peek p off k"
  using assms by (simp_all add: set_num_tuples_def sl_def nt_def num_tuples_def peek_poke_other peek_poke_same)

lemma set_free_space_simps:
  assumes "length p = 8192"
  shows "length (set_free_space_offset p n) = 8192" "sl (set_free_space_offset p n) i = sl p i"
    "nt (set_free_space_offset p n) = nt p" "24 \<le> off \<Longrightarrow> peek (set_free_space_offset p n) off k = peek p off k"
  using assms by (simp_all add: set_free_space_offset_def sl_def nt_def num_tuples_def peek_poke_other)

lemma page_inv_cong:
  assumes "page_inv p" "length p' = 8192" "nt p' = nt p" "\<And>i. i < nt p \<Longrightarrow> sl p' i = sl p i"
  shows "page_inv p'"
  using assms unfolding page_inv_def by simp

lemma page_inv_free_space [simp]: "page_inv p \<Longrightarrow> page_inv (set_free_space_offset p n)"
  by (rule page_inv_cong) (simp_all add: set_free_space_simps page_invD)

text \<open>Replacing a slot by one that owns nothing new.\<close>

lemma page_inv_store:
  assumes inv: "page_inv p" and i: "i < nt p" and ok: "slot_ok (nt p) lp"
    and sub: "owns lp \<Longrightarrow> owns (sl p i) \<and> region lp \<subseteq> region (sl p i)"
  shows "page_inv (store_lp p (of_nat i) lp)"
proof -
  have le: "k \<le> 1360" if "k < nt p" for k using that page_invD(2) [OF inv] by linarith
  note len = page_invD(1) [OF inv]
  let ?p = "store_lp p (of_nat i) lp"
  have p: "?p = poke p (24 + 6 * i) (encode_lp lp)" using le [OF i] by (rule store_lp_nat)
  have sl: "sl ?p j = (if i = j then lp else sl p j)" if "j < nt p" for j
    using sl_poke_lp [OF len le [OF i] le [OF that]] by (simp add: p)
  have nt: "nt ?p = nt p" "length ?p = 8192"
    using len le [OF i] by (simp_all add: p nt_poke)
  have "region (sl ?p a) \<inter> region (sl ?p b) = {}"
    if "a < nt p" "b < nt p" "a \<noteq> b" "owns (sl ?p a)" "owns (sl ?p b)" for a b
  proof -
    let ?r = "\<lambda>k. region (sl p k)"
    have "owns (sl p k) \<and> region (sl ?p k) \<subseteq> ?r k" if "k < nt p" "owns (sl ?p k)" for k
      using that sub by (cases "k = i") (simp_all add: sl)
    then have "owns (sl p a)" "owns (sl p b)" "region (sl ?p a) \<subseteq> ?r a" "region (sl ?p b) \<subseteq> ?r b"
      using that by blast+
    with page_invD(4) [OF inv that(1-3)] show ?thesis by blast
  qed
  then show ?thesis
    using page_invD(2,3) [OF inv] ok sl by (auto simp: page_inv_def nt)
qed

subsection \<open>Reading slots\<close>

lemma slot_number:
  assumes "page_inv p" "idx < num_tuples p"
  obtains i where "i < nt p" "idx = of_nat i" "i \<le> 1360"
proof (rule that [of "unat idx"])
  show "unat idx < nt p" using assms(2) by (simp add: nt_def word_less_nat_alt)
  then show "unat idx \<le> 1360" using page_invD(2) [OF assms(1)] by linarith
qed simp

lemma slots_nat: "set (slots (num_tuples p)) = of_nat ` {..<nt p}"
  by (auto simp: slots_def nt_def)

lemma line_pointer_slot:
  assumes "page_inv p" "i < nt p"
  shows "line_pointer p (of_nat i) = Some (sl p i)"
  using assms page_invD(2) [OF assms(1)] by (intro line_pointer_nat) linarith

lemma get_tuple_nat:
  assumes "i \<le> 1360"
  shows "get_tuple p (of_nat i) =
    (if lp_is_valid (sl p i) then Some (peek p (unat (lp_offset (sl p i))) (unat (lp_length (sl p i)))) else None)"
  by (simp add: get_tuple_def get_tuple_data_def get_tuple_length_def line_pointer_nat [OF assms])

lemma unat_small: "i \<le> 1361 \<Longrightarrow> unat (of_nat i :: u16) = i"
  by (simp add: unat_of_nat)

lemma of_nat_u16_inj: "i \<le> 1361 \<Longrightarrow> j \<le> 1361 \<Longrightarrow> (of_nat i :: u16) = of_nat j \<longleftrightarrow> i = j"
  by (metis unat_small)

lemma interval_disjoint:
  fixes a b c d :: nat
  assumes "{a..<b} \<inter> {c..<d} = {}" "a < b" "c < d"
  shows "b \<le> c \<or> d \<le> a"
proof (rule ccontr)
  assume "\<not> (b \<le> c \<or> d \<le> a)"
  then have "max a c \<in> {a..<b} \<inter> {c..<d}" using assms(2,3) by auto
  with assms(1) show False by blast
qed

lemma valid_slot:
  assumes "page_inv p" "i < nt p" "lp_is_valid (sl p i)"
  shows "24 + 6 * nt p \<le> unat (lp_offset (sl p i))" "unat (lp_offset (sl p i)) + room (sl p i) \<le> 8184"
    "0 < unat (lp_length (sl p i))" "owns (sl p i)"
  using page_invD(3) [OF assms(1,2)] assms(3)
  by (auto simp: slot_ok_def lp_is_valid_def unused_lp_def redirect_lp_def lp_flag_defs unat_gt_0)

lemma room_ge: "unat (lp_length lp) \<le> room lp"
  by linarith

subsection \<open>Changing the state of a slot\<close>

lemma slot_ok_unused [simp]: "slot_ok n unused_lp"
  by (simp add: slot_ok_def)

lemma not_owns_unused [simp]: "\<not> owns unused_lp" and not_owns_redirect [simp]: "\<not> owns (redirect_lp t)"
  by (simp_all add: unused_lp_def redirect_lp_def lp_flag_defs)

lemma page_inv_init: "page_inv (page_init pid ty)"
proof -
  have "num_tuples (page_init pid ty) = 0"
    by (simp add: num_tuples_def page_init_def peek_def)
  then show ?thesis by (simp add: page_inv_def nt_def page_init_def)
qed

lemma page_inv_mark_dead:
  assumes "page_inv p"
  shows "page_inv (snd (mark_dead p idx))"
proof (cases "idx < num_tuples p")
  case True
  then obtain i where i: "i < nt p" "idx = of_nat i" using slot_number [OF assms] by blast
  show ?thesis
  proof (cases "lp_is_valid (sl p i)")
    case v: True
    have "slot_ok (nt p) ((sl p i)\<lparr>lp_flags := LP_DEAD\<rparr>)"
      using valid_slot [OF assms i(1) v] by (simp add: slot_ok_def unat_gt_0 word_gt_0)
    then have "page_inv (store_lp p (of_nat i) ((sl p i)\<lparr>lp_flags := LP_DEAD\<rparr>))"
      using valid_slot(4) [OF assms i(1) v] by (intro page_inv_store [OF assms i(1)]) auto
    then show ?thesis
      using True i v assms by (simp add: mark_dead_def line_pointer_slot [OF assms])
  qed (use True i assms in \<open>simp add: mark_dead_def line_pointer_slot [OF assms]\<close>)
qed (use assms in \<open>simp add: mark_dead_def not_less\<close>)

lemma page_inv_reclaim:
  assumes "page_inv p"
  shows "page_inv (snd (reclaim_slot p idx))"
proof (cases "idx < num_tuples p")
  case True
  then obtain i where i: "i < nt p" "idx = of_nat i" using slot_number [OF assms] by blast
  have "page_inv (store_lp p (of_nat i) unused_lp)"
    by (rule page_inv_store [OF assms i(1)]) (simp, use not_owns_unused in blast)
  then show ?thesis
    using True i assms by (simp add: reclaim_slot_def line_pointer_slot [OF assms])
qed (use assms in \<open>simp add: reclaim_slot_def not_less\<close>)

lemma page_inv_redirect:
  assumes "page_inv p"
  shows "page_inv (snd (redirect_slot p idx target))"
proof (cases "idx < num_tuples p \<and> target < num_tuples p")
  case True
  then obtain i where i: "i < nt p" "idx = of_nat i" using slot_number [OF assms] by blast
  have "slot_ok (nt p) (redirect_lp target)"
    using True by (auto simp: slot_ok_def nt_def word_less_nat_alt)
  then have "page_inv (store_lp p (of_nat i) (redirect_lp target))"
    by (rule page_inv_store [OF assms i(1)]) (use not_owns_redirect in blast)
  then show ?thesis
    using True i assms by (simp add: redirect_slot_def line_pointer_slot [OF assms])
qed (use assms in \<open>auto simp: redirect_slot_def\<close>)

subsection \<open>The lowest tuple\<close>

lemma min_fold:
  fixes m0 :: u16 and p :: page
  defines "f \<equiv> \<lambda>i m. case line_pointer p i of
      Some lp \<Rightarrow> if lp_offset lp > 0 \<and> lp_offset lp < m then lp_offset lp else m | None \<Rightarrow> m"
  shows "fold f js m0 \<le> m0"
    and "i \<in> set js \<Longrightarrow> line_pointer p i = Some lp \<Longrightarrow> 0 < lp_offset lp \<Longrightarrow> fold f js m0 \<le> lp_offset lp"
proof -
  have "fold f js m0 \<le> m0 \<and>
      (\<forall>i \<in> set js. \<forall>lp. line_pointer p i = Some lp \<longrightarrow> 0 < lp_offset lp \<longrightarrow> fold f js m0 \<le> lp_offset lp)"
  proof (induction js arbitrary: m0)
    case (Cons j js)
    have "f j m0 \<le> m0" by (auto simp: f_def split: option.splits)
    moreover have "f j m0 \<le> lp_offset lp" if "line_pointer p j = Some lp" "0 < lp_offset lp" for lp
      using that by (auto simp: f_def)
    ultimately show ?case using Cons.IH [of "f j m0"] by (auto intro: order_trans)
  qed simp
  then show "fold f js m0 \<le> m0"
    "i \<in> set js \<Longrightarrow> line_pointer p i = Some lp \<Longrightarrow> 0 < lp_offset lp \<Longrightarrow> fold f js m0 \<le> lp_offset lp" by auto
qed

lemma min_tuple_offset_le:
  assumes "page_inv p"
  shows "unat (min_tuple_offset p (num_tuples p)) \<le> 8184"
    and "i < nt p \<Longrightarrow> 0 < lp_offset (sl p i) \<Longrightarrow> unat (min_tuple_offset p (num_tuples p)) \<le> unat (lp_offset (sl p i))"
proof -
  have "min_tuple_offset p (num_tuples p) \<le> kDataUpperBound"
    unfolding min_tuple_offset_def by (rule min_fold(1))
  then show "unat (min_tuple_offset p (num_tuples p)) \<le> 8184"
    by (simp add: kDataUpperBound_def word_le_nat_alt)
  assume "i < nt p" "0 < lp_offset (sl p i)"
  then have "min_tuple_offset p (num_tuples p) \<le> lp_offset (sl p i)"
    unfolding min_tuple_offset_def
    by (intro min_fold(2) [of "of_nat i"]) (auto simp: slots_nat line_pointer_slot [OF assms])
  then show "unat (min_tuple_offset p (num_tuples p)) \<le> unat (lp_offset (sl p i))"
    by (simp add: word_le_nat_alt)
qed

lemma owns_above_min:
  assumes "page_inv p" "i < nt p" "owns (sl p i)"
  shows "unat (min_tuple_offset p (num_tuples p)) \<le> unat (lp_offset (sl p i))"
    "unat (lp_offset (sl p i)) + room (sl p i) \<le> 8184"
proof -
  have "24 + 6 * nt p \<le> unat (lp_offset (sl p i))" and b: "unat (lp_offset (sl p i)) + room (sl p i) \<le> 8184"
    using page_invD(3) [OF assms(1,2)] assms(3) by (auto simp: slot_ok_def)
  then have "0 < lp_offset (sl p i)" by (simp add: word_less_nat_alt)
  then show "unat (min_tuple_offset p (num_tuples p)) \<le> unat (lp_offset (sl p i))"
    using min_tuple_offset_le(2) [OF assms(1,2)] by blast
  show "unat (lp_offset (sl p i)) + room (sl p i) \<le> 8184" by (rule b)
qed

subsection \<open>Placing a tuple\<close>

definition append_fits :: "page \<Rightarrow> u16 \<Rightarrow> bool \<Rightarrow> bool" where
  "append_fits p len new_slot =
     (let m = min_tuple_offset p (num_tuples p) in
      max_align len \<le> m \<and>
      24 + (if new_slot then num_tuples p + 1 else num_tuples p) * 6 \<le> m - max_align len)"

lemma append_fits_nat:
  assumes inv: "page_inv p" and len: "unat len \<le> 65528"
  shows "append_fits p len new \<longleftrightarrow>
    24 + 6 * (if new then nt p + 1 else nt p) + (unat len + 7) div 8 * 8 \<le> unat (min_tuple_offset p (num_tuples p))"
proof -
  let ?n = "if new then nt p + 1 else nt p" and ?m = "min_tuple_offset p (num_tuples p)"
  have n: "?n \<le> 1361" using page_invD(2) [OF inv] by auto
  have "24 + (if new then num_tuples p + 1 else num_tuples p) * 6 = (of_nat (24 + 6 * ?n) :: u16)"
    by (simp add: num_tuples_nt algebra_simps)
  moreover have "unat (of_nat (24 + 6 * ?n) :: u16) = 24 + 6 * ?n"
    using n by (simp only: unat_of_nat) (simp del: of_nat_add)
  ultimately have lp: "unat (24 + (if new then num_tuples p + 1 else num_tuples p) * 6 :: u16) = 24 + 6 * ?n"
    by (simp only:)
  have "unat (?m - max_align len) = unat ?m - unat (max_align len)" if "max_align len \<le> ?m"
    using that by (rule unat_sub)
  then show ?thesis
    using lp unat_max_align [OF len] unfolding append_fits_def Let_def word_le_nat_alt by auto
qed

text \<open>A tuple was put into slot \<open>k\<close> and nothing else changed.  A tuple of no bytes cannot be
  read back: a line pointer of length zero is not valid.\<close>

definition placed :: "page \<Rightarrow> page \<Rightarrow> nat \<Rightarrow> byte list \<Rightarrow> bool" where
  "placed p p' k tuple_data \<longleftrightarrow>
     get_tuple p' (of_nat k) = (if tuple_data = [] then None else Some tuple_data) \<and>
     (\<forall>j < nt p. j \<noteq> k \<longrightarrow> sl p' j = sl p j \<and> get_tuple p' (of_nat j) = get_tuple p (of_nat j))"

text \<open>Storing the line pointer of slot \<open>k\<close> and the bytes of its tuple above the array of
  \<open>n'\<close> line pointers.\<close>

lemma store_and_copy:
  assumes inv: "page_inv p" and k: "k \<le> nt p" "k < n'" "nt p \<le> n'" "24 + 6 * n' \<le> off"
    and room: "off + length data \<le> 8184"
    and above: "\<And>j. j < nt p \<Longrightarrow> j \<noteq> k \<Longrightarrow> owns (sl p j) \<Longrightarrow> 24 + 6 * n' \<le> unat (lp_offset (sl p j))"
    and apart: "\<And>j. j < nt p \<Longrightarrow> j \<noteq> k \<Longrightarrow> owns (sl p j) \<Longrightarrow>
      {unat (lp_offset (sl p j))..<unat (lp_offset (sl p j)) + room (sl p j)} \<inter> {off..<off + length data} = {}"
  defines "lp \<equiv> normal_lp (of_nat off) (of_nat (length data))"
  defines "p2 \<equiv> poke (store_lp p (of_nat k) lp) off data"
  shows "write_at (store_lp p (of_nat k) lp) off data = Some p2" "length p2 = 8192" "nt p2 = nt p"
    "j < n' \<Longrightarrow> sl p2 j = (if j = k then lp else sl p j)" "placed p p2 k data"
proof -
  have k': "k \<le> 1360" "n' \<le> 1360" using k room by linarith+
  note len = page_invD(1) [OF inv]
  let ?p1 = "store_lp p (of_nat k) lp"
  have p1: "?p1 = poke p (24 + 6 * k) (encode_lp lp)" using k'(1) by (rule store_lp_nat)
  have len1: "length ?p1 = 8192" using len k' by (simp add: p1)
  have fit: "off + length data \<le> length ?p1" using room by (simp add: len1)
  show "write_at ?p1 off data = Some p2" unfolding p2_def using fit by (rule write_at_poke)
  show "length p2 = 8192" unfolding p2_def using fit len1 by simp
  show "nt p2 = nt p" unfolding p2_def using fit k len k' by (simp add: nt_poke p1)
  have sl2: "sl p2 j = (if j = k then lp else sl p j)" if "j < n'" for j
  proof -
    have "24 + 6 * Suc j \<le> off"
      using mult_le_mono2 [OF Suc_leI [OF that], of 6] k(4) by linarith
    then have "sl p2 j = sl ?p1 j" unfolding p2_def by (rule sl_poke_data [OF fit])
    also have "\<dots> = (if j = k then lp else sl p j)"
      unfolding p1 using sl_poke_lp [OF len k'(1), of j] that k'(2) by simp
    finally show ?thesis .
  qed
  then show "j < n' \<Longrightarrow> sl p2 j = (if j = k then lp else sl p j)" .
  have un: "unat (of_nat off :: u16) = off" "unat (of_nat (length data) :: u16) = length data"
    using room by (simp_all add: unat_of_nat)
  have "0 < off" using k(4) by linarith
  then have "lp_is_valid lp \<longleftrightarrow> data \<noteq> []"
    using un by (simp add: lp_is_valid_def lp_def word_less_nat_alt)
  then have "get_tuple p2 (of_nat k) = (if data = [] then None else Some data)"
    using get_tuple_nat [OF k'(1), of p2] sl2 [OF k(2)] un peek_poke_same [OF fit]
    by (simp add: lp_def p2_def)
  moreover have "get_tuple p2 (of_nat j) = get_tuple p (of_nat j)" if j: "j < nt p" "j \<noteq> k" for j
  proof -
    have j': "j \<le> 1360" "j < n'" using j k(3) k'(2) by linarith+
    let ?a = "unat (lp_offset (sl p j))" and ?n = "unat (lp_length (sl p j))"
    have "peek p2 ?a ?n = peek p ?a ?n" if v: "lp_is_valid (sl p j)"
    proof -
      note V = valid_slot [OF inv j(1) v]
      have "peek p2 ?a ?n = peek ?p1 ?a ?n"
      proof (cases "data = []")
        case True
        then show ?thesis by (simp add: p2_def poke_def)
      next
        case False
        then have pos: "?a < ?a + room (sl p j)" "off < off + length data"
          using V(3) room_ge [of "sl p j"] by (linarith, simp)
        then have "?a + room (sl p j) \<le> off \<or> off + length data \<le> ?a"
          by (intro interval_disjoint [OF apart [OF j V(4)]])
        then have "?a + ?n \<le> off \<or> off + length data \<le> ?a" using room_ge [of "sl p j"] by linarith
        then show ?thesis unfolding p2_def by (rule peek_poke_other [OF fit])
      qed
      also have "\<dots> = peek p ?a ?n"
        unfolding p1 using above [OF j V(4)] mult_le_mono2 [OF Suc_leI [OF k(2)], of 6] len k'(1)
        by (intro peek_poke_other) auto
      finally show ?thesis .
    qed
    then show ?thesis using get_tuple_nat [OF j'(1)] sl2 [OF j'(2)] j(2) by simp
  qed
  ultimately show "placed p p2 k data"
    using sl2 k(3) by (auto simp: placed_def)
qed

end
