(* ===== verification/Page_Laws.thy ===== *)
theory Page_Laws
  imports Page
begin

section \<open>Operations on a well-formed page\<close>

text \<open>
  What each operation of \<^verbatim>\<open>src/src/storage/page.cpp\<close> does on a page with the invariant
  \<open>page_inv\<close>: insertion into a new or reused slot, insertion into a given slot, and the
  compaction done by \<^verbatim>\<open>prune\<close>; then the properties of the component.
\<close>

subsection \<open>A slot and its tuple\<close>

lemma page_inv_placed:
  assumes inv: "page_inv p" and p': "length p' = 8192" "nt p' = n'"
    and k: "k < n'" "n' = nt p \<or> n' = Suc (nt p) \<and> k = nt p" "24 + 6 * n' \<le> unat (lp_offset lp)"
    and lp: "lp_flags lp = LP_NORMAL" "unat (lp_offset lp) + room lp \<le> 8184"
    and sl: "\<And>j. j < n' \<Longrightarrow> sl p' j = (if j = k then lp else sl p j)"
    and above: "\<And>j. j < nt p \<Longrightarrow> j \<noteq> k \<Longrightarrow> owns (sl p j) \<Longrightarrow> 24 + 6 * n' \<le> unat (lp_offset (sl p j))"
    and apart: "\<And>j. j < nt p \<Longrightarrow> j \<noteq> k \<Longrightarrow> owns (sl p j) \<Longrightarrow> region (sl p j) \<inter> region lp = {}"
  shows "page_inv p'"
proof -
  have n: "24 + 6 * n' \<le> 8184" using k(3) lp(2) by linarith
  have old: "j < nt p" if "j < n'" "j \<noteq> k" for j using k(2) that by auto
  have "slot_ok n' (sl p' j)" if j: "j < n'" for j
  proof (cases "j = k")
    case True
    then show ?thesis using sl [OF j] k(3) lp by (simp add: slot_ok_def)
  next
    case False
    have "nt p \<le> n'" using k(2) by auto
    then show ?thesis
      using page_invD(3) [OF inv old [OF j False]] sl [OF j] False above [OF old [OF j False] False]
      by (auto simp: slot_ok_def)
  qed
  moreover have "region (sl p' i) \<inter> region (sl p' j) = {}"
    if ij: "i < n'" "j < n'" "i \<noteq> j" "owns (sl p' i)" "owns (sl p' j)" for i j
  proof -
    consider "i = k" "j \<noteq> k" | "j = k" "i \<noteq> k" | "i \<noteq> k" "j \<noteq> k" using ij(3) by blast
    then show ?thesis
    proof cases
      case 1
      then show ?thesis using apart [OF old [OF ij(2)]] ij sl by (simp add: Int_commute)
    next
      case 2
      then show ?thesis using apart [OF old [OF ij(1)]] ij sl by simp
    next
      case 3
      then show ?thesis using page_invD(4) [OF inv old [OF ij(1)] old [OF ij(2)] ij(3)] ij sl by simp
    qed
  qed
  ultimately show ?thesis using p' n unfolding page_inv_def by blast
qed

lemma get_tuple_cong:
  assumes "length p = 8192" "i \<le> 1360" "sl p' i = sl p i"
    "\<And>a n. 24 \<le> a \<Longrightarrow> peek p' a n = peek p a n" "lp_is_valid (sl p i) \<Longrightarrow> 24 \<le> unat (lp_offset (sl p i))"
  shows "get_tuple p' (of_nat i) = get_tuple p (of_nat i)"
  using assms by (simp add: get_tuple_nat)

lemma valid_above:
  assumes "page_inv p" "i < nt p" "lp_is_valid (sl p i)"
  shows "24 \<le> unat (lp_offset (sl p i))"
  using valid_slot(1) [OF assms] by linarith

text \<open>Bookkeeping in the header does not touch the tuples.\<close>

lemma placed_header:
  assumes "placed p p2 k data" "page_inv p'" "length p2 = 8192" "k < nt p'" "nt p \<le> nt p'"
    "\<And>i. i < nt p' \<Longrightarrow> sl p' i = sl p2 i" "\<And>a n. 24 \<le> a \<Longrightarrow> peek p' a n = peek p2 a n"
  shows "placed p p' k data"
proof -
  have same: "get_tuple p' (of_nat i) = get_tuple p2 (of_nat i)" if "i < nt p'" for i
  proof (rule get_tuple_cong)
    show "i \<le> 1360" using that page_invD(2) [OF assms(2)] by linarith
    show "24 \<le> unat (lp_offset (sl p2 i))" if "lp_is_valid (sl p2 i)"
      using valid_above [OF assms(2) \<open>i < nt p'\<close>] that assms(6) [OF \<open>i < nt p'\<close>] by simp
  qed (use assms that in auto)
  then show ?thesis
    using assms(1,4-6) unfolding placed_def by auto
qed

text \<open>The header after an insertion: the number of slots and the end of their array.\<close>

definition finish :: "page \<Rightarrow> bool \<Rightarrow> page \<Rightarrow> page" where
  "finish p new p2 = set_free_space_offset (if new then set_num_tuples p2 (num_tuples p + 1) else p2)
     (24 + (if new then num_tuples p + 1 else num_tuples p) * 6)"

lemma finish_simps:
  assumes "page_inv p" "length p2 = 8192" "nt p2 = nt p"
  shows "length (finish p new p2) = 8192" "nt (finish p new p2) = (if new then Suc (nt p) else nt p)"
    "sl (finish p new p2) i = sl p2 i" "24 \<le> a \<Longrightarrow> peek (finish p new p2) a n = peek p2 a n"
proof -
  have "unat (num_tuples p + 1) = Suc (nt p)"
    using page_invD(2) [OF assms(1)] by (simp add: num_tuples_nt unat_word_ariths(1) unat_small)
  then show "length (finish p new p2) = 8192" "nt (finish p new p2) = (if new then Suc (nt p) else nt p)"
    "sl (finish p new p2) i = sl p2 i" "24 \<le> a \<Longrightarrow> peek (finish p new p2) a n = peek p2 a n"
    using assms by (simp_all add: finish_def set_free_space_simps set_num_tuples_simps)
qed

lemma append_page:
  fixes data :: "byte list"
  assumes inv: "page_inv p" and k: "k \<le> nt p" "new \<longleftrightarrow> k = nt p"
  defines "n' \<equiv> if new then Suc (nt p) else nt p" and "r \<equiv> (length data + 7) div 8 * 8"
  assumes off: "24 + 6 * n' \<le> off" "off + r \<le> unat (min_tuple_offset p (num_tuples p))"
  shows "\<exists>p2. write_at (store_lp p (of_nat k) (normal_lp (of_nat off) (of_nat (length data)))) off data = Some p2 \<and>
    page_inv (finish p new p2) \<and> nt (finish p new p2) = n' \<and> placed p (finish p new p2) k data"
proof -
  have m: "unat (min_tuple_offset p (num_tuples p)) \<le> 8184" by (rule min_tuple_offset_le(1) [OF inv])
  have r: "length data \<le> r" unfolding r_def by linarith
  have un: "unat (of_nat off :: u16) = off" "unat (of_nat (length data) :: u16) = length data"
    using off m r by (simp_all add: unat_of_nat)
  let ?lp = "normal_lp (of_nat off) (of_nat (length data))"
  have k': "k < n'" "k \<le> 1360" "nt p \<le> n'" using k off m by (auto simp: n'_def)
  have above: "24 + 6 * n' \<le> unat (lp_offset (sl p j))" and apart: "region (sl p j) \<inter> {off..<off + r} = {}"
    if "j < nt p" "j \<noteq> k" "owns (sl p j)" for j
    using owns_above_min [OF inv that(1,3)] off by auto
  have apart': "region (sl p j) \<inter> {off..<off + length data} = {}" if "j < nt p" "j \<noteq> k" "owns (sl p j)" for j
    using apart [OF that] r by (meson disjoint_iff atLeastLessThan_iff add_left_mono order_less_le_trans)
  have room: "off + length data \<le> 8184" using off m r by linarith
  obtain p2 where p2: "write_at (store_lp p (of_nat k) ?lp) off data = Some p2" "length p2 = 8192" "nt p2 = nt p"
    "\<And>j. j < n' \<Longrightarrow> sl p2 j = (if j = k then ?lp else sl p j)" "placed p p2 k data"
    using store_and_copy [OF inv k(1) k'(1,3) off(1) room above apart'] by blast
  note fin = finish_simps [OF inv p2(2,3), where new = new, folded n'_def]
  have inv': "page_inv (finish p new p2)"
  proof (rule page_inv_placed [OF inv fin(1,2) k'(1)])
    show "n' = nt p \<or> n' = Suc (nt p) \<and> k = nt p" using k by (simp add: n'_def)
    show "region (sl p j) \<inter> region ?lp = {}" if "j < nt p" "j \<noteq> k" "owns (sl p j)" for j
      using apart [OF that] un by (simp add: r_def)
  qed (use fin p2(4) off un m above in \<open>simp_all add: r_def\<close>)
  moreover have "placed p (finish p new p2) k data"
    by (rule placed_header [OF p2(5) inv' p2(2)]) (use fin k' in auto)
  ultimately show ?thesis using p2(1) fin(2) by blast
qed

lemma append_spec:
  fixes data :: "byte list"
  assumes inv: "page_inv p" and len: "length data \<le> 65528" and k: "k \<le> nt p" "new \<longleftrightarrow> k = nt p"
  defines "L \<equiv> of_nat (length data) :: u16"
  shows "\<not> append_fits p L new \<Longrightarrow> append_tuple p data (of_nat k) new = Some (kNullSlot, p)"
    and "append_fits p L new \<Longrightarrow> \<exists>p'. append_tuple p data (of_nat k) new = Some (of_nat k, p') \<and>
      page_inv p' \<and> nt p' = (if new then Suc (nt p) else nt p) \<and> placed p p' k data"
proof -
  have L: "unat L = length data" using len by (simp add: L_def unat_of_nat)
  show "\<not> append_fits p L new \<Longrightarrow> append_tuple p data (of_nat k) new = Some (kNullSlot, p)"
    by (auto simp: append_fits_def append_tuple_def Let_def L_def not_le)
  assume fits: "append_fits p L new"
  let ?m = "min_tuple_offset p (num_tuples p)" and ?n = "if new then Suc (nt p) else nt p"
  define off where "off = unat (?m - max_align L)"
  have fits': "max_align L \<le> ?m" using fits by (simp add: append_fits_def Let_def)
  have "unat (max_align L) = (length data + 7) div 8 * 8" using unat_max_align [of L] L len by simp
  then have off: "off + (length data + 7) div 8 * 8 = unat ?m" "24 + 6 * ?n \<le> off"
    using unat_sub [OF fits'] fits' append_fits_nat [OF inv, of L new] fits len L
    by (auto simp: off_def word_le_nat_alt split: if_splits)
  have w: "?m - max_align L = of_nat off" by (simp add: off_def)
  have "k \<le> 1360" using k(1) page_invD(2) [OF inv] by linarith
  then have lp: "line_pointer p (of_nat k) = Some (sl p k)" by (rule line_pointer_nat)
  have "append_tuple p data (of_nat k) new = map_option (\<lambda>p2. (of_nat k, finish p new p2))
      (write_at (store_lp p (of_nat k) (normal_lp (of_nat off) L)) off data)"
  proof -
    have c: "\<not> ?m < max_align L"
      "\<not> ?m - max_align L < 24 + (if new then num_tuples p + 1 else num_tuples p) * 6"
      using fits unfolding append_fits_def Let_def not_less by blast+
    show ?thesis
      unfolding append_tuple_def Let_def L_def [symmetric] finish_def w [symmetric]
      by (simp only: c if_False lp option.case off_def)
  qed
  then show "\<exists>p'. append_tuple p data (of_nat k) new = Some (of_nat k, p') \<and>
      page_inv p' \<and> nt p' = ?n \<and> placed p p' k data"
    using append_page [OF inv k, of off data] off by (auto simp: L_def)
qed

subsection \<open>Taking over a dead slot\<close>

definition takeable :: "page \<Rightarrow> u16 \<Rightarrow> nat \<Rightarrow> bool" where
  "takeable p aligned i \<longleftrightarrow> lp_flags (sl p i) = LP_DEAD \<and> aligned \<le> max_align (lp_length (sl p i))"

lemma unused_slot:
  assumes "page_inv p" "i < nt p" "lp_flags (sl p i) = LP_UNUSED"
  shows "sl p i = unused_lp"
  using page_invD(3) [OF assms(1,2)] assms(3) by (auto simp: slot_ok_def)

lemma dead_slot:
  assumes "page_inv p" "i < nt p" "lp_flags (sl p i) = LP_DEAD"
  shows "0 < lp_length (sl p i)" "24 + 6 * nt p \<le> unat (lp_offset (sl p i))"
    "unat (lp_offset (sl p i)) + room (sl p i) \<le> 8184"
  using page_invD(3) [OF assms(1,2)] assms(3) by (auto simp: slot_ok_def)

text \<open>Both loops over the slots, on a prefix of the slot numbers of a well-formed page.\<close>

lemma reuse_loop_spec:
  assumes inv: "page_inv p" and js: "\<And>i. i \<in> set ns \<Longrightarrow> i < nt p"
  shows "reuse_loop p aligned (map of_nat ns) ru =
    (case List.find (takeable p aligned) ns of
       Some i \<Rightarrow> (fst (reuse_loop p aligned (map of_nat ns) ru), Some (of_nat i))
     | None \<Rightarrow>
         (if ru \<noteq> kNullSlot then ru
          else case List.find (\<lambda>i. lp_flags (sl p i) = LP_UNUSED) ns of Some i \<Rightarrow> of_nat i | None \<Rightarrow> kNullSlot,
          None))"
  using js
proof (induction ns arbitrary: ru)
  case (Cons i ns)
  have i: "i < nt p" "i \<le> 1360" using Cons.prems [of i] page_invD(2) [OF inv] by auto
  note lp = line_pointer_slot [OF inv i(1)]
  have null: "of_nat i \<noteq> kNullSlot"
    using i(2) unat_small [of i] by (auto simp: kNullSlot_def)
  note IH = Cons.IH [OF Cons.prems]
  consider "lp_flags (sl p i) = LP_UNUSED" | "lp_flags (sl p i) = LP_DEAD"
    | "lp_flags (sl p i) \<noteq> LP_UNUSED" "lp_flags (sl p i) \<noteq> LP_DEAD" by blast
  then show ?case
  proof cases
    case 1
    then show ?thesis
      using lp unused_slot [OF inv i(1) 1] null IH [of "if ru = kNullSlot then of_nat i else ru"]
      by (auto simp: lp_is_usable_def takeable_def Let_def split: option.splits)
  next
    case 2
    then show ?thesis
      using lp dead_slot(1) [OF inv i(1) 2] IH [of ru]
      by (auto simp: lp_is_usable_def takeable_def Let_def split: option.splits)
  next
    case 3
    then show ?thesis
      using lp IH [of ru] by (auto simp: lp_is_usable_def takeable_def split: option.splits)
  qed
qed simp

lemma space_loop_spec:
  assumes inv: "page_inv p" and js: "\<And>i. i \<in> set ns \<Longrightarrow> i < nt p"
  shows "fst (space_loop p aligned (map of_nat ns) un) \<longleftrightarrow> (\<exists>i \<in> set ns. takeable p aligned i)"
    "\<not> (\<exists>i \<in> set ns. takeable p aligned i) \<Longrightarrow>
     snd (space_loop p aligned (map of_nat ns) un) \<longleftrightarrow> un \<or> (\<exists>i \<in> set ns. lp_flags (sl p i) = LP_UNUSED)"
proof -
  have "(fst (space_loop p aligned (map of_nat ns) un) \<longleftrightarrow> (\<exists>i \<in> set ns. takeable p aligned i)) \<and>
    (\<not> (\<exists>i \<in> set ns. takeable p aligned i) \<longrightarrow>
     (snd (space_loop p aligned (map of_nat ns) un) \<longleftrightarrow> un \<or> (\<exists>i \<in> set ns. lp_flags (sl p i) = LP_UNUSED)))"
    using js
  proof (induction ns arbitrary: un)
    case (Cons i ns)
    have i: "i < nt p" using Cons.prems by simp
    show ?case
      using Cons.IH [OF Cons.prems, of un] Cons.IH [OF Cons.prems, of True] line_pointer_slot [OF inv i]
      by (auto simp: lp_is_usable_def takeable_def)
  qed simp
  then show "fst (space_loop p aligned (map of_nat ns) un) \<longleftrightarrow> (\<exists>i \<in> set ns. takeable p aligned i)"
    "\<not> (\<exists>i \<in> set ns. takeable p aligned i) \<Longrightarrow>
     snd (space_loop p aligned (map of_nat ns) un) \<longleftrightarrow> un \<or> (\<exists>i \<in> set ns. lp_flags (sl p i) = LP_UNUSED)"
    by blast+
qed

lemma has_enough_space_iff:
  assumes inv: "page_inv p"
  shows "has_enough_space p len \<longleftrightarrow> (\<exists>i < nt p. takeable p (max_align len) i) \<or>
    append_fits p len (\<not> (\<exists>i < nt p. lp_flags (sl p i) = LP_UNUSED))"
proof -
  have sl: "slots (num_tuples p) = map of_nat [0..<nt p]" by (simp add: slots_def nt_def)
  note S = space_loop_spec [OF inv, of "[0..<nt p]" "max_align len" False, folded sl]
  show ?thesis
    using S by (auto simp: has_enough_space_def append_fits_def Let_def split: prod.splits bool.splits)
qed

lemma take_over:
  fixes data :: "byte list"
  assumes inv: "page_inv p" and i: "i < nt p" and len: "length data \<le> 65528"
    and t: "takeable p (max_align (of_nat (length data))) i"
  shows "\<exists>p'. write_at (store_lp p (of_nat i) (normal_lp (lp_offset (sl p i)) (of_nat (length data))))
      (unat (lp_offset (sl p i))) data = Some p' \<and> page_inv p' \<and> nt p' = nt p \<and> placed p p' i data"
proof -
  define off where "off = unat (lp_offset (sl p i))"
  have dead: "lp_flags (sl p i) = LP_DEAD" using t by (simp add: takeable_def)
  note D = dead_slot [OF inv i dead]
  let ?r = "(length data + 7) div 8 * 8"
  have L: "unat (of_nat (length data) :: u16) = length data" using len by (simp add: unat_of_nat)
  have "unat (lp_length (sl p i)) \<le> 65528" using D(3) room_ge [of "sl p i"] by linarith
  then have r: "?r \<le> room (sl p i)"
    using t unat_max_align [of "of_nat (length data)"] unat_max_align [of "lp_length (sl p i)"] L len
    by (simp add: takeable_def word_le_nat_alt)
  have le: "length data \<le> ?r" by linarith
  have off: "24 + 6 * nt p \<le> off" "off + length data \<le> 8184" using D r le by (simp_all add: off_def)
  have above: "24 + 6 * nt p \<le> unat (lp_offset (sl p j))" if "j < nt p" "j \<noteq> i" "owns (sl p j)" for j
    using page_invD(3) [OF inv that(1)] that(3) by (auto simp: slot_ok_def)
  have apart: "region (sl p j) \<inter> {off..<off + ?r} = {}" if "j < nt p" "j \<noteq> i" "owns (sl p j)" for j
  proof -
    have "{off..<off + ?r} \<subseteq> region (sl p i)" unfolding off_def using r by auto
    then show ?thesis using page_invD(4) [OF inv that(1) i that(2,3)] dead by blast
  qed
  have apart': "region (sl p j) \<inter> {off..<off + length data} = {}" if "j < nt p" "j \<noteq> i" "owns (sl p j)" for j
    using apart [OF that] le by (meson disjoint_iff atLeastLessThan_iff add_left_mono order_less_le_trans)
  let ?lp = "normal_lp (of_nat off) (of_nat (length data))"
  obtain p2 where p2: "write_at (store_lp p (of_nat i) ?lp) off data = Some p2" "length p2 = 8192" "nt p2 = nt p"
    "\<And>j. j < nt p \<Longrightarrow> sl p2 j = (if j = i then ?lp else sl p j)" "placed p p2 i data"
    using store_and_copy [OF inv less_imp_le [OF i] i order_refl off above apart'] by blast
  have "page_inv p2"
  proof (rule page_inv_placed [OF inv p2(2,3) i])
    show "region (sl p j) \<inter> region ?lp = {}" if "j < nt p" "j \<noteq> i" "owns (sl p j)" for j
      using apart [OF that] L by (simp add: off_def)
  qed (use D off r L p2(4) above in \<open>simp_all add: off_def\<close>)
  then show ?thesis using p2 by (auto simp: off_def)
qed

text \<open>What an insertion promises: a full page is left as it is; otherwise the tuple is in a slot
  that held no tuple, and every other slot and tuple is as before.\<close>

definition placeable :: "page \<Rightarrow> u16 \<Rightarrow> u16 \<Rightarrow> bool" where
  "placeable p len target \<longleftrightarrow> target \<le> num_tuples p \<and> (target < num_tuples p \<longrightarrow> get_tuple p target = None) \<and>
     append_fits p len (target = num_tuples p)"

definition inserted :: "page \<Rightarrow> byte list \<Rightarrow> u16 \<Rightarrow> page \<Rightarrow> bool" where
  "inserted p tuple_data i p' \<longleftrightarrow>
     page_inv p' \<and> i < num_tuples p' \<and> num_tuples p \<le> num_tuples p' \<and>
     (i < num_tuples p \<longrightarrow> get_tuple p i = None) \<and>
     get_tuple p' i = (if tuple_data = [] then None else Some tuple_data) \<and>
     (\<forall>j < num_tuples p. j \<noteq> i \<longrightarrow> line_pointer p' j = line_pointer p j \<and> get_tuple p' j = get_tuple p j)"

lemma insertedI:
  assumes inv: "page_inv p" and inv': "page_inv p'" and k: "k < nt p'" "nt p \<le> nt p'"
    and free: "k < nt p \<Longrightarrow> \<not> lp_is_valid (sl p k)" and pl: "placed p p' k data"
  shows "inserted p data (of_nat k) p'"
proof -
  have le: "k \<le> 1360" using k page_invD(2) [OF inv'] by linarith
  then have uk: "unat (of_nat k :: u16) = k" by (simp add: unat_small)
  have "line_pointer p' j = line_pointer p j \<and> get_tuple p' j = get_tuple p j"
    if j: "j < num_tuples p" "j \<noteq> of_nat k" for j
  proof -
    obtain n where n: "n < nt p" "j = of_nat n" "n \<le> 1360" using slot_number [OF inv j(1)] .
    then have "n \<noteq> k" using j(2) by blast
    then show ?thesis using pl n k(2) line_pointer_nat [OF n(3)] by (simp add: placed_def)
  qed
  moreover have "get_tuple p (of_nat k) = None" if "(of_nat k :: u16) < num_tuples p"
    using that free uk get_tuple_nat [OF le, of p] by (simp add: nt_def word_less_nat_alt)
  moreover have "(of_nat k :: u16) < num_tuples p'" "num_tuples p \<le> num_tuples p'"
    using k uk by (simp_all add: nt_def word_less_nat_alt word_le_nat_alt)
  ultimately show ?thesis using pl inv' by (simp add: inserted_def placed_def)
qed

lemma insert_tuple_spec:
  fixes data :: "byte list"
  assumes inv: "page_inv p" and len: "length data \<le> 65528"
  shows "has_enough_space p (of_nat (length data)) \<Longrightarrow>
      \<exists>i p'. insert_tuple p data = Some (i, p') \<and> inserted p data i p'"
    "\<not> has_enough_space p (of_nat (length data)) \<Longrightarrow> insert_tuple p data = Some (kNullSlot, p)"
proof -
  let ?L = "of_nat (length data) :: u16" and ?ns = "[0..<nt p]"
  let ?t = "takeable p (max_align ?L)" and ?u = "\<lambda>i. lp_flags (sl p i) = LP_UNUSED"
  have sl: "slots (num_tuples p) = map of_nat ?ns" by (simp add: slots_def nt_def)
  note R = reuse_loop_spec [OF inv, of ?ns "max_align ?L" kNullSlot, folded sl]
  note H = has_enough_space_iff [OF inv, of ?L]
  have *: "(has_enough_space p ?L \<longrightarrow> (\<exists>i p'. insert_tuple p data = Some (i, p') \<and> inserted p data i p')) \<and>
    (\<not> has_enough_space p ?L \<longrightarrow> insert_tuple p data = Some (kNullSlot, p))"
  proof (cases "List.find ?t ?ns")
    case (Some i)
    then have i: "i < nt p" "?t i" by (auto simp: find_Some_iff)
    obtain p' where p': "write_at (store_lp p (of_nat i) (normal_lp (lp_offset (sl p i)) ?L))
        (unat (lp_offset (sl p i))) data = Some p'" "page_inv p'" "nt p' = nt p" "placed p p' i data"
      using take_over [OF inv i(1) len i(2)] by blast
    have "insert_tuple p data = Some (of_nat i, p')"
      using R Some p'(1) line_pointer_slot [OF inv i(1)]
      by (auto simp: insert_tuple_def Let_def split: prod.splits)
    moreover have "inserted p data (of_nat i) p'"
      using inv p' i by (intro insertedI) (auto simp: takeable_def lp_is_valid_def)
    ultimately show ?thesis using H i by blast
  next
    case None
    then have no: "\<not> (\<exists>i < nt p. ?t i)" by (auto simp: find_None_iff)
    define k where "k = (case List.find ?u ?ns of Some i \<Rightarrow> i | None \<Rightarrow> nt p)"
    have k: "k \<le> nt p" "k < nt p \<Longrightarrow> ?u k" "k = nt p \<longleftrightarrow> \<not> (\<exists>i < nt p. ?u i)"
      by (auto simp: k_def find_Some_iff find_None_iff split: option.splits)
    have "k \<le> 1360" using k(1) page_invD(2) [OF inv] by linarith
    then have "of_nat k \<noteq> kNullSlot" using unat_small [of k] by (auto simp: kNullSlot_def)
    then have ins: "insert_tuple p data = append_tuple p data (of_nat k) (k = nt p)"
    proof (cases "List.find ?u ?ns")
      case (Some a)
      then have "a \<noteq> nt p" by (auto simp: find_Some_iff)
      then show ?thesis using R None Some \<open>of_nat k \<noteq> kNullSlot\<close> by (simp add: insert_tuple_def Let_def k_def)
    qed (use R None num_tuples_nt [of p] in \<open>simp add: insert_tuple_def Let_def k_def\<close>)
    show ?thesis
    proof (cases "append_fits p ?L (k = nt p)")
      case True
      then obtain p' where "append_tuple p data (of_nat k) (k = nt p) = Some (of_nat k, p')" "page_inv p'"
          "nt p' = (if k = nt p then Suc (nt p) else nt p)" "placed p p' k data"
        using append_spec(2) [OF inv len k(1) refl] by blast
      moreover from this have "inserted p data (of_nat k) p'"
        using k by (intro insertedI [OF inv]) (auto simp: lp_is_valid_def)
      ultimately show ?thesis using H no k(3) ins True by simp
    qed (use append_spec(1) [OF inv len k(1) refl] H no k(3) ins in simp)
  qed
  then show "has_enough_space p ?L \<Longrightarrow> \<exists>i p'. insert_tuple p data = Some (i, p') \<and> inserted p data i p'"
    "\<not> has_enough_space p ?L \<Longrightarrow> insert_tuple p data = Some (kNullSlot, p)" by blast+
qed

lemma insert_tuple_at_spec:
  fixes data :: "byte list" and target :: u16
  assumes inv: "page_inv p" and len: "length data \<le> 65528"
  defines "ok \<equiv> placeable p (of_nat (length data)) target"
  shows "ok \<Longrightarrow> \<exists>p'. insert_tuple_at p data target = Some (target, p') \<and> inserted p data target p'"
    "\<not> ok \<Longrightarrow> insert_tuple_at p data target = Some (kNullSlot, p)"
proof -
  let ?k = "unat target"
  have *: "(ok \<longrightarrow> (\<exists>p'. insert_tuple_at p data target = Some (target, p') \<and> inserted p data target p')) \<and>
    (\<not> ok \<longrightarrow> insert_tuple_at p data target = Some (kNullSlot, p))"
  proof (cases "target \<le> num_tuples p")
    case True
    then have k: "?k \<le> nt p" "target = num_tuples p \<longleftrightarrow> ?k = nt p" "target < num_tuples p \<longleftrightarrow> ?k < nt p"
      by (auto simp: nt_def word_le_nat_alt word_less_nat_alt word_unat_eq_iff)
    have le: "?k \<le> 1360" using k(1) page_invD(2) [OF inv] by linarith
    have v: "get_tuple p target = None \<longleftrightarrow> \<not> lp_is_valid (sl p ?k)"
      using get_tuple_nat [OF le, of p] by simp
    have lp: "line_pointer p target = Some (sl p ?k)" using line_pointer_nat [OF le, of p] by simp
    show ?thesis
    proof (cases "target < num_tuples p \<longrightarrow> get_tuple p target = None")
      case free: True
      then have at: "insert_tuple_at p data target = append_tuple p data (of_nat ?k) (target = num_tuples p)"
        using True lp v by (auto simp: insert_tuple_at_def Let_def)
      note A = append_spec [OF inv len k(1,2)]
      show ?thesis
      proof (cases ok)
        case o: True
        then obtain p' where p': "append_tuple p data (of_nat ?k) (target = num_tuples p) = Some (of_nat ?k, p')"
            "page_inv p'" "nt p' = (if target = num_tuples p then Suc (nt p) else nt p)" "placed p p' ?k data"
          using A(2) unfolding ok_def placeable_def by blast
        have "inserted p data (of_nat ?k) p'"
          using p' k free v by (intro insertedI [OF inv p'(2)]) (auto split: if_splits)
        then show ?thesis using at p'(1) o by simp
      qed (use A(1) at True free in \<open>simp add: ok_def placeable_def\<close>)
    qed (use True lp v in \<open>auto simp: ok_def placeable_def insert_tuple_at_def Let_def\<close>)
  qed (auto simp: ok_def placeable_def insert_tuple_at_def Let_def not_le)
  then show "ok \<Longrightarrow> \<exists>p'. insert_tuple_at p data target = Some (target, p') \<and> inserted p data target p'"
    "\<not> ok \<Longrightarrow> insert_tuple_at p data target = Some (kNullSlot, p)" by blast+
qed

subsection \<open>Pruning\<close>

definition prune_lp :: "line_ptr \<Rightarrow> line_ptr" where
  "prune_lp lp = (if lp_is_dead lp then unused_lp else lp)"

lemma store_slot:
  assumes "length p = 8192" "i < N" "24 + 6 * N \<le> 8184"
  shows "length (store_lp p (of_nat i) lp) = 8192" "nt (store_lp p (of_nat i) lp) = nt p"
    "j < N \<Longrightarrow> sl (store_lp p (of_nat i) lp) j = (if i = j then lp else sl p j)"
    "24 + 6 * N \<le> a \<Longrightarrow> peek (store_lp p (of_nat i) lp) a n = peek p a n"
proof -
  have le: "k \<le> 1360" if "k < N" for k using that assms(3) by linarith
  have p: "store_lp p (of_nat i) lp = poke p (24 + 6 * i) (encode_lp lp)"
    using le [OF assms(2)] by (rule store_lp_nat)
  show "length (store_lp p (of_nat i) lp) = 8192" "nt (store_lp p (of_nat i) lp) = nt p"
    using assms(1) le [OF assms(2)] by (simp_all add: p nt_poke)
  show "j < N \<Longrightarrow> sl (store_lp p (of_nat i) lp) j = (if i = j then lp else sl p j)"
    using sl_poke_lp [OF assms(1) le [OF assms(2)] le] by (simp add: p)
  show "24 + 6 * N \<le> a \<Longrightarrow> peek (store_lp p (of_nat i) lp) a n = peek p a n"
    using assms le [OF assms(2)] by (simp add: p peek_poke_other)
qed

lemma prune_dead_spec:
  fixes r :: u16
  assumes "page_inv p" "distinct ns" "\<And>i. i \<in> set ns \<Longrightarrow> i < nt p"
  shows "\<exists>q c. fold (\<lambda>i (p, reclaimed). case line_pointer p i of
         Some lp \<Rightarrow> if lp_is_dead lp then (store_lp p i unused_lp, reclaimed + 1) else (p, reclaimed)
       | None \<Rightarrow> (p, reclaimed)) (map of_nat ns) (p, r) = (q, c) \<and>
     c = r + of_nat (length (filter (\<lambda>i. lp_is_dead (sl p i)) ns)) \<and> page_inv q \<and> nt q = nt p \<and>
     (\<forall>i < nt p. sl q i = (if i \<in> set ns then prune_lp (sl p i) else sl p i)) \<and>
     (\<forall>a n. 24 + 6 * nt p \<le> a \<longrightarrow> peek q a n = peek p a n)"
  using assms
proof (induction ns arbitrary: p r)
  case (Cons i ns)
  have i: "i < nt p" using Cons.prems by simp
  note S = store_slot [OF page_invD(1) [OF Cons.prems(1)] i page_invD(2) [OF Cons.prems(1)], where lp = unused_lp]
  show ?case
  proof (cases "lp_is_dead (sl p i)")
    case True
    let ?q = "store_lp p (of_nat i) unused_lp"
    have inv: "page_inv ?q"
      using page_inv_store [OF Cons.prems(1) i, of unused_lp] not_owns_unused by simp
    have *: "filter (\<lambda>j. lp_is_dead (sl ?q j)) ns = filter (\<lambda>j. lp_is_dead (sl p j)) ns"
      using Cons.prems S(3) by (intro filter_cong) auto
    show ?thesis
      using Cons.IH [OF inv, of "r + 1"] Cons.prems True line_pointer_slot [OF Cons.prems(1) i] S *
      by (auto simp: prune_lp_def add.assoc)
  next
    case False
    then show ?thesis
      using Cons.IH [OF Cons.prems(1), of r] Cons.prems line_pointer_slot [OF Cons.prems(1) i]
      by (auto simp: prune_lp_def)
  qed
qed simp

fun packed_size :: "page \<Rightarrow> nat list \<Rightarrow> nat" where
  "packed_size p [] = 0"
| "packed_size p (i # ns) = (if lp_is_valid (sl p i) then room (sl p i) else 0) + packed_size p ns"

text \<open>The scratch buffer holds the tuples one below the other.\<close>

fun packed :: "page \<Rightarrow> nat list \<Rightarrow> nat \<Rightarrow> byte list \<Rightarrow> bool" where
  "packed p [] w tmp = True"
| "packed p (i # ns) w tmp =
     (if lp_is_valid (sl p i)
      then peek tmp (w - room (sl p i)) (unat (lp_length (sl p i))) =
          peek p (unat (lp_offset (sl p i))) (unat (lp_length (sl p i))) \<and> packed p ns (w - room (sl p i)) tmp
      else packed p ns w tmp)"

lemma packed_size_le:
  assumes inv: "page_inv p" and "distinct ns" "\<And>i. i \<in> set ns \<Longrightarrow> i < nt p"
  shows "24 + 6 * nt p + packed_size p ns \<le> 8184"
proof -
  define R where "R = (\<lambda>i. if lp_is_valid (sl p i) then region (sl p i) else {})"
  have "packed_size p ns = card (\<Union>i \<in> set ns. R i)"
    using assms(2,3)
  proof (induction ns)
    case (Cons i ns)
    have "R i \<inter> (\<Union>j \<in> set ns. R j) = {}"
    proof -
      have "R i \<inter> R j = {}" if "j \<in> set ns" for j
      proof (cases "lp_is_valid (sl p i) \<and> lp_is_valid (sl p j)")
        case True
        moreover have "i < nt p" "j < nt p" "i \<noteq> j" using that Cons.prems by auto
        ultimately show ?thesis
          using page_invD(4) [OF inv, of i j] by (simp only: R_def lp_is_valid_def if_True simp_thms)
      qed (auto simp: R_def)
      then show ?thesis by blast
    qed
    moreover have "finite (R j)" for j by (simp add: R_def)
    ultimately have "card (\<Union>j \<in> set (i # ns). R j) = card (R i) + card (\<Union>j \<in> set ns. R j)"
      by (simp add: card_Un_disjoint)
    then show ?case using Cons by (simp add: R_def)
  qed simp
  also have "\<dots> \<le> card {24 + 6 * nt p..<8184}"
  proof (rule card_mono)
    have "R i \<subseteq> {24 + 6 * nt p..<8184}" if "i \<in> set ns" for i
    proof (cases "lp_is_valid (sl p i)")
      case True
      then show ?thesis using valid_slot(1,2) [OF inv assms(3) [OF that]] by (simp add: R_def)
    qed (simp add: R_def)
    then show "(\<Union>i \<in> set ns. R i) \<subseteq> {24 + 6 * nt p..<8184}" by (rule UN_least)
  qed simp
  finally show ?thesis using page_invD(2) [OF inv] by simp
qed

lemma unat_minus_align:
  assumes "unat len \<le> 65528" "(unat len + 7) div 8 * 8 \<le> w" "w \<le> 8184"
  shows "unat (of_nat w - max_align len) = w - (unat len + 7) div 8 * 8"
proof -
  have w: "unat (of_nat w :: u16) = w" using assms(3) by (simp add: unat_of_nat)
  have "max_align len \<le> of_nat w"
    using assms w unat_max_align [OF assms(1)] by (simp add: word_le_nat_alt)
  then show ?thesis using unat_sub unat_max_align [OF assms(1)] w by metis
qed

lemma packed_cong:
  assumes "\<And>a n. a + n \<le> w \<Longrightarrow> peek t' a n = peek t a n" "packed_size p ns \<le> w"
  shows "packed p ns w t' = packed p ns w t"
  using assms
proof (induction ns arbitrary: w)
  case (Cons i ns)
  show ?case
  proof (cases "lp_is_valid (sl p i)")
    case True
    have "w - room (sl p i) + unat (lp_length (sl p i)) \<le> w"
      using Cons.prems(2) True room_ge [of "sl p i"] by simp
    moreover have "packed p ns (w - room (sl p i)) t' = packed p ns (w - room (sl p i)) t"
      using Cons.prems True by (intro Cons.IH) auto
    ultimately show ?thesis using Cons.prems(1) True by simp
  qed (use Cons in simp)
qed simp

lemma gather_spec:
  assumes inv: "page_inv p" and "\<And>i. i \<in> set ns \<Longrightarrow> i < nt p" "packed_size p ns \<le> w" "w \<le> 8184" "length tmp = 8192"
  shows "\<exists>tmp'. gather_loop p (map of_nat ns) (of_nat w) tmp = Some tmp' \<and> length tmp' = 8192 \<and> packed p ns w tmp' \<and>
    (\<forall>a n. w \<le> a \<longrightarrow> peek tmp' a n = peek tmp a n)"
  using assms(2-)
proof (induction ns arbitrary: w tmp)
  case (Cons i ns)
  have i: "i < nt p" using Cons.prems by simp
  note lp = line_pointer_slot [OF inv i]
  show ?case
  proof (cases "lp_is_valid (sl p i)")
    case True
    let ?a = "unat (lp_offset (sl p i))" and ?n = "unat (lp_length (sl p i))"
    define v where "v = w - room (sl p i)"
    note V = valid_slot [OF inv i True]
    have n: "?n \<le> room (sl p i)" by (rule room_ge)
    have v: "v + room (sl p i) = w" using Cons.prems(2) True by (simp add: v_def)
    have ma: "of_nat w - max_align (lp_length (sl p i)) = (of_nat v :: u16)"
    proof -
      have "unat (of_nat w - max_align (lp_length (sl p i))) = v"
        using unat_minus_align [of "lp_length (sl p i)" w] V n v Cons.prems(3) by (simp add: v_def)
      then show ?thesis by (metis of_nat_unat ucast_id)
    qed
    have uv: "unat (of_nat v :: u16) = v" using v Cons.prems(3) by (simp add: unat_of_nat)
    have rd: "read_at p ?a ?n = Some (peek p ?a ?n)"
      using V n page_invD(1) [OF inv] by (intro read_at_peek) linarith
    have lb: "length (peek p ?a ?n) = ?n"
      using V n page_invD(1) [OF inv] by (intro length_peek) linarith
    have fit: "v + length (peek p ?a ?n) \<le> length tmp" using lb n v Cons.prems(3,4) by simp
    let ?t = "poke tmp v (peek p ?a ?n)"
    have wr: "write_at tmp v (peek p ?a ?n) = Some ?t" using fit by (rule write_at_poke)
    obtain tmp' where t': "gather_loop p (map of_nat ns) (of_nat v) ?t = Some tmp'" "length tmp' = 8192"
        "packed p ns v tmp'" "\<forall>a n. v \<le> a \<longrightarrow> peek tmp' a n = peek ?t a n"
      using Cons.IH [of v ?t] Cons.prems True v fit by auto
    have "peek tmp' v ?n = peek p ?a ?n" using t'(4) peek_poke_same [OF fit] lb by simp
    moreover have "peek tmp' a n = peek tmp a n" if "w \<le> a" for a n
      using that t'(4) v n lb peek_poke_other [OF fit, of a n] by simp
    ultimately show ?thesis
      using lp True ma uv rd wr t' by (simp add: Let_def v_def)
  qed (use Cons lp in simp)
qed simp

text \<open>After the second loop every tuple of \<open>p\<close> is in \<open>q\<close>, one below the other.\<close>

fun laid :: "page \<Rightarrow> page \<Rightarrow> nat list \<Rightarrow> nat \<Rightarrow> bool" where
  "laid p q [] c = True"
| "laid p q (i # ns) c =
     (if lp_is_valid (sl p i)
      then sl q i = (sl p i)\<lparr>lp_offset := of_nat (c - room (sl p i))\<rparr> \<and>
        peek q (c - room (sl p i)) (unat (lp_length (sl p i))) =
          peek p (unat (lp_offset (sl p i))) (unat (lp_length (sl p i))) \<and> laid p q ns (c - room (sl p i))
      else sl q i = sl p i \<and> laid p q ns c)"

lemma of_nat_minus_align:
  assumes "unat len \<le> 65528" "v + (unat len + 7) div 8 * 8 = w" "w \<le> 8184"
  shows "of_nat w - max_align len = (of_nat v :: u16)"
proof -
  have "unat (of_nat w - max_align len) = v"
    using unat_minus_align [OF assms(1) _ assms(3)] assms(2) by simp
  then show ?thesis by (metis of_nat_unat ucast_id)
qed

lemma write_and_store:
  fixes lp :: line_ptr
  assumes "length q = 8192" "nt q = N" "i < N" "24 + 6 * N \<le> v" "v + length bs \<le> 8184"
  defines "q2 \<equiv> store_lp (poke q v bs) (of_nat i) lp"
  shows "write_at q v bs = Some (poke q v bs)" "length q2 = 8192" "nt q2 = N"
    "j < N \<Longrightarrow> sl q2 j = (if i = j then lp else sl q j)" "v \<le> a \<Longrightarrow> peek q2 a n = peek (poke q v bs) a n"
proof -
  have fit: "v + length bs \<le> length q" using assms by simp
  then show "write_at q v bs = Some (poke q v bs)" by (rule write_at_poke)
  have q1: "length (poke q v bs) = 8192" "nt (poke q v bs) = N" "24 + 6 * N \<le> 8184"
    using fit assms by (simp_all add: nt_poke)
  note S = store_slot [OF q1(1) assms(3) q1(3), where lp = lp, folded q2_def]
  show "length q2 = 8192" "nt q2 = N" "v \<le> a \<Longrightarrow> peek q2 a n = peek (poke q v bs) a n"
    using S q1(2) assms(4) by simp_all
  assume "j < N"
  moreover from this have "24 + 6 * Suc j \<le> v" using mult_le_mono2 [of "Suc j" N 6] assms(4) by linarith
  ultimately show "sl q2 j = (if i = j then lp else sl q j)" using S(3) sl_poke_data [OF fit] by simp
qed

lemma scatter_spec:
  assumes inv: "page_inv p" and "distinct ns" "\<And>i. i \<in> set ns \<Longrightarrow> i < nt p" "\<And>i. i \<in> set ns \<Longrightarrow> sl q i = sl p i"
    "24 + 6 * nt p + packed_size p ns \<le> c" "c \<le> 8184" "length q = 8192" "nt q = nt p" "packed p ns c tmp"
    "length tmp = 8192"
  shows "\<exists>q'. scatter_loop q (map of_nat ns) (of_nat c) tmp = Some q' \<and> length q' = 8192 \<and> nt q' = nt p \<and>
    laid p q' ns c \<and> (\<forall>j < nt p. j \<notin> set ns \<longrightarrow> sl q' j = sl q j) \<and> (\<forall>a n. c \<le> a \<longrightarrow> peek q' a n = peek q a n)"
  using assms(2-)
proof (induction ns arbitrary: q c)
  case (Cons i ns)
  have i: "i < nt p" "i \<le> 1360" "sl q i = sl p i" "i \<notin> set ns"
    using Cons.prems(1) Cons.prems(2) [of i] page_invD(2) [OF inv] Cons.prems(3) by auto
  have lp: "line_pointer q (of_nat i) = Some (sl p i)" using line_pointer_nat [OF i(2), of q] i(3) by simp
  show ?case
  proof (cases "lp_is_valid (sl p i)")
    case True
    let ?a = "unat (lp_offset (sl p i))" and ?n = "unat (lp_length (sl p i))"
    let ?bs = "peek p ?a ?n"
    define v where "v = c - room (sl p i)"
    note V = valid_slot [OF inv i(1) True]
    have n: "?n \<le> room (sl p i)" by (rule room_ge)
    have v: "v + room (sl p i) = c" "24 + 6 * nt p + packed_size p ns \<le> v"
      using Cons.prems(4) True by (simp_all add: v_def)
    have ma: "of_nat c - max_align (lp_length (sl p i)) = (of_nat v :: u16)"
      using V n v Cons.prems(5) by (intro of_nat_minus_align) linarith+
    have uv: "unat (of_nat v :: u16) = v" using v Cons.prems(5) by (simp add: unat_of_nat)
    have pk: "peek tmp v ?n = ?bs" "packed p ns v tmp" using Cons.prems(8) True by (simp_all add: v_def)
    have rd: "read_at tmp v ?n = Some ?bs"
      using read_at_peek [of v ?n tmp] pk(1) n v Cons.prems(5,9) by simp
    have lb: "length ?bs = ?n" using V n page_invD(1) [OF inv] by (intro length_peek) linarith
    have fit: "24 + 6 * nt p \<le> v" "v + length ?bs \<le> 8184" using lb n v Cons.prems(5) by simp_all
    define q2 where "q2 = store_lp (poke q v ?bs) (of_nat i) ((sl p i)\<lparr>lp_offset := of_nat v\<rparr>)"
    note W = write_and_store(1) [OF Cons.prems(6,7) i(1) fit]
      write_and_store(2-5) [OF Cons.prems(6,7) i(1) fit,
        where lp = "(sl p i)\<lparr>lp_offset := of_nat v\<rparr>", folded q2_def]
    have "sl q2 j = sl p j" if "j \<in> set ns" for j using that Cons.prems(2,3) W(4) i(4) by auto
    then obtain q' where q': "scatter_loop q2 (map of_nat ns) (of_nat v) tmp = Some q'" "length q' = 8192" "nt q' = nt p"
        "laid p q' ns v" "\<forall>j < nt p. j \<notin> set ns \<longrightarrow> sl q' j = sl q2 j" "\<forall>a n. v \<le> a \<longrightarrow> peek q' a n = peek q2 a n"
      using Cons.IH [of q2 v] Cons.prems W(2,3) v pk(2) by auto
    have "peek q' v ?n = ?bs" using q'(6) W(5) peek_poke_same [of v ?bs q] fit lb Cons.prems(6) by simp
    moreover have "peek q' a m = peek q a m" if "c \<le> a" for a m
      using q'(6) W(5) that v n lb fit peek_poke_other [of v ?bs q a m] Cons.prems(6) by simp
    moreover have "sl q' i = (sl p i)\<lparr>lp_offset := of_nat v\<rparr>" using q'(5) i W(4) by simp
    moreover have "\<forall>j < nt p. j \<notin> set (i # ns) \<longrightarrow> sl q' j = sl q j" using q'(5) W(4) by auto
    ultimately show ?thesis
      using lp True ma uv rd W(1) q' by (simp add: Let_def v_def q2_def)
  next
    case False
    then obtain q' where "scatter_loop q (map of_nat ns) (of_nat c) tmp = Some q'" "length q' = 8192" "nt q' = nt p"
        "laid p q' ns c" "\<forall>j < nt p. j \<notin> set ns \<longrightarrow> sl q' j = sl q j" "\<forall>a n. c \<le> a \<longrightarrow> peek q' a n = peek q a n"
      using Cons.IH [of q c] Cons.prems by auto
    then show ?thesis using False lp i by auto
  qed
qed simp

text \<open>What \<^verbatim>\<open>laid\<close> says of each tuple and of each pair of tuples.\<close>

lemma laid_slot:
  assumes "laid p q ns c" "i \<in> set ns" "b + packed_size p ns \<le> c" "c \<le> 8184"
  shows "\<not> lp_is_valid (sl p i) \<Longrightarrow> sl q i = sl p i"
    "lp_is_valid (sl p i) \<Longrightarrow> lp_length (sl q i) = lp_length (sl p i) \<and> lp_flags (sl q i) = lp_flags (sl p i) \<and>
      b \<le> unat (lp_offset (sl q i)) \<and> unat (lp_offset (sl q i)) + room (sl p i) \<le> c \<and>
      peek q (unat (lp_offset (sl q i))) (unat (lp_length (sl p i))) =
        peek p (unat (lp_offset (sl p i))) (unat (lp_length (sl p i)))"
proof -
  have "if lp_is_valid (sl p i)
    then lp_length (sl q i) = lp_length (sl p i) \<and> lp_flags (sl q i) = lp_flags (sl p i) \<and>
      b \<le> unat (lp_offset (sl q i)) \<and> unat (lp_offset (sl q i)) + room (sl p i) \<le> c \<and>
      peek q (unat (lp_offset (sl q i))) (unat (lp_length (sl p i))) =
        peek p (unat (lp_offset (sl p i))) (unat (lp_length (sl p i)))
    else sl q i = sl p i"
    using assms
  proof (induction ns arbitrary: c)
    case (Cons k ns)
    define v where "v = (if lp_is_valid (sl p k) then c - room (sl p k) else c)"
    have v: "b + packed_size p ns \<le> v" "v \<le> c" "laid p q ns v"
      using Cons.prems(1,3) by (auto simp: v_def split: if_splits)
    show ?case
    proof (cases "i = k")
      case True
      have "unat (of_nat (c - room (sl p k)) :: u16) = c - room (sl p k)"
        using Cons.prems(4) by (simp add: unat_of_nat)
      then show ?thesis using Cons.prems(1,3) True by auto
    next
      case False
      then show ?thesis using Cons.IH [OF v(3) _ v(1)] Cons.prems(2,4) v(2) by auto
    qed
  qed simp
  then show "\<not> lp_is_valid (sl p i) \<Longrightarrow> sl q i = sl p i"
    "lp_is_valid (sl p i) \<Longrightarrow> lp_length (sl q i) = lp_length (sl p i) \<and> lp_flags (sl q i) = lp_flags (sl p i) \<and>
      b \<le> unat (lp_offset (sl q i)) \<and> unat (lp_offset (sl q i)) + room (sl p i) \<le> c \<and>
      peek q (unat (lp_offset (sl q i))) (unat (lp_length (sl p i))) =
        peek p (unat (lp_offset (sl p i))) (unat (lp_length (sl p i)))" by auto
qed

lemma laid_disjoint:
  assumes "laid p q ns c" "b + packed_size p ns \<le> c" "c \<le> 8184" "i \<in> set ns" "j \<in> set ns" "i \<noteq> j"
    "lp_is_valid (sl p i)" "lp_is_valid (sl p j)"
  shows "region (sl q i) \<inter> region (sl q j) = {}"
  using assms
proof (induction ns arbitrary: c)
  case (Cons k ns)
  define v where "v = (if lp_is_valid (sl p k) then c - room (sl p k) else c)"
  have v: "b + packed_size p ns \<le> v" "v \<le> 8184" "laid p q ns v"
    using Cons.prems(1-3) by (auto simp: v_def split: if_splits)
  have top: "region (sl q k) \<inter> region (sl q m) = {}" if "m \<in> set ns" "lp_is_valid (sl p k)" "lp_is_valid (sl p m)" for m
  proof -
    have "sl q k = (sl p k)\<lparr>lp_offset := of_nat v\<rparr>"
      using Cons.prems(1) that(2) by (simp only: laid.simps v_def if_True)
    then have "unat (lp_offset (sl q k)) = v" using v(2) by (simp add: unat_of_nat)
    moreover have "unat (lp_offset (sl q m)) + room (sl q m) \<le> v"
      using laid_slot(2) [OF v(3) that(1) v(1,2) that(3)] by simp
    ultimately show ?thesis by auto
  qed
  show ?case
    using Cons.IH [OF v(3,1,2)] Cons.prems(4-) top by (cases "i = k"; cases "j = k") (auto simp: Int_commute)
qed simp

lemma prune_lp_valid [simp]: "lp_is_valid (prune_lp lp) = lp_is_valid lp"
  by (auto simp: prune_lp_def lp_is_valid_def lp_is_dead_def)

lemma laid_page:
  assumes inv: "page_inv p" and q: "length q = 8192" "nt q = nt p" "laid p q [0..<nt p] 8184"
    and nodead: "\<And>i. i < nt p \<Longrightarrow> \<not> lp_is_dead (sl p i)"
  shows "page_inv q" "i < nt p \<Longrightarrow> get_tuple q (of_nat i) = get_tuple p (of_nat i)"
    "i < nt p \<Longrightarrow> \<not> lp_is_dead (sl q i)"
proof -
  have size: "24 + 6 * nt p + packed_size p [0..<nt p] \<le> 8184" by (rule packed_size_le [OF inv]) auto
  note S = laid_slot [OF q(3) _ size order_refl]
  have fl: "lp_flags (sl q i) = lp_flags (sl p i)" "lp_length (sl q i) = lp_length (sl p i)" if "i < nt p" for i
    using S [of i] that by (cases "lp_is_valid (sl p i)"; simp)+
  show "i < nt p \<Longrightarrow> \<not> lp_is_dead (sl q i)" using nodead fl(1) by (simp add: lp_is_dead_def)
  have ok: "slot_ok (nt p) (sl q i)" if "i < nt p" for i
  proof (cases "lp_is_valid (sl p i)")
    case True
    then show ?thesis using S(2) [of i] that by (auto simp: slot_ok_def lp_is_valid_def)
  next
    case False
    then show ?thesis using S(1) [of i] that page_invD(3) [OF inv that] by simp
  qed
  have empty: "region (sl q i) = {}" if "i < nt p" "owns (sl q i)" "\<not> lp_is_valid (sl p i)" for i
  proof -
    have n: "lp_flags (sl p i) = LP_NORMAL" using that fl(1) nodead by (auto simp: lp_is_dead_def)
    then have "24 + 6 * nt p \<le> unat (lp_offset (sl p i))"
      using page_invD(3) [OF inv that(1)] by (auto simp: slot_ok_def)
    then have "lp_length (sl p i) = 0"
      using that(3) n by (auto simp: lp_is_valid_def word_less_nat_alt unat_gt_0)
    then show ?thesis using fl(2) [OF that(1)] by simp
  qed
  have "region (sl q i) \<inter> region (sl q j) = {}" if "i < nt p" "j < nt p" "i \<noteq> j" "owns (sl q i)" "owns (sl q j)" for i j
    using empty [OF that(1,4)] empty [OF that(2,5)] laid_disjoint [OF q(3) size order_refl _ _ that(3)] that
    by (cases "lp_is_valid (sl p i)"; cases "lp_is_valid (sl p j)") simp_all
  then show "page_inv q" using q ok page_invD(2) [OF inv] unfolding page_inv_def by simp
  assume i: "i < nt p"
  then have "i \<le> 1360" using page_invD(2) [OF inv] by linarith
  moreover have "lp_is_valid (sl q i) = lp_is_valid (sl p i)"
  proof (cases "lp_is_valid (sl p i)")
    case True
    have "24 + 6 * nt p \<le> unat (lp_offset (sl q i))" using S(2) [of i] i True by simp
    then have "0 < lp_offset (sl q i)" by (simp add: word_less_nat_alt)
    then show ?thesis using True fl [OF i] by (simp add: lp_is_valid_def)
  qed (use S(1) [of i] i in simp)
  ultimately show "get_tuple q (of_nat i) = get_tuple p (of_nat i)"
    using S(2) [of i] i by (simp add: get_tuple_nat)
qed

lemma prune_spec:
  assumes inv: "page_inv p"
  shows "\<exists>n p'. prune p = Some (n, p') \<and> page_inv p' \<and> nt p' = nt p \<and>
    unat n = length (filter (\<lambda>i. lp_is_dead (sl p i)) [0..<nt p]) \<and>
    (\<forall>i < nt p. get_tuple p' (of_nat i) = get_tuple p (of_nat i) \<and> \<not> lp_is_dead (sl p' i))"
proof -
  let ?ns = "[0..<nt p]"
  let ?dead = "filter (\<lambda>i. lp_is_dead (sl p i)) ?ns"
  have sl: "slots (num_tuples p) = map of_nat ?ns" by (simp add: slots_def nt_def)
  have ex: "list_ex (\<lambda>i. case line_pointer p i of Some lp \<Rightarrow> lp_is_dead lp | None \<Rightarrow> False) (map of_nat ?ns) \<longleftrightarrow> ?dead \<noteq> []"
    using line_pointer_slot [OF inv] by (auto simp: list_ex_iff filter_empty_conv)
  show ?thesis
  proof (cases "?dead = []")
    case True
    then have "prune p = Some (0, p)" using ex by (simp add: prune_def sl)
    then show ?thesis using inv True by (auto simp: filter_empty_conv)
  next
    case False
    obtain p1 where p1: "prune_dead p (map of_nat ?ns) = (p1, of_nat (length ?dead))" "page_inv p1" "nt p1 = nt p"
        "\<And>i. i < nt p \<Longrightarrow> sl p1 i = prune_lp (sl p i)" "\<And>a n. 24 + 6 * nt p \<le> a \<Longrightarrow> peek p1 a n = peek p a n"
      using prune_dead_spec [OF inv, of ?ns 0] by (auto simp: prune_dead_def)
    have sz: "24 + 6 * nt p1 + packed_size p1 ?ns \<le> 8184" by (rule packed_size_le [OF p1(2)]) (auto simp: p1(3))
    obtain tmp where tmp: "gather_loop p1 (map of_nat ?ns) (of_nat 8184) (replicate 8192 0) = Some tmp" "length tmp = 8192"
        "packed p1 ?ns 8184 tmp"
      using gather_spec [OF p1(2), of ?ns 8184 "replicate 8192 0"] sz p1(3) by auto
    obtain q where q: "scatter_loop p1 (map of_nat ?ns) (of_nat 8184) tmp = Some q" "length q = 8192" "nt q = nt p1"
        "laid p1 q ?ns 8184"
      using scatter_spec [OF p1(2), of ?ns p1 8184 tmp] sz p1(3) tmp(2,3) page_invD(1) [OF p1(2)] by auto
    have nodead: "\<not> lp_is_dead (sl p1 i)" if "i < nt p1" for i
      using p1(3,4) that by (auto simp: prune_lp_def lp_is_dead_def)
    note L = laid_page [OF p1(2) q(2,3) q(4) [folded p1(3)] nodead]
    define p' where "p' = set_free_space_offset q (24 + num_tuples q * 6)"
    note F = set_free_space_simps [OF q(2), where n = "24 + num_tuples q * 6", folded p'_def]
    have "prune p = Some (of_nat (length ?dead), p')"
      using False ex p1(1) tmp(1) q(1) by (simp add: prune_def sl kDataUpperBound_def p'_def)
    moreover have "unat (of_nat (length ?dead) :: u16) = length ?dead"
      using page_invD(2) [OF inv] length_filter_le [of "\<lambda>i. lp_is_dead (sl p i)" ?ns] by (intro unat_small) simp
    moreover have "get_tuple p' (of_nat i) = get_tuple p (of_nat i)" if "i < nt p" for i
    proof -
      have le: "i \<le> 1360" using that page_invD(2) [OF inv] by linarith
      have "get_tuple p' (of_nat i) = get_tuple q (of_nat i)"
        using valid_above [OF L(1)] that q(3) p1(3) le F by (intro get_tuple_cong [OF q(2)]) auto
      also have "\<dots> = get_tuple p1 (of_nat i)" using L(2) that p1(3) by simp
      also have "\<dots> = get_tuple p (of_nat i)"
        using p1(4) [OF that] p1(5) valid_slot(1) [OF inv that] le
        by (auto simp: get_tuple_nat prune_lp_def lp_is_valid_def lp_is_dead_def)
      finally show ?thesis .
    qed
    moreover have "page_inv p'" unfolding p'_def using L(1) by simp
    ultimately show ?thesis using L(3) F(2,3) q(3) p1(3) by auto
  qed
qed

section \<open>Properties\<close>

text \<open>The pages a run of the operations can produce.\<close>

inductive page_reach :: "page \<Rightarrow> bool" where
  init: "page_reach (page_init pid ty)"
| insert: "page_reach p \<Longrightarrow> length data \<le> 65528 \<Longrightarrow> insert_tuple p data = Some (i, p') \<Longrightarrow> page_reach p'"
| insert_at: "page_reach p \<Longrightarrow> length data \<le> 65528 \<Longrightarrow> insert_tuple_at p data t = Some (i, p') \<Longrightarrow> page_reach p'"
| dead: "page_reach p \<Longrightarrow> page_reach (snd (mark_dead p i))"
| reclaim: "page_reach p \<Longrightarrow> page_reach (snd (reclaim_slot p i))"
| redirect: "page_reach p \<Longrightarrow> page_reach (snd (redirect_slot p i t))"
| prune: "page_reach p \<Longrightarrow> prune p = Some (n, p') \<Longrightarrow> page_reach p'"

lemma page_reach_page_inv: "page_reach p \<Longrightarrow> page_inv p"
proof (induction rule: page_reach.induct)
  case (insert p data i p')
  then show ?case
    using insert_tuple_spec [of p data] by (cases "has_enough_space p (of_nat (length data))") (auto simp: inserted_def)
next
  case (insert_at p data t i p')
  then show ?case
    using insert_tuple_at_spec [of p data t] by (cases "placeable p (of_nat (length data)) t") (auto simp: inserted_def)
next
  case (prune p n p')
  then show ?case using prune_spec [of p] by auto
qed (simp_all add: page_inv_init page_inv_mark_dead page_inv_reclaim page_inv_redirect)

text \<open>C19: every page reached from a fresh one by any sequence of insertions, deletions, slot
  reclaims, redirects and prunes is well formed (line pointers inside the array, tuples inside
  the data area and apart from each other), and on it neither an insertion of at most 65528
  bytes nor a prune copies outside the page.\<close>

theorem page_reachable_well_formed:
  assumes "page_reach p"
  shows "page_inv p \<and> prune p \<noteq> None \<and>
    (length data \<le> 65528 \<longrightarrow> insert_tuple p data \<noteq> None \<and> insert_tuple_at p data target \<noteq> None)"
proof -
  have inv: "page_inv p" using assms by (rule page_reach_page_inv)
  moreover have "insert_tuple p data \<noteq> None" if "length data \<le> 65528"
    using insert_tuple_spec [OF inv that] by (cases "has_enough_space p (of_nat (length data))") auto
  moreover have "insert_tuple_at p data target \<noteq> None" if "length data \<le> 65528"
    using insert_tuple_at_spec [OF inv that, of target] by (cases "placeable p (of_nat (length data)) target") auto
  ultimately show ?thesis using prune_spec [OF inv] by auto
qed

theorem page_reachable_well_formed_witness:
  "page_inv (page_init 7 1) \<and> insert_tuple (page_init 7 1) [1, 2, 3] \<noteq> None"
  using page_reachable_well_formed [OF page_reach.init [of 7 1], of "[1, 2, 3]" 0] by simp

text \<open>C20: on a well-formed page an insertion succeeds exactly when \<^verbatim>\<open>has_enough_space\<close> says so.
  If it does, the tuple is read back from the slot returned, which held no tuple before, and
  every other slot and tuple is as it was; if not, the page is unchanged and the result is
  \<^verbatim>\<open>kNullSlot\<close>.\<close>

theorem insert_tuple_correct:
  assumes "page_inv p" "length data \<le> 65528"
  shows "if has_enough_space p (of_nat (length data))
    then \<exists>i p'. insert_tuple p data = Some (i, p') \<and> inserted p data i p'
    else insert_tuple p data = Some (kNullSlot, p)"
  using insert_tuple_spec [OF assms] by simp

lemma fresh_page_simps:
  "num_tuples (page_init pid ty) = 0" "slots 0 = []"
  by (simp_all add: num_tuples_def page_init_def peek_def slots_def)

lemma fresh_page_space: "has_enough_space (page_init pid ty) 3"
  by (simp add: has_enough_space_def fresh_page_simps min_tuple_offset_def kDataUpperBound_def max_align_def Let_def)

theorem insert_tuple_correct_witness:
  "\<exists>i p'. insert_tuple (page_init 7 1) [1, 2, 3] = Some (i, p') \<and> inserted (page_init 7 1) [1, 2, 3] i p'"
  using insert_tuple_correct [OF page_inv_init [of 7 1], of "[1, 2, 3]"] by (simp add: fresh_page_space)

text \<open>\<^verbatim>\<open>insert_tuple_at\<close> puts the tuple into the slot asked for when that slot is the next
  new one or holds no tuple and the free area takes it, and otherwise changes nothing.\<close>

lemma insert_tuple_at_correct:
  assumes "page_inv p" "length data \<le> 65528"
  shows "if placeable p (of_nat (length data)) target
    then \<exists>p'. insert_tuple_at p data target = Some (target, p') \<and> inserted p data target p'
    else insert_tuple_at p data target = Some (kNullSlot, p)"
  using insert_tuple_at_spec [OF assms, of target] by simp

text \<open>C21: pruning a well-formed page never fails, keeps the page well formed with the same
  slots, returns the number of dead slots, leaves no dead slot behind and keeps the bytes of
  every tuple readable under its slot number, although the tuples move.\<close>

theorem prune_correct:
  assumes "page_inv p"
  shows "\<exists>n p'. prune p = Some (n, p') \<and> page_inv p' \<and> num_tuples p' = num_tuples p \<and>
    unat n = card {i. i < num_tuples p \<and> (\<exists>lp. line_pointer p i = Some lp \<and> lp_is_dead lp)} \<and>
    (\<forall>i < num_tuples p. get_tuple p' i = get_tuple p i \<and> (\<exists>lp. line_pointer p' i = Some lp \<and> \<not> lp_is_dead lp))"
proof -
  obtain n p' where P: "prune p = Some (n, p')" "page_inv p'" "nt p' = nt p"
      "unat n = length (filter (\<lambda>i. lp_is_dead (sl p i)) [0..<nt p])"
      "\<And>i. i < nt p \<Longrightarrow> get_tuple p' (of_nat i) = get_tuple p (of_nat i) \<and> \<not> lp_is_dead (sl p' i)"
    using prune_spec [OF assms] by blast
  have num: "num_tuples p' = num_tuples p" using P(3) by (simp add: num_tuples_nt)
  let ?D = "{i. i < nt p \<and> lp_is_dead (sl p i)}"
  have le: "i \<le> 1361" if "i < nt p" for i using that page_invD(2) [OF assms] by linarith
  have "{i. i < num_tuples p \<and> (\<exists>lp. line_pointer p i = Some lp \<and> lp_is_dead lp)} = of_nat ` ?D" (is "?L = _")
  proof
    show "?L \<subseteq> of_nat ` ?D"
      using line_pointer_slot [OF assms] by (auto elim!: slot_number [OF assms])
    show "of_nat ` ?D \<subseteq> ?L"
      using line_pointer_slot [OF assms] le by (auto simp: word_less_nat_alt nt_def [symmetric] unat_small)
  qed
  moreover have "inj_on (of_nat :: nat \<Rightarrow> u16) ?D" using le of_nat_u16_inj by (auto simp: inj_on_def)
  ultimately have "card ?L = card ?D" by (simp add: card_image)
  also have "\<dots> = unat n"
    using P(4) distinct_card [of "filter (\<lambda>i. lp_is_dead (sl p i)) [0..<nt p]"] by simp
  moreover have "get_tuple p' i = get_tuple p i \<and> (\<exists>lp. line_pointer p' i = Some lp \<and> \<not> lp_is_dead lp)"
    if i: "i < num_tuples p" for i
  proof -
    obtain k where "k < nt p" "i = of_nat k" using slot_number [OF assms i] by blast
    then show ?thesis using P(3,5) line_pointer_slot [OF P(2)] by simp
  qed
  ultimately show ?thesis using P(1,2) num by auto
qed

theorem prune_correct_witness: "\<exists>n p'. prune (page_init 7 1) = Some (n, p') \<and> page_inv p' \<and> num_tuples p' = 0"
  using prune_correct [OF page_inv_init [of 7 1]] by (auto simp: fresh_page_simps)

text \<open>A slot redirected to a slot other than 0 keeps its target in the offset field, which the
  search for the lowest tuple takes for a tuple near the start of the page: from then on the
  page reports no free space and every insertion that finds no dead slot fails, however few
  bytes are used.\<close>

lemma redirect_fills_page:
  assumes "page_inv p" "i < num_tuples p" "line_pointer p i = Some (redirect_lp t)" "0 < t"
    and nodead: "\<forall>j < num_tuples p. \<forall>lp. line_pointer p j = Some lp \<longrightarrow> \<not> lp_is_dead lp"
    and "length data \<le> 65528"
  shows "get_free_space p = 0 \<and> insert_tuple p data = Some (kNullSlot, p)"
proof -
  obtain k where k: "k < nt p" "i = of_nat k" using slot_number [OF assms(1,2)] by blast
  then have sl: "sl p k = redirect_lp t" using line_pointer_slot [OF assms(1) k(1)] assms(3) by simp
  then have t: "unat t < nt p"
    using page_invD(3) [OF assms(1) k(1)] by (auto simp: slot_ok_def unused_lp_def redirect_lp_def lp_flag_defs)
  have m: "unat (min_tuple_offset p (num_tuples p)) \<le> unat t"
    using min_tuple_offset_le(2) [OF assms(1) k(1)] sl assms(4) by simp
  have "\<not> append_fits p (of_nat (length data)) new" for new
    using append_fits_nat [OF assms(1), of "of_nat (length data)" new] m t assms(6)
    by (auto simp: unat_of_nat split: if_splits)
  moreover have "\<not> takeable p a j" if "j < nt p" for a j
  proof -
    have "(of_nat j :: u16) < num_tuples p"
      using that page_invD(2) [OF assms(1)] by (simp add: word_less_nat_alt nt_def [symmetric] unat_small)
    then show ?thesis using nodead line_pointer_slot [OF assms(1) that] by (simp add: takeable_def lp_is_dead_def)
  qed
  ultimately have "\<not> has_enough_space p (of_nat (length data))" using has_enough_space_iff [OF assms(1)] by blast
  moreover have "unat (24 + num_tuples p * 6) = 24 + 6 * nt p"
  proof -
    have "24 + num_tuples p * 6 = (of_nat (24 + 6 * nt p) :: u16)" by (simp add: num_tuples_nt)
    then show ?thesis using page_invD(2) [OF assms(1)] by (simp only: unat_of_nat) simp
  qed
  ultimately show ?thesis
    using insert_tuple_spec(2) [OF assms(1,6)] m t by (simp add: get_free_space_def word_less_nat_alt)
qed

definition redirect_page :: page where
  "redirect_page = store_lp (store_lp (set_num_tuples (page_init 7 1) 2) (of_nat 0) (redirect_lp 1)) (of_nat 1) (normal_lp 8176 3)"

lemma redirect_page_simps:
  "length redirect_page = 8192" "nt redirect_page = 2" "sl redirect_page 0 = redirect_lp 1" "sl redirect_page 1 = normal_lp 8176 3"
proof -
  define q where "q = set_num_tuples (page_init 7 1) 2"
  have q: "length q = 8192" "nt q = 2"
    using set_num_tuples_simps(1,3) [of "page_init 7 1" 2] by (simp_all add: q_def page_init_def)
  note A = store_slot [OF q(1), of 0 2, where lp = "redirect_lp 1"]
  note B = store_slot [OF A(1), of 1 2, where lp = "normal_lp 8176 3"]
  show "length redirect_page = 8192" "nt redirect_page = 2"
      "sl redirect_page 0 = redirect_lp 1" "sl redirect_page 1 = normal_lp 8176 3"
    using q A B by (simp_all add: redirect_page_def q_def)
qed

lemma redirect_page_inv: "page_inv redirect_page"
  using redirect_page_simps
  by (auto simp: page_inv_def slot_ok_def less_2_cases_iff)

end
