(* ===== verification/Like.thy ===== *)
theory Like
  imports Prelude
begin

section \<open>LIKE patterns\<close>

text \<open>
  Model of \<^verbatim>\<open>like_match\<close> in \<^verbatim>\<open>src/src/sql/executor/expression_evaluator.cpp\<close>, the greedy matcher
  that remembers the last percent sign only, and its equivalence with the meaning of a pattern.
\<close>

text \<open>The loop over the string with the position of the last percent sign; it is total, as
  \<open>like_match_correct\<close> shows.\<close>

partial_function (option) like_loop ::
  "string \<Rightarrow> string \<Rightarrow> nat \<Rightarrow> nat \<Rightarrow> (nat \<times> nat) option \<Rightarrow> bool option" where
  "like_loop str pat si pi star =
     (if si < length str
      then
        (if pi < length pat \<and> pat ! pi = CHR ''%'' then like_loop str pat si (pi + 1) (Some (si, pi))
         else if pi < length pat \<and> (pat ! pi = str ! si \<or> pat ! pi = CHR ''_'')
         then like_loop str pat (si + 1) (pi + 1) star
         else (case star of
             Some (star_si, star_pi) \<Rightarrow> like_loop str pat (star_si + 1) (star_pi + 1) (Some (star_si + 1, star_pi))
           | None \<Rightarrow> Some False))
      else Some (list_all (\<lambda>c. c = CHR ''%'') (drop pi pat)))"

definition like_match :: "string \<Rightarrow> string \<Rightarrow> bool option" where
  "like_match str pat = like_loop str pat 0 0 None"

section \<open>The meaning of a pattern\<close>

text \<open>A percent sign stands for any string, an underscore for any character.\<close>

fun like_spec :: "string \<Rightarrow> string \<Rightarrow> bool" where
  "like_spec [] s = (s = [])"
| "like_spec (c # p) s =
     (if c = CHR ''%'' then \<exists>k \<le> length s. like_spec p (drop k s)
      else (case s of [] \<Rightarrow> False | x # xs \<Rightarrow> (c = x \<or> c = CHR ''_'') \<and> like_spec p xs))"

lemma like_spec_empty: "like_spec p [] \<longleftrightarrow> list_all (\<lambda>c. c = CHR ''%'') p"
  by (induction p) auto

text \<open>A part of the pattern without percent sign takes as many characters of the string.\<close>

lemma like_spec_segment:
  assumes "CHR ''%'' \<notin> set w" "like_spec (w @ p) s"
  shows "length w \<le> length s \<and> like_spec p (drop (length w) s)"
  using assms
proof (induction w arbitrary: s)
  case (Cons c w)
  then show ?case by (cases s) auto
qed simp

text \<open>What the loop has left to find: the rest of the pattern here, or the pattern after the last
  percent sign at a later place than the one tried.\<close>

definition later_match :: "string \<Rightarrow> string \<Rightarrow> (nat \<times> nat) option \<Rightarrow> bool" where
  "later_match str pat star =
     (case star of None \<Rightarrow> False
      | Some (si, pi) \<Rightarrow> \<exists>k > si. k \<le> length str \<and> like_spec (drop (pi + 1) pat) (drop k str))"

definition like_inv :: "string \<Rightarrow> string \<Rightarrow> nat \<Rightarrow> nat \<Rightarrow> (nat \<times> nat) option \<Rightarrow> bool" where
  "like_inv str pat si pi star \<longleftrightarrow> si \<le> length str \<and> pi \<le> length pat \<and>
     (case star of None \<Rightarrow> True
      | Some (ssi, spi) \<Rightarrow> spi < pi \<and> ssi \<le> si \<and> pi - (spi + 1) = si - ssi \<and>
          CHR ''%'' \<notin> set (take (pi - (spi + 1)) (drop (spi + 1) pat)))"

lemma later_match_shift:
  assumes "like_inv str pat si pi (Some (ssi, spi))" "later_match str pat (Some (ssi, spi))"
  shows "\<exists>k > si. k \<le> length str \<and> like_spec (drop pi pat) (drop k str)"
proof -
  obtain k where k: "k > ssi" "k \<le> length str" "like_spec (drop (spi + 1) pat) (drop k str)"
    using assms(2) by (auto simp: later_match_def)
  define m where "m = pi - (spi + 1)"
  have m: "pi = spi + 1 + m" "si = ssi + m" "CHR ''%'' \<notin> set (take m (drop (spi + 1) pat))" "pi \<le> length pat"
    using assms(1) by (auto simp: like_inv_def m_def)
  have "drop (spi + 1) pat = take m (drop (spi + 1) pat) @ drop pi pat"
    using append_take_drop_id [of m "drop (spi + 1) pat"] by (simp add: m(1) add.commute)
  with k(3) have "like_spec (take m (drop (spi + 1) pat) @ drop pi pat) (drop k str)" by simp
  from like_spec_segment [OF m(3) this] have "m \<le> length str - k" "like_spec (drop pi pat) (drop (k + m) str)"
    using m(1,4) by (simp_all add: add.commute)
  then show ?thesis using k(1,2) m(2) by (intro exI [of _ "k + m"]) auto
qed

definition like_measure :: "string \<Rightarrow> string \<Rightarrow> nat \<times> nat \<times> (nat \<times> nat) option \<Rightarrow> nat \<times> nat \<times> nat" where
  "like_measure str pat = (\<lambda>(si, pi, star).
     (case star of None \<Rightarrow> (length pat + 1, 0, length str - si)
      | Some (ssi, spi) \<Rightarrow> (length pat - spi, length str - ssi, length str - si)))"

lemma drop_pattern: "pi < length pat \<Longrightarrow> drop pi pat = pat ! pi # drop (pi + 1) pat"
  by (simp add: Cons_nth_drop_Suc)

text \<open>The three moves of the loop keep the invariant and what is left to find.\<close>

lemma like_percent:
  assumes "like_inv str pat si pi star" "pi < length pat" "pat ! pi = CHR ''%''"
  shows "like_inv str pat si (pi + 1) (Some (si, pi))"
    and "like_spec (drop (pi + 1) pat) (drop si str) \<or> later_match str pat (Some (si, pi)) \<longleftrightarrow>
      like_spec (drop pi pat) (drop si str) \<or> later_match str pat star"
proof -
  show "like_inv str pat si (pi + 1) (Some (si, pi))" using assms by (simp add: like_inv_def)
  have si: "si \<le> length str" using assms(1) by (simp add: like_inv_def)
  have here: "like_spec (drop pi pat) (drop j str) \<longleftrightarrow> (\<exists>k \<ge> j. k \<le> length str \<and> like_spec (drop (pi + 1) pat) (drop k str))"
    if "j \<le> length str" for j
  proof -
    have "like_spec (drop pi pat) (drop j str) \<longleftrightarrow> (\<exists>k \<le> length str - j. like_spec (drop (pi + 1) pat) (drop (k + j) str))"
      using assms(2,3) by (simp add: drop_pattern)
    also have "\<dots> \<longleftrightarrow> (\<exists>k \<ge> j. k \<le> length str \<and> like_spec (drop (pi + 1) pat) (drop k str))"
      using that by (metis add.commute le_add2 le_add_diff_inverse le_diff_conv ordered_cancel_comm_monoid_diff_class.le_diff_conv2)
    finally show ?thesis .
  qed
  have "like_spec (drop pi pat) (drop si str)" if later: "later_match str pat star"
  proof -
    obtain ssi spi where star: "star = Some (ssi, spi)" using later by (cases star) (auto simp: later_match_def)
    obtain k where "k > si" "k \<le> length str" "like_spec (drop pi pat) (drop k str)"
      using later_match_shift assms(1) later unfolding star by blast
    then show ?thesis using here [of k] here [OF si] by (meson le_trans less_imp_le)
  qed
  moreover have "like_spec (drop pi pat) (drop si str) \<longleftrightarrow>
      like_spec (drop (pi + 1) pat) (drop si str) \<or> later_match str pat (Some (si, pi))"
    unfolding here [OF si] later_match_def by (auto simp: le_less si) (use si le_less in blast)
  ultimately show "like_spec (drop (pi + 1) pat) (drop si str) \<or> later_match str pat (Some (si, pi)) \<longleftrightarrow>
      like_spec (drop pi pat) (drop si str) \<or> later_match str pat star" by blast
qed

lemma like_step:
  assumes "like_inv str pat si pi star" "si < length str" "pi < length pat" "pat ! pi \<noteq> CHR ''%''"
    "pat ! pi = str ! si \<or> pat ! pi = CHR ''_''"
  shows "like_inv str pat (si + 1) (pi + 1) star"
    and "like_spec (drop (pi + 1) pat) (drop (si + 1) str) \<longleftrightarrow> like_spec (drop pi pat) (drop si str)"
proof -
  have s: "drop si str = str ! si # drop (si + 1) str" using assms(2) by (rule drop_pattern)
  show "like_spec (drop (pi + 1) pat) (drop (si + 1) str) \<longleftrightarrow> like_spec (drop pi pat) (drop si str)"
    unfolding s using assms(3-5) by (simp add: drop_pattern)
  show "like_inv str pat (si + 1) (pi + 1) star"
  proof (cases star)
    case (Some q)
    obtain ssi spi where q: "star = Some (ssi, spi)" using Some by (cases q) auto
    have m: "pi + 1 - (spi + 1) = Suc (pi - (spi + 1))" "spi + 1 + (pi - (spi + 1)) = pi" "si + 1 - ssi = Suc (si - ssi)"
      using assms(1) by (auto simp: like_inv_def q)
    have "pi - (spi + 1) < length (drop (spi + 1) pat)" using m(2) assms(3) by simp
    then have "take (Suc (pi - (spi + 1))) (drop (spi + 1) pat) = take (pi - (spi + 1)) (drop (spi + 1) pat) @ [pat ! pi]"
      using m(2) assms(3) by (simp add: take_Suc_conv_app_nth)
    then show ?thesis using assms(1-4) m unfolding like_inv_def q by auto
  qed (use assms(1-3) in \<open>auto simp: like_inv_def\<close>)
qed

lemma like_stuck:
  assumes "si < length str" "\<not> (pi < length pat \<and> (pat ! pi = CHR ''%'' \<or> pat ! pi = str ! si \<or> pat ! pi = CHR ''_''))"
  shows "\<not> like_spec (drop pi pat) (drop si str)"
proof (cases "pi < length pat")
  case True
  have s: "drop si str = str ! si # drop (si + 1) str" using assms(1) by (rule drop_pattern)
  show ?thesis unfolding s using assms(2) True by (simp add: drop_pattern)
qed (use assms(1) in simp)

lemma like_back:
  assumes "like_inv str pat si pi (Some (ssi, spi))" "si < length str"
  shows "like_inv str pat (ssi + 1) (spi + 1) (Some (ssi + 1, spi))"
    and "like_spec (drop (spi + 1) pat) (drop (ssi + 1) str) \<or> later_match str pat (Some (ssi + 1, spi)) \<longleftrightarrow>
      later_match str pat (Some (ssi, spi))"
proof -
  show "like_inv str pat (ssi + 1) (spi + 1) (Some (ssi + 1, spi))" using assms by (auto simp: like_inv_def)
  have "ssi + 1 \<le> length str" using assms by (auto simp: like_inv_def)
  moreover have "(\<exists>k > ssi. P k) \<longleftrightarrow> P (ssi + 1) \<or> (\<exists>k > ssi + 1. P k)" for P
    by (metis Suc_eq_plus1 Suc_lessD Suc_lessI lessI)
  ultimately show "like_spec (drop (spi + 1) pat) (drop (ssi + 1) str) \<or> later_match str pat (Some (ssi + 1, spi)) \<longleftrightarrow>
      later_match str pat (Some (ssi, spi))"
    by (simp add: later_match_def)
qed

lemma like_end:
  assumes "like_inv str pat (length str) pi star"
  shows "\<not> later_match str pat star"
proof
  assume later: "later_match str pat star"
  then obtain ssi spi where star: "star = Some (ssi, spi)" by (cases star) (auto simp: later_match_def)
  show False using later_match_shift assms later unfolding star by fastforce
qed

lemma wf_like: "wf (inv_image (less_than <*lex*> less_than <*lex*> less_than) (like_measure str pat))"
  by (intro wf_inv_image wf_lex_prod wf_less_than)

lemma like_loop_correct:
  assumes "like_inv str pat si pi star"
  shows "like_loop str pat si pi star = Some (like_spec (drop pi pat) (drop si str) \<or> later_match str pat star)"
  using assms
proof (induction "(si, pi, star)" arbitrary: si pi star rule: wf_induct_rule [OF wf_like [of str pat]])
  case (1 si pi star)
  note IH = 1(1) and inv = 1(2)
  show ?case
  proof (cases "si < length str")
    case False
    then have "si = length str" using inv by (simp add: like_inv_def)
    then show ?thesis using like_end inv by (subst like_loop.simps) (auto simp: like_spec_empty)
  next
    case si: True
    consider (percent) "pi < length pat" "pat ! pi = CHR ''%''"
      | (step) "pi < length pat" "pat ! pi \<noteq> CHR ''%''" "pat ! pi = str ! si \<or> pat ! pi = CHR ''_''"
      | (stuck) "\<not> (pi < length pat \<and> (pat ! pi = CHR ''%'' \<or> pat ! pi = str ! si \<or> pat ! pi = CHR ''_''))" by blast
    then show ?thesis
    proof cases
      case percent
      have "((si, pi + 1, Some (si, pi)), (si, pi, star)) \<in> inv_image (less_than <*lex*> less_than <*lex*> less_than) (like_measure str pat)"
        using inv percent(1) by (auto simp: like_measure_def like_inv_def split: option.splits)
      then show ?thesis
        using IH like_percent [OF inv percent] si percent by (subst like_loop.simps) simp
    next
      case step
      have "((si + 1, pi + 1, star), (si, pi, star)) \<in> inv_image (less_than <*lex*> less_than <*lex*> less_than) (like_measure str pat)"
        using si by (auto simp: like_measure_def split: option.splits)
      then show ?thesis
        using IH like_step [OF inv si step] si step by (subst like_loop.simps) simp
    next
      case stuck
      show ?thesis
      proof (cases star)
        case None
        then show ?thesis
          using like_stuck [OF si stuck] stuck si by (subst like_loop.simps) (auto simp: later_match_def)
      next
        case (Some q)
        obtain ssi spi where q: "star = Some (ssi, spi)" using Some by (cases q) auto
        have "((ssi + 1, spi + 1, Some (ssi + 1, spi)), (si, pi, star))
            \<in> inv_image (less_than <*lex*> less_than <*lex*> less_than) (like_measure str pat)"
          using inv si by (auto simp: like_measure_def like_inv_def q)
        then show ?thesis
          using IH like_back [of str pat si pi ssi spi] inv like_stuck [OF si stuck] stuck si
          by (subst like_loop.simps) (auto simp: q)
      qed
    qed
  qed
qed

section \<open>Properties\<close>

text \<open>C11: LIKE matches what the pattern means.  The matcher, which only ever goes back to the last percent sign, ends
  on every string and pattern and answers whether the string matches.\<close>

theorem like_match_correct: "like_match str pat = Some (like_spec pat str)"
  using like_loop_correct [of str pat 0 0 None] by (simp add: like_match_def like_inv_def later_match_def)

end
