(* ===== verification/Expression.thy ===== *)
theory Expression
  imports Tuple Like "HOL-Library.Monad_Syntax"
begin

section \<open>Expressions\<close>

text \<open>
  Model of the expression trees of \<^verbatim>\<open>src/src/sql/parser/ast.h\<close> and of their evaluation on a row
  in \<^verbatim>\<open>src/src/sql/executor/expression_evaluator.cpp\<close>: comparisons with numeric and temporal
  operands reconciled, SQL's three-valued logic, LIKE, and the short cut for simple predicates.
  Null pointers are \<open>None\<close> inside a tree; \<open>None\<close> as a result is undefined behaviour, which
  \<open>value_mod\<close> and the text form of huge doubles can reach.  The statement of a subquery is not
  looked at by the evaluator and is left out of its node.
\<close>

datatype expr =
    Literal db_value
  | ColumnRef (ref_table: string) (ref_column: string)
  | BinaryOp string "expr option" "expr option"
  | UnaryOp string "expr option"
  | Star
  | Subquery
  | CaseWhen "(expr \<times> expr) list" "expr option"
  | CastTo "expr option" type_id

subsection \<open>Comparison\<close>

definition is_numeric_like :: "type_id \<Rightarrow> bool" where
  "is_numeric_like t = (t = KBool \<or> t = KInt32 \<or> t = KInt64 \<or> t = KFloat \<or> t = KDouble)"

definition is_datetime_type :: "type_id \<Rightarrow> bool" where
  "is_datetime_type t = (t = KTimestamp \<or> t = KDatetime)"

definition numeric_as_double :: "db_value \<Rightarrow> nat" where
  "numeric_as_double v =
     (case v of
        VBool b \<Rightarrow> (if b then fp_of_int 52 11 1 else 0)
      | VInt32 x \<Rightarrow> fp_of_int 52 11 (sint x)
      | VInt64 x \<Rightarrow> fp_of_int 52 11 (sint x)
      | VFloat x \<Rightarrow> fp_convert 23 8 52 11 (unat x)
      | VDouble x \<Rightarrow> unat x
      | _ \<Rightarrow> 0)"

fun get_datetime_micros :: "db_value \<Rightarrow> i64" where
  "get_datetime_micros (VTimestamp x) = x"
| "get_datetime_micros (VDatetime x) = x"
| "get_datetime_micros _ = 0"

text \<open>Both operands with the type of the temporal one, of the left one if both are.\<close>

definition reconcile :: "db_value \<Rightarrow> db_value \<Rightarrow> (db_value \<times> db_value) option" where
  "reconcile left right =
     (let lt = type_id_of left; rt = type_id_of right in
      if is_datetime_type lt \<and> \<not> is_datetime_type rt then map_option (Pair left) (cast_to right lt)
      else if \<not> is_datetime_type lt \<and> is_datetime_type rt then map_option (\<lambda>l. (l, right)) (cast_to left rt)
      else if lt \<noteq> rt then map_option (Pair left) (cast_to right lt)
      else Some (left, right))"

definition compare_micros :: "db_value \<Rightarrow> db_value \<Rightarrow> int" where
  "compare_micros l r = three_way (sint (get_datetime_micros l)) (sint (get_datetime_micros r))"

definition sql_compare_values :: "db_value \<Rightarrow> db_value \<Rightarrow> int option" where
  "sql_compare_values left right =
     (if is_numeric_like (type_id_of left) \<and> is_numeric_like (type_id_of right)
      then (let l = numeric_as_double left; r = numeric_as_double right in
        Some (if fp_less 52 11 l r then -1 else if fp_less 52 11 r l then 1 else 0))
      else if is_datetime_type (type_id_of left) \<or> is_datetime_type (type_id_of right)
      then (case reconcile left right of
          None \<Rightarrow> None
        | Some (l, r) \<Rightarrow>
            if is_null l \<or> is_null r then Some (value_compare left right) else Some (compare_micros l r))
      else Some (value_compare left right))"

definition compare_op :: "string \<Rightarrow> int \<Rightarrow> db_value" where
  "compare_op op cmp =
     (if op = ''='' then VBool (cmp = 0)
      else if op = ''<>'' \<or> op = ''!='' then VBool (cmp \<noteq> 0)
      else if op = ''<'' then VBool (cmp < 0)
      else if op = ''>'' then VBool (cmp > 0)
      else if op = ''<='' then VBool (cmp \<le> 0)
      else if op = ''>='' then VBool (cmp \<ge> 0)
      else VNull)"

definition compare_result :: "db_value \<Rightarrow> db_value \<Rightarrow> string \<Rightarrow> db_value option" where
  "compare_result left right op =
     (if is_datetime_type (type_id_of left) \<or> is_datetime_type (type_id_of right)
      then (case reconcile left right of
          None \<Rightarrow> None
        | Some (l, r) \<Rightarrow> if is_null l \<or> is_null r then Some VNull else Some (compare_op op (compare_micros l r)))
      else map_option (compare_op op) (sql_compare_values left right))"

definition is_comparison :: "string \<Rightarrow> bool" where
  "is_comparison op = (op \<in> {''='', ''<>'', ''!='', ''<'', ''>'', ''<='', ''>=''})"

text \<open>The truth of a predicate; \<open>None\<close> for a value that is neither NULL nor a BOOL.\<close>

definition predicate_truth :: "db_value \<Rightarrow> bool option" where
  "predicate_truth v = (case v of VNull \<Rightarrow> Some False | VBool b \<Rightarrow> Some b | _ \<Rightarrow> None)"

subsection \<open>Evaluation\<close>

definition and_value :: "db_value \<Rightarrow> db_value \<Rightarrow> db_value" where
  "and_value left right =
     (case (predicate_truth left, predicate_truth right) of
        (Some left_truth, Some right_truth) \<Rightarrow>
          if is_null left \<or> is_null right
          then if \<not> is_null left \<and> \<not> left_truth then VBool False
               else if \<not> is_null right \<and> \<not> right_truth then VBool False
               else VNull
          else VBool (left_truth \<and> right_truth)
      | _ \<Rightarrow> VNull)"

definition or_value :: "db_value \<Rightarrow> db_value \<Rightarrow> db_value" where
  "or_value left right =
     (case (predicate_truth left, predicate_truth right) of
        (Some left_truth, Some right_truth) \<Rightarrow>
          if is_null left \<or> is_null right
          then if \<not> is_null left \<and> left_truth then VBool True
               else if \<not> is_null right \<and> right_truth then VBool True
               else VNull
          else VBool (left_truth \<or> right_truth)
      | _ \<Rightarrow> VNull)"

definition binary_value :: "string \<Rightarrow> db_value \<Rightarrow> db_value \<Rightarrow> db_value option" where
  "binary_value op left right =
     (let null = is_null left \<or> is_null right in
      if is_comparison op then if null then Some VNull else compare_result left right op
      else if op = ''AND'' then Some (and_value left right)
      else if op = ''OR'' then Some (or_value left right)
      else if op = ''+'' then Some (if null then VNull else value_add left right)
      else if op = ''-'' then Some (if null then VNull else value_sub left right)
      else if op = ''*'' then Some (if null then VNull else value_mul left right)
      else if op = ''/'' then Some (if null then VNull else value_div left right)
      else if op = ''%'' then if null then Some VNull else value_mod left right
      else if op = ''IS_NULL'' then Some (VBool (is_null left))
      else if op = ''IS_NOT_NULL'' then Some (VBool (\<not> is_null left))
      else if op = ''LIKE''
      then if null then Some VNull else map_option VBool (like_match (get_string left) (get_string right))
      else if op = ''COALESCE'' then Some (if is_null left then right else left)
      else if op = ''NULLIF''
      then Some (if null then VNull else if value_eq left right then VNull else left)
      else Some VNull)"

definition negate_value :: "db_value \<Rightarrow> db_value" where
  "negate_value v =
     (case v of
        VInt32 x \<Rightarrow> if sint x = - (2 ^ 31) then VNull else VInt32 (- x)
      | VInt64 x \<Rightarrow> if sint x = - (2 ^ 63) then VNull else VInt64 (- x)
      | VFloat x \<Rightarrow> VFloat (of_nat (fp_minus 23 8 (unat x)))
      | VDouble x \<Rightarrow> VDouble (of_nat (fp_minus 52 11 (unat x)))
      | _ \<Rightarrow> VNull)"

definition not_value :: "db_value \<Rightarrow> db_value" where
  "not_value v =
     (if is_null v then VNull
      else case predicate_truth v of None \<Rightarrow> VNull | Some b \<Rightarrow> VBool (\<not> b))"

definition unary_value :: "string \<Rightarrow> db_value \<Rightarrow> db_value" where
  "unary_value op child =
     (if op = ''-'' then negate_value child
      else if op = ''NOT'' then not_value child
      else if op = ''IS_NULL'' then VBool (is_null child)
      else if op = ''IS_NOT_NULL'' then VBool (\<not> is_null child)
      else if op = ''LENGTH''
      then (case child of VVarchar s \<Rightarrow> VInt32 (of_nat (length s)) | _ \<Rightarrow> VNull)
      else VNull)"

definition column_position :: "schema \<Rightarrow> string \<Rightarrow> string \<Rightarrow> int" where
  "column_position sch table column =
     (if table \<noteq> [] then get_qualified_column_index sch table column else get_column_index sch column)"

definition column_value :: "schema \<Rightarrow> tuple \<Rightarrow> string \<Rightarrow> string \<Rightarrow> db_value" where
  "column_value sch t table column =
     (let idx = column_position sch table column in if idx < 0 then VNull else get_value t (nat idx))"

function (sequential) evaluate :: "schema \<Rightarrow> tuple \<Rightarrow> expr \<Rightarrow> db_value option"
  and evaluate_opt :: "schema \<Rightarrow> tuple \<Rightarrow> expr option \<Rightarrow> db_value option"
  and evaluate_when :: "schema \<Rightarrow> tuple \<Rightarrow> (expr \<times> expr) list \<Rightarrow> expr option \<Rightarrow> db_value option" where
  "evaluate sch t (Literal v) = Some v"
| "evaluate sch t (ColumnRef table column) = Some (column_value sch t table column)"
| "evaluate sch t (BinaryOp op None right) = Some VNull"
| "evaluate sch t (BinaryOp op (Some left) right) =
     do { l \<leftarrow> evaluate sch t left; r \<leftarrow> evaluate_opt sch t right; binary_value op l r }"
| "evaluate sch t (UnaryOp op None) = Some VNull"
| "evaluate sch t (UnaryOp op (Some child)) = map_option (unary_value op) (evaluate sch t child)"
| "evaluate sch t Star = Some VNull"
| "evaluate sch t Subquery = Some VNull"
| "evaluate sch t (CaseWhen whens else_expr) = evaluate_when sch t whens else_expr"
| "evaluate sch t (CastTo None target) = Some VNull"
| "evaluate sch t (CastTo (Some child) target) =
     do { v \<leftarrow> evaluate sch t child; if is_null v then Some VNull else cast_to v target }"
| "evaluate_opt sch t None = Some VNull"
| "evaluate_opt sch t (Some e) = evaluate sch t e"
| "evaluate_when sch t [] else_expr = evaluate_opt sch t else_expr"
| "evaluate_when sch t ((c, e) # whens) else_expr =
     do { cond \<leftarrow> evaluate sch t c;
          case predicate_truth cond of
            None \<Rightarrow> Some VNull
          | Some True \<Rightarrow> evaluate sch t e
          | Some False \<Rightarrow> evaluate_when sch t whens else_expr }"

  by pat_completeness auto
termination
  by (relation "measure (case_sum (\<lambda>(_, _, e). 2 * size e) (case_sum (\<lambda>(_, _, e). 2 * size_option size e)
      (\<lambda>(_, _, ws, e). 2 * (size_list (size_prod size size) ws + size_option size e) + 1)))") auto

subsection \<open>The short cut\<close>

text \<open>\<open>None\<close> is the answer false, after which the caller evaluates the tree; an inner \<open>None\<close> is
  undefined behaviour.\<close>

definition fast_compare :: "db_value \<Rightarrow> db_value \<Rightarrow> string \<Rightarrow> (string \<Rightarrow> string) \<Rightarrow> db_value option option" where
  "fast_compare col_val lit_val op turn =
     (if is_null col_val then Some (Some VNull)
      else if is_comparison op then Some (compare_result col_val lit_val (turn op))
      else None)"

definition mirrored :: "string \<Rightarrow> string" where
  "mirrored op =
     (if op = ''<'' then ''>'' else if op = ''>'' then ''<'' else if op = ''<='' then ''>=''
      else if op = ''>='' then ''<='' else op)"

definition fast_evaluate :: "schema \<Rightarrow> tuple \<Rightarrow> expr \<Rightarrow> db_value option option" where
  "fast_evaluate sch t e =
     (case e of
        BinaryOp op (Some (ColumnRef table column)) (Some (Literal lit_val)) \<Rightarrow>
          (let idx = column_position sch table column in
           if op \<noteq> [] \<and> idx \<ge> 0 then fast_compare (get_value t (nat idx)) lit_val op id else None)
      | BinaryOp op (Some (Literal lit_val)) (Some (ColumnRef table column)) \<Rightarrow>
          (let idx = column_position sch table column in
           if op \<noteq> [] \<and> idx \<ge> 0 then fast_compare (get_value t (nat idx)) lit_val op mirrored else None)
      | UnaryOp op (Some (ColumnRef table column)) \<Rightarrow>
          (let idx = column_position sch table column in
           if (op = ''IS_NULL'' \<or> op = ''IS_NOT_NULL'') \<and> idx \<ge> 0
           then (let col_val = get_value t (nat idx) in
             Some (Some (VBool (if op = ''IS_NULL'' then is_null col_val else \<not> is_null col_val))))
           else None)
      | _ \<Rightarrow> None)"

section \<open>Laws\<close>

lemma reconcile_sym:
  assumes "\<not> is_datetime_type (type_id_of right)" "is_datetime_type (type_id_of left)"
  shows "reconcile right left = map_option (\<lambda>(l, r). (r, l)) (reconcile left right)"
  using assms by (cases left; cases right) (auto simp: reconcile_def is_datetime_type_def Let_def option.map_comp comp_def)

lemma compare_micros_flip: "compare_micros r l = - compare_micros l r"
  by (auto simp: compare_micros_def three_way_def)

lemma compare_op_flip:
  "is_comparison op \<Longrightarrow> sgn d = - sgn c \<Longrightarrow> compare_op (mirrored op) c = compare_op op d"
  by (auto simp: is_comparison_def compare_op_def mirrored_def sgn_if split: if_splits)

lemma sql_compare_flip:
  assumes "\<not> is_datetime_type (type_id_of left)" "\<not> is_datetime_type (type_id_of right)"
  shows "\<exists>c d. sql_compare_values left right = Some c \<and> sql_compare_values right left = Some d \<and> sgn d = - sgn c"
  using assms value_order.cmp_antisym [of right left]
  by (auto simp: sql_compare_values_def Let_def fp_less_def)

lemma compare_result_mirrored:
  assumes "is_comparison op" "\<not> is_datetime_type (type_id_of right)"
  shows "compare_result left right (mirrored op) = compare_result right left op"
proof (cases "is_datetime_type (type_id_of left)")
  case True
  show ?thesis
  proof (cases "reconcile left right")
    case (Some p)
    obtain l r where p: "p = (l, r)" by (cases p)
    have "sgn (compare_micros r l) = - sgn (compare_micros l r)" by (simp add: compare_micros_flip [of r l] sgn_minus)
    then show ?thesis
      using Some True assms compare_op_flip [OF assms(1)] unfolding p
      by (auto simp: compare_result_def reconcile_sym [OF assms(2) True])
  qed (use True assms in \<open>auto simp: compare_result_def reconcile_sym\<close>)
next
  case False
  obtain c d where "sql_compare_values left right = Some c" "sql_compare_values right left = Some d" "sgn d = - sgn c"
    using sql_compare_flip [OF False assms(2)] by blast
  then show ?thesis using False assms compare_op_flip [OF assms(1)] by (simp add: compare_result_def)
qed

text \<open>A literal the parser can make and that is not NULL.\<close>

definition plain_literal :: "db_value \<Rightarrow> bool" where
  "plain_literal v \<longleftrightarrow> \<not> is_null v \<and> \<not> is_datetime_type (type_id_of v)"

definition plain_comparison :: "expr \<Rightarrow> bool" where
  "plain_comparison e =
     (case e of
        BinaryOp op (Some (Literal v)) _ \<Rightarrow> is_comparison op \<and> plain_literal v
      | BinaryOp op _ (Some (Literal v)) \<Rightarrow> is_comparison op \<and> plain_literal v
      | _ \<Rightarrow> True)"

lemma fast_compare_agrees:
  assumes "is_comparison op" "plain_literal v" "fast_compare c v op turn = Some r"
  shows "turn = id \<Longrightarrow> binary_value op c v = r" "turn = mirrored \<Longrightarrow> binary_value op v c = r"
proof -
  have "\<not> is_datetime_type (type_id_of v)" "\<not> is_null v" using assms(2) by (simp_all add: plain_literal_def)
  note M = compare_result_mirrored [OF assms(1) this(1), of c] and N = this(2)
  show "turn = id \<Longrightarrow> binary_value op c v = r" "turn = mirrored \<Longrightarrow> binary_value op v c = r"
    using assms(1,3) M N by (auto simp: fast_compare_def binary_value_def Let_def split: if_splits)
qed

lemma column_value_found:
  "column_position sch tb c \<ge> 0 \<Longrightarrow> get_value t (nat (column_position sch tb c)) = column_value sch t tb c"
  by (simp add: column_value_def)

lemma fast_evaluateD:
  assumes "fast_evaluate sch t e = Some r"
  shows "(\<exists>op tb c v. e = BinaryOp op (Some (ColumnRef tb c)) (Some (Literal v)) \<and>
      fast_compare (column_value sch t tb c) v op id = Some r) \<or>
    (\<exists>op tb c v. e = BinaryOp op (Some (Literal v)) (Some (ColumnRef tb c)) \<and>
      fast_compare (column_value sch t tb c) v op mirrored = Some r) \<or>
    (\<exists>op tb c. e = UnaryOp op (Some (ColumnRef tb c)) \<and> evaluate sch t e = r)"
proof (cases e)
  case (UnaryOp op child)
  then show ?thesis
    using assms
    by (auto simp: fast_evaluate_def column_value_def unary_value_def Let_def split: option.splits expr.splits if_splits)
qed (use assms in \<open>auto simp: fast_evaluate_def column_value_found Let_def split: option.splits expr.splits if_splits\<close>)

definition id_schema :: schema where
  "id_schema = [default_column\<lparr>col_name := ''id'', col_type := 1\<rparr>]"

definition id_row :: "db_value \<Rightarrow> tuple" where
  "id_row v = empty_tuple\<lparr>t_values := [v]\<rparr>"

lemma id_column: "column_position id_schema [] ''id'' = 0" "column_value id_schema (id_row v) [] ''id'' = v"
  by (simp_all add: column_position_def column_value_def get_column_index_def id_schema_def id_row_def get_value_def
      default_column_def Let_def)

section \<open>Properties\<close>

text \<open>C12: the short cut agrees with the evaluator.  Where it is taken for a comparison of a column with a literal that is
  neither NULL nor temporal, on either side, or for a NULL test of a column, its answer is that of the evaluator.\<close>

theorem fast_evaluate_agrees:
  assumes "fast_evaluate sch t e = Some r" "plain_comparison e"
  shows "evaluate sch t e = r"
proof -
  consider (left) op tb c v where "e = BinaryOp op (Some (ColumnRef tb c)) (Some (Literal v))"
      "fast_compare (column_value sch t tb c) v op id = Some r"
    | (right) op tb c v where "e = BinaryOp op (Some (Literal v)) (Some (ColumnRef tb c))"
      "fast_compare (column_value sch t tb c) v op mirrored = Some r"
    | (test) "evaluate sch t e = r"
    using fast_evaluateD [OF assms(1)] by blast
  then show ?thesis
  proof cases
    case left
    then show ?thesis using fast_compare_agrees(1) [OF _ _ left(2)] assms(2) by (simp add: plain_comparison_def)
  next
    case right
    then show ?thesis using fast_compare_agrees(2) [OF _ _ right(2)] assms(2) by (simp add: plain_comparison_def)
  qed
qed

theorem fast_evaluate_agrees_witness:
  "evaluate id_schema (id_row (VInt32 7)) (BinaryOp ''='' (Some (Literal (VInt32 7))) (Some (ColumnRef [] ''id''))) = Some (VBool True)"
proof (rule fast_evaluate_agrees)
  show "fast_evaluate id_schema (id_row (VInt32 7)) (BinaryOp ''='' (Some (Literal (VInt32 7))) (Some (ColumnRef [] ''id''))) =
      Some (Some (VBool True))"
    using column_value_found [of id_schema "[]" "''id''" "id_row (VInt32 7)"]
    by (simp add: fast_evaluate_def id_column fast_compare_def is_comparison_def mirrored_def compare_result_def
        compare_op_def sql_compare_values_def is_numeric_like_def is_datetime_type_def is_null_def fp_less_def Let_def)
qed (simp add: plain_comparison_def plain_literal_def is_comparison_def is_null_def is_datetime_type_def)

text \<open>COALESCE in the short cut.  For a column that is NULL the short cut answers NULL whatever the operator is, also
  for COALESCE of the column and a literal, which the evaluator answers with the literal.\<close>

lemma fast_coalesce_null:
  assumes "column_position sch tb c \<ge> 0" "column_value sch t tb c = VNull"
  shows "fast_evaluate sch t (BinaryOp ''COALESCE'' (Some (ColumnRef tb c)) (Some (Literal v))) = Some (Some VNull) \<and>
    evaluate sch t (BinaryOp ''COALESCE'' (Some (ColumnRef tb c)) (Some (Literal v))) = Some v"
  using assms by (simp add: fast_evaluate_def fast_compare_def column_value_def binary_value_def is_comparison_def is_null_def Let_def)

end
