(* ===== verification/Compiled_Predicate.thy ===== *)
theory Compiled_Predicate
  imports Expression
begin

section \<open>Compiled predicates\<close>

text \<open>
  Model of \<^verbatim>\<open>src/src/sql/executor/compiled_predicate.{h,cpp}\<close>: a predicate as a list of nodes in
  which operands stand before their operators, run over a row with one cell per node.  A node's
  index is \<open>None\<close> where the source has \<^verbatim>\<open>-1\<close>.  Running gives an error message or the answer; \<open>None\<close>
  is undefined behaviour, a cell outside the stack included.
\<close>

datatype node =
    NLiteral db_value
  | NColumn nat
  | NCompare u8 nat nat
  | NAnd nat nat
  | NOr nat nat
  | NNot nat
  | NIsNull nat
  | NIsNotNull nat

definition compare_code :: "string \<Rightarrow> u8 option" where
  "compare_code op =
     (if op = ''='' then Some 0
      else if op = ''<>'' \<or> op = ''!='' then Some 1
      else if op = ''<'' then Some 2
      else if op = ''>'' then Some 3
      else if op = ''<='' then Some 4
      else if op = ''>='' then Some 5
      else None)"

definition unary_node :: "string \<Rightarrow> nat \<Rightarrow> node option" where
  "unary_node op child =
     (if op = ''NOT'' then Some (NNot child)
      else if op = ''IS_NULL'' then Some (NIsNull child)
      else if op = ''IS_NOT_NULL'' then Some (NIsNotNull child)
      else None)"

definition binary_node :: "string \<Rightarrow> nat \<Rightarrow> nat \<Rightarrow> node option" where
  "binary_node op left right =
     (if op = ''AND'' then Some (NAnd left right)
      else if op = ''OR'' then Some (NOr left right)
      else map_option (\<lambda>c. NCompare c left right) (compare_code op))"

definition push_node :: "node list \<Rightarrow> node option \<Rightarrow> nat option \<times> node list" where
  "push_node nodes n = (case n of None \<Rightarrow> (None, nodes) | Some n \<Rightarrow> (Some (length nodes), nodes @ [n]))"

fun compile_node :: "schema \<Rightarrow> expr option \<Rightarrow> node list \<Rightarrow> nat option \<times> node list" where
  "compile_node sch None nodes = (None, nodes)"
| "compile_node sch (Some (Literal v)) nodes = push_node nodes (Some (NLiteral v))"
| "compile_node sch (Some (ColumnRef table column)) nodes =
     (let idx = column_position sch table column in
      if idx < 0 then (None, nodes) else push_node nodes (Some (NColumn (nat idx))))"
| "compile_node sch (Some (UnaryOp op child)) nodes =
     (case compile_node sch child nodes of
        (None, nodes1) \<Rightarrow> (None, nodes1)
      | (Some c, nodes1) \<Rightarrow> push_node nodes1 (unary_node op c))"
| "compile_node sch (Some (BinaryOp op left right)) nodes =
     (case compile_node sch left nodes of (l, nodes1) \<Rightarrow>
      (case compile_node sch right nodes1 of (r, nodes2) \<Rightarrow>
       (case (l, r) of
          (Some l, Some r) \<Rightarrow> push_node nodes2 (binary_node op l r)
        | _ \<Rightarrow> (None, nodes2))))"
| "compile_node sch (Some _) nodes = (None, nodes)"

definition compile_predicate :: "schema \<Rightarrow> expr option \<Rightarrow> (nat \<times> node list) option" where
  "compile_predicate sch e =
     (case compile_node sch e [] of (None, _) \<Rightarrow> None | (Some root, nodes) \<Rightarrow> Some (root, nodes))"

definition compare_truth :: "u8 \<Rightarrow> int \<Rightarrow> bool" where
  "compare_truth code cmp =
     (if code = 0 then cmp = 0 else if code = 1 then cmp \<noteq> 0 else if code = 2 then cmp < 0
      else if code = 3 then cmp > 0 else if code = 4 then cmp \<le> 0 else if code = 5 then cmp \<ge> 0 else False)"

definition cell :: "db_value list \<Rightarrow> nat \<Rightarrow> db_value option" where
  "cell s i = (if i < length s then Some (s ! i) else None)"

definition not_bool :: string where
  "not_bool = ''predicate expression must be BOOL''"

definition node_value :: "tuple \<Rightarrow> db_value list \<Rightarrow> node \<Rightarrow> (string + db_value) option" where
  "node_value t s n =
     (case n of
        NLiteral v \<Rightarrow> Some (Inr v)
      | NColumn i \<Rightarrow> Some (Inr (get_value t i))
      | NCompare code left right \<Rightarrow>
          do { l \<leftarrow> cell s left; r \<leftarrow> cell s right;
               if is_null l \<or> is_null r then Some (Inr VNull)
               else map_option (\<lambda>cmp. Inr (VBool (compare_truth code cmp))) (sql_compare_values l r) }
      | NAnd left right \<Rightarrow>
          do { l \<leftarrow> cell s left; r \<leftarrow> cell s right;
               Some (case (predicate_truth l, predicate_truth r) of
                 (Some lb, Some rb) \<Rightarrow>
                   Inr (if \<not> is_null l \<and> \<not> lb \<or> \<not> is_null r \<and> \<not> rb then VBool False
                        else if is_null l \<or> is_null r then VNull
                        else VBool (lb \<and> rb))
               | _ \<Rightarrow> Inl not_bool) }
      | NOr left right \<Rightarrow>
          do { l \<leftarrow> cell s left; r \<leftarrow> cell s right;
               Some (case (predicate_truth l, predicate_truth r) of
                 (Some lb, Some rb) \<Rightarrow>
                   Inr (if \<not> is_null l \<and> lb \<or> \<not> is_null r \<and> rb then VBool True
                        else if is_null l \<or> is_null r then VNull
                        else VBool (lb \<or> rb))
               | _ \<Rightarrow> Inl not_bool) }
      | NNot child \<Rightarrow>
          do { c \<leftarrow> cell s child;
               Some (case predicate_truth c of
                 Some cb \<Rightarrow> Inr (if is_null c then VNull else VBool (\<not> cb))
               | None \<Rightarrow> Inl not_bool) }
      | NIsNull child \<Rightarrow> map_option (\<lambda>c. Inr (VBool (is_null c))) (cell s child)
      | NIsNotNull child \<Rightarrow> map_option (\<lambda>c. Inr (VBool (\<not> is_null c))) (cell s child))"

fun run_nodes :: "tuple \<Rightarrow> node list \<Rightarrow> nat \<Rightarrow> db_value list \<Rightarrow> (string + db_value list) option" where
  "run_nodes t [] i s = Some (Inr s)"
| "run_nodes t (n # ns) i s =
     (case node_value t s n of
        None \<Rightarrow> None
      | Some (Inl err) \<Rightarrow> Some (Inl err)
      | Some (Inr v) \<Rightarrow> run_nodes t ns (i + 1) (s[i := v]))"

text \<open>The cells are kept from one row to the next; the answer does not depend on what they hold.\<close>

definition passes :: "nat \<times> node list \<Rightarrow> db_value list \<Rightarrow> tuple \<Rightarrow> (string + bool) option" where
  "passes prog stack t =
     (case prog of (root, nodes) \<Rightarrow>
      (case run_nodes t nodes 0 stack of
         None \<Rightarrow> None
       | Some (Inl err) \<Rightarrow> Some (Inl err)
       | Some (Inr s) \<Rightarrow>
           map_option (\<lambda>v. case predicate_truth v of Some b \<Rightarrow> Inr b | None \<Rightarrow> Inl not_bool) (cell s root)))"

section \<open>Laws\<close>

text \<open>Operands on which the two evaluators mean the same: truth values under the connectives, and comparisons in which
  a temporal operand can be reconciled with the other one.\<close>

definition times_comparable :: "string \<Rightarrow> db_value \<Rightarrow> db_value \<Rightarrow> bool" where
  "times_comparable op a b \<longleftrightarrow>
     (is_comparison op \<longrightarrow> \<not> is_null a \<longrightarrow> \<not> is_null b \<longrightarrow>
        is_datetime_type (type_id_of a) \<or> is_datetime_type (type_id_of b) \<longrightarrow>
        (case reconcile a b of Some (l, r) \<Rightarrow> \<not> is_null l \<and> \<not> is_null r | None \<Rightarrow> False))"

definition operands_ok :: "string \<Rightarrow> db_value \<Rightarrow> db_value \<Rightarrow> bool" where
  "operands_ok op a b \<longleftrightarrow>
     (op \<in> {''AND'', ''OR''} \<longrightarrow> predicate_truth a \<noteq> None \<and> predicate_truth b \<noteq> None) \<and> times_comparable op a b"

fun comparable :: "schema \<Rightarrow> tuple \<Rightarrow> expr \<Rightarrow> bool" where
  "comparable sch t (BinaryOp op (Some l) (Some r)) =
     (comparable sch t l \<and> comparable sch t r \<and>
      (case (evaluate sch t l, evaluate sch t r) of (Some a, Some b) \<Rightarrow> operands_ok op a b | _ \<Rightarrow> False))"
| "comparable sch t (UnaryOp op (Some c)) =
     (comparable sch t c \<and>
      (case evaluate sch t c of Some a \<Rightarrow> op = ''NOT'' \<longrightarrow> predicate_truth a \<noteq> None | None \<Rightarrow> False))"
| "comparable sch t e = True"

lemma run_nodes_append:
  "run_nodes t (ns @ ms) i s =
     (case run_nodes t ns i s of
        None \<Rightarrow> None | Some (Inl err) \<Rightarrow> Some (Inl err) | Some (Inr s') \<Rightarrow> run_nodes t ms (i + length ns) s')"
  by (induction ns arbitrary: i s) (auto split: option.splits sum.splits)

lemma compare_code_op: "compare_code op = Some c \<Longrightarrow> compare_op op cmp = VBool (compare_truth c cmp) \<and> is_comparison op"
  by (auto simp: compare_code_def compare_op_def compare_truth_def is_comparison_def split: if_splits)

lemma compare_result_sql:
  assumes "\<not> is_null a" "\<not> is_null b" "operands_ok op a b" "is_comparison op"
  shows "compare_result a b op = map_option (compare_op op) (sql_compare_values a b)"
proof (cases "is_datetime_type (type_id_of a) \<or> is_datetime_type (type_id_of b)")
  case True
  then have "\<not> (is_numeric_like (type_id_of a) \<and> is_numeric_like (type_id_of b))"
    by (auto simp: is_numeric_like_def is_datetime_type_def)
  then show ?thesis
    using assms True by (auto simp: compare_result_def sql_compare_values_def operands_ok_def times_comparable_def split: option.splits)
qed (simp add: compare_result_def)

lemma binary_node_value:
  assumes "binary_node op l r = Some n" "cell s l = Some a" "cell s r = Some b" "operands_ok op a b"
  shows "node_value t s n = map_option Inr (binary_value op a b)"
proof (cases "op \<in> {''AND'', ''OR''}")
  case True
  then obtain p q where pq: "predicate_truth a = Some p" "predicate_truth b = Some q"
    using assms(4) by (auto simp: operands_ok_def)
  have null: "(is_null a \<longrightarrow> \<not> p) \<and> (is_null b \<longrightarrow> \<not> q)"
    using pq by (auto simp: predicate_truth_def is_null_def split: db_value.splits)
  show ?thesis
  proof (cases "op = ''AND''")
    case True
    then have "n = NAnd l r" using assms(1) by (simp add: binary_node_def)
    then show ?thesis
      using True null by (simp add: node_value_def binary_value_def and_value_def is_comparison_def assms(2,3) pq)
  next
    case False
    then have "op = ''OR''" "n = NOr l r" using assms(1) \<open>op \<in> _\<close> by (auto simp: binary_node_def)
    then show ?thesis
      using null by (simp add: node_value_def binary_value_def or_value_def is_comparison_def assms(2,3) pq)
  qed
next
  case False
  then have "op \<noteq> ''AND''" "op \<noteq> ''OR''" by simp_all
  then obtain c where c: "compare_code op = Some c" "n = NCompare c l r"
    using assms(1) unfolding binary_node_def by (simp only: if_False) blast
  have op: "compare_op op = (\<lambda>cmp. VBool (compare_truth c cmp))" "is_comparison op"
    using compare_code_op [OF c(1)] by (simp_all add: fun_eq_iff)
  have "compare_result a b op = map_option (\<lambda>cmp. VBool (compare_truth c cmp)) (sql_compare_values a b)"
    if "\<not> is_null a" "\<not> is_null b"
    using compare_result_sql [OF that assms(4) op(2)] by (simp only: op(1))
  then show ?thesis
    unfolding c(2) by (simp add: node_value_def binary_value_def assms(2,3) op(2) option.map_comp comp_def)
qed

lemma unary_node_value:
  assumes "unary_node op l = Some n" "cell s l = Some a" "op = ''NOT'' \<longrightarrow> predicate_truth a \<noteq> None"
  shows "node_value t s n = Some (Inr (unary_value op a))"
  using assms by (auto simp: unary_node_def node_value_def unary_value_def not_value_def split: if_splits)

text \<open>What the nodes of an expression do: they are appended, the last one is its root, and running them leaves the
  cells before them alone and the value of the expression in the cell of the root.\<close>

definition computes :: "tuple \<Rightarrow> node list \<Rightarrow> node list \<Rightarrow> nat \<Rightarrow> db_value \<Rightarrow> bool" where
  "computes t nodes ns i v \<longleftrightarrow> ns \<noteq> [] \<and> i + 1 = length nodes + length ns \<and>
     (\<forall>s. length nodes + length ns \<le> length s \<longrightarrow>
       (\<exists>s'. run_nodes t ns (length nodes) s = Some (Inr s') \<and> length s' = length s \<and>
          take (length nodes) s' = take (length nodes) s \<and> s' ! i = v))"

lemma computesD:
  assumes "computes t nodes ns i v" "length nodes + length ns \<le> length s"
  obtains s' where "run_nodes t ns (length nodes) s = Some (Inr s')" "length s' = length s"
    "take (length nodes) s' = take (length nodes) s" "s' ! i = v"
  using assms unfolding computes_def by blast

lemma push_computes:
  assumes "ns = [] \<or> (\<exists>i v. computes t nodes ns i v)"
    and "\<And>s s'. length nodes + length ns < length s \<Longrightarrow> run_nodes t ns (length nodes) s = Some (Inr s') \<Longrightarrow>
      length s' = length s \<Longrightarrow> take (length nodes) s' = take (length nodes) s \<Longrightarrow> node_value t s' n = Some (Inr w)"
  shows "computes t nodes (ns @ [n]) (length (nodes @ ns)) w"
  unfolding computes_def
proof (intro conjI allI impI)
  fix s :: "db_value list"
  assume len: "length nodes + length (ns @ [n]) \<le> length s"
  obtain s' where s': "run_nodes t ns (length nodes) s = Some (Inr s')" "length s' = length s"
      "take (length nodes) s' = take (length nodes) s"
  proof (cases "ns = []")
    case False
    then obtain i v where "computes t nodes ns i v" using assms(1) by blast
    then show ?thesis using that len by (elim computesD [of _ _ _ _ _ s]) auto
  qed (use that in simp)
  have "node_value t s' n = Some (Inr w)" using assms(2) [OF _ s'] len by simp
  then show "\<exists>s'. run_nodes t (ns @ [n]) (length nodes) s = Some (Inr s') \<and> length s' = length s \<and>
      take (length nodes) s' = take (length nodes) s \<and> s' ! length (nodes @ ns) = w"
    using s' len by (simp add: run_nodes_append)
qed simp_all

lemma computes_append:
  assumes "computes t nodes ns i a" "computes t (nodes @ ns) ms j b"
  shows "computes t nodes (ns @ ms) j b"
    and "length nodes + length (ns @ ms) \<le> length s \<Longrightarrow> run_nodes t (ns @ ms) (length nodes) s = Some (Inr s') \<Longrightarrow> s' ! i = a"
proof -
  have run: "\<exists>s1 s2. run_nodes t (ns @ ms) (length nodes) s = Some (Inr s2) \<and> length s2 = length s \<and>
      take (length nodes) s2 = take (length nodes) s \<and> s2 ! i = a \<and> s2 ! j = b"
    if len: "length nodes + length (ns @ ms) \<le> length s" for s
  proof -
    obtain s1 where s1: "run_nodes t ns (length nodes) s = Some (Inr s1)" "length s1 = length s"
        "take (length nodes) s1 = take (length nodes) s" "s1 ! i = a"
      using computesD [OF assms(1), of s] len by auto
    obtain s2 where s2: "run_nodes t ms (length (nodes @ ns)) s1 = Some (Inr s2)" "length s2 = length s1"
        "take (length (nodes @ ns)) s2 = take (length (nodes @ ns)) s1" "s2 ! j = b"
      using computesD [OF assms(2), of s1] len s1(2) by auto
    have "take (length nodes) s2 = take (length nodes) s1"
      using arg_cong [OF s2(3), of "take (length nodes)"] by (simp add: min_def)
    moreover have "i < length (nodes @ ns)" using assms(1) by (auto simp: computes_def)
    then have "s2 ! i = s1 ! i" using arg_cong [OF s2(3), of "\<lambda>xs. xs ! i"] by simp
    ultimately show ?thesis using s1 s2 by (simp add: run_nodes_append)
  qed
  show "computes t nodes (ns @ ms) j b"
    using assms run unfolding computes_def by fastforce
  show "length nodes + length (ns @ ms) \<le> length s \<Longrightarrow> run_nodes t (ns @ ms) (length nodes) s = Some (Inr s') \<Longrightarrow> s' ! i = a"
    using run [of s] by auto
qed

lemma push_nodeD:
  "push_node nodes n = (Some i, nodes') \<Longrightarrow> \<exists>m. n = Some m \<and> i = length nodes \<and> nodes' = nodes @ [m]"
  by (auto simp: push_node_def split: option.splits)

lemma cell_before: "computes t nodes ns i v \<Longrightarrow> length nodes + length ns < length s \<Longrightarrow> cell s i = Some (s ! i)"
  by (auto simp: computes_def cell_def)

lemma compile_binary:
  assumes "computes t nodes ns l a" "computes t (nodes @ ns) ms r b" "binary_node op l r = Some n" "operands_ok op a b"
    "binary_value op a b = Some v"
  shows "computes t nodes ((ns @ ms) @ [n]) (length (nodes @ ns @ ms)) v"
proof (rule push_computes)
  note both = computes_append [OF assms(1,2)]
  show "ns @ ms = [] \<or> (\<exists>i v. computes t nodes (ns @ ms) i v)" using both(1) by blast
  fix s s' :: "db_value list"
  assume s: "length nodes + length (ns @ ms) < length s" "run_nodes t (ns @ ms) (length nodes) s = Some (Inr s')"
    "length s' = length s"
  have "s' ! r = b" using computesD [OF both(1), of s] s by (metis Inr_inject less_imp_le option.inject)
  moreover have "s' ! l = a" using both(2) [of s s'] s by simp
  moreover have "l < length s'" "r < length s'" using assms(1,2) s by (auto simp: computes_def)
  ultimately show "node_value t s' n = Some (Inr v)"
    using binary_node_value [OF assms(3) _ _ assms(4), of s' t] assms(5) by (simp add: cell_def)
qed

lemma compile_unary:
  assumes "computes t nodes ns l a" "unary_node op l = Some n" "op = ''NOT'' \<longrightarrow> predicate_truth a \<noteq> None"
  shows "computes t nodes (ns @ [n]) (length (nodes @ ns)) (unary_value op a)"
proof (rule push_computes)
  show "ns = [] \<or> (\<exists>i v. computes t nodes ns i v)" using assms(1) by blast
  fix s s' :: "db_value list"
  assume s: "length nodes + length ns < length s" "run_nodes t ns (length nodes) s = Some (Inr s')" "length s' = length s"
  have "s' ! l = a" using computesD [OF assms(1), of s] s by (metis Inr_inject less_imp_le option.inject)
  moreover have "l < length s'" using assms(1) s by (auto simp: computes_def)
  ultimately show "node_value t s' n = Some (Inr (unary_value op a))"
    using unary_node_value [OF assms(2) _ assms(3), of s' t] by (simp add: cell_def)
qed

lemma compile_node_computes:
  assumes "compile_node sch eo nodes = (Some i, nodes')" "eo = Some e" "comparable sch t e" "evaluate sch t e = Some v"
  shows "\<exists>ns. nodes' = nodes @ ns \<and> computes t nodes ns i v"
  using assms
proof (induction sch eo nodes arbitrary: i nodes' e v rule: compile_node.induct)
  case (2 sch w nodes)
  then show ?case using push_computes [of "[]" t nodes "NLiteral w" w] push_nodeD [of nodes]
    by (fastforce simp: node_value_def)
next
  case (3 sch table column nodes)
  then show ?case
    using push_computes [of "[]" t nodes "NColumn (nat (column_position sch table column))" v] push_nodeD [of nodes]
    by (fastforce simp: node_value_def column_value_def Let_def split: if_splits)
next
  case (4 sch op child nodes)
  obtain c nodes1 where c: "compile_node sch child nodes = (Some c, nodes1)" "push_node nodes1 (unary_node op c) = (Some i, nodes')"
    using 4(2) by (auto split: prod.splits option.splits)
  then obtain e1 where e1: "child = Some e1" by (cases child) auto
  then obtain a where a: "evaluate sch t e1 = Some a" "v = unary_value op a" using 4(3-5) by auto
  have cmp: "comparable sch t e1" "op = ''NOT'' \<longrightarrow> predicate_truth a \<noteq> None" using 4(3,4) e1 a(1) by auto
  obtain ns where ns: "nodes1 = nodes @ ns" "computes t nodes ns c a" using 4(1) [OF c(1) e1 cmp(1) a(1)] by blast
  obtain n where n: "unary_node op c = Some n" "i = length nodes1" "nodes' = nodes1 @ [n]" using push_nodeD [OF c(2)] by blast
  show ?case using compile_unary [OF ns(2) n(1) cmp(2)] n ns a(2) by auto
next
  case (5 sch op left right nodes)
  obtain l r nodes1 nodes2 where lr: "compile_node sch left nodes = (Some l, nodes1)"
      "compile_node sch right nodes1 = (Some r, nodes2)" "push_node nodes2 (binary_node op l r) = (Some i, nodes')"
    using 5(3) by (auto split: prod.splits option.splits)
  then obtain e1 e2 where e: "left = Some e1" "right = Some e2" by (cases left; cases right) auto
  then obtain a b where ab: "evaluate sch t e1 = Some a" "evaluate sch t e2 = Some b" "binary_value op a b = Some v"
    using 5(4-6) by (auto split: Option.bind_splits)
  have cmp: "comparable sch t e1" "comparable sch t e2" "operands_ok op a b" using 5(4,5) e ab by auto
  obtain ns where ns: "nodes1 = nodes @ ns" "computes t nodes ns l a" using 5(1) [OF lr(1) e(1) cmp(1) ab(1)] by blast
  obtain ms where ms: "nodes2 = nodes1 @ ms" "computes t nodes1 ms r b"
    using 5(2) [OF lr(1) [symmetric] lr(2) e(2) cmp(2) ab(2)] by blast
  obtain n where n: "binary_node op l r = Some n" "i = length nodes2" "nodes' = nodes2 @ [n]" using push_nodeD [OF lr(3)] by blast
  show ?case using compile_binary [OF ns(2) ms(2) [unfolded ns(1)] n(1) cmp(3) ab(3)] n ns ms by auto
qed auto

text \<open>Every cell is written before it is read, so the answer does not depend on what the cells held.\<close>

primrec node_operands :: "node \<Rightarrow> nat list" where
  "node_operands (NLiteral v) = []"
| "node_operands (NColumn i) = []"
| "node_operands (NCompare c l r) = [l, r]"
| "node_operands (NAnd l r) = [l, r]"
| "node_operands (NOr l r) = [l, r]"
| "node_operands (NNot c) = [c]"
| "node_operands (NIsNull c) = [c]"
| "node_operands (NIsNotNull c) = [c]"

definition well_ordered :: "node list \<Rightarrow> bool" where
  "well_ordered nodes \<longleftrightarrow> (\<forall>i < length nodes. \<forall>j \<in> set (node_operands (nodes ! i)). j < i)"

lemma well_ordered_snoc:
  "well_ordered nodes \<Longrightarrow> \<forall>j \<in> set (node_operands n). j < length nodes \<Longrightarrow> well_ordered (nodes @ [n])"
  by (auto simp: well_ordered_def nth_append less_Suc_eq)

lemma push_well_ordered:
  assumes "push_node nodes n = (i, nodes')" "well_ordered nodes" "\<And>m j. n = Some m \<Longrightarrow> j \<in> set (node_operands m) \<Longrightarrow> j < length nodes"
  shows "well_ordered nodes' \<and> length nodes \<le> length nodes' \<and> (\<forall>j. i = Some j \<longrightarrow> j < length nodes')"
  using assms well_ordered_snoc [OF assms(2)] by (auto simp: push_node_def split: option.splits)

lemma compile_well_ordered:
  assumes "compile_node sch eo nodes = (i, nodes')" "well_ordered nodes"
  shows "well_ordered nodes' \<and> length nodes \<le> length nodes' \<and> (\<forall>j. i = Some j \<longrightarrow> j < length nodes')"
  using assms
proof (induction sch eo nodes arbitrary: i nodes' rule: compile_node.induct)
  case (4 sch op child nodes)
  obtain c nodes1 where c: "compile_node sch child nodes = (c, nodes1)" by fastforce
  note IH = 4(1) [OF c 4(3)]
  show ?case
  proof (cases c)
    case (Some k)
    then have p: "push_node nodes1 (unary_node op k) = (i, nodes')" using 4(2) c by simp
    have "k < length nodes1" "well_ordered nodes1" "length nodes \<le> length nodes1" using IH Some by auto
    moreover have "node_operands m = [k]" if "unary_node op k = Some m" for m
      using that by (auto simp: unary_node_def split: if_splits)
    ultimately show ?thesis using push_well_ordered [OF p] by fastforce
  qed (use 4(2) c IH in simp)
next
  case (5 sch op left right nodes)
  obtain l nodes1 where l: "compile_node sch left nodes = (l, nodes1)" by fastforce
  obtain r nodes2 where r: "compile_node sch right nodes1 = (r, nodes2)" by fastforce
  note IH1 = 5(1) [OF l 5(4)]
  note IH2 = 5(2) [OF l [symmetric] r] IH1
  show ?case
  proof (cases "\<exists>a b. l = Some a \<and> r = Some b")
    case True
    then obtain a b where ab: "l = Some a" "r = Some b" by blast
    have p: "push_node nodes2 (binary_node op a b) = (i, nodes')" using 5(3) l r ab by simp
    have "a < length nodes2" "b < length nodes2" "well_ordered nodes2" "length nodes \<le> length nodes2"
      using IH2 ab by auto
    moreover have "set (node_operands m) \<subseteq> {a, b}" if "binary_node op a b = Some m" for m
      using that by (auto simp: binary_node_def split: if_splits)
    ultimately show ?thesis using push_well_ordered [OF p] by fastforce
  next
    case False
    then have "i = None" "nodes' = nodes2" using 5(3) l r by (auto split: option.splits)
    then show ?thesis using IH2 by auto
  qed
qed (auto simp: push_node_def well_ordered_snoc Let_def split: if_splits)

lemma node_value_cells:
  assumes "\<And>j. j \<in> set (node_operands n) \<Longrightarrow> cell s j = cell s' j"
  shows "node_value t s n = node_value t s' n"
  using assms by (cases n) (auto simp: node_value_def)

lemma take_update_same:
  assumes "take i s = take i s'" "length s = length s'" "i < length s"
  shows "take (Suc i) (s[i := v]) = take (Suc i) (s'[i := v])"
  using assms by (simp add: take_Suc_conv_app_nth)

lemma run_nodes_stack:
  assumes "\<And>k j. k < length ns \<Longrightarrow> j \<in> set (node_operands (ns ! k)) \<Longrightarrow> j < i + k"
    and "length s = length s'" "take i s = take i s'" "i + length ns \<le> length s"
  shows "rel_option (rel_sum (=) (\<lambda>u u'. length u = length s \<and> length u' = length s \<and> take (i + length ns) u = take (i + length ns) u'))
    (run_nodes t ns i s) (run_nodes t ns i s')"
  using assms
proof (induction ns arbitrary: i s s')
  case (Cons n ns)
  have "cell s j = cell s' j" if "j \<in> set (node_operands n)" for j
  proof -
    have "j < i" using Cons.prems(1) [of 0 j] that by simp
    then show ?thesis using Cons.prems(2-4) nth_take [of j i s] nth_take [of j i s'] by (simp add: cell_def)
  qed
  then have nv: "node_value t s n = node_value t s' n" by (rule node_value_cells)
  show ?case
  proof (cases "node_value t s n")
    case (Some r)
    then have val: "node_value t s n = Some r" "node_value t s' n = Some r" using nv by simp_all
    show ?thesis
    proof (cases r)
      case (Inr v)
      have "take (i + 1) (s[i := v]) = take (i + 1) (s'[i := v])"
        using take_update_same [of i s s' v] Cons.prems(2-4) by simp
      moreover have "\<And>k j. k < length ns \<Longrightarrow> j \<in> set (node_operands (ns ! k)) \<Longrightarrow> j < i + 1 + k"
        using Cons.prems(1) [of "Suc _"] by simp
      ultimately show ?thesis
        using Cons.IH [of "i + 1" "s[i := v]" "s'[i := v]"] Cons.prems(2,4) val Inr by simp
    qed (use val in simp)
  qed (use nv in simp)
qed simp

lemma rel_runD:
  assumes "rel_option (rel_sum (=) Q) a b"
  obtains "a = None" "b = None" | e where "a = Some (Inl e)" "b = Some (Inl e)"
    | u u' where "a = Some (Inr u)" "b = Some (Inr u')" "Q u u'"
proof (cases a)
  case (Some x)
  then obtain y where "b = Some y" "rel_sum (=) Q x y" using assms by (cases b) auto
  then show ?thesis using that(2,3) Some by (cases x; cases y) auto
qed (use assms that(1) in \<open>cases b; simp\<close>)

lemma passes_stack:
  assumes "compile_predicate sch e = Some prog" "length s = length (snd prog)" "length s' = length (snd prog)"
  shows "passes prog s t = passes prog s' t"
proof -
  obtain root nodes where p: "prog = (root, nodes)" "compile_node sch e [] = (Some root, nodes)"
    using assms(1) by (auto simp: compile_predicate_def split: prod.splits option.splits)
  have w: "well_ordered nodes" "root < length nodes"
    using compile_well_ordered [OF p(2)] by (auto simp: well_ordered_def)
  have "rel_option (rel_sum (=) (\<lambda>u u'. length u = length s \<and> length u' = length s \<and> take (length nodes) u = take (length nodes) u'))
      (run_nodes t nodes 0 s) (run_nodes t nodes 0 s')"
    using run_nodes_stack [of nodes 0 s s' t] w(1) assms(2,3) p(1) by (auto simp: well_ordered_def)
  then show ?thesis
  proof (cases rule: rel_runD)
    case (3 u u')
    then have "cell u root = cell u' root" using w(2) assms(2) p(1) nth_take [of root "length nodes"]
      by (metis cell_def snd_conv)
    then show ?thesis using 3 by (simp add: passes_def p(1))
  qed (simp_all add: passes_def p(1))
qed

lemma compiled_run:
  assumes "compile_node sch (Some e) [] = (Some root, nodes)" "comparable sch t e" "evaluate sch t e = Some v"
    and "length stack = length nodes"
  shows "\<exists>s. run_nodes t nodes 0 stack = Some (Inr s) \<and> length s = length stack \<and> s ! root = v \<and> root < length stack"
proof -
  have c: "computes t [] nodes root v" using compile_node_computes [OF assms(1) refl assms(2,3)] by simp
  then have "root < length stack" using assms(4) by (auto simp: computes_def)
  then show ?thesis using computesD [OF c, of stack] assms(4) by auto
qed

section \<open>Properties\<close>

text \<open>C7: a compiled predicate means what the interpreter means.  When an expression compiles, running its program on a
  row gives the truth of the expression's value, or the error for a value that is not a truth value, whatever the
  cells hold beforehand and without leaving them; provided the operands of the connectives are truth values and the
  temporal comparisons can be made.\<close>

theorem compiled_agrees:
  assumes "compile_predicate sch (Some e) = Some prog" "comparable sch t e" "evaluate sch t e = Some v"
    and "length stack = length (snd prog)"
  shows "passes prog stack t = Some (case predicate_truth v of Some b \<Rightarrow> Inr b | None \<Rightarrow> Inl not_bool)"
proof -
  obtain root nodes where p: "prog = (root, nodes)" "compile_node sch (Some e) [] = (Some root, nodes)"
    using assms(1) by (auto simp: compile_predicate_def split: prod.splits option.splits)
  obtain s where s: "run_nodes t nodes 0 stack = Some (Inr s)" "length s = length stack" "s ! root = v" "root < length stack"
    using compiled_run [OF p(2) assms(2,3), of stack] assms(4) p(1) by auto
  then show ?thesis unfolding passes_def p(1) by (simp add: cell_def)
qed

definition not_null_seven :: expr where
  "not_null_seven = BinaryOp ''AND'' (Some (UnaryOp ''IS_NOT_NULL'' (Some (ColumnRef [] ''id''))))
     (Some (BinaryOp ''='' (Some (ColumnRef [] ''id'')) (Some (Literal (VInt32 7)))))"

theorem compiled_agrees_witness:
  "\<exists>prog. compile_predicate id_schema (Some not_null_seven) = Some prog \<and>
     passes prog (replicate (length (snd prog)) VNull) (id_row (VInt32 7)) = Some (Inr True)"
proof -
  have eq: "compare_result (VInt32 7) (VInt32 7) ''='' = Some (VBool True)"
    by (simp add: compare_result_def compare_op_def sql_compare_values_def is_numeric_like_def is_datetime_type_def fp_less_def)
  have v: "evaluate id_schema (id_row (VInt32 7)) not_null_seven = Some (VBool True)"
    by (simp add: not_null_seven_def id_column binary_value_def unary_value_def and_value_def is_comparison_def is_null_def
        predicate_truth_def eq)
  have ok: "comparable id_schema (id_row (VInt32 7)) not_null_seven"
    by (simp add: not_null_seven_def id_column binary_value_def unary_value_def is_comparison_def is_null_def eq
        operands_ok_def times_comparable_def predicate_truth_def is_datetime_type_def)
  obtain prog where prog: "compile_predicate id_schema (Some not_null_seven) = Some prog"
    by (simp add: compile_predicate_def not_null_seven_def id_column push_node_def unary_node_def binary_node_def compare_code_def)
  show ?thesis
    using compiled_agrees [OF prog ok v, of "replicate (length (snd prog)) VNull"] prog by (simp add: predicate_truth_def)
qed

text \<open>An uncastable temporal comparison diverges.  For a DATETIME column compared with a string that is not a date the
  interpreter answers NULL, which no WHERE clause lets pass, while the compiled predicate falls back to comparing type
  numbers and lets the row pass.\<close>

lemma compiled_datetime_diverges:
  "let e = BinaryOp ''>'' (Some (ColumnRef [] ''id'')) (Some (Literal (VVarchar ''x''))); row = id_row (VDatetime 0) in
   evaluate id_schema row e = Some VNull \<and>
   (\<exists>prog. compile_predicate id_schema (Some e) = Some prog \<and>
      passes prog (replicate (length (snd prog)) VNull) row = Some (Inr True))"
proof -
  have "datetime_parse_utc (c_str ''x'') = None" by code_simp
  then have "cast_to (VVarchar ''x'') KDatetime = Some VNull"
    by (simp add: cast_to_def fast_cast_def value_to_string_def parse_value_def)
  then have r: "reconcile (VDatetime 0) (VVarchar ''x'') = Some (VDatetime 0, VNull)"
    by (simp add: reconcile_def is_datetime_type_def)
  have "sql_compare_values (VDatetime 0) (VVarchar ''x'') = Some 2"
    by (simp add: sql_compare_values_def r is_numeric_like_def is_datetime_type_def is_null_def value_compare_def)
  moreover have "compare_result (VDatetime 0) (VVarchar ''x'') ''>'' = Some VNull"
    by (simp add: compare_result_def r is_datetime_type_def is_null_def)
  moreover have "get_value (id_row (VDatetime 0)) 0 = VDatetime 0" by (simp add: id_row_def get_value_def)
  ultimately show ?thesis
    by (simp add: id_column binary_value_def is_comparison_def is_null_def compile_predicate_def push_node_def binary_node_def
        compare_code_def passes_def node_value_def cell_def compare_truth_def predicate_truth_def)
qed

end
