(* ===== verification/Semantic_Validator.thy ===== *)
theory Semantic_Validator
  imports Compiled_Predicate
begin

section \<open>Semantic validation\<close>

text \<open>
  Model of \<^verbatim>\<open>src/src/sql/planner/semantic_validator.cpp\<close>: the type the planner infers for an
  expression over the columns in scope, and the rules for expressions above a grouping.  A failed
  validation is \<open>None\<close> or \<open>False\<close>.  The laws relate the inferred type to the value the evaluator gives.
  A select list is a list of pairs of alias and expression.
\<close>

definition is_numeric_type :: "type_id \<Rightarrow> bool" where
  "is_numeric_type t = (t = KInt32 \<or> t = KInt64 \<or> t = KFloat \<or> t = KDouble)"

definition is_aggregate_numeric_type :: "type_id \<Rightarrow> bool" where
  "is_aggregate_numeric_type t = (t = KBool \<or> is_numeric_type t)"

definition is_comparison_op :: "string \<Rightarrow> bool" where
  "is_comparison_op op = (op \<in> {''='', ''<>'', ''!='', ''<'', ''>'', ''<='', ''>='', ''LIKE''})"

definition is_arithmetic_op :: "string \<Rightarrow> bool" where
  "is_arithmetic_op op = (op \<in> {''+'', ''-'', ''*'', ''/'', ''%''})"

definition is_aggregate_op :: "string \<Rightarrow> bool" where
  "is_aggregate_op name = (name \<in> {''COUNT'', ''SUM'', ''AVG'', ''MIN'', ''MAX'', ''COUNT_DISTINCT'',
     ''SUM_DISTINCT'', ''AVG_DISTINCT'', ''MIN_DISTINCT'', ''MAX_DISTINCT''})"

fun resolve_strict_from :: "string \<Rightarrow> string \<Rightarrow> nat \<Rightarrow> int \<Rightarrow> schema \<Rightarrow> int" where
  "resolve_strict_from table column i found [] = found"
| "resolve_strict_from table column i found (c # cs) =
     (if col_is_dropped c \<or> col_name c \<noteq> column then resolve_strict_from table column (i + 1) found cs
      else if table \<noteq> []
      then if col_table_name c = table then int i else resolve_strict_from table column (i + 1) found cs
      else if found \<ge> 0 then -1
      else resolve_strict_from table column (i + 1) (int i) cs)"

definition resolve_column_index_strict :: "schema \<Rightarrow> string \<Rightarrow> string \<Rightarrow> int" where
  "resolve_column_index_strict sch table column = resolve_strict_from table column 0 (-1) sch"

definition numeric_result_type :: "type_id \<Rightarrow> type_id \<Rightarrow> type_id" where
  "numeric_result_type left right =
     (if left = KDouble \<or> right = KDouble then KDouble
      else if left = KFloat \<or> right = KFloat then KFloat
      else if left = KInt64 \<or> right = KInt64 then KInt64
      else KInt32)"

text \<open>The type of a column; the bytes of a schema that name no type count as NULL.\<close>

definition column_type :: "column \<Rightarrow> type_id" where
  "column_type c = (case type_of_code (unat (col_type c)) of Some t \<Rightarrow> t | None \<Rightarrow> KNull)"

subsection \<open>Inference\<close>

definition bool_or_null :: "type_id option \<Rightarrow> bool" where
  "bool_or_null t = (t = Some KBool \<or> t = Some KNull)"

definition aggregate_type :: "string \<Rightarrow> type_id \<Rightarrow> type_id option" where
  "aggregate_type op arg_type =
     (if op \<in> {''SUM'', ''SUM_DISTINCT'', ''AVG'', ''AVG_DISTINCT''} \<and> arg_type \<noteq> KNull \<and>
         \<not> is_aggregate_numeric_type arg_type then None
      else if op \<in> {''AVG'', ''AVG_DISTINCT''} then Some KDouble
      else if op \<in> {''SUM'', ''SUM_DISTINCT''}
      then Some (if arg_type = KFloat \<or> arg_type = KDouble then arg_type else KInt64)
      else if op \<in> {''MIN'', ''MIN_DISTINCT'', ''MAX'', ''MAX_DISTINCT''} then Some arg_type
      else Some KInt64)"

definition unary_type :: "string \<Rightarrow> type_id \<Rightarrow> type_id option" where
  "unary_type op child_type =
     (if op = ''IS_NULL'' \<or> op = ''IS_NOT_NULL'' then Some KBool
      else if op = ''LENGTH''
      then if child_type \<noteq> KNull \<and> child_type \<noteq> KVarchar then None else Some KInt32
      else if op = ''-''
      then if child_type \<noteq> KNull \<and> \<not> is_numeric_type child_type then None else Some child_type
      else None)"

definition binary_type :: "string \<Rightarrow> type_id option \<Rightarrow> type_id option \<Rightarrow> type_id option" where
  "binary_type op left_type right_type =
     (if op = ''AND'' \<or> op = ''OR''
      then if bool_or_null left_type \<and> bool_or_null right_type then Some KBool else None
      else if is_comparison_op op
      then if left_type = None \<or> right_type = None then None else Some KBool
      else if op = ''IN_SUBQUERY'' \<or> op = ''NOT_IN_SUBQUERY''
      then if left_type = None then None else Some KBool
      else if op = ''COALESCE'' \<or> op = ''NULLIF''
      then if right_type = None then None else left_type
      else if is_arithmetic_op op
      then (case (left_type, right_type) of
          (Some l, Some r) \<Rightarrow>
            if l \<noteq> KNull \<and> \<not> is_numeric_type l then None
            else if r \<noteq> KNull \<and> \<not> is_numeric_type r then None
            else Some (numeric_result_type l r)
        | _ \<Rightarrow> None)
      else None)"

function (sequential) infer_expression_type :: "schema \<Rightarrow> expr option \<Rightarrow> type_id option"
  and infer_case_type :: "schema \<Rightarrow> type_id \<Rightarrow> (expr \<times> expr) list \<Rightarrow> expr option \<Rightarrow> type_id option" where
  "infer_expression_type sch None = None"
| "infer_expression_type sch (Some (Literal v)) = Some (type_id_of v)"
| "infer_expression_type sch (Some (ColumnRef table column)) =
     (let idx = resolve_column_index_strict sch table column in
      if idx < 0 then None else Some (column_type (get_column sch (nat idx))))"
| "infer_expression_type sch (Some Star) = Some KNull"
| "infer_expression_type sch (Some Subquery) = Some KNull"
| "infer_expression_type sch (Some (CastTo child target)) =
     (case infer_expression_type sch child of None \<Rightarrow> None | Some _ \<Rightarrow> Some target)"
| "infer_expression_type sch (Some (CaseWhen whens else_expr)) = infer_case_type sch KNull whens else_expr"
| "infer_expression_type sch (Some (UnaryOp op child)) =
     (if op = ''NOT'' then if bool_or_null (infer_expression_type sch child) then Some KBool else None
      else Option.bind (infer_expression_type sch child) (unary_type op))"
| "infer_expression_type sch (Some (BinaryOp op left right)) =
     (if is_aggregate_op op
      then if left = None \<or> left = Some Star then Some KInt64
           else Option.bind (infer_expression_type sch left) (aggregate_type op)
      else binary_type op (infer_expression_type sch left) (infer_expression_type sch right))"
| "infer_case_type sch result_type [] else_expr =
     (case else_expr of
        None \<Rightarrow> Some result_type
      | Some e \<Rightarrow>
          map_option (\<lambda>else_type. if result_type = KNull then else_type else result_type)
            (infer_expression_type sch (Some e)))"
| "infer_case_type sch result_type ((c, e) # whens) else_expr =
     (if \<not> bool_or_null (infer_expression_type sch (Some c)) then None
      else case infer_expression_type sch (Some e) of
          None \<Rightarrow> None
        | Some branch_type \<Rightarrow>
            infer_case_type sch (if result_type = KNull then branch_type else result_type) whens else_expr)"
  by pat_completeness auto
termination
  by (relation "measure (case_sum (\<lambda>(_, e). 2 * size_option size e)
      (\<lambda>(_, _, ws, e). 2 * (size_list (size_prod size size) ws + size_option size e) + 1))") auto

definition validate_expression :: "schema \<Rightarrow> expr option \<Rightarrow> bool" where
  "validate_expression sch e = (infer_expression_type sch e \<noteq> None)"

definition require_bool_expression :: "schema \<Rightarrow> expr option \<Rightarrow> bool" where
  "require_bool_expression sch e = bool_or_null (infer_expression_type sch e)"

definition validate_order_expression :: "schema \<Rightarrow> expr option \<Rightarrow> (string \<times> expr) list \<Rightarrow> bool" where
  "validate_order_expression sch e select_list =
     (if validate_expression sch e then True
      else case e of
          Some (ColumnRef table column) \<Rightarrow>
            table = [] \<and> list_ex (\<lambda>(alias, _). alias \<noteq> [] \<and> alias = column) select_list
        | _ \<Rightarrow> False)"

subsection \<open>Expressions above a grouping\<close>

function (sequential) expressions_equivalent :: "expr option \<Rightarrow> expr option \<Rightarrow> bool"
  and clauses_equivalent :: "(expr \<times> expr) list \<Rightarrow> (expr \<times> expr) list \<Rightarrow> bool" where
  "expressions_equivalent None b = (b = None)"
| "expressions_equivalent a None = False"
| "expressions_equivalent (Some (Literal v)) (Some (Literal w)) = value_eq v w"
| "expressions_equivalent (Some (ColumnRef t c)) (Some (ColumnRef t' c')) = (t = t' \<and> c = c')"
| "expressions_equivalent (Some (BinaryOp op l r)) (Some (BinaryOp op' l' r')) =
     (op = op' \<and> expressions_equivalent l l' \<and> expressions_equivalent r r')"
| "expressions_equivalent (Some (UnaryOp op c)) (Some (UnaryOp op' c')) = (op = op' \<and> expressions_equivalent c c')"
| "expressions_equivalent (Some (CastTo c t)) (Some (CastTo c' t')) = (t = t' \<and> expressions_equivalent c c')"
| "expressions_equivalent (Some (CaseWhen ws e)) (Some (CaseWhen ws' e')) =
     (length ws = length ws' \<and> clauses_equivalent ws ws' \<and> expressions_equivalent e e')"
| "expressions_equivalent (Some _) (Some _) = False"
| "clauses_equivalent ((c, e) # ws) ((c', e') # ws') =
     (expressions_equivalent (Some c) (Some c') \<and> expressions_equivalent (Some e) (Some e') \<and> clauses_equivalent ws ws')"
| "clauses_equivalent _ _ = True"
  by pat_completeness auto
termination
  by (relation "measure (case_sum (\<lambda>(a, _). 2 * size_option size a)
      (\<lambda>(ws, _). 2 * size_list (size_prod size size) ws + 1))") auto

definition expression_is_group_key :: "expr option \<Rightarrow> expr list \<Rightarrow> bool" where
  "expression_is_group_key e group_by = list_ex (\<lambda>g. expressions_equivalent e (Some g)) group_by"

function (sequential) aggregate_expression_is_group_legal :: "expr option \<Rightarrow> expr list \<Rightarrow> bool \<Rightarrow> bool"
  and clauses_group_legal :: "(expr \<times> expr) list \<Rightarrow> expr list \<Rightarrow> bool \<Rightarrow> bool" where
  "aggregate_expression_is_group_legal None group_by inside = False"
| "aggregate_expression_is_group_legal (Some e) group_by inside =
     (if \<not> inside \<and> expression_is_group_key (Some e) group_by then True
      else case e of
          Literal _ \<Rightarrow> True
        | Subquery \<Rightarrow> True
        | Star \<Rightarrow> inside
        | ColumnRef _ _ \<Rightarrow> inside
        | CastTo child _ \<Rightarrow> aggregate_expression_is_group_legal child group_by inside
        | UnaryOp _ child \<Rightarrow> aggregate_expression_is_group_legal child group_by inside
        | CaseWhen whens else_expr \<Rightarrow>
            clauses_group_legal whens group_by inside \<and>
            (else_expr = None \<or> aggregate_expression_is_group_legal else_expr group_by inside)
        | BinaryOp op left right \<Rightarrow>
            if is_aggregate_op op
            then if inside then False
                 else if left = None \<or> left = Some Star then True
                 else aggregate_expression_is_group_legal left group_by True
            else aggregate_expression_is_group_legal left group_by inside \<and>
                 aggregate_expression_is_group_legal right group_by inside)"
| "clauses_group_legal [] group_by inside = True"
| "clauses_group_legal ((c, e) # ws) group_by inside =
     (aggregate_expression_is_group_legal (Some c) group_by inside \<and>
      aggregate_expression_is_group_legal (Some e) group_by inside \<and> clauses_group_legal ws group_by inside)"
  by pat_completeness auto
termination
  by (relation "measure (case_sum (\<lambda>(a, _). 2 * size_option size a)
      (\<lambda>(ws, _). 2 * size_list (size_prod size size) ws + 1))") auto

definition validate_aggregate_expression :: "schema \<Rightarrow> expr option \<Rightarrow> expr list \<Rightarrow> bool" where
  "validate_aggregate_expression sch e group_by =
     (validate_expression sch e \<and> aggregate_expression_is_group_legal e group_by False)"

definition require_bool_aggregate_expression :: "schema \<Rightarrow> expr option \<Rightarrow> expr list \<Rightarrow> bool" where
  "require_bool_aggregate_expression sch e group_by =
     (require_bool_expression sch e \<and> aggregate_expression_is_group_legal e group_by False)"

section \<open>Laws\<close>

subsection \<open>Names\<close>

text \<open>Every column in scope belongs to a named table.\<close>

definition tables_named :: "schema \<Rightarrow> bool" where
  "tables_named sch \<longleftrightarrow> (\<forall>c \<in> set sch. col_table_name c \<noteq> [])"

lemma resolve_strict_found:
  "found \<ge> 0 \<Longrightarrow> resolve_strict_from [] column i found sch \<in> {found, -1}"
  by (induction "[] :: string" column i found sch rule: resolve_strict_from.induct) auto

lemma resolve_qualified:
  "table \<noteq> [] \<Longrightarrow> tables_named sch \<Longrightarrow>
   resolve_strict_from table column i (-1) sch =
     column_index_from (\<lambda>c. col_name c = column \<and> (col_table_name c = [] \<or> col_table_name c = table)) i sch"
  by (induction sch arbitrary: i) (auto simp: tables_named_def)

lemma resolve_unqualified:
  "resolve_strict_from [] column i (-1) sch \<noteq> -1 \<Longrightarrow>
   resolve_strict_from [] column i (-1) sch = column_index_from (\<lambda>c. col_name c = column) i sch"
proof (induction sch arbitrary: i)
  case (Cons c cs)
  then show ?case using resolve_strict_found [of "int i" column "i + 1" cs] by (auto split: if_splits)
qed simp

lemma resolve_agrees:
  assumes "tables_named sch" "resolve_column_index_strict sch table column \<noteq> -1"
  shows "column_position sch table column = resolve_column_index_strict sch table column"
  using assms resolve_qualified [of table sch column 0] resolve_unqualified [of column 0 sch]
  by (cases "table = []") (auto simp: resolve_column_index_strict_def column_position_def get_column_index_def
      get_qualified_column_index_def)

subsection \<open>Types\<close>

definition has_type :: "db_value \<Rightarrow> type_id \<Rightarrow> bool" where
  "has_type v t \<longleftrightarrow> v = VNull \<or> type_id_of v = t"

lemma has_type_simps [simp]:
  "has_type VNull t" "has_type (VBool b) t \<longleftrightarrow> t = KBool" "has_type (VInt32 i) t \<longleftrightarrow> t = KInt32"
  "has_type (VInt64 j) t \<longleftrightarrow> t = KInt64" "has_type (VFloat f) t \<longleftrightarrow> t = KFloat"
  "has_type (VDouble d) t \<longleftrightarrow> t = KDouble" "has_type (VVarchar s) t \<longleftrightarrow> t = KVarchar"
  "has_type (VTimestamp x) t \<longleftrightarrow> t = KTimestamp" "has_type (VDatetime y) t \<longleftrightarrow> t = KDatetime"
  by (auto simp: has_type_def)

lemma has_type_self: "has_type v (type_id_of v)"
  by (simp add: has_type_def)

lemma has_type_null: "has_type v KNull \<longleftrightarrow> v = VNull"
  by (cases v) auto

lemma is_null_simps [simp]:
  "is_null VNull" "\<not> is_null (VBool b)" "\<not> is_null (VInt32 i)" "\<not> is_null (VInt64 j)" "\<not> is_null (VFloat f)"
  "\<not> is_null (VDouble d)" "\<not> is_null (VVarchar s)" "\<not> is_null (VTimestamp x)" "\<not> is_null (VDatetime y)"
  by (auto simp: is_null_def)

lemma bool_or_null_truth: "has_type v t \<Longrightarrow> bool_or_null (Some t) \<Longrightarrow> predicate_truth v \<noteq> None"
  by (cases v) (auto simp: bool_or_null_def predicate_truth_def)

lemma int_or_null_type [simp]: "has_type (int32_or_null i) KInt32" "has_type (int64_or_null i) KInt64"
  by (simp_all add: int32_or_null_def int64_or_null_def)

lemma fast_cast_type: "fast_cast v t = Some w \<Longrightarrow> has_type w t"
  by (cases t; cases v)
    (auto simp: fast_cast_def double_to_int32_value_def double_to_int64_value_def split: if_splits)

lemma parse_value_type: "has_type (parse_value s t) t"
  by (cases t) (auto simp: parse_value_def split: option.splits list.splits)

lemma cast_to_type: "cast_to v t = Some w \<Longrightarrow> has_type w t"
  by (auto simp: cast_to_def has_type_self fast_cast_type parse_value_type split: if_splits option.splits)

lemma compare_op_type: "has_type (compare_op op c) KBool"
  by (simp add: compare_op_def)

lemma compare_result_type: "compare_result a b op = Some v \<Longrightarrow> has_type v KBool"
  using compare_op_type by (auto simp: compare_result_def split: if_splits option.splits)

lemma and_or_type: "has_type (and_value a b) KBool" "has_type (or_value a b) KBool"
  by (auto simp: and_value_def or_value_def split: option.splits)

text \<open>The promoted type of numeric operands.\<close>

definition numeric_or_null :: "type_id \<Rightarrow> bool" where
  "numeric_or_null t \<longleftrightarrow> t = KNull \<or> is_numeric_type t"

lemma arithmetic_type:
  assumes "has_type a L" "has_type b R" "numeric_or_null L" "numeric_or_null R"
  shows "has_type (value_add a b) (numeric_result_type L R)" "has_type (value_sub a b) (numeric_result_type L R)"
    "has_type (value_mul a b) (numeric_result_type L R)" "has_type (value_div a b) (numeric_result_type L R)"
    "value_mod a b = Some v \<Longrightarrow> has_type v (numeric_result_type L R)"
  using assms
  by (cases a; cases b; auto simp: numeric_or_null_def is_numeric_type_def numeric_result_type_def promote_def is_temporal_def
      value_add_def value_sub_def value_mul_def value_div_def split: if_splits)+

lemma negate_type: "has_type v t \<Longrightarrow> has_type (negate_value v) t"
  by (cases v) (auto simp: negate_value_def)

lemma unary_type_sound: "unary_type op t = Some r \<Longrightarrow> has_type v t \<Longrightarrow> has_type (unary_value op v) r"
  by (auto simp: unary_type_def unary_value_def negate_type split: if_splits db_value.splits)

lemma not_type: "has_type (unary_value ''NOT'' v) KBool"
  by (auto simp: unary_value_def not_value_def split: option.splits)

lemma aggregate_op_null: "is_aggregate_op op \<Longrightarrow> binary_value op a b = Some VNull"
  unfolding is_aggregate_op_def by (elim insertE emptyE) (simp_all add: binary_value_def is_comparison_def)

lemma comparison_type:
  assumes "is_comparison_op op" "binary_value op a b = Some v"
  shows "has_type v KBool"
proof (cases "is_comparison op")
  case True
  then show ?thesis using assms(2) compare_result_type [of a b op v] by (simp add: binary_value_def split: if_splits)
next
  case False
  then have "op = ''LIKE''" using assms(1) by (auto simp: is_comparison_op_def is_comparison_def)
  then show ?thesis using assms(2) by (auto simp: binary_value_def is_comparison_def split: if_splits)
qed

lemma arithmetic_binary_type:
  assumes "is_arithmetic_op op" "has_type a L" "has_type b R" "numeric_or_null L" "numeric_or_null R" "binary_value op a b = Some v"
  shows "has_type v (numeric_result_type L R)"
proof -
  consider "op = ''+''" | "op = ''-''" | "op = ''*''" | "op = ''/''" | "op = ''%''"
    using assms(1) by (auto simp: is_arithmetic_op_def)
  then show ?thesis
    by cases (use assms(6) arithmetic_type [OF assms(2-5)] in \<open>auto simp: binary_value_def is_comparison_def split: if_splits\<close>)
qed

lemma binary_type_sound:
  assumes "binary_type op lt rt = Some t" "\<And>l. lt = Some l \<Longrightarrow> has_type a l" "\<And>r. rt = Some r \<Longrightarrow> has_type b r"
    and "op = ''COALESCE'' \<Longrightarrow> rt = lt \<or> rt = Some KNull" "binary_value op a b = Some v"
  shows "has_type v t"
proof -
  consider (logic) "op = ''AND'' \<or> op = ''OR''" | (cmp) "is_comparison_op op"
    | (sub) "op = ''IN_SUBQUERY'' \<or> op = ''NOT_IN_SUBQUERY''" | (choice) "op = ''COALESCE'' \<or> op = ''NULLIF''"
    | (arith) "is_arithmetic_op op"
    using assms(1) by (auto simp: binary_type_def split: if_splits)
  then show ?thesis
  proof cases
    case logic
    then show ?thesis
      using assms(1,5) and_or_type by (auto simp: binary_type_def binary_value_def is_comparison_def split: if_splits)
  next
    case cmp
    then have "t = KBool" using assms(1) by (auto simp: binary_type_def is_comparison_op_def split: if_splits)
    then show ?thesis using comparison_type [OF cmp assms(5)] by simp
  next
    case sub
    then show ?thesis using assms(5) by (auto simp: binary_value_def is_comparison_def)
  next
    case choice
    then have ty: "lt = Some t" "rt \<noteq> None" using assms(1)
      by (elim disjE; simp add: binary_type_def is_comparison_op_def split: if_splits)+
    have v: "v = a \<or> v = VNull \<or> op = ''COALESCE'' \<and> is_null a \<and> v = b"
      using choice assms(5) by (elim disjE) (simp_all add: binary_value_def is_comparison_def split: if_splits)
    obtain r where r: "rt = Some r" using ty(2) by blast
    have "has_type b t" if "op = ''COALESCE''"
      using assms(4) [OF that] assms(3) [OF r] ty(1) r by (auto simp: has_type_null)
    then show ?thesis using v assms(2) [OF ty(1)] by auto
  next
    case arith
    then obtain l r where lr: "lt = Some l" "rt = Some r" "numeric_or_null l" "numeric_or_null r" "t = numeric_result_type l r"
      using assms(1) unfolding is_arithmetic_op_def
      by (elim insertE emptyE; simp add: binary_type_def is_arithmetic_op_def is_comparison_op_def numeric_or_null_def
          split: if_splits option.splits; blast)
    then show ?thesis using arithmetic_binary_type [OF arith assms(2) [OF lr(1)] assms(3) [OF lr(2)] lr(3,4) assms(5)] by simp
  qed
qed

text \<open>Expressions in which the alternatives of a CASE or COALESCE have one type, up to NULL.\<close>

definition type_or_null :: "type_id option \<Rightarrow> type_id option \<Rightarrow> bool" where
  "type_or_null s t \<longleftrightarrow> s = t \<or> s = Some KNull"

function (sequential) homogeneous :: "schema \<Rightarrow> expr option \<Rightarrow> bool"
  and homogeneous_clauses :: "schema \<Rightarrow> type_id option \<Rightarrow> (expr \<times> expr) list \<Rightarrow> bool" where
  "homogeneous sch (Some (BinaryOp op l r)) =
     (homogeneous sch l \<and> homogeneous sch r \<and>
      (op = ''COALESCE'' \<longrightarrow> type_or_null (infer_expression_type sch r) (infer_expression_type sch l)))"
| "homogeneous sch (Some (UnaryOp op c)) = homogeneous sch c"
| "homogeneous sch (Some (CastTo c t)) = homogeneous sch c"
| "homogeneous sch (Some (CaseWhen ws els)) =
     (let t = infer_expression_type sch (Some (CaseWhen ws els)) in
      homogeneous_clauses sch t ws \<and> homogeneous sch els \<and> (els \<noteq> None \<longrightarrow> type_or_null (infer_expression_type sch els) t))"
| "homogeneous sch _ = True"
| "homogeneous_clauses sch t [] = True"
| "homogeneous_clauses sch t ((c, e) # ws) =
     (homogeneous sch (Some c) \<and> homogeneous sch (Some e) \<and> type_or_null (infer_expression_type sch (Some e)) t \<and>
      homogeneous_clauses sch t ws)"
  by pat_completeness auto
termination
  by (relation "measure (case_sum (\<lambda>(_, e). 2 * size_option size e)
      (\<lambda>(_, _, ws). 2 * size_list (size_prod size size) ws + 1))") auto

definition row_conforms :: "schema \<Rightarrow> tuple \<Rightarrow> bool" where
  "row_conforms sch t \<longleftrightarrow> (\<forall>i < length sch. has_type (get_value t i) (column_type (sch ! i)))"

lemma column_index_bound: "column_index_from P i sch < int (i + length sch)"
  by (induction sch arbitrary: i) (auto, (smt (verit) of_nat_Suc)+)

lemma column_type_sound:
  assumes "infer_expression_type sch (Some (ColumnRef tb c)) = Some t" "tables_named sch" "row_conforms sch row"
  shows "has_type (column_value sch row tb c) t"
proof -
  let ?i = "resolve_column_index_strict sch tb c"
  have i: "?i \<ge> 0" "t = column_type (get_column sch (nat ?i))" using assms(1) by (auto simp: Let_def split: if_splits)
  have pos: "column_position sch tb c = ?i" using resolve_agrees [OF assms(2)] i(1) by simp
  have "nat ?i < length sch"
    unfolding pos [symmetric] column_position_def get_column_index_def get_qualified_column_index_def
    using column_index_bound [of _ 0 sch] i(1) by (simp add: pos [symmetric] nat_less_iff column_position_def
        get_column_index_def get_qualified_column_index_def split: if_splits)
  then show ?thesis using i pos assms(3) by (simp add: column_value_def get_column_def row_conforms_def)
qed

lemma has_type_or_null: "has_type v s \<Longrightarrow> type_or_null (Some s) (Some t) \<Longrightarrow> has_type v t"
  by (auto simp: type_or_null_def has_type_null)

lemma evaluate_type:
  assumes "tables_named sch" "row_conforms sch row"
  shows "infer_expression_type sch (Some e) = Some T \<Longrightarrow> homogeneous sch (Some e) \<Longrightarrow> evaluate sch row e = Some v \<Longrightarrow> has_type v T"
    and "infer_expression_type sch eo = Some T \<Longrightarrow> homogeneous sch eo \<Longrightarrow> evaluate_opt sch row eo = Some v \<Longrightarrow> has_type v T"
    and "infer_case_type sch R ws els = Some T' \<Longrightarrow> homogeneous_clauses sch (Some T) ws \<Longrightarrow> homogeneous sch els \<Longrightarrow>
      (els \<noteq> None \<longrightarrow> type_or_null (infer_expression_type sch els) (Some T)) \<Longrightarrow> evaluate_when sch row ws els = Some v \<Longrightarrow> has_type v T"
  using assms
proof (induction sch row e and sch row eo and sch row ws els arbitrary: T v and T v and R T T' v
    rule: evaluate_evaluate_opt_evaluate_when.induct)
  case (2 sch t table column)
  then show ?case using column_type_sound by auto
next
  case (4 sch t op left right)
  obtain a b where ab: "evaluate sch t left = Some a" "evaluate_opt sch t right = Some b" "binary_value op a b = Some v"
    using 4(5) by (auto split: Option.bind_splits)
  show ?case
  proof (cases "is_aggregate_op op")
    case True
    then show ?thesis using ab(3) aggregate_op_null by simp
  next
    case False
    then have "binary_type op (infer_expression_type sch (Some left)) (infer_expression_type sch right) = Some T"
      using 4(3) by simp
    then show ?thesis
      using binary_type_sound [of op _ _ T a b v] 4 ab by (auto simp: type_or_null_def)
  qed
next
  case (6 sch t op child)
  obtain a where a: "evaluate sch t child = Some a" "v = unary_value op a" using 6(4) by auto
  show ?case
  proof (cases "op = ''NOT''")
    case True
    then show ?thesis using 6(2) a(2) not_type by (auto split: if_splits)
  next
    case False
    then obtain s where "infer_expression_type sch (Some child) = Some s" "unary_type op s = Some T"
      using 6(2) by (auto split: Option.bind_splits)
    then show ?thesis using unary_type_sound 6 a by auto
  qed
next
  case (11 sch t child target)
  then show ?case using cast_to_type by (auto split: Option.bind_splits if_splits option.splits)
next
  case (9 sch t whens els)
  then show ?case by (auto simp: Let_def)
next
  case (14 sch t els)
  show ?case
  proof (cases els)
    case None
    then show ?thesis using 14 by simp
  next
    case (Some e)
    then obtain z where z: "infer_expression_type sch els = Some z" using 14(2) by auto
    have "has_type v z" using 14(1) [OF z] 14(4,6-) by simp
    then show ?thesis using has_type_or_null 14(5) z Some by auto
  qed
next
  case (15 sch t c e ws els)
  obtain z R' where z: "infer_expression_type sch (Some e) = Some z" "infer_case_type sch R' ws els = Some T'"
    using 15(4) by (auto split: if_splits option.splits)
  have h: "homogeneous sch (Some e)" "type_or_null (Some z) (Some T)" "homogeneous_clauses sch (Some T) ws"
    using 15(5) z(1) by auto
  obtain cond where c: "evaluate sch t c = Some cond" using 15(8) by (auto split: Option.bind_splits)
  show ?case
  proof (cases "predicate_truth cond")
    case None
    then show ?thesis using 15(8) c by simp
  next
    case (Some b)
    show ?thesis
    proof (cases b)
      case True
      then have "evaluate sch t e = Some v" using 15(8) c Some by simp
      then have "has_type v z" using 15(2) [OF c Some] True z(1) h(1) 15(9,10) by simp
      then show ?thesis using has_type_or_null h(2) by blast
    next
      case False
      then have "evaluate_when sch t ws els = Some v" using 15(8) c Some by simp
      then show ?thesis using 15(3) [OF c Some] False z(2) h(3) 15(6,7,9,10) by simp
    qed
  qed
qed (auto simp: has_type_self)

text \<open>With validated types only the temporal comparisons are left to ask for.\<close>

fun times_ok :: "schema \<Rightarrow> tuple \<Rightarrow> expr \<Rightarrow> bool" where
  "times_ok sch t (BinaryOp op (Some l) (Some r)) =
     (times_ok sch t l \<and> times_ok sch t r \<and>
      (case (evaluate sch t l, evaluate sch t r) of (Some a, Some b) \<Rightarrow> times_comparable op a b | _ \<Rightarrow> False))"
| "times_ok sch t (UnaryOp op (Some c)) = (times_ok sch t c \<and> evaluate sch t c \<noteq> None)"
| "times_ok sch t e = True"

lemma binary_type_operands:
  assumes "binary_type op lt rt = Some t" "\<not> (op = ''IN_SUBQUERY'' \<or> op = ''NOT_IN_SUBQUERY'')"
  shows "lt \<noteq> None" "rt \<noteq> None" "op \<in> {''AND'', ''OR''} \<Longrightarrow> bool_or_null lt \<and> bool_or_null rt"
proof -
  have "binary_type op None rt = None" "binary_type op lt None = None"
    using assms(2) by (simp_all add: binary_type_def bool_or_null_def split: option.split)
  then show "lt \<noteq> None" "rt \<noteq> None" using assms(1) by (metis option.distinct(1))+
  show "op \<in> {''AND'', ''OR''} \<Longrightarrow> bool_or_null lt \<and> bool_or_null rt"
    using assms(1) by (elim insertE emptyE) (simp_all add: binary_type_def split: if_splits)
qed

lemma validated_comparable:
  assumes "compile_node sch (Some e) nodes = (Some i, nodes')" "infer_expression_type sch (Some e) = Some T"
    and "homogeneous sch (Some e)" "tables_named sch" "row_conforms sch t" "times_ok sch t e"
  shows "comparable sch t e"
  using assms
proof (induction sch t e arbitrary: T nodes i nodes' rule: comparable.induct)
  case (1 sch t op l r)
  obtain i1 n1 i2 n2 n where c: "compile_node sch (Some l) nodes = (Some i1, n1)" "compile_node sch (Some r) n1 = (Some i2, n2)"
      "binary_node op i1 i2 = Some n"
    using 1(3) by (auto simp: push_node_def split: prod.splits option.splits)
  have op: "\<not> is_aggregate_op op" "\<not> (op = ''IN_SUBQUERY'' \<or> op = ''NOT_IN_SUBQUERY'')"
    using c(3) by (auto simp: binary_node_def compare_code_def is_aggregate_op_def split: if_splits)
  then have bt: "binary_type op (infer_expression_type sch (Some l)) (infer_expression_type sch (Some r)) = Some T"
    using 1(4) by simp
  obtain tl' tr' where ty: "infer_expression_type sch (Some l) = Some tl'" "infer_expression_type sch (Some r) = Some tr'"
    using binary_type_operands(1,2) [OF bt op(2)] by blast
  obtain a b where ab: "evaluate sch t l = Some a" "evaluate sch t r = Some b" "times_comparable op a b"
    using 1(8) by (auto split: option.splits)
  have "has_type a tl'" "has_type b tr'" using evaluate_type(1) [OF 1(6,7)] ty ab 1(5) by auto
  then have "operands_ok op a b"
    using ab(3) binary_type_operands(3) [OF bt op(2)] bool_or_null_truth ty by (auto simp: operands_ok_def)
  moreover have "comparable sch t l" using 1(1) [OF c(1) ty(1) _ 1(6,7)] 1(5,8) by simp
  moreover have "comparable sch t r" using 1(2) [OF c(2) ty(2) _ 1(6,7)] 1(5,8) by simp
  ultimately show ?case using ab by simp
next
  case (2 sch t op c)
  obtain i1 n1 where c: "compile_node sch (Some c) nodes = (Some i1, n1)"
    using 2(2) by (auto simp: push_node_def split: prod.splits option.splits)
  obtain s where s: "infer_expression_type sch (Some c) = Some s" "op = ''NOT'' \<longrightarrow> bool_or_null (Some s)"
    using 2(3) by (auto simp: bool_or_null_def split: if_splits Option.bind_splits)
  obtain a where a: "evaluate sch t c = Some a" using 2(7) by auto
  have "has_type a s" using evaluate_type(1) [OF 2(5,6) s(1) _ a] 2(4) by simp
  then show ?case using 2(1) [OF c s(1) _ 2(5,6)] 2(4,7) a s(2) bool_or_null_truth by auto
qed auto

definition flag_schema :: schema where
  "flag_schema = [default_column\<lparr>col_name := ''id'', col_table_name := ''t'', col_type := 0\<rparr>]"

lemma flag_column:
  "resolve_column_index_strict flag_schema [] ''id'' = 0" "column_value flag_schema (id_row v) [] ''id'' = v"
  "column_position flag_schema [] ''id'' = 0" "column_type (get_column flag_schema 0) = KBool" "tables_named flag_schema"
  "row_conforms flag_schema (id_row (VBool b))"
  by (simp_all add: resolve_column_index_strict_def column_value_def column_position_def get_column_index_def flag_schema_def
      id_row_def get_value_def default_column_def column_type_def type_of_code_def get_column_def tables_named_def row_conforms_def)

section \<open>Properties\<close>



text \<open>A validated predicate runs without type error.  A predicate the planner accepted and that compiles never stops
  with the message that it must be BOOL; a row passes exactly when the value of the predicate is true.\<close>

lemma validated_predicate_passes:
  assumes "require_bool_expression sch (Some e)" "homogeneous sch (Some e)" "tables_named sch" "row_conforms sch row"
    and "compile_predicate sch (Some e) = Some prog" "times_ok sch row e" "evaluate sch row e = Some v"
    and "length stack = length (snd prog)"
  shows "passes prog stack row = Some (Inr (v = VBool True))"
proof -
  obtain T where T: "infer_expression_type sch (Some e) = Some T" "bool_or_null (Some T)"
    using assms(1) by (auto simp: require_bool_expression_def bool_or_null_def)
  obtain root nodes where p: "prog = (root, nodes)" "compile_node sch (Some e) [] = (Some root, nodes)"
    using assms(5) by (auto simp: compile_predicate_def split: prod.splits option.splits)
  have ok: "comparable sch row e" using validated_comparable [OF p(2) T(1) assms(2-4,6)] .
  obtain s where s: "run_nodes row nodes 0 stack = Some (Inr s)" "length s = length stack" "s ! root = v" "root < length stack"
    using compiled_run [OF p(2) ok assms(7), of stack] assms(8) p(1) by auto
  have "predicate_truth v = Some (v = VBool True)"
    using evaluate_type(1) [OF assms(3,4) T(1) assms(2,7)] T(2)
    by (cases v) (auto simp: bool_or_null_def predicate_truth_def)
  then show ?thesis using s unfolding passes_def p(1) by (simp add: cell_def)
qed

text \<open>COALESCE hides a type error.  The planner types COALESCE by its first argument alone, so it accepts COALESCE of
  NULL and an integer as a predicate, whose value is then no truth value.\<close>

lemma coalesce_accepted_not_bool:
  "let e = BinaryOp ''COALESCE'' (Some (Literal VNull)) (Some (Literal (VInt32 n))) in
   require_bool_expression sch (Some e) \<and> evaluate sch row e = Some (VInt32 n) \<and> predicate_truth (VInt32 n) = None"
  by (simp add: require_bool_expression_def bool_or_null_def is_aggregate_op_def binary_type_def is_comparison_op_def
      binary_value_def is_comparison_def predicate_truth_def)

end
