(* ===== verification/Executor.thy ===== *)
theory Executor
  imports Semantic_Validator Tuple_Key Hash_Map
begin

section \<open>Executors\<close>

text \<open>
  The iterator interface of \<^verbatim>\<open>src/src/sql/executor/executor.h\<close>.  An executor has a state, a function for
  \<^verbatim>\<open>init\<close> and one for \<^verbatim>\<open>next\<close>; both also read and write the thread's error message, the second
  component of what they pass on.  A call that runs into undefined behaviour or never returns is
  \<open>None\<close>.  The locale \<open>executor\<close> is what an operator relies on for its children: after \<^verbatim>\<open>init\<close> the
  calls of \<^verbatim>\<open>next\<close> give the rows of a list one after the other and then none.  After that only \<^verbatim>\<open>init\<close>
  may be called again.
\<close>

type_synonym 's world = "'s \<times> string option"
type_synonym 's init_fun = "'s world \<Rightarrow> 's world option"
type_synonym 's next_fun = "'s world \<Rightarrow> (tuple option \<times> 's world) option"

definition set_executor_error :: "string \<Rightarrow> 's world \<Rightarrow> 's world" where
  "set_executor_error message w = (fst w, Some message)"

definition new_row :: "db_value list \<Rightarrow> tuple" where
  "new_row values = empty_tuple\<lparr>t_values := values\<rparr>"

text \<open>The loop with which operators read a child to its end.\<close>

partial_function (option) drain_loop :: "'s next_fun \<Rightarrow> 's world \<Rightarrow> tuple list \<Rightarrow> (tuple list \<times> 's world) option" where
  "drain_loop nxt w acc =
     do { (r, w') \<leftarrow> nxt w;
          case r of None \<Rightarrow> Some (acc, w') | Some t \<Rightarrow> drain_loop nxt w' (acc @ [t]) }"

text \<open>What a client of a whole statement does: \<^verbatim>\<open>init\<close>, then \<^verbatim>\<open>next\<close> until there is no row.\<close>

definition run_executor :: "'s init_fun \<Rightarrow> 's next_fun \<Rightarrow> 's \<Rightarrow> (tuple list \<times> 's world) option" where
  "run_executor ini nxt s = do { w \<leftarrow> ini (s, None); drain_loop nxt w [] }"

locale executor =
  fixes ini :: "'s init_fun" and nxt :: "'s next_fun"
    and ready :: "'s \<Rightarrow> bool" and running :: "'s \<Rightarrow> bool"
    and all_rows :: "'s \<Rightarrow> tuple list" and rows :: "'s \<Rightarrow> tuple list"
  assumes running_ready: "running s \<Longrightarrow> ready s"
    and init_ok: "ready s \<Longrightarrow> \<exists>s'. ini (s, None) = Some (s', None) \<and> running s' \<and> rows s' = all_rows s \<and> all_rows s' = all_rows s"
    and next_row: "running s \<Longrightarrow> rows s = t # ts \<Longrightarrow>
      \<exists>s'. nxt (s, None) = Some (Some t, s', None) \<and> running s' \<and> rows s' = ts \<and> all_rows s' = all_rows s"
    and next_end: "running s \<Longrightarrow> rows s = [] \<Longrightarrow>
      \<exists>s'. nxt (s, None) = Some (None, s', None) \<and> ready s' \<and> all_rows s' = all_rows s"
begin

lemma drain_loop_rows:
  assumes "running s"
  shows "\<exists>s'. drain_loop nxt (s, None) acc = Some (acc @ rows s, s', None) \<and> ready s' \<and> all_rows s' = all_rows s"
  using assms
proof (induction "rows s" arbitrary: s acc)
  case Nil
  then show ?case using next_end [of s] by (subst drain_loop.simps) auto
next
  case (Cons t ts)
  obtain s1 where s1: "nxt (s, None) = Some (Some t, s1, None)" "running s1" "rows s1 = ts" "all_rows s1 = all_rows s"
    using next_row [OF Cons.prems Cons.hyps(2) [symmetric]] by blast
  then show ?case
    using Cons.hyps(1) [of s1 "acc @ [t]"] Cons.hyps(2) [symmetric] by (subst drain_loop.simps) auto
qed

lemma run_executor_rows:
  assumes "ready s"
  shows "\<exists>s'. run_executor ini nxt s = Some (all_rows s, s', None) \<and> ready s'"
proof -
  obtain s1 where s1: "ini (s, None) = Some (s1, None)" "running s1" "rows s1 = all_rows s"
    using init_ok [OF assms] by blast
  then show ?thesis using drain_loop_rows [OF s1(2), of "[]"] by (auto simp: run_executor_def)
qed

end

subsection \<open>Materialised rows\<close>

text \<open>The cursor over a buffer with which the operators that materialise hand out their rows.\<close>

record row_buffer =
  buffer :: "tuple list"
  cursor :: nat

definition buffer_next :: "row_buffer next_fun" where
  "buffer_next w =
     (case w of (s, err) \<Rightarrow>
      if cursor s \<ge> length (buffer s) then Some (None, s, err)
      else Some (Some (buffer s ! cursor s), s\<lparr>cursor := cursor s + 1\<rparr>, err))"

definition buffer_init :: "row_buffer init_fun" where
  "buffer_init w = (case w of (s, err) \<Rightarrow> Some (s\<lparr>cursor := 0\<rparr>, err))"

lemma drop_cons:
  assumes "drop n xs = t # ts"
  shows "n < length xs \<and> xs ! n = t \<and> drop (Suc n) xs = ts"
proof -
  have n: "n < length xs" using assms by (metis drop_all linorder_not_less list.distinct(1))
  then show ?thesis using assms Cons_nth_drop_Suc [OF n] by simp
qed

interpretation buf: executor buffer_init buffer_next "\<lambda>_. True" "\<lambda>_. True" buffer "\<lambda>s. drop (cursor s) (buffer s)"
  by unfold_locales (auto simp: buffer_init_def buffer_next_def dest!: drop_cons)

end
