(* ===== verification/Spill.thy ===== *)
theory Spill
  imports Executor
begin

section \<open>Spilled rows\<close>

text \<open>
  The temporary files into which the sort, distinct, aggregate and hash join executors write rows that do not
  fit their working memory: \<^verbatim>\<open>write_spill_tuple\<close> and \<^verbatim>\<open>read_spill_tuple\<close> of
  \<^verbatim>\<open>src/src/sql/executor/hash_join_executor.cpp\<close>, which the other executors repeat under other names.  A
  file is the list of its bytes.  What the operating system answers is the parameter \<open>temp_files\<close>.
\<close>

datatype temp_result = Made | Not_created | Not_opened

record temp_files =
  made :: "nat \<Rightarrow> temp_result"
  written :: "byte list \<Rightarrow> byte list \<Rightarrow> bool"
  reopened :: "nat \<Rightarrow> bool"

text \<open>Creating the n-th file of an operator may fail, so may appending bytes to given contents and opening the
  n-th file again.\<close>

definition spill_record :: "tuple \<Rightarrow> byte list" where
  "spill_record t = put_word (of_nat (tuple_serialized_size t) :: u32) @ serialize_to_page t"

definition write_spill_tuple :: "temp_files \<Rightarrow> byte list \<Rightarrow> tuple \<Rightarrow> byte list option" where
  "write_spill_tuple tmp file t =
     (if written tmp file (spill_record t) then Some (file @ spill_record t) else None)"

text \<open>\<open>Inl None\<close> is the end of the file, \<open>Inl (Some message)\<close> an error.\<close>

definition read_spill_tuple :: "string \<Rightarrow> schema \<Rightarrow> byte list \<Rightarrow> string option + tuple \<times> byte list" where
  "read_spill_tuple what sch file =
     (case take_word file of
        None \<Rightarrow> Inl None
      | Some (len :: u32, rest) \<Rightarrow>
          if len = 0 \<or> unat len > 64 * 1024 * 1024 then Inl (Some (''corrupt '' @ what @ '' spill file''))
          else
            (case take_bytes (unat len) rest of
               None \<Rightarrow> Inl (Some (''failed to read '' @ what @ '' spill file''))
             | Some (bytes, rest') \<Rightarrow> Inr (deserialize_from_page bytes sch, rest')))"

lemma read_spill_shorter: "read_spill_tuple what sch file = Inr (t, rest) \<Longrightarrow> length rest < length file"
  by (auto simp: read_spill_tuple_def take_word_def take_bytes_def split: option.splits if_splits prod.splits)

text \<open>Reading to the end: the rows, and the error that stopped it.\<close>

function read_spill_all :: "string \<Rightarrow> schema \<Rightarrow> byte list \<Rightarrow> tuple list \<times> string option" where
  "read_spill_all what sch file =
     (case read_spill_tuple what sch file of
        Inl e \<Rightarrow> ([], e)
      | Inr (t, rest) \<Rightarrow> (case read_spill_all what sch rest of (ts, e) \<Rightarrow> (t # ts, e)))"
  by pat_completeness auto
termination by (relation "measure (\<lambda>(_, _, file). length file)") (auto dest: read_spill_shorter)

declare read_spill_all.simps [simp del]

section \<open>Laws\<close>

text \<open>Rows that survive a temporary file.\<close>

definition spillable :: "schema \<Rightarrow> tuple \<Rightarrow> bool" where
  "spillable sch t \<longleftrightarrow> tuple_ok t \<and> length (t_values t) = length sch \<and> tuple_serialized_size t \<le> 64 * 1024 * 1024"

lemma size_positive: "tuple_serialized_size t > 0"
proof -
  have "(30 + (length (t_values t) + 7) div 8 :: nat) \<le> tuple_serialized_size t"
    unfolding tuple_serialized_size_def
    by (rule fold_invariant [where Q = "\<lambda>_. True" and P = "\<lambda>n. 30 + (length (t_values t) + 7) div 8 \<le> n"]) auto
  then show ?thesis by simp
qed

lemma read_spill_record:
  assumes "spillable sch t"
  shows "read_spill_tuple what sch (spill_record t @ rest) = Inr (t, rest)"
proof -
  let ?n = "tuple_serialized_size t"
  have len: "length (serialize_to_page t) = ?n"
    using assms by (simp add: spillable_def serialize_to_page_def tuple_serialized_size_def tuple_header_def tuple_ok_def length_images)
  have n: "unat (of_nat ?n :: u32) = ?n" using assms by (simp add: spillable_def unat_of_nat)
  then have nz: "(of_nat ?n :: u32) \<noteq> 0" using size_positive [of t] by (metis unat_0 less_irrefl)
  have "row_at_schema sch t = t" using assms by (simp add: row_at_schema_def pad_defaults_def spillable_def)
  then have "deserialize_from_page (serialize_to_page t) sch = t"
    using deserialize_image [of t "[]" sch] assms by (simp add: spillable_def)
  then show ?thesis
    using n nz len assms by (simp add: read_spill_tuple_def spill_record_def spillable_def take_bytes_def)
qed

lemma read_spill_records:
  "\<forall>t \<in> set ts. spillable sch t \<Longrightarrow> read_spill_all what sch (concat (map spill_record ts)) = (ts, None)"
proof (induction ts)
  case Nil
  then show ?case by (subst read_spill_all.simps) (simp add: read_spill_tuple_def take_word_def)
next
  case (Cons t ts)
  then show ?case by (subst read_spill_all.simps) (simp add: read_spill_record)
qed

text \<open>Temporary files that work, and the contents of a file of rows.\<close>

definition temps_work :: "temp_files \<Rightarrow> bool" where
  "temps_work tmp \<longleftrightarrow> (\<forall>n. made tmp n = Made \<and> reopened tmp n) \<and> (\<forall>f bytes. written tmp f bytes)"

lemma write_works: "temps_work tmp \<Longrightarrow> write_spill_tuple tmp f t = Some (f @ spill_record t)"
  by (simp add: temps_work_def write_spill_tuple_def)

definition file_of :: "tuple list \<Rightarrow> byte list" where
  "file_of ts = concat (map spill_record ts)"

lemma file_of_simps [simp]: "file_of [] = []" "file_of (t # ts) = spill_record t @ file_of ts"
  by (simp_all add: file_of_def)

lemma read_spill_empty [simp]: "read_spill_tuple what sch [] = Inl None"
  by (simp add: read_spill_tuple_def take_word_def)

end
