(* ===== verification/Row_Operators.thy ===== *)
theory Row_Operators
  imports Executor
begin

section \<open>Operators on single rows\<close>

text \<open>
  Models of \<^verbatim>\<open>filter.cpp\<close>, \<^verbatim>\<open>project.cpp\<close>, \<^verbatim>\<open>limit_executor.cpp\<close>, \<^verbatim>\<open>union_executor.cpp\<close> and
  \<^verbatim>\<open>subquery_in_executor.cpp\<close> under \<^verbatim>\<open>src/src/sql/executor\<close>, each as functions of the functions
  of its children, and the lemmas that they are executors when their children are, with the rows of
  the relational operation.  The schema of the rows of a child is a parameter.
\<close>

subsection \<open>Filter\<close>

text \<open>The test of one row.  The flag tells whether an error ends the scan: the compiled predicate sets the message
  and goes on, the interpreter stops.  What the cells of the program hold does not matter (\<open>passes_stack\<close>).\<close>

definition filter_test :: "schema \<Rightarrow> expr \<Rightarrow> tuple \<Rightarrow> (bool \<times> (string + bool)) option" where
  "filter_test sch predicate t =
     (case compile_predicate sch (Some predicate) of
        Some prog \<Rightarrow> map_option (Pair False) (passes prog (replicate (length (snd prog)) VNull) t)
      | None \<Rightarrow>
          do { cond \<leftarrow> (case fast_evaluate sch t predicate of Some r \<Rightarrow> r | None \<Rightarrow> evaluate sch t predicate);
               Some (True, case predicate_truth cond of None \<Rightarrow> Inl not_bool | Some b \<Rightarrow> Inr b) })"

definition filter_init :: "'s init_fun \<Rightarrow> 's init_fun" where
  "filter_init child_init w = child_init w"

partial_function (option) filter_next :: "'s next_fun \<Rightarrow> schema \<Rightarrow> expr \<Rightarrow> 's next_fun" where
  "filter_next child_next sch predicate w =
     do { (r, w1) \<leftarrow> child_next w;
          case r of
            None \<Rightarrow> Some (None, w1)
          | Some t \<Rightarrow>
              do { (stop, b) \<leftarrow> filter_test sch predicate t;
                   case b of
                     Inl err \<Rightarrow>
                       if stop then Some (None, set_executor_error err w1)
                       else filter_next child_next sch predicate (set_executor_error err w1)
                   | Inr pass \<Rightarrow> if pass then Some (Some t, w1) else filter_next child_next sch predicate w1 } }"

subsection \<open>Project\<close>

fun evaluate_all :: "schema \<Rightarrow> tuple \<Rightarrow> expr list \<Rightarrow> db_value list option" where
  "evaluate_all sch t [] = Some []"
| "evaluate_all sch t (e # es) = do { v \<leftarrow> evaluate sch t e; vs \<leftarrow> evaluate_all sch t es; Some (v # vs) }"

definition project_row :: "schema \<Rightarrow> nat list \<Rightarrow> expr list \<Rightarrow> tuple \<Rightarrow> tuple option" where
  "project_row sch col_indices expressions t =
     map_option (\<lambda>vs. new_row (map (\<lambda>i. if i < length (t_values t) then get_value t i else VNull) col_indices @ vs))
       (evaluate_all sch t expressions)"

definition project_init :: "'s init_fun \<Rightarrow> 's init_fun" where
  "project_init child_init w = child_init w"

definition project_next :: "'s next_fun \<Rightarrow> schema \<Rightarrow> nat list \<Rightarrow> expr list \<Rightarrow> 's next_fun" where
  "project_next child_next sch col_indices expressions w =
     do { (r, w1) \<leftarrow> child_next w;
          case r of
            None \<Rightarrow> Some (None, w1)
          | Some t \<Rightarrow> map_option (\<lambda>t'. (Some t', w1)) (project_row sch col_indices expressions t) }"

subsection \<open>Limit\<close>

text \<open>The counters are 32-bit; counting past the largest one is undefined.\<close>

record 's limit_state =
  limit_child :: 's
  rows_returned :: int
  rows_skipped :: int
  limit_done :: bool

definition count_up :: "int \<Rightarrow> int option" where
  "count_up n = (if n < 2 ^ 31 - 1 then Some (n + 1) else None)"

definition limit_init :: "'s init_fun \<Rightarrow> 's limit_state init_fun" where
  "limit_init child_init w =
     (case w of (s, err) \<Rightarrow>
      map_option (\<lambda>(c, err'). (\<lparr>limit_child = c, rows_returned = 0, rows_skipped = 0, limit_done = False\<rparr>, err'))
        (child_init (limit_child s, err)))"

text \<open>The loop over OFFSET; the flag is false when the child ended.\<close>

function limit_skip :: "'s next_fun \<Rightarrow> int \<Rightarrow> int \<Rightarrow> 's world \<Rightarrow> (bool \<times> int \<times> 's world) option" where
  "limit_skip child_next offset skipped w =
     (if skipped < offset
      then do { (r, w1) \<leftarrow> child_next w;
                case r of None \<Rightarrow> Some (False, skipped, w1) | Some t \<Rightarrow> limit_skip child_next offset (skipped + 1) w1 }
      else Some (True, skipped, w))"
  by pat_completeness auto
termination by (relation "measure (\<lambda>(_, offset, skipped, _). nat (offset - skipped))") auto

declare limit_skip.simps [simp del]

definition limit_next :: "'s next_fun \<Rightarrow> int \<Rightarrow> int \<Rightarrow> 's limit_state next_fun" where
  "limit_next child_next limit offset w =
     (case w of (s, err) \<Rightarrow>
      if limit_done s then Some (None, s, err)
      else
        do { (more, skipped, c1, err1) \<leftarrow> limit_skip child_next offset (rows_skipped s) (limit_child s, err);
             let s1 = s\<lparr>limit_child := c1, rows_skipped := skipped\<rparr>;
             if \<not> more then Some (None, s1\<lparr>limit_done := True\<rparr>, err1)
             else if limit \<ge> 0 \<and> rows_returned s1 \<ge> limit then Some (None, s1\<lparr>limit_done := True\<rparr>, err1)
             else
               do { (r, c2, err2) \<leftarrow> child_next (c1, err1);
                    let s2 = s1\<lparr>limit_child := c2\<rparr>;
                    case r of
                      None \<Rightarrow> Some (None, s2\<lparr>limit_done := True\<rparr>, err2)
                    | Some t \<Rightarrow>
                        do { n \<leftarrow> count_up (rows_returned s2);
                             Some (Some t, s2\<lparr>rows_returned := n, limit_done := (limit \<ge> 0 \<and> n \<ge> limit)\<rparr>, err2) } } })"

subsection \<open>Union\<close>

record ('l, 'r) union_state =
  union_left :: 'l
  union_right :: 'r
  left_done :: bool
  union_buffer :: "tuple list"
  union_cursor :: nat

definition union_init :: "'l init_fun \<Rightarrow> 'r init_fun \<Rightarrow> ('l, 'r) union_state init_fun" where
  "union_init left_init right_init w =
     (case w of (s, err) \<Rightarrow>
      do { (l, err1) \<leftarrow> left_init (union_left s, err);
           (r, err2) \<leftarrow> right_init (union_right s, err1);
           Some (s\<lparr>union_left := l, union_right := r, left_done := False\<rparr>, err2) })"

definition add_unseen :: "tuple \<Rightarrow> (string, bool) hash_map \<times> tuple list \<Rightarrow> (string, bool) hash_map \<times> tuple list" where
  "add_unseen t acc =
     (case acc of (seen, out) \<Rightarrow>
      let key = make_tuple_key t in
      if hm_find hash_string seen key = None then (hm_insert hash_string key True seen, out @ [t]) else (seen, out))"

definition union_materialize ::
  "'l next_fun \<Rightarrow> 'r next_fun \<Rightarrow> ('l, 'r) union_state world \<Rightarrow> ('l, 'r) union_state world option" where
  "union_materialize left_next right_next w =
     (case w of (s, err) \<Rightarrow>
      do { (ls, l, err1) \<leftarrow> drain_loop left_next (union_left s, err) [];
           (rs, r, err2) \<leftarrow> drain_loop right_next (union_right s, err1) [];
           let (seen, out) = fold add_unseen rs (fold add_unseen ls (hm_empty, []));
           Some (s\<lparr>union_left := l, union_right := r, left_done := True, union_buffer := out, union_cursor := 0\<rparr>, err2) })"

definition union_next :: "'l next_fun \<Rightarrow> 'r next_fun \<Rightarrow> bool \<Rightarrow> ('l, 'r) union_state next_fun" where
  "union_next left_next right_next all w =
     (if all
      then
        (case w of (s, err) \<Rightarrow>
         let read_right = (\<lambda>s err. do { (r, c, err') \<leftarrow> right_next (union_right s, err); Some (r, s\<lparr>union_right := c\<rparr>, err') }) in
         if left_done s then read_right s err
         else
           do { (r, c, err1) \<leftarrow> left_next (union_left s, err);
                case r of
                  Some t \<Rightarrow> Some (Some t, s\<lparr>union_left := c\<rparr>, err1)
                | None \<Rightarrow> read_right (s\<lparr>union_left := c, left_done := True\<rparr>) err1 })
      else
        do { (s, err) \<leftarrow> (if left_done (fst w) then Some w else union_materialize left_next right_next w);
             if union_cursor s \<ge> length (union_buffer s) then Some (None, s, err)
             else Some (Some (union_buffer s ! union_cursor s), s\<lparr>union_cursor := union_cursor s + 1\<rparr>, err) })"

subsection \<open>IN with a subquery\<close>

record ('c, 'q) subquery_state =
  in_child :: 'c
  in_subquery :: 'q
  subquery_keys :: "(string, bool) hash_map"
  materialized :: bool
  has_nulls :: bool

definition subquery_init :: "'c init_fun \<Rightarrow> ('c, 'q) subquery_state init_fun" where
  "subquery_init child_init w =
     (case w of (s, err) \<Rightarrow>
      map_option (\<lambda>(c, err'). (s\<lparr>in_child := c, subquery_keys := hm_empty, materialized := False, has_nulls := False\<rparr>, err'))
        (child_init (in_child s, err)))"

definition in_set :: "(string, bool) hash_map \<Rightarrow> db_value \<Rightarrow> bool" where
  "in_set keys v = (\<not> is_null v \<and> hm_find hash_string keys (encode_value_key v) \<noteq> None)"

definition add_subquery_row :: "nat \<Rightarrow> tuple \<Rightarrow> (string, bool) hash_map \<times> bool \<Rightarrow> (string, bool) hash_map \<times> bool" where
  "add_subquery_row right_col_idx t acc =
     (case acc of (keys, nulls) \<Rightarrow>
      let val = get_value t right_col_idx in
      if is_null val then (keys, True) else (hm_insert hash_string (encode_value_key val) True keys, nulls))"

definition subquery_materialize ::
  "'q init_fun \<Rightarrow> 'q next_fun \<Rightarrow> nat \<Rightarrow> ('c, 'q) subquery_state world \<Rightarrow> ('c, 'q) subquery_state world option" where
  "subquery_materialize sub_init sub_next right_col_idx w =
     (case w of (s, err) \<Rightarrow>
      if materialized s then Some w
      else
        do { w1 \<leftarrow> sub_init (in_subquery s, err);
             (rs, q, err2) \<leftarrow> drain_loop sub_next w1 [];
             let (keys, nulls) = fold (add_subquery_row right_col_idx) rs (subquery_keys s, has_nulls s);
             Some (s\<lparr>in_subquery := q, subquery_keys := keys, has_nulls := nulls, materialized := True\<rparr>, err2) })"

definition subquery_passes :: "bool \<Rightarrow> bool \<Rightarrow> (string, bool) hash_map \<Rightarrow> db_value \<Rightarrow> bool" where
  "subquery_passes negate nulls keys left_val =
     (if is_null left_val then False
      else if negate then \<not> nulls \<and> \<not> in_set keys left_val
      else in_set keys left_val)"

partial_function (option) subquery_scan ::
  "'c next_fun \<Rightarrow> schema \<Rightarrow> expr \<Rightarrow> bool \<Rightarrow> bool \<Rightarrow> (string, bool) hash_map \<Rightarrow> 'c next_fun" where
  "subquery_scan child_next sch left_expr negate nulls keys w =
     do { (r, w1) \<leftarrow> child_next w;
          case r of
            None \<Rightarrow> Some (None, w1)
          | Some t \<Rightarrow>
              do { left_val \<leftarrow> evaluate sch t left_expr;
                   if subquery_passes negate nulls keys left_val then Some (Some t, w1)
                   else subquery_scan child_next sch left_expr negate nulls keys w1 } }"

definition subquery_next ::
  "'c next_fun \<Rightarrow> 'q init_fun \<Rightarrow> 'q next_fun \<Rightarrow> schema \<Rightarrow> expr \<Rightarrow> nat \<Rightarrow> bool \<Rightarrow> ('c, 'q) subquery_state next_fun" where
  "subquery_next child_next sub_init sub_next sch left_expr right_col_idx negate w =
     do { (s, err) \<leftarrow> subquery_materialize sub_init sub_next right_col_idx w;
          (r, c, err1) \<leftarrow> subquery_scan child_next sch left_expr negate (has_nulls s) (subquery_keys s) (in_child s, err);
          Some (r, s\<lparr>in_child := c\<rparr>, err1) }"

section \<open>Laws\<close>

subsection \<open>Filter and project\<close>

text \<open>Rows on which the predicate gives a truth value.\<close>

definition testable :: "schema \<Rightarrow> expr \<Rightarrow> tuple list \<Rightarrow> bool" where
  "testable sch p ts \<longleftrightarrow> (\<forall>t \<in> set ts. \<exists>stop b. filter_test sch p t = Some (stop, Inr b))"

definition selected :: "schema \<Rightarrow> expr \<Rightarrow> tuple \<Rightarrow> bool" where
  "selected sch p t \<longleftrightarrow> (\<exists>stop. filter_test sch p t = Some (stop, Inr True))"

context executor
begin

lemma filter_next_rows:
  assumes "running s" "testable sch p (rows s)"
  shows "case filter (selected sch p) (rows s) of
      [] \<Rightarrow> \<exists>s'. filter_next nxt sch p (s, None) = Some (None, s', None) \<and> ready s' \<and> all_rows s' = all_rows s
    | t # ts \<Rightarrow> \<exists>s'. filter_next nxt sch p (s, None) = Some (Some t, s', None) \<and> running s' \<and> testable sch p (rows s') \<and>
        filter (selected sch p) (rows s') = ts \<and> all_rows s' = all_rows s"
  using assms
proof (induction "rows s" arbitrary: s)
  case Nil
  then show ?case using next_end [of s] by (subst filter_next.simps) auto
next
  case (Cons t ts)
  obtain s1 where s1: "nxt (s, None) = Some (Some t, s1, None)" "running s1" "rows s1 = ts" "all_rows s1 = all_rows s"
    using next_row [OF Cons.prems(1) Cons.hyps(2) [symmetric]] by blast
  have rest: "testable sch p (rows s1)" using Cons.prems(2) Cons.hyps(2) [symmetric] s1(3) by (simp add: testable_def)
  obtain stop b where b: "filter_test sch p t = Some (stop, Inr b)"
    using Cons.prems(2) Cons.hyps(2) [symmetric] by (auto simp: testable_def)
  show ?case
  proof (cases b)
    case True
    have "filter_next nxt sch p (s, None) = Some (Some t, s1, None)"
      by (subst filter_next.simps) (simp add: s1(1) b True)
    then show ?thesis using Cons.hyps(2) [symmetric] b True s1 rest by (simp add: selected_def)
  next
    case False
    have step: "filter_next nxt sch p (s, None) = filter_next nxt sch p (s1, None)"
      by (subst filter_next.simps) (simp add: s1(1) b False)
    have "filter (selected sch p) (rows s) = filter (selected sch p) (rows s1)"
      using Cons.hyps(2) [symmetric] b False s1(3) by (simp add: selected_def)
    then show ?thesis using Cons.hyps(1) [OF s1(3) [symmetric] s1(2) rest] unfolding step s1(4) by metis
  qed
qed

lemma filter_executor:
  "executor (filter_init ini) (filter_next nxt sch p) (\<lambda>s. ready s \<and> testable sch p (all_rows s))
     (\<lambda>s. running s \<and> testable sch p (rows s) \<and> testable sch p (all_rows s))
     (\<lambda>s. filter (selected sch p) (all_rows s)) (\<lambda>s. filter (selected sch p) (rows s))"
proof (unfold_locales, goal_cases)
  case (2 s)
  then show ?case using init_ok [of s] by (auto simp: filter_init_def)
next
  case (3 s t ts)
  then show ?case using filter_next_rows [of s sch p] by auto
next
  case (4 s)
  then show ?case using filter_next_rows [of s sch p] by auto
qed (use running_ready in auto)

lemma project_executor:
  "executor (project_init ini) (project_next nxt sch cols es)
     (\<lambda>s. ready s \<and> (\<forall>t \<in> set (all_rows s). project_row sch cols es t \<noteq> None))
     (\<lambda>s. running s \<and> (\<forall>t \<in> set (rows s) \<union> set (all_rows s). project_row sch cols es t \<noteq> None))
     (\<lambda>s. map (the \<circ> project_row sch cols es) (all_rows s)) (\<lambda>s. map (the \<circ> project_row sch cols es) (rows s))"
proof (unfold_locales, goal_cases)
  case (2 s)
  then show ?case using init_ok [of s] by (auto simp: project_init_def)
next
  case (3 s t ts)
  then obtain u us where u: "rows s = u # us" "t = the (project_row sch cols es u)" "ts = map (the \<circ> project_row sch cols es) us"
    by (cases "rows s") auto
  then obtain t' where "project_row sch cols es u = Some t'" using 3(1) by auto
  then show ?case using next_row [of s u us] 3(1) u by (auto simp: project_next_def)
next
  case (4 s)
  then show ?case using next_end [of s] by (auto simp: project_next_def)
qed (use running_ready in auto)

end

subsection \<open>Limit\<close>

definition limit_rows :: "int \<Rightarrow> int \<Rightarrow> 'a list \<Rightarrow> 'a list" where
  "limit_rows limit offset xs = (let ys = drop (nat offset) xs in if limit < 0 then ys else take (nat limit) ys)"

context executor
begin

lemma limit_skip_rows:
  assumes "running s"
  shows "if offset - skipped > int (length (rows s))
    then \<exists>k s'. limit_skip nxt offset skipped (s, None) = Some (False, k, s', None) \<and> ready s' \<and> all_rows s' = all_rows s
    else \<exists>s'. limit_skip nxt offset skipped (s, None) = Some (True, max skipped offset, s', None) \<and> running s' \<and>
      rows s' = drop (nat (offset - skipped)) (rows s) \<and> all_rows s' = all_rows s"
  using assms
proof (induction "rows s" arbitrary: s skipped)
  case Nil
  show ?case
  proof (cases "skipped < offset")
    case True
    then show ?thesis using next_end [OF Nil(2) Nil(1) [symmetric]] Nil(1) [symmetric]
      by (subst (1 2) limit_skip.simps) auto
  next
    case False
    then show ?thesis using Nil by (subst (1 2) limit_skip.simps) (auto simp: max_def)
  qed
next
  case (Cons t ts)
  obtain s1 where s1: "nxt (s, None) = Some (Some t, s1, None)" "running s1" "rows s1 = ts" "all_rows s1 = all_rows s"
    using next_row [OF Cons.prems Cons.hyps(2) [symmetric]] by blast
  show ?case
  proof (cases "skipped < offset")
    case True
    have step: "limit_skip nxt offset skipped (s, None) = limit_skip nxt offset (skipped + 1) (s1, None)"
      by (subst limit_skip.simps) (simp add: True s1(1))
    have "drop (nat (offset - skipped)) (rows s) = drop (nat (offset - (skipped + 1))) ts"
      using True Cons.hyps(2) [symmetric] by (simp add: drop_Cons' nat_diff_distrib' flip: diff_diff_eq)
    then show ?thesis
      using Cons.hyps(1) [OF s1(3) [symmetric] s1(2), of "skipped + 1"] True Cons.hyps(2) [symmetric] s1(3,4)
      unfolding step by (auto split: if_splits)
  next
    case False
    then show ?thesis using Cons by (subst (1 2) limit_skip.simps) (auto simp: max_def)
  qed
qed

definition limit_running :: "int \<Rightarrow> 's limit_state \<Rightarrow> bool" where
  "limit_running limit s \<longleftrightarrow>
     (if limit_done s then ready (limit_child s)
      else running (limit_child s) \<and> (limit \<ge> 0 \<longrightarrow> rows_returned s \<le> limit) \<and>
        rows_returned s + int (length (rows (limit_child s))) < 2 ^ 31) \<and>
     0 \<le> rows_returned s \<and> length (all_rows (limit_child s)) < 2 ^ 31"

definition limit_left :: "int \<Rightarrow> int \<Rightarrow> 's limit_state \<Rightarrow> tuple list" where
  "limit_left limit offset s =
     (if limit_done s then []
      else limit_rows (if limit < 0 then limit else limit - rows_returned s) (offset - rows_skipped s) (rows (limit_child s)))"

lemma limit_next_rows:
  assumes "limit_running limit s"
  shows "case limit_left limit offset s of
      [] \<Rightarrow> \<exists>s'. limit_next nxt limit offset (s, None) = Some (None, s', None) \<and> ready (limit_child s') \<and>
        all_rows (limit_child s') = all_rows (limit_child s)
    | t # ts \<Rightarrow> \<exists>s'. limit_next nxt limit offset (s, None) = Some (Some t, s', None) \<and> limit_running limit s' \<and>
        limit_left limit offset s' = ts \<and> all_rows (limit_child s') = all_rows (limit_child s)"
proof (cases "limit_done s")
  case True
  then show ?thesis using assms by (simp add: limit_left_def limit_next_def limit_running_def)
next
  case False
  let ?c = "limit_child s" and ?k = "nat (offset - rows_skipped s)"
  have c: "running ?c" "limit \<ge> 0 \<longrightarrow> rows_returned s \<le> limit" "0 \<le> rows_returned s" "length (all_rows ?c) < 2 ^ 31"
      "rows_returned s + int (length (rows ?c)) < 2 ^ 31"
    using assms False by (auto simp: limit_running_def)
  show ?thesis
  proof (cases "offset - rows_skipped s > int (length (rows ?c))")
    case True
    then obtain k c1 where k: "limit_skip nxt offset (rows_skipped s) (?c, None) = Some (False, k, c1, None)" "ready c1"
        "all_rows c1 = all_rows ?c"
      using limit_skip_rows [OF c(1), of offset "rows_skipped s"] by auto
    have "limit_left limit offset s = []" using True by (simp add: limit_left_def limit_rows_def Let_def)
    then show ?thesis using k False by (simp add: limit_next_def Let_def)
  next
    case skip: False
    then obtain c1 where k: "limit_skip nxt offset (rows_skipped s) (?c, None) = Some (True, max (rows_skipped s) offset, c1, None)"
        "running c1" "rows c1 = drop ?k (rows ?c)" "all_rows c1 = all_rows ?c"
      using limit_skip_rows [OF c(1), of offset "rows_skipped s"] by auto
    show ?thesis
    proof (cases "limit \<ge> 0 \<and> rows_returned s \<ge> limit")
      case True
      then have "limit_left limit offset s = []" using c(2) False by (simp add: limit_left_def limit_rows_def Let_def)
      then show ?thesis using k False True running_ready by (simp add: limit_next_def Let_def)
    next
      case more: False
      show ?thesis
      proof (cases "rows c1")
        case Nil
        then obtain c2 where "nxt (c1, None) = Some (None, c2, None)" "ready c2" "all_rows c2 = all_rows c1"
          using next_end k(2) by blast
        moreover have "limit_left limit offset s = []" using Nil k(3) by (simp add: limit_left_def limit_rows_def Let_def)
        ultimately show ?thesis using k False more running_ready by (simp add: limit_next_def Let_def)
      next
        case (Cons t ts)
        then obtain c2 where c2: "nxt (c1, None) = Some (Some t, c2, None)" "running c2" "rows c2 = ts" "all_rows c2 = all_rows c1"
          using next_row k(2) by blast
        have len: "rows_returned s + 1 + int (length ts) < 2 ^ 31"
          using c(5) arg_cong [OF k(3), of length] Cons by simp
        have left: "limit_left limit offset s = t # (if limit < 0 then ts else take (nat (limit - rows_returned s - 1)) ts)"
          using False more k(3) Cons
          by (auto simp: limit_left_def limit_rows_def Let_def take_Cons' nat_diff_distrib' simp flip: k(3))
        show ?thesis
          using k(1,4) c2 False more len c(3,4) running_ready unfolding left
          by (auto simp: limit_next_def Let_def count_up_def limit_running_def limit_left_def limit_rows_def algebra_simps)
      qed
    qed
  qed
qed

lemma limit_executor:
  "executor (limit_init ini) (limit_next nxt limit offset)
     (\<lambda>s. ready (limit_child s) \<and> length (all_rows (limit_child s)) < 2 ^ 31) (limit_running limit)
     (\<lambda>s. limit_rows limit offset (all_rows (limit_child s))) (limit_left limit offset)"
proof (unfold_locales, goal_cases)
  case (1 s)
  then show ?case using running_ready by (auto simp: limit_running_def split: if_splits)
next
  case (2 s)
  then show ?case using init_ok [of "limit_child s"] by (auto simp: limit_init_def limit_running_def limit_left_def)
next
  case (3 s t ts)
  then show ?case using limit_next_rows [of limit s offset] by auto
next
  case (4 s)
  moreover have "length (all_rows (limit_child s)) < 2 ^ 31" using 4(1) by (simp add: limit_running_def)
  ultimately show ?case using limit_next_rows [of limit s offset] by auto
qed

end

subsection \<open>Union\<close>

text \<open>The rows whose key is new, each at its first place.\<close>

fun keep_first :: "('a \<Rightarrow> 'k) \<Rightarrow> 'k set \<Rightarrow> 'a list \<Rightarrow> 'a list" where
  "keep_first f seen [] = []"
| "keep_first f seen (x # xs) =
     (if f x \<in> seen then keep_first f seen xs else x # keep_first f (insert (f x) seen) xs)"

lemma keep_first_append:
  "keep_first f seen (xs @ ys) = keep_first f seen xs @ keep_first f (seen \<union> f ` set xs) ys"
  by (induction f seen xs rule: keep_first.induct) (auto simp: insert_absorb)

lemma keep_first_keys:
  "f ` set (keep_first f seen xs) = f ` set xs - seen \<and> distinct (map f (keep_first f seen xs)) \<and>
   set (keep_first f seen xs) \<subseteq> set xs"
  by (induction f seen xs rule: keep_first.induct) auto

lemma add_unseen_fold:
  assumes "hm_inv hash_string seen"
  shows "\<exists>seen'. fold add_unseen ts (seen, out) = (seen', out @ keep_first make_tuple_key (dom (hm_find hash_string seen)) ts) \<and>
    hm_inv hash_string seen' \<and> dom (hm_find hash_string seen') = dom (hm_find hash_string seen) \<union> make_tuple_key ` set ts"
  using assms
proof (induction ts arbitrary: seen out)
  case (Cons t ts)
  then show ?case
  proof (cases "hm_find hash_string seen (make_tuple_key t)")
    case None
    then have "add_unseen t (seen, out) = (hm_insert hash_string (make_tuple_key t) True seen, out @ [t])"
        "make_tuple_key t \<notin> dom (hm_find hash_string seen)"
      by (auto simp: add_unseen_def Let_def)
    then show ?thesis
      using Cons.IH [OF hm.invar_insert [OF Cons.prems], of "make_tuple_key t" True "out @ [t]"]
      by (simp add: hm.find_insert [OF Cons.prems] dom_fun_upd del: fun_upd_apply)
  next
    case (Some b)
    then have "make_tuple_key t \<in> dom (hm_find hash_string seen)" by auto
    then show ?thesis using Cons.IH [OF Cons.prems, of out] Some by (auto simp: add_unseen_def Let_def insert_absorb)
  qed
qed simp

definition union_rows :: "tuple list \<Rightarrow> tuple list \<Rightarrow> tuple list" where
  "union_rows ls rs = keep_first make_tuple_key {} (ls @ rs)"

locale executor_pair =
  l: executor lini lnxt lready lrunning lall lrows + r: executor rini rnxt rready rrunning rall rrows
  for lini :: "'l init_fun" and lnxt and lready and lrunning and lall and lrows
    and rini :: "'r init_fun" and rnxt and rready and rrunning and rall and rrows
begin

lemma union_all_executor:
  "executor (union_init lini rini) (union_next lnxt rnxt True)
     (\<lambda>s. lready (union_left s) \<and> rready (union_right s))
     (\<lambda>s. (if left_done s then lready (union_left s) else lrunning (union_left s)) \<and> rrunning (union_right s))
     (\<lambda>s. lall (union_left s) @ rall (union_right s))
     (\<lambda>s. (if left_done s then [] else lrows (union_left s)) @ rrows (union_right s))"
proof (unfold_locales, goal_cases)
  case (1 s)
  then show ?case using l.running_ready r.running_ready by (auto split: if_splits)
next
  case (2 s)
  then show ?case using l.init_ok [of "union_left s"] r.init_ok [of "union_right s"] by (auto simp: union_init_def)
next
  case (3 s t ts)
  show ?case
  proof (cases "left_done s")
    case True
    then show ?thesis using 3 r.next_row [of "union_right s" t ts] by (auto simp: union_next_def Let_def)
  next
    case False
    show ?thesis
    proof (cases "lrows (union_left s)")
      case Nil
      obtain l' where "lnxt (union_left s, None) = Some (None, l', None)" "lready l'" "lall l' = lall (union_left s)"
        using 3(1) False Nil l.next_end [of "union_left s"] by auto
      moreover obtain r' where "rnxt (union_right s, None) = Some (Some t, r', None)" "rrunning r'" "rrows r' = ts"
          "rall r' = rall (union_right s)"
        using 3 False Nil r.next_row [of "union_right s" t ts] by auto
      ultimately show ?thesis using False by (simp add: union_next_def Let_def)
    next
      case (Cons u us)
      then obtain l' where "lnxt (union_left s, None) = Some (Some u, l', None)" "lrunning l'" "lrows l' = us"
          "lall l' = lall (union_left s)"
        using 3(1) False l.next_row [of "union_left s" u us] by auto
      then show ?thesis using 3 False Cons by (simp add: union_next_def Let_def)
    qed
  qed
next
  case (4 s)
  then have r: "rrunning (union_right s)" "rrows (union_right s) = []" by (auto split: if_splits)
  show ?case
  proof (cases "left_done s")
    case True
    then show ?thesis using 4 r.next_end [OF r] by (auto simp: union_next_def Let_def)
  next
    case False
    then show ?thesis using 4 r.next_end [OF r] l.next_end [of "union_left s"] by (auto simp: union_next_def Let_def)
  qed
qed

lemma union_materialize_rows:
  assumes "lrunning (union_left s)" "rrunning (union_right s)"
  obtains s' where "union_materialize lnxt rnxt (s, None) = Some (s', None)" "left_done s'" "union_cursor s' = 0"
    "union_buffer s' = union_rows (lrows (union_left s)) (rrows (union_right s))"
    "lready (union_left s')" "rready (union_right s')" "lall (union_left s') = lall (union_left s)"
    "rall (union_right s') = rall (union_right s)"
proof -
  obtain l' where l': "drain_loop lnxt (union_left s, None) [] = Some (lrows (union_left s), l', None)" "lready l'"
      "lall l' = lall (union_left s)"
    using l.drain_loop_rows [OF assms(1), of "[]"] by auto
  obtain r' where r': "drain_loop rnxt (union_right s, None) [] = Some (rrows (union_right s), r', None)" "rready r'"
      "rall r' = rall (union_right s)"
    using r.drain_loop_rows [OF assms(2), of "[]"] by auto
  obtain seen1 where s1: "fold add_unseen (lrows (union_left s)) (hm_empty, []) =
      (seen1, keep_first make_tuple_key {} (lrows (union_left s)))" "hm_inv hash_string seen1"
      "dom (hm_find hash_string seen1) = make_tuple_key ` set (lrows (union_left s))"
    using add_unseen_fold [OF hm.invar_empty, of "lrows (union_left s)" "[]"] by (auto simp: hm.find_empty)
  obtain seen2 where s2: "fold add_unseen (rrows (union_right s)) (seen1, keep_first make_tuple_key {} (lrows (union_left s))) =
      (seen2, union_rows (lrows (union_left s)) (rrows (union_right s)))"
    using add_unseen_fold [OF s1(2), of "rrows (union_right s)" "keep_first make_tuple_key {} (lrows (union_left s))"]
    by (auto simp: s1(3) union_rows_def keep_first_append)
  show ?thesis
    by (rule that [of "s\<lparr>union_left := l', union_right := r', left_done := True,
        union_buffer := union_rows (lrows (union_left s)) (rrows (union_right s)), union_cursor := 0\<rparr>"])
      (simp_all add: union_materialize_def l' r' s1(1) s2)
qed

lemma union_executor:
  "executor (union_init lini rini) (union_next lnxt rnxt False)
     (\<lambda>s. lready (union_left s) \<and> rready (union_right s))
     (\<lambda>s. if left_done s then lready (union_left s) \<and> rready (union_right s)
          else lrunning (union_left s) \<and> rrunning (union_right s))
     (\<lambda>s. union_rows (lall (union_left s)) (rall (union_right s)))
     (\<lambda>s. if left_done s then drop (union_cursor s) (union_buffer s)
          else union_rows (lrows (union_left s)) (rrows (union_right s)))"
proof (unfold_locales, goal_cases)
  case (1 s)
  then show ?case using l.running_ready r.running_ready by (auto split: if_splits)
next
  case (2 s)
  then show ?case using l.init_ok [of "union_left s"] r.init_ok [of "union_right s"] by (auto simp: union_init_def)
next
  case (3 s t ts)
  show ?case
  proof (cases "left_done s")
    case True
    then show ?thesis using 3 drop_cons [of "union_cursor s" "union_buffer s" t ts] by (simp add: union_next_def)
  next
    case False
    then obtain s1 where s1: "union_materialize lnxt rnxt (s, None) = Some (s1, None)" "left_done s1" "union_cursor s1 = 0"
        "union_buffer s1 = t # ts" "lready (union_left s1)" "rready (union_right s1)" "lall (union_left s1) = lall (union_left s)"
        "rall (union_right s1) = rall (union_right s)"
      using union_materialize_rows [of s] 3 by (metis (mono_tags, lifting))
    then show ?thesis using False by (simp add: union_next_def)
  qed
next
  case (4 s)
  then show ?case
    by (cases "left_done s") (auto simp: union_next_def elim!: union_materialize_rows)
qed

end

subsection \<open>IN with a subquery\<close>

lemma add_subquery_rows:
  assumes "hm_inv hash_string keys"
  shows "\<exists>keys'. fold (add_subquery_row i) ts (keys, nulls) = (keys', nulls \<or> (\<exists>t \<in> set ts. is_null (get_value t i))) \<and>
    hm_inv hash_string keys' \<and> dom (hm_find hash_string keys') = dom (hm_find hash_string keys) \<union>
      {encode_value_key (get_value t i) | t. t \<in> set ts \<and> \<not> is_null (get_value t i)}"
  using assms
proof (induction ts arbitrary: keys nulls)
  case (Cons t ts)
  then show ?case
  proof (cases "is_null (get_value t i)")
    case True
    then show ?thesis using Cons.IH [OF Cons.prems, of True] by (auto simp: add_subquery_row_def Let_def)
  next
    case False
    let ?keys = "hm_insert hash_string (encode_value_key (get_value t i)) True keys"
    have "add_subquery_row i t (keys, nulls) = (?keys, nulls)" using False by (simp add: add_subquery_row_def Let_def)
    moreover have "dom (hm_find hash_string ?keys) = insert (encode_value_key (get_value t i)) (dom (hm_find hash_string keys))"
      by (simp add: hm.find_insert [OF Cons.prems] dom_fun_upd del: fun_upd_apply)
    ultimately show ?thesis
      using Cons.IH [OF hm.invar_insert [OF Cons.prems], of "encode_value_key (get_value t i)" True nulls] False by auto
  qed
qed simp

text \<open>What SQL says of \<^verbatim>\<open>x IN (...)\<close>: true when a row has the value, unknown when the value is NULL or a row is.\<close>

definition in_subquery_true :: "bool \<Rightarrow> db_value list \<Rightarrow> db_value \<Rightarrow> bool" where
  "in_subquery_true negate vs v \<longleftrightarrow> \<not> is_null v \<and>
     (let found = (\<exists>u \<in> set vs. \<not> is_null u \<and> encode_value_key u = encode_value_key v) in
      if negate then \<not> (\<exists>u \<in> set vs. is_null u) \<and> \<not> found else found)"

definition subquery_selects :: "schema \<Rightarrow> expr \<Rightarrow> nat \<Rightarrow> bool \<Rightarrow> tuple list \<Rightarrow> tuple \<Rightarrow> bool" where
  "subquery_selects sch e i negate qs t \<longleftrightarrow>
     (\<exists>v. evaluate sch t e = Some v \<and> in_subquery_true negate (map (\<lambda>q. get_value q i) qs) v)"

lemma subquery_passes_correct:
  assumes "fold (add_subquery_row i) qs (hm_empty, False) = (keys, nulls)"
  shows "subquery_passes negate nulls keys v = in_subquery_true negate (map (\<lambda>q. get_value q i) qs) v"
proof -
  have d: "nulls \<longleftrightarrow> (\<exists>t \<in> set qs. is_null (get_value t i))"
      "dom (hm_find hash_string keys) = {encode_value_key (get_value t i) | t. t \<in> set qs \<and> \<not> is_null (get_value t i)}"
    using add_subquery_rows [OF hm.invar_empty, of i qs False] assms by (auto simp: hm.find_empty)
  have "hm_find hash_string keys (encode_value_key v) \<noteq> None \<longleftrightarrow>
      (\<exists>u \<in> set (map (\<lambda>q. get_value q i) qs). \<not> is_null u \<and> encode_value_key u = encode_value_key v)"
    unfolding domIff [symmetric] d(2) by auto metis
  then show ?thesis by (auto simp: subquery_passes_def in_subquery_true_def in_set_def Let_def d(1))
qed

context executor
begin

lemma subquery_scan_rows:
  assumes "running s" "\<forall>t \<in> set (rows s). evaluate sch t e \<noteq> None"
    and keys: "fold (add_subquery_row i) qs (hm_empty, False) = (keys, nulls)"
    and keep: "keep = subquery_selects sch e i negate qs"
  shows "case filter keep (rows s) of
      [] \<Rightarrow> \<exists>s'. subquery_scan nxt sch e negate nulls keys (s, None) = Some (None, s', None) \<and> ready s' \<and> all_rows s' = all_rows s
    | t # ts \<Rightarrow> \<exists>s'. subquery_scan nxt sch e negate nulls keys (s, None) = Some (Some t, s', None) \<and> running s' \<and>
        (\<forall>t \<in> set (rows s'). evaluate sch t e \<noteq> None) \<and> filter keep (rows s') = ts \<and> all_rows s' = all_rows s"
  using assms(1,2)
proof (induction "rows s" arbitrary: s)
  case Nil
  then show ?case using next_end [of s] by (subst subquery_scan.simps) auto
next
  case (Cons t ts)
  obtain s1 where s1: "nxt (s, None) = Some (Some t, s1, None)" "running s1" "rows s1 = ts" "all_rows s1 = all_rows s"
    using next_row [OF Cons.prems(1) Cons.hyps(2) [symmetric]] by blast
  have rest: "\<forall>t \<in> set (rows s1). evaluate sch t e \<noteq> None" using Cons.prems(2) Cons.hyps(2) [symmetric] s1(3) by simp
  obtain v where v: "evaluate sch t e = Some v" using Cons.prems(2) Cons.hyps(2) [symmetric] by auto
  then have keep_t: "keep t \<longleftrightarrow> subquery_passes negate nulls keys v"
    by (simp add: keep subquery_selects_def subquery_passes_correct [OF keys])
  show ?case
  proof (cases "keep t")
    case True
    then have "subquery_scan nxt sch e negate nulls keys (s, None) = Some (Some t, s1, None)"
      by (subst subquery_scan.simps) (simp add: s1(1) v keep_t)
    then show ?thesis using Cons.hyps(2) [symmetric] True s1 rest by simp
  next
    case False
    then have step: "subquery_scan nxt sch e negate nulls keys (s, None) = subquery_scan nxt sch e negate nulls keys (s1, None)"
      by (subst subquery_scan.simps) (simp add: s1(1) v keep_t)
    have "filter keep (rows s) = filter keep (rows s1)" using Cons.hyps(2) [symmetric] False s1(3) by simp
    then show ?thesis using Cons.hyps(1) [OF s1(3) [symmetric] s1(2) rest] unfolding step s1(4) by metis
  qed
qed

end

context executor_pair
begin

text \<open>The rows a subquery scan keeps; \<open>qs\<close> are the subquery's rows.\<close>

lemma subquery_executor:
  "executor (subquery_init lini) (subquery_next lnxt rini rnxt sch e i negate)
     (\<lambda>s. lready (in_child s) \<and> rready (in_subquery s) \<and> (\<forall>t \<in> set (lall (in_child s)). evaluate sch t e \<noteq> None))
     (\<lambda>s. lrunning (in_child s) \<and> rready (in_subquery s) \<and>
        (\<forall>t \<in> set (lrows (in_child s)) \<union> set (lall (in_child s)). evaluate sch t e \<noteq> None) \<and>
        (if materialized s
         then fold (add_subquery_row i) (rall (in_subquery s)) (hm_empty, False) = (subquery_keys s, has_nulls s)
         else subquery_keys s = hm_empty \<and> \<not> has_nulls s))
     (\<lambda>s. filter (subquery_selects sch e i negate (rall (in_subquery s))) (lall (in_child s)))
     (\<lambda>s. filter (subquery_selects sch e i negate (rall (in_subquery s))) (lrows (in_child s)))"
  (is "executor _ _ ?ready ?running _ _")
proof -
  have mat: "\<exists>s'. subquery_materialize rini rnxt i (s, None) = Some (s', None) \<and> ?running s' \<and> materialized s' \<and>
      in_child s' = in_child s \<and> rall (in_subquery s') = rall (in_subquery s)" if s: "?running s" for s
  proof (cases "materialized s")
    case False
    obtain q where q: "rini (in_subquery s, None) = Some (q, None)" "rrunning q" "rrows q = rall (in_subquery s)"
        "rall q = rall (in_subquery s)"
      using r.init_ok [of "in_subquery s"] s by auto
    obtain q' where q': "drain_loop rnxt (q, None) [] = Some (rrows q, q', None)" "rready q'" "rall q' = rall q"
      using r.drain_loop_rows [OF q(2), of "[]"] by auto
    obtain keys nulls where k: "fold (add_subquery_row i) (rrows q) (hm_empty, False) = (keys, nulls)" by (rule prod.exhaust)
    show ?thesis using s False by (simp add: subquery_materialize_def q(1) q' k Let_def) (use q k in simp)
  qed (use s in \<open>simp add: subquery_materialize_def\<close>)
  show ?thesis
  proof (unfold_locales, goal_cases)
    case (1 s)
    then show ?case using l.running_ready by simp
  next
    case (2 s)
    then show ?case using l.init_ok [of "in_child s"] by (auto simp: subquery_init_def)
  next
    case (3 s t ts)
    obtain s1 where s1: "subquery_materialize rini rnxt i (s, None) = Some (s1, None)" "?running s1" "materialized s1"
        "in_child s1 = in_child s" "rall (in_subquery s1) = rall (in_subquery s)"
      using mat [OF 3(1)] by blast
    obtain c where "subquery_scan lnxt sch e negate (has_nulls s1) (subquery_keys s1) (in_child s, None) = Some (Some t, c, None)"
        "lrunning c" "\<forall>t \<in> set (lrows c). evaluate sch t e \<noteq> None" "lall c = lall (in_child s)"
        "filter (subquery_selects sch e i negate (rall (in_subquery s))) (lrows c) = ts"
      using l.subquery_scan_rows [OF _ _ _ refl, of "in_child s" sch e i "rall (in_subquery s)" "subquery_keys s1" "has_nulls s1" negate]
        s1 3 by auto
    then show ?case using s1 by (simp add: subquery_next_def ball_Un)
  next
    case (4 s)
    obtain s1 where s1: "subquery_materialize rini rnxt i (s, None) = Some (s1, None)" "?running s1" "materialized s1"
        "in_child s1 = in_child s" "rall (in_subquery s1) = rall (in_subquery s)"
      using mat [OF 4(1)] by blast
    obtain c where "subquery_scan lnxt sch e negate (has_nulls s1) (subquery_keys s1) (in_child s, None) = Some (None, c, None)"
        "lready c" "lall c = lall (in_child s)"
      using l.subquery_scan_rows [OF _ _ _ refl, of "in_child s" sch e i "rall (in_subquery s)" "subquery_keys s1" "has_nulls s1" negate]
        s1 4 by auto
    then show ?case using s1 by (simp add: subquery_next_def ball_Un)
  qed
qed

end

interpretation bufs: executor_pair buffer_init buffer_next "\<lambda>_. True" "\<lambda>_. True" buffer "\<lambda>s. drop (cursor s) (buffer s)"
  buffer_init buffer_next "\<lambda>_. True" "\<lambda>_. True" buffer "\<lambda>s. drop (cursor s) (buffer s)"
  by unfold_locales

section \<open>Properties\<close>

text \<open>The planner accepted the predicate, it compiles, and the rows are rows of the schema on which it has a value.\<close>

definition where_ok :: "schema \<Rightarrow> expr \<Rightarrow> tuple list \<Rightarrow> bool" where
  "where_ok sch p ts \<longleftrightarrow> require_bool_expression sch (Some p) \<and> homogeneous sch (Some p) \<and> tables_named sch \<and>
     compile_predicate sch (Some p) \<noteq> None \<and>
     (\<forall>t \<in> set ts. row_conforms sch t \<and> times_ok sch t p \<and> evaluate sch t p \<noteq> None)"

lemma where_ok_filter_test:
  assumes "where_ok sch p ts" "t \<in> set ts"
  shows "filter_test sch p t = Some (False, Inr (evaluate sch t p = Some (VBool True)))"
proof -
  obtain prog v where "compile_predicate sch (Some p) = Some prog" "evaluate sch t p = Some v"
    using assms by (auto simp: where_ok_def)
  then show ?thesis
    using validated_predicate_passes [of sch p t prog v "replicate (length (snd prog)) VNull"] assms
    by (simp add: where_ok_def filter_test_def)
qed

lemma where_ok_rows:
  assumes "where_ok sch p ts"
  shows "testable sch p ts" "filter (selected sch p) ts = filter (\<lambda>t. evaluate sch t p = Some (VBool True)) ts"
proof -
  show "testable sch p ts" using where_ok_filter_test [OF assms] by (auto simp: testable_def)
  show "filter (selected sch p) ts = filter (\<lambda>t. evaluate sch t p = Some (VBool True)) ts"
    by (rule filter_cong [OF refl]) (simp add: selected_def where_ok_filter_test [OF assms], blast)
qed


definition flag_rows :: "bool list \<Rightarrow> row_buffer" where
  "flag_rows bs = \<lparr>buffer = map (\<lambda>b. id_row (VBool b)) bs, cursor = 0\<rparr>"


text \<open>C9: UNION removes duplicates and nothing else.  Above any two children that keep the contract, running UNION returns
  the rows of both whose key did not occur before: the keys of the result are those of the children, each
  once.\<close>

theorem union_refines:
  assumes "executor_pair lini lnxt lready lrunning lall lrows rini rnxt rready rrunning rall rrows"
    and "lready (union_left s)" "rready (union_right s)"
  shows "\<exists>out s'. run_executor (union_init lini rini) (union_next lnxt rnxt False) s = Some (out, s', None) \<and>
    out = keep_first make_tuple_key {} (lall (union_left s) @ rall (union_right s)) \<and>
    distinct (map make_tuple_key out) \<and>
    make_tuple_key ` set out = make_tuple_key ` (set (lall (union_left s)) \<union> set (rall (union_right s)))"
  using executor.run_executor_rows [OF executor_pair.union_executor [OF assms(1)], of s] assms(2,3)
    keep_first_keys [of make_tuple_key "{}" "lall (union_left s) @ rall (union_right s)"]
  by (auto simp: union_rows_def)

lemma flag_keys:
  "make_tuple_key (id_row (VBool True)) \<noteq> make_tuple_key (id_row (VBool False))"
  "make_tuple_key (id_row (VBool False)) \<noteq> make_tuple_key (id_row (VBool True))"
  "encode_value_key (VBool True) \<noteq> encode_value_key (VBool False)"
  "encode_value_key (VBool False) \<noteq> encode_value_key (VBool True)"
  by code_simp+

theorem union_refines_witness:
  "\<exists>s'. run_executor (union_init buffer_init buffer_init) (union_next buffer_next buffer_next False)
      \<lparr>union_left = flag_rows [True, True], union_right = flag_rows [False, True], left_done = False, union_buffer = [], union_cursor = 0\<rparr> =
    Some ([id_row (VBool True), id_row (VBool False)], s', None)"
  using union_refines [OF bufs.executor_pair_axioms,
      of "\<lparr>union_left = flag_rows [True, True], union_right = flag_rows [False, True], left_done = False, union_buffer = [], union_cursor = 0\<rparr>"]
  by (simp add: flag_rows_def flag_keys)



lemma int_widths_equal:
  fixes n :: i32
  shows "compare_result (VInt32 n) (VInt64 (scast n)) ''='' = Some (VBool True)"
proof -
  have "sint (scast n :: i64) = sint n" by (simp add: sint_up_scast is_up)
  then show ?thesis
    by (simp add: compare_result_def compare_op_def sql_compare_values_def is_numeric_like_def is_datetime_type_def fp_less_def
        numeric_as_double_def Let_def)
qed

text \<open>IN compares keys, not values.  A 32-bit and a 64-bit integer of the same number are equal by \<^verbatim>\<open>=\<close>, but their keys
  carry the type: the outer row is not in the subquery, and NOT IN selects it.\<close>

lemma subquery_in_ignores_equality:
  fixes n :: i32
  shows "let acc = add_subquery_row 0 (new_row [VInt64 (scast n)]) (hm_empty, False) in
    compare_result (VInt32 n) (VInt64 (scast n)) ''='' = Some (VBool True) \<and>
    \<not> subquery_passes False (snd acc) (fst acc) (VInt32 n) \<and> subquery_passes True (snd acc) (fst acc) (VInt32 n)"
proof -
  let ?acc = "add_subquery_row 0 (new_row [VInt64 (scast n)]) (hm_empty, False)"
  have key: "encode_value_key (VInt64 (scast n)) \<noteq> encode_value_key (VInt32 n)"
    using encode_prefix_free [of "VInt64 (scast n)" "VInt32 n" "[]" "[]"] by (auto simp: value_ok_def float_free_def)
  have "fold (add_subquery_row 0) [new_row [VInt64 (scast n)]] (hm_empty, False) = (fst ?acc, snd ?acc)" by simp
  from subquery_passes_correct [OF this] int_widths_equal [of n] key show ?thesis
    by (auto simp: Let_def in_subquery_true_def new_row_def get_value_def is_null_def)
qed

end
