(* ===== verification/Nested_Loop_Join.thy ===== *)
theory Nested_Loop_Join
  imports Row_Operators
begin

section \<open>Nested loop join\<close>

text \<open>
  Model of \<^verbatim>\<open>src/src/sql/executor/nested_loop_join.cpp\<close>.  A row without columns in \<open>left_tuple\<close> means, as in
  the source, that the next left row has to be fetched.  The lemmas show that the operator is an
  executor with the rows of the inner or left join, as long as no row of the left child is without
  columns and the ON condition has a truth value on every pair.
\<close>

datatype join_type = JInner | JLeft

record ('l, 'r) nlj_state =
  nl_left :: 'l
  nl_right :: 'r
  left_tuple :: tuple
  left_exhausted :: bool
  right_matched :: bool

definition column_count :: "tuple \<Rightarrow> nat" where
  "column_count t = length (t_values t)"

definition make_combined_tuple :: "tuple \<Rightarrow> tuple \<Rightarrow> tuple" where
  "make_combined_tuple l r = new_row (t_values l @ t_values r)"

definition make_left_only_tuple :: "schema \<Rightarrow> tuple \<Rightarrow> tuple" where
  "make_left_only_tuple output_schema l =
     new_row (t_values l @ replicate (length output_schema - column_count l) VNull)"

definition nlj_init :: "'l init_fun \<Rightarrow> 'r init_fun \<Rightarrow> ('l, 'r) nlj_state init_fun" where
  "nlj_init left_init right_init w =
     (case w of (s, err) \<Rightarrow>
      do { (l, err1) \<leftarrow> left_init (nl_left s, err);
           (r, err2) \<leftarrow> right_init (nl_right s, err1);
           Some (s\<lparr>nl_left := l, nl_right := r, left_tuple := empty_tuple, left_exhausted := False, right_matched := False\<rparr>, err2) })"

definition join_on_error :: string where
  "join_on_error = ''JOIN ON expression must be BOOL''"

text \<open>Whether a pair of rows satisfies the ON condition; \<open>Inl\<close> when its value is no truth value.\<close>

definition on_test :: "schema \<Rightarrow> expr option \<Rightarrow> tuple \<Rightarrow> tuple \<Rightarrow> (string + bool) option" where
  "on_test output_schema on_condition l r =
     (case on_condition of
        None \<Rightarrow> Some (Inr True)
      | Some e \<Rightarrow>
          do { cond \<leftarrow> evaluate output_schema (new_row (t_values l @ t_values r)) e;
               Some (case predicate_truth cond of None \<Rightarrow> Inl join_on_error | Some pass \<Rightarrow> Inr pass) })"

text \<open>The two halves of an iteration; \<open>Inl\<close> is what \<^verbatim>\<open>next\<close> returns, \<open>Inr\<close> goes on.\<close>

definition nlj_fetch ::
  "'l next_fun \<Rightarrow> 'r init_fun \<Rightarrow> ('l, 'r) nlj_state world \<Rightarrow>
     ((tuple option \<times> ('l, 'r) nlj_state world) + ('l, 'r) nlj_state world) option" where
  "nlj_fetch left_next right_init w =
     (case w of (s, err) \<Rightarrow>
      if \<not> left_exhausted s \<and> column_count (left_tuple s) = 0
      then
        do { (lr, l, err1) \<leftarrow> left_next (nl_left s, err);
             case lr of
               None \<Rightarrow> Some (Inl (None, s\<lparr>nl_left := l, left_exhausted := True\<rparr>, err1))
             | Some t \<Rightarrow>
                 do { (r, err2) \<leftarrow> right_init (nl_right s, err1);
                      Some (Inr (s\<lparr>nl_left := l, left_tuple := t, nl_right := r, right_matched := False\<rparr>, err2)) } }
      else Some (Inr w))"

definition nlj_match ::
  "'r next_fun \<Rightarrow> schema \<Rightarrow> expr option \<Rightarrow> join_type \<Rightarrow> ('l, 'r) nlj_state world \<Rightarrow>
     ((tuple option \<times> ('l, 'r) nlj_state world) + ('l, 'r) nlj_state world) option" where
  "nlj_match right_next output_schema on_condition join_type w =
     (case w of (s, err) \<Rightarrow>
      do { (rr, r, err1) \<leftarrow> right_next (nl_right s, err);
           let s1 = s\<lparr>nl_right := r\<rparr>;
           case rr of
             Some t \<Rightarrow>
               do { b \<leftarrow> on_test output_schema on_condition (left_tuple s) t;
                    Some (case b of
                            Inl message \<Rightarrow> Inl (None, set_executor_error message (s1, err1))
                          | Inr pass \<Rightarrow>
                              if pass then Inl (Some (make_combined_tuple (left_tuple s) t), s1\<lparr>right_matched := True\<rparr>, err1)
                              else Inr (s1, err1)) }
           | None \<Rightarrow>
               Some (if join_type = JLeft \<and> \<not> right_matched s
                     then Inl (Some (make_left_only_tuple output_schema (left_tuple s)), s1\<lparr>left_tuple := empty_tuple\<rparr>, err1)
                     else Inr (s1\<lparr>left_tuple := empty_tuple\<rparr>, err1)) })"

partial_function (option) nlj_next ::
  "'l next_fun \<Rightarrow> 'r init_fun \<Rightarrow> 'r next_fun \<Rightarrow> schema \<Rightarrow> expr option \<Rightarrow> join_type \<Rightarrow> ('l, 'r) nlj_state next_fun" where
  "nlj_next left_next right_init right_next output_schema on_condition join_type w =
     do { fetched \<leftarrow> nlj_fetch left_next right_init w;
          case fetched of
            Inl res \<Rightarrow> Some res
          | Inr w1 \<Rightarrow>
              do { matched \<leftarrow> nlj_match right_next output_schema on_condition join_type w1;
                   case matched of
                     Inl res \<Rightarrow> Some res
                   | Inr w2 \<Rightarrow> nlj_next left_next right_init right_next output_schema on_condition join_type w2 } }"

section \<open>Laws\<close>

definition joins :: "schema \<Rightarrow> expr option \<Rightarrow> tuple \<Rightarrow> tuple \<Rightarrow> bool" where
  "joins sch on l r \<longleftrightarrow> on_test sch on l r = Some (Inr True)"

text \<open>The rows a left row contributes.\<close>

definition joined :: "(tuple \<Rightarrow> tuple \<Rightarrow> bool) \<Rightarrow> schema \<Rightarrow> join_type \<Rightarrow> tuple list \<Rightarrow> tuple \<Rightarrow> tuple list" where
  "joined match sch jt rs l =
     (let ms = filter (match l) rs in
      if jt = JLeft \<and> ms = [] then [make_left_only_tuple sch l] else map (make_combined_tuple l) ms)"

definition pair_ok :: "schema \<Rightarrow> expr option \<Rightarrow> tuple list \<Rightarrow> tuple list \<Rightarrow> bool" where
  "pair_ok sch on ls rs \<longleftrightarrow>
     (\<forall>l \<in> set ls. column_count l \<noteq> 0 \<and> (\<forall>r \<in> set rs. \<exists>b. on_test sch on l r = Some (Inr b)))"

lemma empty_column_count [simp]: "column_count empty_tuple = 0"
  by (simp add: column_count_def empty_tuple_def)

context executor_pair
begin

definition nlj_running :: "schema \<Rightarrow> expr option \<Rightarrow> ('l, 'r) nlj_state \<Rightarrow> bool" where
  "nlj_running sch on s \<longleftrightarrow> lrunning (nl_left s) \<and> \<not> left_exhausted s \<and>
     pair_ok sch on (lall (nl_left s)) (rall (nl_right s)) \<and> pair_ok sch on (lrows (nl_left s)) (rall (nl_right s)) \<and>
     (if column_count (left_tuple s) = 0 then rready (nl_right s)
      else rrunning (nl_right s) \<and> pair_ok sch on [left_tuple s] (rrows (nl_right s)))"

text \<open>What is left for the current left row, and for all.\<close>

definition nlj_current :: "schema \<Rightarrow> expr option \<Rightarrow> join_type \<Rightarrow> ('l, 'r) nlj_state \<Rightarrow> tuple list" where
  "nlj_current sch on jt s =
     (if column_count (left_tuple s) = 0 then []
      else joined (joins sch on) sch (if right_matched s then JInner else jt) (rrows (nl_right s)) (left_tuple s))"

definition nlj_left :: "schema \<Rightarrow> expr option \<Rightarrow> join_type \<Rightarrow> ('l, 'r) nlj_state \<Rightarrow> tuple list" where
  "nlj_left sch on jt s =
     nlj_current sch on jt s @ concat (map (joined (joins sch on) sch jt (rall (nl_right s))) (lrows (nl_left s)))"

lemma nlj_match_rows:
  assumes "nlj_running sch on s" "column_count (left_tuple s) \<noteq> 0"
  shows "\<exists>s'. lall (nl_left s') = lall (nl_left s) \<and> rall (nl_right s') = rall (nl_right s) \<and>
    lrows (nl_left s') = lrows (nl_left s) \<and> nlj_running sch on s' \<and>
    (if column_count (left_tuple s') = 0 then rrows (nl_right s) = [] else length (rrows (nl_right s)) = Suc (length (rrows (nl_right s')))) \<and>
    (nlj_match rnxt sch on jt (s, None) = Some (Inr (s', None)) \<and> nlj_current sch on jt s' = nlj_current sch on jt s \<or>
     (\<exists>t. nlj_match rnxt sch on jt (s, None) = Some (Inl (Some t, s', None)) \<and> nlj_current sch on jt s = t # nlj_current sch on jt s'))"
proof (cases "rrows (nl_right s)")
  case Nil
  then obtain r where r: "rnxt (nl_right s, None) = Some (None, r, None)" "rready r" "rall r = rall (nl_right s)"
    using assms r.next_end [of "nl_right s"] by (auto simp: nlj_running_def)
  show ?thesis
    by (rule exI [of _ "s\<lparr>nl_right := r, left_tuple := empty_tuple\<rparr>"])
      (use assms r Nil in \<open>simp add: nlj_running_def nlj_match_def nlj_current_def joined_def\<close>)
next
  case (Cons t ts)
  then obtain r where r: "rnxt (nl_right s, None) = Some (Some t, r, None)" "rrunning r" "rrows r = ts" "rall r = rall (nl_right s)"
    using assms r.next_row [of "nl_right s" t ts] by (auto simp: nlj_running_def)
  have ok: "pair_ok sch on [left_tuple s] ts" and "\<exists>b. on_test sch on (left_tuple s) t = Some (Inr b)"
    using assms Cons by (auto simp: nlj_running_def pair_ok_def)
  then obtain b where b: "on_test sch on (left_tuple s) t = Some (Inr b)" by blast
  show ?thesis
    by (rule exI [of _ "s\<lparr>nl_right := r, right_matched := right_matched s \<or> b\<rparr>"])
      (use assms r Cons ok b in \<open>cases b; simp add: nlj_running_def nlj_match_def nlj_current_def joined_def joins_def Let_def\<close>)
qed

lemma nlj_fetch_row:
  assumes "nlj_running sch on s" "column_count (left_tuple s) = 0" "lrows (nl_left s) = t # ts"
  shows "\<exists>s'. nlj_next lnxt rini rnxt sch on jt (s, None) = nlj_next lnxt rini rnxt sch on jt (s', None) \<and> nlj_running sch on s' \<and>
    lrows (nl_left s') = ts \<and> nlj_left sch on jt s' = nlj_left sch on jt s \<and>
    lall (nl_left s') = lall (nl_left s) \<and> rall (nl_right s') = rall (nl_right s)"
proof -
  obtain l where l: "lnxt (nl_left s, None) = Some (Some t, l, None)" "lrunning l" "lrows l = ts" "lall l = lall (nl_left s)"
    using assms l.next_row [of "nl_left s" t ts] by (auto simp: nlj_running_def)
  obtain r where r: "rini (nl_right s, None) = Some (r, None)" "rrunning r" "rrows r = rall (nl_right s)" "rall r = rall (nl_right s)"
    using assms r.init_ok [of "nl_right s"] by (auto simp: nlj_running_def)
  let ?s = "s\<lparr>nl_left := l, left_tuple := t, nl_right := r, right_matched := False\<rparr>"
  have t: "column_count t \<noteq> 0" "pair_ok sch on [t] (rall (nl_right s))" "pair_ok sch on ts (rall (nl_right s))"
    using assms by (auto simp: nlj_running_def pair_ok_def)
  have "nlj_next lnxt rini rnxt sch on jt (s, None) = nlj_next lnxt rini rnxt sch on jt (?s, None)"
    using assms(1,2) t(1) by (subst (1 2) nlj_next.simps) (simp add: nlj_fetch_def l(1) r(1) nlj_running_def)
  moreover have "nlj_running sch on ?s" "nlj_left sch on jt ?s = nlj_left sch on jt s"
    using assms l r t by (auto simp: nlj_running_def nlj_left_def nlj_current_def)
  ultimately show ?thesis using l r by auto
qed

lemma nlj_next_rows:
  assumes "nlj_running sch on s"
  shows "case nlj_left sch on jt s of
      [] \<Rightarrow> \<exists>s'. nlj_next lnxt rini rnxt sch on jt (s, None) = Some (None, s', None) \<and> lready (nl_left s') \<and> rready (nl_right s') \<and>
        lall (nl_left s') = lall (nl_left s) \<and> rall (nl_right s') = rall (nl_right s)
    | t # ts \<Rightarrow> \<exists>s'. nlj_next lnxt rini rnxt sch on jt (s, None) = Some (Some t, s', None) \<and> nlj_running sch on s' \<and>
        nlj_left sch on jt s' = ts \<and> lall (nl_left s') = lall (nl_left s) \<and> rall (nl_right s') = rall (nl_right s)"
  using assms
proof (induction s rule: wf_induct_rule [OF wf_measures, of "[\<lambda>s. length (lrows (nl_left s)),
    \<lambda>s. if column_count (left_tuple s) = 0 then 0 else Suc (length (rrows (nl_right s)))]"])
  case (1 s)
  show ?case
  proof (cases "column_count (left_tuple s) = 0")
    case True
    show ?thesis
    proof (cases "lrows (nl_left s)")
      case Nil
      then obtain l where "lnxt (nl_left s, None) = Some (None, l, None)" "lready l" "lall l = lall (nl_left s)"
        using 1(2) l.next_end [of "nl_left s"] by (auto simp: nlj_running_def)
      moreover have "nlj_left sch on jt s = []" using Nil True by (simp add: nlj_left_def nlj_current_def)
      ultimately show ?thesis using 1(2) True
        by (subst nlj_next.simps) (simp add: nlj_fetch_def nlj_running_def)
    next
      case (Cons t ts)
      then obtain s1 where s1: "nlj_next lnxt rini rnxt sch on jt (s, None) = nlj_next lnxt rini rnxt sch on jt (s1, None)"
          "nlj_running sch on s1" "lrows (nl_left s1) = ts" "nlj_left sch on jt s1 = nlj_left sch on jt s"
          "lall (nl_left s1) = lall (nl_left s)" "rall (nl_right s1) = rall (nl_right s)"
        using nlj_fetch_row [OF 1(2) True] by blast
      then show ?thesis using 1(1) [of s1] Cons by (cases "nlj_left sch on jt s") simp_all
    qed
  next
    case False
    have next_eq: "nlj_next lnxt rini rnxt sch on jt (s, None) =
        (case nlj_match rnxt sch on jt (s, None) of None \<Rightarrow> None | Some (Inl res) \<Rightarrow> Some res
         | Some (Inr w2) \<Rightarrow> nlj_next lnxt rini rnxt sch on jt w2)"
      using False by (subst nlj_next.simps) (auto simp: nlj_fetch_def split: option.splits)
    obtain s1 where s1: "lall (nl_left s1) = lall (nl_left s)" "rall (nl_right s1) = rall (nl_right s)"
        "lrows (nl_left s1) = lrows (nl_left s)" "nlj_running sch on s1"
        "if column_count (left_tuple s1) = 0 then rrows (nl_right s) = [] else length (rrows (nl_right s)) = Suc (length (rrows (nl_right s1)))"
      and step: "nlj_match rnxt sch on jt (s, None) = Some (Inr (s1, None)) \<and> nlj_current sch on jt s1 = nlj_current sch on jt s \<or>
       (\<exists>t. nlj_match rnxt sch on jt (s, None) = Some (Inl (Some t, s1, None)) \<and> nlj_current sch on jt s = t # nlj_current sch on jt s1)"
      using nlj_match_rows [OF 1(2) False, of jt] by blast
    from step show ?thesis
    proof (elim disjE exE conjE)
      assume m: "nlj_match rnxt sch on jt (s, None) = Some (Inr (s1, None))" "nlj_current sch on jt s1 = nlj_current sch on jt s"
      then have "nlj_left sch on jt s1 = nlj_left sch on jt s" using s1 by (simp add: nlj_left_def)
      then show ?thesis using 1(1) [of s1] s1 False m(1) by (cases "nlj_left sch on jt s") (simp_all add: next_eq)
    next
      fix t assume "nlj_match rnxt sch on jt (s, None) = Some (Inl (Some t, s1, None))" "nlj_current sch on jt s = t # nlj_current sch on jt s1"
      then show ?thesis using s1 by (simp add: next_eq nlj_left_def)
    qed
  qed
qed

lemma nlj_executor:
  "executor (nlj_init lini rini) (nlj_next lnxt rini rnxt sch on jt)
     (\<lambda>s. lready (nl_left s) \<and> rready (nl_right s) \<and> pair_ok sch on (lall (nl_left s)) (rall (nl_right s)))
     (nlj_running sch on)
     (\<lambda>s. concat (map (joined (joins sch on) sch jt (rall (nl_right s))) (lall (nl_left s)))) (nlj_left sch on jt)"
proof (unfold_locales, goal_cases)
  case (1 s)
  then show ?case using l.running_ready r.running_ready by (auto simp: nlj_running_def split: if_splits)
next
  case (2 s)
  then obtain l r where "lini (nl_left s, None) = Some (l, None)" "lrunning l" "lrows l = lall (nl_left s)" "lall l = lall (nl_left s)"
      "rini (nl_right s, None) = Some (r, None)" "rrunning r" "rrows r = rall (nl_right s)" "rall r = rall (nl_right s)"
    using l.init_ok [of "nl_left s"] r.init_ok [of "nl_right s"] by auto
  then show ?case using 2 r.running_ready by (simp add: nlj_init_def nlj_running_def nlj_left_def nlj_current_def)
next
  case (3 s t ts)
  then show ?case using nlj_next_rows [OF 3(1), of jt] by auto
next
  case (4 s)
  then have "pair_ok sch on (lall (nl_left s)) (rall (nl_right s))" by (simp add: nlj_running_def)
  then show ?case using nlj_next_rows [OF 4(1), of jt] 4(2) by auto
qed

end

section \<open>Properties\<close>

text \<open>C34: the nested loop join computes the join.  Above any two children that keep the contract the operator returns, for
  each left row in order, its pairs with the right rows that satisfy the ON condition, in order, and for a LEFT JOIN
  the row padded with NULLs when there is none.\<close>

theorem nested_loop_join_refines:
  assumes "executor_pair lini lnxt lready lrunning lall lrows rini rnxt rready rrunning rall rrows"
    and "lready (nl_left s)" "rready (nl_right s)" "pair_ok sch on (lall (nl_left s)) (rall (nl_right s))"
  shows "\<exists>s'. run_executor (nlj_init lini rini) (nlj_next lnxt rini rnxt sch on jt) s =
    Some (concat (map (\<lambda>l. let ms = filter (\<lambda>r. on_test sch on l r = Some (Inr True)) (rall (nl_right s)) in
        if jt = JLeft \<and> ms = [] then [make_left_only_tuple sch l] else map (make_combined_tuple l) ms) (lall (nl_left s))), s', None)"
  using executor.run_executor_rows [OF executor_pair.nlj_executor [OF assms(1), of sch on jt], of s] assms(2-4)
  by (auto simp: joined_def [abs_def] joins_def [abs_def])

theorem nested_loop_join_refines_witness:
  "\<exists>s'. run_executor (nlj_init buffer_init buffer_init)
      (nlj_next buffer_next buffer_init buffer_next (flag_schema @ flag_schema) (Some (UnaryOp ''NOT'' (Some (ColumnRef [] ''id'')))) JLeft)
      \<lparr>nl_left = flag_rows [True, False], nl_right = flag_rows [True, True], left_tuple = empty_tuple, left_exhausted = False,
       right_matched = False\<rparr> =
    Some ([new_row [VBool True, VNull], new_row [VBool False, VBool True], new_row [VBool False, VBool True]], s', None)"
proof -
  let ?e = "UnaryOp ''NOT'' (Some (ColumnRef [] ''id''))"
    and ?s = "\<lparr>nl_left = flag_rows [True, False], nl_right = flag_rows [True, True], left_tuple = empty_tuple, left_exhausted = False,
       right_matched = False\<rparr>"
  have e: "on_test (flag_schema @ flag_schema) (Some ?e) (id_row (VBool a)) (id_row (VBool b)) = Some (Inr (\<not> a))" for a b
    by (simp add: on_test_def unary_value_def not_value_def predicate_truth_def column_value_def column_position_def
        get_column_index_def flag_schema_def id_row_def new_row_def get_value_def default_column_def)
  have c: "column_count (id_row v) = 1" for v by (simp add: column_count_def id_row_def)
  have b: "Ex Not" "\<exists>b. b" by blast+
  show ?thesis
    using nested_loop_join_refines [OF bufs.executor_pair_axioms, where s = ?s and sch = "flag_schema @ flag_schema" and on = "Some ?e" and jt = JLeft]
    by (simp add: flag_rows_def pair_ok_def e c b make_left_only_tuple_def make_combined_tuple_def)
      (simp add: id_row_def flag_schema_def)
qed

end
