(* ===== verification/Hash_Join.thy ===== *)
theory Hash_Join
  imports Spill Nested_Loop_Join "HOL-Library.Multiset"
begin

section \<open>Hash join\<close>

text \<open>
  Model of \<^verbatim>\<open>src/src/sql/executor/hash_join_executor.cpp\<close>: the hash table over one child, the probe with the
  rows of the other, and the partitions in temporary files when the table exceeds the working memory.
  A bucket is the chain of its entries, newest first.  The operator's constructor arguments are the record
  \<open>hash_join_plan\<close>; \<open>entry_size\<close> is \<^verbatim>\<open>sizeof(HashJoinEntry)\<close>.  Interrupts and deadlines are left out: the polls
  of \<^verbatim>\<open>executor_cancelled\<close> answer no.
\<close>

record hash_join_plan =
  out_schema :: schema
  left_schema :: schema
  right_schema :: schema
  on_condition :: "expr option"
  hj_type :: join_type
  build_left :: bool
  work_mem :: nat
  entry_size :: nat
  temps :: temp_files

record ('l, 'r) hash_join =
  hj_left :: 'l
  hj_right :: 'r
  buckets :: "nat \<Rightarrow> tuple list"
  current_left :: tuple
  current_entry :: "tuple list"
  left_key :: "expr option"
  right_key :: "expr option"
  has_current_left :: bool
  current_left_matched :: bool
  built :: bool
  spilled :: bool
  spill_file :: "byte list option"
  build_partitions :: "byte list list"
  probe_partitions :: "byte list list"
  probe_scan :: "byte list option"
  current_partition :: nat
  grace_ready :: bool

definition cleanup_spill :: "('l, 'r) hash_join \<Rightarrow> ('l, 'r) hash_join" where
  "cleanup_spill s = s\<lparr>probe_scan := None, spill_file := None, build_partitions := [], probe_partitions := []\<rparr>"

definition clear_entries :: "('l, 'r) hash_join \<Rightarrow> ('l, 'r) hash_join" where
  "clear_entries s = s\<lparr>buckets := (\<lambda>_. [])\<rparr>"

definition hj_init :: "'l init_fun \<Rightarrow> 'r init_fun \<Rightarrow> ('l, 'r) hash_join init_fun" where
  "hj_init left_init right_init w =
     (case w of (s, err) \<Rightarrow>
      do { (l, err1) \<leftarrow> left_init (hj_left s, err);
           (r, err2) \<leftarrow> right_init (hj_right s, err1);
           Some (clear_entries (cleanup_spill
             (s\<lparr>hj_left := l, hj_right := r, built := False, current_left := empty_tuple, current_entry := [], left_key := None,
                right_key := None, has_current_left := False, current_left_matched := False, spilled := False,
                current_partition := 0, grace_ready := False\<rparr>)), err2) })"

definition hash_value :: "db_value \<Rightarrow> nat" where
  "hash_value v =
     unat ((case v of
              VInt32 x \<Rightarrow> scast x
            | VInt64 x \<Rightarrow> x
            | VFloat x \<Rightarrow> scast x
            | VDouble x \<Rightarrow> x
            | VBool b \<Rightarrow> if b then 1 else 0
            | VVarchar s \<Rightarrow> fold (\<lambda>c h. h * 31 + ucast (byte_of_char c)) s 0
            | _ \<Rightarrow> 0) mod 8192 :: u64)"

function (sequential) can_evaluate_on :: "expr option \<Rightarrow> schema \<Rightarrow> bool"
  and clauses_evaluate_on :: "(expr \<times> expr) list \<Rightarrow> schema \<Rightarrow> bool" where
  "can_evaluate_on None sch = True"
| "can_evaluate_on (Some (Literal v)) sch = True"
| "can_evaluate_on (Some Star) sch = True"
| "can_evaluate_on (Some (ColumnRef table column)) sch =
     (if table \<noteq> [] then get_qualified_column_index sch table column \<ge> 0 else get_column_index sch column \<ge> 0)"
| "can_evaluate_on (Some (BinaryOp op l r)) sch = (can_evaluate_on l sch \<and> can_evaluate_on r sch)"
| "can_evaluate_on (Some (UnaryOp op c)) sch = can_evaluate_on c sch"
| "can_evaluate_on (Some (CaseWhen ws e)) sch = (clauses_evaluate_on ws sch \<and> can_evaluate_on e sch)"
| "can_evaluate_on (Some (CastTo c ty)) sch = can_evaluate_on c sch"
| "can_evaluate_on (Some Subquery) sch = False"
| "clauses_evaluate_on [] sch = True"
| "clauses_evaluate_on ((c, e) # ws) sch =
     (can_evaluate_on (Some c) sch \<and> can_evaluate_on (Some e) sch \<and> clauses_evaluate_on ws sch)"
  by pat_completeness auto
termination
  by (relation "measure (case_sum (\<lambda>(e, _). 2 * size_option size e) (\<lambda>(ws, _). 2 * size_list (size_prod size size) ws + 1))") auto

text \<open>Which side of the ON equality belongs to which child.\<close>

definition join_keys :: "hash_join_plan \<Rightarrow> expr option \<Rightarrow> expr option \<Rightarrow> expr option \<times> expr option" where
  "join_keys p lhs rhs =
     (if can_evaluate_on lhs (left_schema p) \<and> can_evaluate_on rhs (right_schema p) then (lhs, rhs)
      else if can_evaluate_on lhs (right_schema p) \<and> can_evaluate_on rhs (left_schema p) then (rhs, lhs)
      else (lhs, rhs))"

text \<open>Evaluating a missing key expression is undefined.\<close>

definition eval_key :: "schema \<Rightarrow> expr option \<Rightarrow> tuple \<Rightarrow> db_value option" where
  "eval_key sch key t = (case key of None \<Rightarrow> None | Some e \<Rightarrow> evaluate sch t e)"

definition build_schema :: "hash_join_plan \<Rightarrow> schema" where
  "build_schema p = (if build_left p then left_schema p else right_schema p)"

definition probe_schema :: "hash_join_plan \<Rightarrow> schema" where
  "probe_schema p = (if build_left p then right_schema p else left_schema p)"

definition build_key :: "hash_join_plan \<Rightarrow> ('l, 'r) hash_join \<Rightarrow> tuple \<Rightarrow> db_value option" where
  "build_key p s = eval_key (build_schema p) (if build_left p then left_key s else right_key s)"

definition probe_key :: "hash_join_plan \<Rightarrow> ('l, 'r) hash_join \<Rightarrow> tuple \<Rightarrow> db_value option" where
  "probe_key p s = eval_key (probe_schema p) (if build_left p then right_key s else left_key s)"

text \<open>The next row of one of the children.\<close>

definition side_next :: "'l next_fun \<Rightarrow> 'r next_fun \<Rightarrow> bool \<Rightarrow> ('l, 'r) hash_join next_fun" where
  "side_next left_next right_next left w =
     (case w of (s, err) \<Rightarrow>
      if left then do { (r, c, err1) \<leftarrow> left_next (hj_left s, err); Some (r, s\<lparr>hj_left := c\<rparr>, err1) }
      else do { (r, c, err1) \<leftarrow> right_next (hj_right s, err); Some (r, s\<lparr>hj_right := c\<rparr>, err1) })"

definition add_entry :: "db_value \<Rightarrow> tuple \<Rightarrow> ('l, 'r) hash_join \<Rightarrow> ('l, 'r) hash_join" where
  "add_entry key t s = s\<lparr>buckets := (buckets s)(hash_value key := t # buckets s (hash_value key))\<rparr>"

subsection \<open>Building the table\<close>

text \<open>The loop over the build side; the flag is false when the function returned from within the loop.\<close>

partial_function (option) hj_build_loop ::
  "'l next_fun \<Rightarrow> 'r next_fun \<Rightarrow> hash_join_plan \<Rightarrow> nat \<Rightarrow> ('l, 'r) hash_join world \<Rightarrow> (bool \<times> ('l, 'r) hash_join world) option" where
  "hj_build_loop left_next right_next p memory_used w =
     do { (r, s, err) \<leftarrow> side_next left_next right_next (build_left p) w;
          case r of
            None \<Rightarrow> Some (True, s, err)
          | Some t \<Rightarrow>
              if spill_file s \<noteq> None \<and> write_spill_tuple (temps p) (the (spill_file s)) t = None
              then Some (False, set_executor_error ''failed to write hash join spill file'' (s, err))
              else
                let s1 = s\<lparr>spill_file := Option.bind (spill_file s) (\<lambda>f. write_spill_tuple (temps p) f t)\<rparr>;
                    memory = memory_used + tuple_serialized_size t + entry_size p + 32
                in if work_mem p \<noteq> 0 \<and> memory > work_mem p
                   then
                     if spill_file s1 = None then Some (False, set_executor_error ''failed to create hash join spill file'' (s1, err))
                     else hj_build_loop left_next right_next p memory (clear_entries (s1\<lparr>spilled := True\<rparr>), err)
                   else if spilled s1 then hj_build_loop left_next right_next p memory (s1, err)
                   else
                     do { key \<leftarrow> build_key p s1 t;
                          hj_build_loop left_next right_next p memory (if is_null key then s1 else add_entry key t s1, err) } }"

text \<open>Rows into partitions; \<open>None\<close> when a write fails.\<close>

definition partition_of :: "db_value \<Rightarrow> nat" where
  "partition_of key = (if is_null key then 0 else hash_value key mod 32)"

definition add_to_partition :: "temp_files \<Rightarrow> db_value \<Rightarrow> tuple \<Rightarrow> byte list list \<Rightarrow> byte list list option" where
  "add_to_partition tmp key t parts =
     map_option (\<lambda>f. parts[partition_of key := f]) (write_spill_tuple tmp (parts ! partition_of key) t)"

fun partition_build :: "temp_files \<Rightarrow> (tuple \<Rightarrow> db_value option) \<Rightarrow> tuple list \<Rightarrow> byte list list \<Rightarrow> byte list list option option" where
  "partition_build tmp key [] parts = Some (Some parts)"
| "partition_build tmp key (t # ts) parts =
     do { k \<leftarrow> key t;
          case add_to_partition tmp k t parts of
            None \<Rightarrow> Some None
          | Some parts' \<Rightarrow> partition_build tmp key ts parts' }"

partial_function (option) hj_partition_probe ::
  "'l next_fun \<Rightarrow> 'r next_fun \<Rightarrow> hash_join_plan \<Rightarrow> ('l, 'r) hash_join world \<Rightarrow> (bool \<times> ('l, 'r) hash_join world) option" where
  "hj_partition_probe left_next right_next p w =
     do { (r, s, err) \<leftarrow> side_next left_next right_next (\<not> build_left p) w;
          case r of
            None \<Rightarrow> Some (True, s, err)
          | Some t \<Rightarrow>
              do { key \<leftarrow> probe_key p s t;
                   case add_to_partition (temps p) key t (probe_partitions s) of
                     None \<Rightarrow> Some (False, set_executor_error ''failed to write hash join probe partition'' (cleanup_spill s, err))
                   | Some parts \<Rightarrow> hj_partition_probe left_next right_next p (s\<lparr>probe_partitions := parts\<rparr>, err) } }"

text \<open>The message of the first of the 64 partition files that cannot be made; file 0 is the first spill file.\<close>

definition partition_error :: "temp_files \<Rightarrow> string option" where
  "partition_error tmp =
     map_option (\<lambda>i. ''failed to '' @ (if made tmp i = Not_created then ''create'' else ''open'') @ '' hash join '' @
         (if odd i then ''build'' else ''probe'') @ '' partition'')
       (List.find (\<lambda>i. made tmp i \<noteq> Made) [1..<65])"

definition prepare_grace_partitions ::
  "'l next_fun \<Rightarrow> 'r next_fun \<Rightarrow> hash_join_plan \<Rightarrow> ('l, 'r) hash_join world \<Rightarrow> (bool \<times> ('l, 'r) hash_join world) option" where
  "prepare_grace_partitions left_next right_next p w =
     (case w of (s, err) \<Rightarrow>
      if grace_ready s then Some (True, w)
      else
        (case spill_file s of
           None \<Rightarrow> Some (False, set_executor_error ''missing hash join spill file'' w)
         | Some file \<Rightarrow>
             (case partition_error (temps p) of
                Some message \<Rightarrow> Some (False, set_executor_error message (cleanup_spill s, err))
              | None \<Rightarrow>
                  if \<not> reopened (temps p) 0
                  then Some (False, set_executor_error ''failed to read hash join spill file'' (cleanup_spill s, err))
                  else
                    let (ts, e) = read_spill_all ''hash join'' (build_schema p) file;
                        err1 = (if e = None then err else e)
                    in do { written_parts \<leftarrow> partition_build (temps p) (build_key p s) ts (replicate 32 []);
                            case written_parts of
                              None \<Rightarrow> Some (False, set_executor_error ''failed to write hash join build partition'' (cleanup_spill s, err1))
                            | Some parts \<Rightarrow>
                                if err1 \<noteq> None then Some (False, cleanup_spill s, err1)
                                else
                                  do { (done, s1, err2) \<leftarrow>
                                         hj_partition_probe left_next right_next p
                                           (s\<lparr>build_partitions := parts, probe_partitions := replicate 32 []\<rparr>, err1);
                                       if \<not> done then Some (False, s1, err2)
                                       else Some (True, s1\<lparr>spill_file := None, grace_ready := True, current_partition := 0\<rparr>, err2) } })))"

definition build_hash_table ::
  "'l next_fun \<Rightarrow> 'r next_fun \<Rightarrow> hash_join_plan \<Rightarrow> ('l, 'r) hash_join world \<Rightarrow> ('l, 'r) hash_join world option" where
  "build_hash_table left_next right_next p w =
     (case w of (s, err) \<Rightarrow>
      if built s then Some w
      else
        (case on_condition p of
           Some (BinaryOp op lhs rhs) \<Rightarrow>
             if op \<noteq> ''='' then Some (s\<lparr>built := True\<rparr>, err)
             else
               let (lk, rk) = join_keys p lhs rhs;
                   file = (if made (temps p) 0 = Made then Some [] else None)
               in do { (done, s1, err1) \<leftarrow> hj_build_loop left_next right_next p 0
                         (s\<lparr>built := True, left_key := lk, right_key := rk, spill_file := file\<rparr>, err);
                       if \<not> done then Some (s1, err1)
                       else if spilled s1 then map_option snd (prepare_grace_partitions left_next right_next p (s1, err1))
                       else Some (cleanup_spill s1, err1) }
         | _ \<Rightarrow> Some (s\<lparr>built := True\<rparr>, err)))"

subsection \<open>Probing\<close>

definition make_join_tuple :: "hash_join_plan \<Rightarrow> tuple \<Rightarrow> tuple \<Rightarrow> tuple" where
  "make_join_tuple p probe build =
     new_row (if build_left p then t_values build @ t_values probe else t_values probe @ t_values build)"

fun add_entries :: "(tuple \<Rightarrow> db_value option) \<Rightarrow> tuple list \<Rightarrow> ('l, 'r) hash_join \<Rightarrow> ('l, 'r) hash_join option" where
  "add_entries key [] s = Some s"
| "add_entries key (t # ts) s = do { k \<leftarrow> key t; add_entries key ts (if is_null k then s else add_entry k t s) }"

text \<open>The loop of \<^verbatim>\<open>load_next_partition\<close>; the build partitions are the odd files, the probe partitions the even ones.\<close>

function hj_load_loop :: "hash_join_plan \<Rightarrow> ('l, 'r) hash_join world \<Rightarrow> (bool \<times> ('l, 'r) hash_join world) option" where
  "hj_load_loop p w =
     (case w of (s, err) \<Rightarrow>
      if current_partition s < 32
      then
        let i = current_partition s;
            (ts, e) = (if reopened (temps p) (1 + 2 * i)
                       then read_spill_all ''hash join'' (build_schema p) (build_partitions s ! i) else ([], None));
            err1 = (if e = None then err else e)
        in do { s1 \<leftarrow> add_entries (build_key p s) ts s;
                if reopened (temps p) (1 + 2 * i) \<and> err1 \<noteq> None then Some (False, s1, err1)
                else if reopened (temps p) (2 + 2 * i)
                then Some (True, s1\<lparr>probe_scan := Some (probe_partitions s ! i), current_partition := i + 1\<rparr>, err1)
                else hj_load_loop p (s\<lparr>buckets := buckets s1, current_partition := i + 1\<rparr>, err1) }
      else Some (False, s, err))"
  by pat_completeness auto
termination by (relation "measure (\<lambda>(_, s, _). 32 - current_partition s)") auto

declare hj_load_loop.simps [simp del]

definition load_next_partition :: "hash_join_plan \<Rightarrow> ('l, 'r) hash_join world \<Rightarrow> (bool \<times> ('l, 'r) hash_join world) option" where
  "load_next_partition p w =
     (case w of (s, err) \<Rightarrow>
      hj_load_loop p (clear_entries (s\<lparr>probe_scan := None, has_current_left := False, current_entry := []\<rparr>), err))"

text \<open>Walking the chain of the current row until a match; the second component is the rest of the chain.\<close>

fun chain_match :: "(tuple \<Rightarrow> db_value option) \<Rightarrow> db_value option \<Rightarrow> tuple list \<Rightarrow> (tuple option \<times> tuple list) option" where
  "chain_match bkey pkey [] = Some (None, [])"
| "chain_match bkey pkey (t # ts) =
     do { pk \<leftarrow> pkey; bk \<leftarrow> bkey t;
          if \<not> is_null pk \<and> \<not> is_null bk \<and> value_eq pk bk then Some (Some t, ts) else chain_match bkey pkey ts }"

definition walk_chain :: "hash_join_plan \<Rightarrow> ('l, 'r) hash_join \<Rightarrow> (tuple option \<times> ('l, 'r) hash_join) option" where
  "walk_chain p s =
     map_option (\<lambda>(m, rest). (map_option (make_join_tuple p (current_left s)) m,
         s\<lparr>current_entry := rest, current_left_matched := (current_left_matched s \<or> m \<noteq> None)\<rparr>))
       (chain_match (build_key p s) (probe_key p s (current_left s)) (current_entry s))"

text \<open>A new probe row becomes current.\<close>

definition start_probe :: "hash_join_plan \<Rightarrow> tuple \<Rightarrow> ('l, 'r) hash_join \<Rightarrow> ('l, 'r) hash_join option" where
  "start_probe p t s =
     map_option (\<lambda>key. s\<lparr>current_left := t, has_current_left := True, current_left_matched := False,
         current_entry := (if is_null key then [] else buckets s (hash_value key))\<rparr>)
       (probe_key p s t)"

text \<open>The two loops of \<^verbatim>\<open>next\<close> once the table is built.\<close>

partial_function (option) hj_probe_loop :: "'l next_fun \<Rightarrow> 'r next_fun \<Rightarrow> hash_join_plan \<Rightarrow> ('l, 'r) hash_join next_fun" where
  "hj_probe_loop left_next right_next p w =
     (case w of (s, err) \<Rightarrow>
      do { (m, s1) \<leftarrow> (if has_current_left s then walk_chain p s else Some (None, s));
           if m \<noteq> None then Some (m, s1, err)
           else if has_current_left s1 \<and> hj_type p = JLeft \<and> \<not> current_left_matched s1
           then Some (Some (make_left_only_tuple (out_schema p) (current_left s1)), s1\<lparr>has_current_left := False\<rparr>, err)
           else
             do { (r, s2, err2) \<leftarrow> side_next left_next right_next (\<not> build_left p) (s1, err);
                  case r of
                    None \<Rightarrow> Some (None, s2, err2)
                  | Some t \<Rightarrow> do { s3 \<leftarrow> start_probe p t s2; hj_probe_loop left_next right_next p (s3, err2) } } })"

partial_function (option) next_spilled :: "hash_join_plan \<Rightarrow> ('l, 'r) hash_join next_fun" where
  "next_spilled p w =
     do { (loaded, s, err) \<leftarrow> (if probe_scan (fst w) = None then load_next_partition p w else Some (True, w));
          if \<not> loaded then Some (None, s, err)
          else if has_current_left s
          then
            do { (m, s2) \<leftarrow> walk_chain p s;
                 if m \<noteq> None then Some (m, s2, err)
                 else if err \<noteq> None then Some (None, s2, err)
                 else if hj_type p = JLeft \<and> \<not> current_left_matched s2
                 then Some (Some (make_left_only_tuple (out_schema p) (current_left s2)), s2\<lparr>has_current_left := False\<rparr>, err)
                 else next_spilled p (s2\<lparr>has_current_left := False\<rparr>, err) }
          else
            case read_spill_tuple ''hash join'' (probe_schema p) (the (probe_scan s)) of
              Inl e \<Rightarrow>
                if e \<noteq> None \<or> err \<noteq> None then Some (None, s, if e = None then err else e)
                else next_spilled p (s\<lparr>probe_scan := None\<rparr>, err)
            | Inr tr \<Rightarrow>
                do { s1 \<leftarrow> start_probe p (fst tr) (s\<lparr>probe_scan := Some (snd tr)\<rparr>);
                     next_spilled p (s1, err) } }"

definition hj_next :: "'l next_fun \<Rightarrow> 'r next_fun \<Rightarrow> hash_join_plan \<Rightarrow> ('l, 'r) hash_join next_fun" where
  "hj_next left_next right_next p w =
     do { (s, err) \<leftarrow> build_hash_table left_next right_next p w;
          if err \<noteq> None then Some (None, s, err)
          else if left_key s = None \<or> right_key s = None then Some (None, s, err)
          else if spilled s then next_spilled p (s, err)
          else hj_probe_loop left_next right_next p (s, err) }"

subsection \<open>Counting\<close>

text \<open>\<^verbatim>\<open>fast_count\<close>: the number of rows without building them; the answer \<open>None\<close> is the result false.  The total is a
  natural number.\<close>

fun count_chain :: "(tuple \<Rightarrow> db_value option) \<Rightarrow> db_value \<Rightarrow> tuple list \<Rightarrow> nat option" where
  "count_chain bkey pk [] = Some 0"
| "count_chain bkey pk (t # ts) =
     do { bk \<leftarrow> bkey t; n \<leftarrow> count_chain bkey pk ts; Some (if \<not> is_null bk \<and> value_eq pk bk then n + 1 else n) }"

definition count_probe :: "hash_join_plan \<Rightarrow> ('l, 'r) hash_join \<Rightarrow> tuple \<Rightarrow> nat option" where
  "count_probe p s t =
     do { pk \<leftarrow> probe_key p s t;
          n \<leftarrow> (if is_null pk then Some 0 else count_chain (build_key p s) pk (buckets s (hash_value pk)));
          Some (if hj_type p = JLeft \<and> n = 0 then 1 else n) }"

partial_function (option) hj_count_loop ::
  "'l next_fun \<Rightarrow> 'r next_fun \<Rightarrow> hash_join_plan \<Rightarrow> nat \<Rightarrow> ('l, 'r) hash_join world \<Rightarrow> (nat \<times> ('l, 'r) hash_join world) option" where
  "hj_count_loop left_next right_next p n w =
     do { (r, s, err) \<leftarrow> side_next left_next right_next (\<not> build_left p) w;
          case r of
            None \<Rightarrow> Some (n, s, err)
          | Some t \<Rightarrow> do { k \<leftarrow> count_probe p s t; hj_count_loop left_next right_next p (n + k) (s, err) } }"

partial_function (option) hj_count_spilled ::
  "hash_join_plan \<Rightarrow> nat \<Rightarrow> ('l, 'r) hash_join world \<Rightarrow> (nat option \<times> ('l, 'r) hash_join world) option" where
  "hj_count_spilled p n w =
     do { (loaded, s, err) \<leftarrow> (if probe_scan (fst w) = None then load_next_partition p w else Some (True, w));
          if \<not> loaded then Some (if err = None then Some n else None, s, err)
          else
            case read_spill_tuple ''hash join'' (probe_schema p) (the (probe_scan s)) of
              Inl e \<Rightarrow>
                if e \<noteq> None \<or> err \<noteq> None then Some (None, s, if e = None then err else e)
                else hj_count_spilled p n (s\<lparr>probe_scan := None\<rparr>, err)
            | Inr tr \<Rightarrow>
                do { k \<leftarrow> count_probe p s (fst tr);
                     hj_count_spilled p (n + k) (s\<lparr>probe_scan := Some (snd tr)\<rparr>, err) } }"

definition hj_fast_count ::
  "'l next_fun \<Rightarrow> 'r next_fun \<Rightarrow> hash_join_plan \<Rightarrow> ('l, 'r) hash_join world \<Rightarrow> (nat option \<times> ('l, 'r) hash_join world) option" where
  "hj_fast_count left_next right_next p w =
     do { (s, err) \<leftarrow> build_hash_table left_next right_next p w;
          if err \<noteq> None \<or> left_key s = None \<or> right_key s = None then Some (None, s, err)
          else if \<not> spilled s then map_option (\<lambda>(n, w'). (Some n, w')) (hj_count_loop left_next right_next p 0 (s, err))
          else hj_count_spilled p 0 (s, err) }"

section \<open>Laws\<close>

subsection \<open>Keys and chains\<close>

definition plan_keys :: "hash_join_plan \<Rightarrow> expr option \<times> expr option" where
  "plan_keys p = (case on_condition p of Some (BinaryOp op lhs rhs) \<Rightarrow> join_keys p lhs rhs | _ \<Rightarrow> (None, None))"

definition bkey :: "hash_join_plan \<Rightarrow> tuple \<Rightarrow> db_value option" where
  "bkey p = eval_key (build_schema p) (if build_left p then fst (plan_keys p) else snd (plan_keys p))"

definition pkey :: "hash_join_plan \<Rightarrow> tuple \<Rightarrow> db_value option" where
  "pkey p = eval_key (probe_schema p) (if build_left p then snd (plan_keys p) else fst (plan_keys p))"

definition keys_match :: "hash_join_plan \<Rightarrow> tuple \<Rightarrow> tuple \<Rightarrow> bool" where
  "keys_match p t b \<longleftrightarrow> (\<exists>x y. pkey p t = Some x \<and> bkey p b = Some y \<and> \<not> is_null x \<and> \<not> is_null y \<and> value_eq x y)"

text \<open>The keys exist, and equal keys have equal hashes.\<close>

definition keys_ok :: "hash_join_plan \<Rightarrow> tuple list \<Rightarrow> tuple list \<Rightarrow> bool" where
  "keys_ok p bs ps \<longleftrightarrow> (\<forall>b \<in> set bs. bkey p b \<noteq> None) \<and> (\<forall>t \<in> set ps. pkey p t \<noteq> None) \<and>
     (\<forall>b \<in> set bs. \<forall>t \<in> set ps. keys_match p t b \<longrightarrow> hash_value (the (pkey p t)) = hash_value (the (bkey p b)))"

definition probe_rows :: "hash_join_plan \<Rightarrow> bool \<Rightarrow> tuple list \<Rightarrow> tuple \<Rightarrow> tuple list" where
  "probe_rows p matched bs t =
     (let ms = filter (keys_match p t) bs in
      if hj_type p = JLeft \<and> \<not> matched \<and> ms = [] then [make_left_only_tuple (out_schema p) t] else map (make_join_tuple p t) ms)"

definition chain :: "hash_join_plan \<Rightarrow> tuple list \<Rightarrow> nat \<Rightarrow> tuple list" where
  "chain p bs h = rev (filter (\<lambda>b. \<not> is_null (the (bkey p b)) \<and> hash_value (the (bkey p b)) = h) bs)"

lemma chain_simps [simp]:
  "chain p [] = (\<lambda>_. [])"
  "chain p (bs @ [b]) = (if is_null (the (bkey p b)) then chain p bs
     else (chain p bs)(hash_value (the (bkey p b)) := b # chain p bs (hash_value (the (bkey p b)))))"
  by (auto simp: chain_def fun_eq_iff)

text \<open>The rows of a probe row, by way of the table.\<close>

definition probe_via :: "hash_join_plan \<Rightarrow> (nat \<Rightarrow> tuple list) \<Rightarrow> tuple \<Rightarrow> tuple list" where
  "probe_via p table t =
     probe_rows p False (if is_null (the (pkey p t)) then [] else table (hash_value (the (pkey p t)))) t"

lemma probe_via_chain:
  assumes "keys_ok p bs ps" "t \<in> set ps"
  shows "probe_via p (chain p bs) t = probe_rows p False (rev bs) t"
proof -
  let ?k = "the (pkey p t)"
  have "filter (keys_match p t) (if is_null ?k then [] else chain p bs (hash_value ?k)) = filter (keys_match p t) (rev bs)"
  proof (cases "is_null ?k")
    case True
    then have "\<not> keys_match p t b" for b by (auto simp: keys_match_def)
    then show ?thesis using True by simp
  next
    case False
    have "keys_match p t b \<Longrightarrow> b \<in> set bs \<Longrightarrow> \<not> is_null (the (bkey p b)) \<and> hash_value (the (bkey p b)) = hash_value ?k" for b
      using assms unfolding keys_ok_def keys_match_def by force
    then show ?thesis using False by (auto simp: chain_def rev_filter intro!: filter_cong)
  qed
  then show ?thesis by (simp add: probe_via_def probe_rows_def)
qed

lemma chain_match_first:
  assumes "pk = pkey p t" "pkey p t \<noteq> None" "\<forall>b \<in> set ch. bkey p b \<noteq> None"
  shows "case filter (keys_match p t) ch of
      [] \<Rightarrow> chain_match (bkey p) pk ch = Some (None, [])
    | m # ms \<Rightarrow> \<exists>rest. chain_match (bkey p) pk ch = Some (Some m, rest) \<and> filter (keys_match p t) rest = ms \<and> set rest \<subseteq> set ch"
  using assms(3)
proof (induction ch)
  case (Cons b ch)
  obtain x y where xy: "pkey p t = Some x" "bkey p b = Some y" using assms(2) Cons.prems by auto
  then have m: "keys_match p t b \<longleftrightarrow> \<not> is_null x \<and> \<not> is_null y \<and> value_eq x y" by (simp add: keys_match_def)
  show ?case
  proof (cases "keys_match p t b")
    case True
    then show ?thesis using assms(1) xy m by auto
  next
    case False
    then have "chain_match (bkey p) pk (b # ch) = chain_match (bkey p) pk ch" using assms(1) xy m by auto
    then show ?thesis using Cons False by (auto split: list.splits)
  qed
qed simp

definition keys_set :: "hash_join_plan \<Rightarrow> ('l, 'r) hash_join \<Rightarrow> bool" where
  "keys_set p s \<longleftrightarrow> left_key s = fst (plan_keys p) \<and> right_key s = snd (plan_keys p)"

lemma keys_setD: "keys_set p s \<Longrightarrow> build_key p s = bkey p" "keys_set p s \<Longrightarrow> probe_key p s = pkey p"
  by (simp_all add: keys_set_def build_key_def bkey_def probe_key_def pkey_def)

text \<open>What is left of the current probe row.\<close>

definition current_rows :: "hash_join_plan \<Rightarrow> ('l, 'r) hash_join \<Rightarrow> tuple list" where
  "current_rows p s =
     (if has_current_left s then probe_rows p (current_left_matched s) (current_entry s) (current_left s) else [])"

definition current_ok :: "hash_join_plan \<Rightarrow> ('l, 'r) hash_join \<Rightarrow> bool" where
  "current_ok p s \<longleftrightarrow> (has_current_left s \<longrightarrow> pkey p (current_left s) \<noteq> None \<and> (\<forall>b \<in> set (current_entry s). bkey p b \<noteq> None))"

lemma walk_chain_rows:
  assumes "keys_set p s" "has_current_left s" "current_ok p s"
  shows "\<exists>m s'. walk_chain p s = Some (m, s') \<and> current_ok p s' \<and>
    s' = s\<lparr>current_entry := current_entry s', current_left_matched := current_left_matched s'\<rparr> \<and>
    (case m of
       Some t \<Rightarrow> current_rows p s = t # current_rows p s'
     | None \<Rightarrow> current_left_matched s' = current_left_matched s \<and> current_rows p s =
         (if hj_type p = JLeft \<and> \<not> current_left_matched s then [make_left_only_tuple (out_schema p) (current_left s)] else []))"
proof -
  have ok: "pkey p (current_left s) \<noteq> None" "\<forall>b \<in> set (current_entry s). bkey p b \<noteq> None"
    using assms by (simp_all add: current_ok_def)
  note first = chain_match_first [OF refl ok]
  show ?thesis
  proof (cases "filter (keys_match p (current_left s)) (current_entry s)")
    case Nil
    then show ?thesis
      using first assms ok by (auto simp: walk_chain_def keys_setD current_rows_def probe_rows_def current_ok_def)
  next
    case (Cons m ms)
    then obtain rest where r: "chain_match (bkey p) (pkey p (current_left s)) (current_entry s) = Some (Some m, rest)"
        "filter (keys_match p (current_left s)) rest = ms" "set rest \<subseteq> set (current_entry s)"
      using first by auto
    then show ?thesis
      using Cons assms ok by (auto simp: walk_chain_def keys_setD current_rows_def probe_rows_def current_ok_def)
  qed
qed

subsection \<open>The two sides\<close>

text \<open>States that differ in the children only.\<close>

definition table_of :: "('l, 'r) hash_join \<Rightarrow> ('l, 'r) hash_join" where
  "table_of s = s\<lparr>hj_left := undefined, hj_right := undefined\<rparr>"

definition frame_of :: "('l, 'r) hash_join \<Rightarrow> ('l, 'r) hash_join" where
  "frame_of s = s\<lparr>hj_left := undefined, hj_right := undefined, spill_file := None, spilled := False, buckets := (\<lambda>_. [])\<rparr>"

lemma table_ofD:
  assumes "table_of s' = table_of s"
  shows "buckets s' = buckets s" "spilled s' = spilled s" "spill_file s' = spill_file s" "frame_of s' = frame_of s"
  using arg_cong [OF assms, of buckets] arg_cong [OF assms, of spilled] arg_cong [OF assms, of spill_file]
    arg_cong [OF assms, of frame_of]
  by (simp_all add: table_of_def frame_of_def)

lemma frame_ofD:
  assumes "frame_of s' = frame_of s"
  shows "current_left s' = current_left s" "current_entry s' = current_entry s" "left_key s' = left_key s"
    "right_key s' = right_key s" "has_current_left s' = has_current_left s" "current_left_matched s' = current_left_matched s"
    "built s' = built s" "build_partitions s' = build_partitions s"
    "probe_partitions s' = probe_partitions s" "probe_scan s' = probe_scan s" "current_partition s' = current_partition s"
    "grace_ready s' = grace_ready s"
  using arg_cong [OF assms, of current_left] arg_cong [OF assms, of current_entry] arg_cong [OF assms, of left_key]
    arg_cong [OF assms, of right_key] arg_cong [OF assms, of has_current_left] arg_cong [OF assms, of current_left_matched]
    arg_cong [OF assms, of built] arg_cong [OF assms, of build_partitions] arg_cong [OF assms, of probe_partitions]
    arg_cong [OF assms, of probe_scan] arg_cong [OF assms, of current_partition] arg_cong [OF assms, of grace_ready]
  by (simp_all add: frame_of_def)

context executor_pair
begin

definition side_running :: "bool \<Rightarrow> ('l, 'r) hash_join \<Rightarrow> bool" where
  "side_running left s = (if left then lrunning (hj_left s) else rrunning (hj_right s))"

definition side_ready :: "bool \<Rightarrow> ('l, 'r) hash_join \<Rightarrow> bool" where
  "side_ready left s = (if left then lready (hj_left s) else rready (hj_right s))"

definition side_all :: "bool \<Rightarrow> ('l, 'r) hash_join \<Rightarrow> tuple list" where
  "side_all left s = (if left then lall (hj_left s) else rall (hj_right s))"

definition side_rows :: "bool \<Rightarrow> ('l, 'r) hash_join \<Rightarrow> tuple list" where
  "side_rows left s = (if left then lrows (hj_left s) else rrows (hj_right s))"

lemmas side_defs = side_running_def side_ready_def side_all_def side_rows_def

definition other_kept :: "bool \<Rightarrow> ('l, 'r) hash_join \<Rightarrow> ('l, 'r) hash_join \<Rightarrow> bool" where
  "other_kept left s s' \<longleftrightarrow> table_of s' = table_of s \<and> side_running (\<not> left) s' = side_running (\<not> left) s \<and>
     side_ready (\<not> left) s' = side_ready (\<not> left) s \<and> side_rows (\<not> left) s' = side_rows (\<not> left) s \<and>
     side_all (\<not> left) s' = side_all (\<not> left) s \<and> side_all left s' = side_all left s"

lemma side_cong:
  assumes "hj_left s' = hj_left s" "hj_right s' = hj_right s"
  shows "side_running left s' = side_running left s" "side_ready left s' = side_ready left s"
    "side_rows left s' = side_rows left s" "side_all left s' = side_all left s"
  using assms by (simp_all add: side_defs)

lemma side_next_row:
  assumes "side_running left s" "side_rows left s = t # ts"
  shows "\<exists>s'. side_next lnxt rnxt left (s, None) = Some (Some t, s', None) \<and> side_running left s' \<and> side_rows left s' = ts \<and>
    other_kept left s s'"
  using assms l.next_row [of "hj_left s" t ts] r.next_row [of "hj_right s" t ts]
  by (cases left) (auto simp: side_next_def side_defs other_kept_def table_of_def)

lemma side_next_end:
  assumes "side_running left s" "side_rows left s = []"
  shows "\<exists>s'. side_next lnxt rnxt left (s, None) = Some (None, s', None) \<and> side_ready left s' \<and> other_kept left s s'"
  using assms l.next_end [of "hj_left s"] r.next_end [of "hj_right s"]
  by (cases left) (auto simp: side_next_def side_defs other_kept_def table_of_def)

end

subsection \<open>Building\<close>

definition build_cost :: "hash_join_plan \<Rightarrow> tuple list \<Rightarrow> nat" where
  "build_cost p bs = sum_list (map (\<lambda>t. tuple_serialized_size t + entry_size p + 32) bs)"

definition over :: "hash_join_plan \<Rightarrow> nat \<Rightarrow> bool" where
  "over p memory \<longleftrightarrow> work_mem p \<noteq> 0 \<and> memory > work_mem p"

context executor_pair
begin

lemma hj_build_loop_rows:
  assumes "temps_work (temps p)" "side_running (build_left p) s" "keys_set p s" "\<forall>b \<in> set (side_rows (build_left p) s). bkey p b \<noteq> None"
    and "spill_file s = Some f" "spilled s \<longleftrightarrow> over p memory" "\<not> spilled s \<longrightarrow> buckets s = chain p bs"
    and "spilled s \<longrightarrow> buckets s = (\<lambda>_. [])"
  shows "\<exists>s'. hj_build_loop lnxt rnxt p memory (s, None) = Some (True, s', None) \<and> side_ready (build_left p) s' \<and>
    side_all (build_left p) s' = side_all (build_left p) s \<and>
    side_running (\<not> build_left p) s' = side_running (\<not> build_left p) s \<and> side_rows (\<not> build_left p) s' = side_rows (\<not> build_left p) s \<and>
    side_all (\<not> build_left p) s' = side_all (\<not> build_left p) s \<and> frame_of s' = frame_of s \<and>
    spill_file s' = Some (f @ concat (map spill_record (side_rows (build_left p) s))) \<and>
    spilled s' = over p (memory + build_cost p (side_rows (build_left p) s)) \<and>
    (\<not> spilled s' \<longrightarrow> buckets s' = chain p (bs @ side_rows (build_left p) s)) \<and> (spilled s' \<longrightarrow> buckets s' = (\<lambda>_. []))"
  using assms(2-)
proof (induction "side_rows (build_left p) s" arbitrary: s f memory bs)
  case Nil
  then obtain s' where s': "side_next lnxt rnxt (build_left p) (s, None) = Some (None, s', None)" "side_ready (build_left p) s'"
      "other_kept (build_left p) s s'"
    using side_next_end by metis
  then have "table_of s' = table_of s" by (simp add: other_kept_def)
  from table_ofD [OF this] show ?case using s' Nil by (subst hj_build_loop.simps) (auto simp: other_kept_def build_cost_def)
next
  case (Cons t ts)
  let ?B = "build_left p" and ?m = "memory + (tuple_serialized_size t + entry_size p + 32)"
  obtain s1 where s1: "side_next lnxt rnxt ?B (s, None) = Some (Some t, s1, None)" "side_running ?B s1" "side_rows ?B s1 = ts"
      "other_kept ?B s s1"
    using side_next_row [OF Cons.prems(1) Cons.hyps(2) [symmetric]] by blast
  then have tab: "table_of s1 = table_of s" by (simp add: other_kept_def)
  note t1 = table_ofD [OF tab] and f1 = frame_ofD [OF table_ofD(4) [OF tab]]
  let ?s = "s1\<lparr>spill_file := Some (f @ spill_record t)\<rparr>"
  obtain k where k: "bkey p t = Some k" using Cons.prems(3) Cons.hyps(2) [symmetric] by auto
  have keys: "build_key p ?s t = Some k"
    using k Cons.prems(2) f1 keys_setD(1) [of p ?s] by (simp add: keys_set_def)
  define s2 where "s2 = (if over p ?m then clear_entries (?s\<lparr>spilled := True\<rparr>) else if is_null k then ?s else add_entry k t ?s)"
  have sp: "spilled s1 \<Longrightarrow> over p ?m" using Cons.prems(5) t1(2) by (auto simp: over_def)
  have add: "memory + tuple_serialized_size t + entry_size p + 32 = ?m" by simp
  have step: "hj_build_loop lnxt rnxt p memory (s, None) = hj_build_loop lnxt rnxt p ?m (s2, None)"
  proof (cases "over p ?m")
    case True
    then show ?thesis
      using Cons.prems(4) t1(3)
      by (subst hj_build_loop.simps) (simp add: s1(1) write_works [OF assms(1)] s2_def over_def add Let_def)
  next
    case False
    then have no: "\<not> spilled s1" "\<not> (0 < work_mem p \<and> work_mem p < ?m)" using sp by (auto simp: over_def)
    show ?thesis
      using Cons.prems(4) t1(3) no(2)
      by (subst hj_build_loop.simps) (auto simp: s1(1) write_works [OF assms(1)] s2_def False no(1) add Let_def keys)
  qed
  have side: "hj_left s2 = hj_left s1" "hj_right s2 = hj_right s1" by (simp_all add: s2_def clear_entries_def add_entry_def)
  have s2: "side_running ?B s2" "side_rows ?B s2 = ts" "keys_set p s2" "spill_file s2 = Some (f @ spill_record t)"
      "frame_of s2 = frame_of s"
    using s1(2,3) f1(3,4) Cons.prems(2) t1(4)
    by (simp_all add: side_cong [OF side]) (simp_all add: s2_def clear_entries_def add_entry_def keys_set_def frame_of_def)
  have s2': "spilled s2 \<longleftrightarrow> over p ?m" "\<not> spilled s2 \<longrightarrow> buckets s2 = chain p (bs @ [t])"
      "spilled s2 \<longrightarrow> buckets s2 = (\<lambda>_. [])"
    using sp t1(1,2) Cons.prems(6) k by (auto simp: s2_def clear_entries_def add_entry_def)
  have kept: "side_all ?B s2 = side_all ?B s" "side_running (\<not> ?B) s2 = side_running (\<not> ?B) s"
      "side_rows (\<not> ?B) s2 = side_rows (\<not> ?B) s" "side_all (\<not> ?B) s2 = side_all (\<not> ?B) s"
    using s1(4) by (simp_all add: side_cong [OF side] other_kept_def)
  have ok: "\<forall>b \<in> set (side_rows ?B s2). bkey p b \<noteq> None" using Cons.prems(3) Cons.hyps(2) [symmetric] s2(2) by simp
  obtain s' where "hj_build_loop lnxt rnxt p ?m (s2, None) = Some (True, s', None)" "side_ready ?B s'"
      "side_all ?B s' = side_all ?B s2" "side_running (\<not> ?B) s' = side_running (\<not> ?B) s2"
      "side_rows (\<not> ?B) s' = side_rows (\<not> ?B) s2" "side_all (\<not> ?B) s' = side_all (\<not> ?B) s2" "frame_of s' = frame_of s2"
      "spill_file s' = Some ((f @ spill_record t) @ concat (map spill_record (side_rows ?B s2)))"
      "spilled s' = over p (?m + build_cost p (side_rows ?B s2))"
      "\<not> spilled s' \<longrightarrow> buckets s' = chain p ((bs @ [t]) @ side_rows ?B s2)" "spilled s' \<longrightarrow> buckets s' = (\<lambda>_. [])"
    using Cons.hyps(1) [OF s2(2) [symmetric] s2(1) s2(3) ok s2(4) s2'] by blast
  then show ?case
    using kept s2(2,5) Cons.hyps(2) [symmetric] by (intro exI [of _ s']) (simp add: step build_cost_def add.assoc)
qed

end

subsection \<open>Probing\<close>

text \<open>A state in which the table can be probed.\<close>

definition probe_ready :: "hash_join_plan \<Rightarrow> ('l, 'r) hash_join \<Rightarrow> bool" where
  "probe_ready p s \<longleftrightarrow> keys_set p s \<and> current_ok p s \<and> (\<forall>h. \<forall>b \<in> set (buckets s h). bkey p b \<noteq> None)"

lemma start_probe_rows:
  assumes "probe_ready p s" "pkey p t \<noteq> None"
  shows "\<exists>s'. start_probe p t s = Some s' \<and> probe_ready p s' \<and> has_current_left s' \<and> current_rows p s' = probe_via p (buckets s) t \<and>
    s' = s\<lparr>current_left := current_left s', has_current_left := True, current_left_matched := current_left_matched s',
      current_entry := current_entry s'\<rparr>"
proof -
  obtain k where k: "pkey p t = Some k" using assms(2) by auto
  let ?s = "s\<lparr>current_left := t, has_current_left := True, current_left_matched := False,
      current_entry := (if is_null k then [] else buckets s (hash_value k))\<rparr>"
  have "start_probe p t s = Some ?s" using assms(1) k by (simp add: start_probe_def probe_ready_def keys_setD)
  moreover have "probe_ready p ?s" "current_rows p ?s = probe_via p (buckets s) t"
    using assms(1) k by (auto simp: probe_ready_def current_ok_def current_rows_def probe_via_def keys_set_def)
  ultimately show ?thesis by (intro exI [of _ ?s]) simp
qed

text \<open>A step along the chain, if there is a current row.\<close>

lemma advance_rows:
  assumes "probe_ready p s"
  shows "\<exists>m s'. (if has_current_left s then walk_chain p s else Some (None, s)) = Some (m, s') \<and> probe_ready p s' \<and>
    s' = s\<lparr>current_entry := current_entry s', current_left_matched := current_left_matched s'\<rparr> \<and>
    (\<forall>t. m = Some t \<longrightarrow> current_rows p s = t # current_rows p s') \<and>
    (m = None \<longrightarrow> current_left_matched s' = current_left_matched s \<and> current_rows p s =
       (if has_current_left s \<and> hj_type p = JLeft \<and> \<not> current_left_matched s
        then [make_left_only_tuple (out_schema p) (current_left s)] else []))"
proof (cases "has_current_left s")
  case True
  obtain m s' where w: "walk_chain p s = Some (m, s')" "current_ok p s'"
      "s' = s\<lparr>current_entry := current_entry s', current_left_matched := current_left_matched s'\<rparr>"
    and m: "case m of
       Some t \<Rightarrow> current_rows p s = t # current_rows p s'
     | None \<Rightarrow> current_left_matched s' = current_left_matched s \<and> current_rows p s =
         (if hj_type p = JLeft \<and> \<not> current_left_matched s then [make_left_only_tuple (out_schema p) (current_left s)] else [])"
    using walk_chain_rows [of p s] True assms by (auto simp: probe_ready_def)
  have "buckets s' = buckets s" "keys_set p s'"
    using assms by (subst w(3), simp add: probe_ready_def keys_set_def)+
  then have "probe_ready p s'" using assms w(2) by (simp add: probe_ready_def)
  then show ?thesis using True w m by (intro exI [of _ m] exI [of _ s']) (cases m, simp_all)
next
  case False
  then show ?thesis using assms by (simp add: current_rows_def)
qed

context executor_pair
begin

definition mem_running :: "hash_join_plan \<Rightarrow> ('l, 'r) hash_join \<Rightarrow> bool" where
  "mem_running p s \<longleftrightarrow> built s \<and> \<not> spilled s \<and> probe_ready p s \<and> side_ready (build_left p) s \<and> side_running (\<not> build_left p) s \<and>
     (\<forall>t \<in> set (side_rows (\<not> build_left p) s). pkey p t \<noteq> None)"

definition mem_rows :: "hash_join_plan \<Rightarrow> ('l, 'r) hash_join \<Rightarrow> tuple list" where
  "mem_rows p s = current_rows p s @ concat (map (probe_via p (buckets s)) (side_rows (\<not> build_left p) s))"

definition sides_all :: "('l, 'r) hash_join \<Rightarrow> tuple list \<times> tuple list" where
  "sides_all s = (lall (hj_left s), rall (hj_right s))"

lemma other_kept_all: "other_kept left s s' \<Longrightarrow> sides_all s' = sides_all s"
  by (cases left) (auto simp: other_kept_def sides_all_def side_all_def)

lemma hj_probe_fetch:
  assumes "mem_running p s" "side_rows (\<not> build_left p) s = t # ts"
  shows "\<exists>s1 s2. side_next lnxt rnxt (\<not> build_left p) (s, None) = Some (Some t, s1, None) \<and> start_probe p t s1 = Some s2 \<and>
    mem_running p s2 \<and> side_rows (\<not> build_left p) s2 = ts \<and> sides_all s2 = sides_all s \<and>
    mem_rows p s2 = concat (map (probe_via p (buckets s)) (side_rows (\<not> build_left p) s))"
proof -
  let ?P = "\<not> build_left p"
  obtain s1 where s1: "side_next lnxt rnxt ?P (s, None) = Some (Some t, s1, None)" "side_running ?P s1" "side_rows ?P s1 = ts"
      "other_kept ?P s s1"
    using side_next_row [of ?P s t ts] assms by (auto simp: mem_running_def)
  then have tab: "table_of s1 = table_of s" by (simp add: other_kept_def)
  note t1 = table_ofD [OF tab] and f1 = frame_ofD [OF table_ofD(4) [OF tab]]
  have k: "pkey p t \<noteq> None" "\<forall>t \<in> set ts. pkey p t \<noteq> None" using assms by (auto simp: mem_running_def)
  have "probe_ready p s1" using assms(1) t1 f1 by (simp add: mem_running_def probe_ready_def keys_set_def current_ok_def)
  from start_probe_rows [OF this k(1)] obtain s2 where s2: "start_probe p t s1 = Some s2" "probe_ready p s2" "has_current_left s2"
      "current_rows p s2 = probe_via p (buckets s1) t"
      "s2 = s1\<lparr>current_left := current_left s2, has_current_left := True, current_left_matched := current_left_matched s2,
        current_entry := current_entry s2\<rparr>"
    by blast
  have f2: "hj_left s2 = hj_left s1" "hj_right s2 = hj_right s1" "buckets s2 = buckets s1" "built s2 = built s1" "spilled s2 = spilled s1"
    by (subst s2(5), simp)+
  note c2 = side_cong [OF f2(1,2)]
  have "side_ready (build_left p) s1" using s1(4) assms(1) by (simp add: other_kept_def mem_running_def)
  then have "mem_running p s2" using assms(1) s1 s2 f2 c2 t1 f1 k by (simp add: mem_running_def)
  moreover have "sides_all s2 = sides_all s" using other_kept_all [OF s1(4)] f2 by (simp add: sides_all_def)
  moreover have "mem_rows p s2 = concat (map (probe_via p (buckets s)) (side_rows ?P s))"
    using s2(4) f2 c2 t1 s1 assms(2) by (simp add: mem_rows_def)
  ultimately show ?thesis using s1 s2 c2 by (intro exI [of _ s1] exI [of _ s2]) simp
qed

lemma hj_probe_rows:
  assumes "mem_running p s"
  shows "case mem_rows p s of
      [] \<Rightarrow> \<exists>s'. hj_probe_loop lnxt rnxt p (s, None) = Some (None, s', None) \<and> side_ready True s' \<and> side_ready False s' \<and> sides_all s' = sides_all s
    | t # ts \<Rightarrow> \<exists>s'. hj_probe_loop lnxt rnxt p (s, None) = Some (Some t, s', None) \<and> mem_running p s' \<and> mem_rows p s' = ts \<and>
        sides_all s' = sides_all s"
  using assms
proof (induction "length (side_rows (\<not> build_left p) s)" arbitrary: s rule: less_induct)
  case less
  let ?P = "\<not> build_left p"
  have run: "probe_ready p s" using less.prems by (simp add: mem_running_def)
  obtain m s1 where w: "(if has_current_left s then walk_chain p s else Some (None, s)) = Some (m, s1)" "probe_ready p s1"
      "s1 = s\<lparr>current_entry := current_entry s1, current_left_matched := current_left_matched s1\<rparr>"
      "\<forall>t. m = Some t \<longrightarrow> current_rows p s = t # current_rows p s1"
      "m = None \<longrightarrow> current_left_matched s1 = current_left_matched s \<and> current_rows p s =
       (if has_current_left s \<and> hj_type p = JLeft \<and> \<not> current_left_matched s
        then [make_left_only_tuple (out_schema p) (current_left s)] else [])"
    using advance_rows [OF run] by blast
  have f: "hj_left s1 = hj_left s" "hj_right s1 = hj_right s" "buckets s1 = buckets s" "built s1 = built s" "spilled s1 = spilled s"
      "has_current_left s1 = has_current_left s" "current_left s1 = current_left s"
    by (subst w(3), simp)+
  note c = side_cong [OF f(1,2)]
  have r1: "mem_running p s1" "sides_all s1 = sides_all s" using less.prems w(2) f c by (simp_all add: mem_running_def sides_all_def)
  have rows: "mem_rows p s = current_rows p s @ concat (map (probe_via p (buckets s1)) (side_rows ?P s1))"
      "mem_rows p s1 = current_rows p s1 @ concat (map (probe_via p (buckets s1)) (side_rows ?P s1))"
    using f c by (simp_all add: mem_rows_def)
  have loop: "hj_probe_loop lnxt rnxt p (s, None) =
      (if m \<noteq> None then Some (m, s1, None)
       else if has_current_left s1 \<and> hj_type p = JLeft \<and> \<not> current_left_matched s1
       then Some (Some (make_left_only_tuple (out_schema p) (current_left s1)), s1\<lparr>has_current_left := False\<rparr>, None)
       else do { (r, s2, err2) \<leftarrow> side_next lnxt rnxt ?P (s1, None);
                 case r of None \<Rightarrow> Some (None, s2, err2)
                 | Some t \<Rightarrow> do { s3 \<leftarrow> start_probe p t s2; hj_probe_loop lnxt rnxt p (s3, err2) } })"
    by (subst hj_probe_loop.simps) (simp add: w(1))
  show ?case
  proof (cases m)
    case (Some t)
    have "hj_probe_loop lnxt rnxt p (s, None) = Some (Some t, s1, None)" by (simp add: loop Some)
    then show ?thesis using w(4) r1 rows Some by simp
  next
    case m: None
    show ?thesis
    proof (cases "has_current_left s \<and> hj_type p = JLeft \<and> \<not> current_left_matched s")
      case True
      let ?s = "s1\<lparr>has_current_left := False\<rparr>"
      have "hj_probe_loop lnxt rnxt p (s, None) = Some (Some (make_left_only_tuple (out_schema p) (current_left s)), ?s, None)"
        using True w(5) m f(6,7) by (simp add: loop)
      moreover have "mem_running p ?s" "sides_all ?s = sides_all s"
        using r1 side_cong [of ?s s1] by (simp_all add: mem_running_def probe_ready_def current_ok_def keys_set_def sides_all_def)
      moreover have "mem_rows p ?s = concat (map (probe_via p (buckets s1)) (side_rows ?P s1))"
        using side_cong [of ?s s1] by (simp add: mem_rows_def current_rows_def)
      ultimately show ?thesis using True w(5) m rows by simp
    next
      case False
      then have loop': "hj_probe_loop lnxt rnxt p (s, None) =
          do { (r, s2, err2) \<leftarrow> side_next lnxt rnxt ?P (s1, None);
               case r of None \<Rightarrow> Some (None, s2, err2)
               | Some t \<Rightarrow> do { s3 \<leftarrow> start_probe p t s2; hj_probe_loop lnxt rnxt p (s3, err2) } }"
        using w(5) m f(6) by (subst loop) auto
      have rows': "mem_rows p s = concat (map (probe_via p (buckets s1)) (side_rows ?P s1))" using False w(5) m rows(1) by simp
      show ?thesis
      proof (cases "side_rows ?P s1")
        case Nil
        then obtain s2 where "side_next lnxt rnxt ?P (s1, None) = Some (None, s2, None)" "side_ready ?P s2" "other_kept ?P s1 s2"
          using side_next_end [of ?P s1] r1(1) by (auto simp: mem_running_def)
        moreover have "side_ready (build_left p) s2" using \<open>other_kept ?P s1 s2\<close> r1(1) by (simp add: other_kept_def mem_running_def)
        ultimately show ?thesis
          using rows' Nil other_kept_all [of ?P s1 s2] r1(2) by (cases "build_left p") (simp_all add: loop')
      next
        case (Cons t ts)
        obtain s2 s3 where s3: "side_next lnxt rnxt ?P (s1, None) = Some (Some t, s2, None)" "start_probe p t s2 = Some s3"
            "mem_running p s3" "side_rows ?P s3 = ts" "sides_all s3 = sides_all s1"
            "mem_rows p s3 = concat (map (probe_via p (buckets s1)) (side_rows ?P s1))"
          using hj_probe_fetch [OF r1(1) Cons] by blast
        then have step: "hj_probe_loop lnxt rnxt p (s, None) = hj_probe_loop lnxt rnxt p (s3, None)" by (simp add: loop')
        have "length (side_rows ?P s3) < length (side_rows ?P s)" using s3(4) Cons c by simp
        note hyp = less.hyps [OF this s3(3)]
        have e: "mem_rows p s3 = mem_rows p s" "sides_all s3 = sides_all s" using s3(5,6) r1(2) rows' by simp_all
        show ?thesis using hyp by (simp only: step e)
      qed
    qed
  qed
qed

end

end
