(* ===== verification/Hash_Join_Laws.thy ===== *)
theory Hash_Join_Laws
  imports Hash_Join
begin

section \<open>The hash join computes the join\<close>

text \<open>
  The laws of \<^verbatim>\<open>hash_join_executor.cpp\<close>: a join whose table exceeds the working memory partitions both
  sides into files and joins the partitions one after the other; with and without partitions the
  operator returns the rows of the join.
\<close>

subsection \<open>Partitions\<close>

definition part_of :: "(tuple \<Rightarrow> db_value option) \<Rightarrow> nat \<Rightarrow> tuple list \<Rightarrow> tuple list" where
  "part_of key i ts = filter (\<lambda>t. partition_of (the (key t)) = i) ts"

lemma partition_of_less: "partition_of k < 32"
  by (simp add: partition_of_def)

lemma add_to_partition_works:
  assumes "temps_work tmp" "length parts = 32"
  shows "add_to_partition tmp k t parts = Some (parts[partition_of k := parts ! partition_of k @ spill_record t])"
  using assms by (simp add: add_to_partition_def write_works)

lemma partitions_step:
  assumes "length parts = 32" "key t = Some k"
  shows "map (\<lambda>i. parts[partition_of k := parts ! partition_of k @ spill_record t] ! i @ file_of (part_of key i ts)) [0..<32] =
    map (\<lambda>i. parts ! i @ file_of (part_of key i (t # ts))) [0..<32]"
  using assms partition_of_less [of k] by (intro map_cong) (auto simp: part_of_def file_of_def nth_list_update)

lemma partition_build_works:
  assumes "temps_work tmp" "\<forall>t \<in> set ts. key t \<noteq> None" "length parts = 32"
  shows "partition_build tmp key ts parts = Some (Some (map (\<lambda>i. parts ! i @ file_of (part_of key i ts)) [0..<32]))"
  using assms(2,3)
proof (induction ts arbitrary: parts)
  case Nil
  then show ?case by (simp add: part_of_def file_of_def list_eq_iff_nth_eq)
next
  case (Cons t ts)
  then obtain k where k: "key t = Some k" by auto
  show ?case
    using Cons k partitions_step [of parts key t k ts, OF Cons.prems(2) k] by (simp add: add_to_partition_works [OF assms(1)])
qed

lemma table_of_partitions: "table_of (s\<lparr>probe_partitions := ps\<rparr>) = (table_of s)\<lparr>probe_partitions := ps\<rparr>"
  by (simp add: table_of_def)

context executor_pair
begin

lemma hj_partition_probe_works:
  assumes "temps_work (temps p)" "keys_set p s" "side_running (\<not> build_left p) s" "length (probe_partitions s) = 32"
    and "\<forall>t \<in> set (side_rows (\<not> build_left p) s). pkey p t \<noteq> None"
  shows "\<exists>s'. hj_partition_probe lnxt rnxt p (s, None) = Some (True, s', None) \<and> side_ready (\<not> build_left p) s' \<and>
    side_ready (build_left p) s' = side_ready (build_left p) s \<and> sides_all s' = sides_all s \<and>
    table_of s' = table_of (s\<lparr>probe_partitions :=
      map (\<lambda>i. probe_partitions s ! i @ file_of (part_of (pkey p) i (side_rows (\<not> build_left p) s))) [0..<32]\<rparr>)"
  using assms(2-)
proof (induction "side_rows (\<not> build_left p) s" arbitrary: s)
  case Nil
  let ?P = "\<not> build_left p"
  obtain s' where s': "side_next lnxt rnxt ?P (s, None) = Some (None, s', None)" "side_ready ?P s'" "other_kept ?P s s'"
    using side_next_end [OF Nil(3) Nil(1) [symmetric]] by blast
  have same: "map (\<lambda>i. probe_partitions s ! i @ file_of (part_of (pkey p) i [])) [0..<32] = probe_partitions s"
    using Nil(4) by (intro nth_equalityI) (simp_all add: part_of_def file_of_def)
  have "hj_partition_probe lnxt rnxt p (s, None) = Some (True, s', None)"
    by (subst hj_partition_probe.simps) (simp add: s'(1))
  then show ?case
    using s'(2,3) other_kept_all [OF s'(3)] by (intro exI [of _ s']) (simp add: Nil(1) [symmetric] same other_kept_def)
next
  case (Cons t ts)
  let ?P = "\<not> build_left p"
  obtain s1 where s1: "side_next lnxt rnxt ?P (s, None) = Some (Some t, s1, None)" "side_running ?P s1" "side_rows ?P s1 = ts"
      "other_kept ?P s s1"
    using side_next_row [OF Cons.prems(2) Cons.hyps(2) [symmetric]] by blast
  then have tab: "table_of s1 = table_of s" by (simp add: other_kept_def)
  note f1 = frame_ofD [OF table_ofD(4) [OF tab]]
  obtain k where k: "pkey p t = Some k" using Cons.prems(4) Cons.hyps(2) [symmetric] by auto
  have k1: "keys_set p s1" using Cons.prems(1) f1 by (simp add: keys_set_def)
  let ?s = "s1\<lparr>probe_partitions := (probe_partitions s)[partition_of k := probe_partitions s ! partition_of k @ spill_record t]\<rparr>"
  have step: "hj_partition_probe lnxt rnxt p (s, None) = hj_partition_probe lnxt rnxt p (?s, None)"
    using k keys_setD(2) [OF k1] f1(9) Cons.prems(3)
    by (subst hj_partition_probe.simps) (simp add: s1(1) add_to_partition_works [OF assms(1)])
  note c = side_cong [of ?s s1, simplified]
  have pre: "keys_set p ?s" "side_running ?P ?s" "length (probe_partitions ?s) = 32" "\<forall>t \<in> set (side_rows ?P ?s). pkey p t \<noteq> None"
      "side_rows ?P ?s = ts"
    using k1 s1 c Cons.prems Cons.hyps(2) [symmetric] by (simp_all add: keys_set_def)
  obtain s' where s': "hj_partition_probe lnxt rnxt p (?s, None) = Some (True, s', None)" "side_ready ?P s'"
      "side_ready (build_left p) s' = side_ready (build_left p) ?s" "sides_all s' = sides_all ?s"
      "table_of s' = table_of (?s\<lparr>probe_partitions :=
        map (\<lambda>i. probe_partitions ?s ! i @ file_of (part_of (pkey p) i (side_rows ?P ?s))) [0..<32]\<rparr>)"
    using Cons.hyps(1) [OF pre(5) [symmetric] pre(1-4)] by blast
  have "table_of s' = table_of (s\<lparr>probe_partitions :=
      map (\<lambda>i. probe_partitions s ! i @ file_of (part_of (pkey p) i (t # ts))) [0..<32]\<rparr>)"
    using s'(5) pre(5) partitions_step [of "probe_partitions s" "pkey p" t k ts, OF Cons.prems(3) k] tab
    by (simp add: table_of_partitions)
  then show ?case
    using s' s1(4) other_kept_all [OF s1(4)] c Cons.hyps(2) [symmetric]
    by (intro exI [of _ s']) (simp add: step other_kept_def sides_all_def)
qed

end

subsection \<open>Joining the partitions\<close>

definition good_file :: "schema \<Rightarrow> (tuple \<Rightarrow> db_value option) \<Rightarrow> byte list \<Rightarrow> bool" where
  "good_file sch key f \<longleftrightarrow> (\<exists>ts. f = file_of ts \<and> (\<forall>t \<in> set ts. spillable sch t \<and> key t \<noteq> None))"

definition rows_of :: "schema \<Rightarrow> byte list \<Rightarrow> tuple list" where
  "rows_of sch f = fst (read_spill_all ''hash join'' sch f)"

lemma rows_of_file: "\<forall>t \<in> set ts. spillable sch t \<Longrightarrow> rows_of sch (file_of ts) = ts"
  by (simp add: rows_of_def file_of_def read_spill_records)

lemma good_fileE:
  assumes "good_file sch key f"
  obtains ts where "f = file_of ts" "\<forall>t \<in> set ts. spillable sch t" "\<forall>t \<in> set ts. key t \<noteq> None" "rows_of sch f = ts"
    "read_spill_all ''hash join'' sch f = (ts, None)"
proof -
  obtain ts where "f = file_of ts" "\<forall>t \<in> set ts. spillable sch t \<and> key t \<noteq> None" using assms by (auto simp: good_file_def)
  then show ?thesis
    using read_spill_records [of ts sch "''hash join''"] by (intro that [of ts]) (simp_all add: rows_of_file, simp add: file_of_def)
qed

lemma good_file_empty: "good_file sch key f \<Longrightarrow> rows_of sch f = [] \<Longrightarrow> read_spill_tuple ''hash join'' sch f = Inl None"
  by (erule good_fileE) (simp add: file_of_def read_spill_tuple_def take_word_def)

lemma good_file_row:
  assumes "good_file sch key f" "rows_of sch f = t # ts"
  shows "\<exists>rest. read_spill_tuple ''hash join'' sch f = Inr (t, rest) \<and> good_file sch key rest \<and> rows_of sch rest = ts \<and> key t \<noteq> None"
  using assms(1)
proof (rule good_fileE)
  fix us assume us: "f = file_of us" "\<forall>t \<in> set us. spillable sch t" "\<forall>t \<in> set us. key t \<noteq> None" "rows_of sch f = us"
  then have "us = t # ts" using assms(2) by simp
  then show ?thesis using us read_spill_record [of sch t "''hash join''" "file_of ts"]
    by (intro exI [of _ "file_of ts"]) (auto simp: good_file_def rows_of_file file_of_def [of "t # ts"] file_of_def [of ts, symmetric])
qed

definition part_rows :: "hash_join_plan \<Rightarrow> ('l, 'r) hash_join \<Rightarrow> nat \<Rightarrow> tuple list" where
  "part_rows p s i = concat (map (probe_via p (chain p (rows_of (build_schema p) (build_partitions s ! i))))
     (rows_of (probe_schema p) (probe_partitions s ! i)))"

definition scan_rows :: "hash_join_plan \<Rightarrow> ('l, 'r) hash_join \<Rightarrow> tuple list" where
  "scan_rows p s = (case probe_scan s of None \<Rightarrow> [] | Some f \<Rightarrow> concat (map (probe_via p (buckets s)) (rows_of (probe_schema p) f)))"

definition spill_rows :: "hash_join_plan \<Rightarrow> ('l, 'r) hash_join \<Rightarrow> tuple list" where
  "spill_rows p s = current_rows p s @ scan_rows p s @ concat (map (part_rows p s) [current_partition s..<32])"

definition spill_ok :: "hash_join_plan \<Rightarrow> ('l, 'r) hash_join \<Rightarrow> bool" where
  "spill_ok p s \<longleftrightarrow> probe_ready p s \<and> built s \<and> spilled s \<and> length (build_partitions s) = 32 \<and> length (probe_partitions s) = 32 \<and>
     (\<forall>f \<in> set (build_partitions s). good_file (build_schema p) (bkey p) f) \<and>
     (\<forall>f \<in> set (probe_partitions s). good_file (probe_schema p) (pkey p) f) \<and>
     (\<forall>f. probe_scan s = Some f \<longrightarrow> good_file (probe_schema p) (pkey p) f) \<and>
     (probe_scan s = None \<longrightarrow> \<not> has_current_left s) \<and> current_partition s \<le> 32"

lemma add_entries_chain:
  assumes "\<forall>t \<in> set ts. bkey p t \<noteq> None" "buckets s = chain p bs"
  shows "add_entries (bkey p) ts s = Some (s\<lparr>buckets := chain p (bs @ ts)\<rparr>)"
  using assms
proof (induction ts arbitrary: s bs)
  case (Cons t ts)
  then obtain k where k: "bkey p t = Some k" by auto
  show ?case
    using Cons.IH [of "if is_null k then s else add_entry k t s" "bs @ [t]"] Cons.prems k by (auto simp: add_entry_def)
qed simp

lemma chain_keys: "\<forall>t \<in> set bs. bkey p t \<noteq> None \<Longrightarrow> \<forall>b \<in> set (chain p bs h). bkey p b \<noteq> None"
  by (auto simp: chain_def)

lemma load_partition:
  assumes "temps_work (temps p)" "spill_ok p s" "probe_scan s = None" "current_partition s < 32"
  shows "\<exists>s'. load_next_partition p (s, None) = Some (True, s', None) \<and> spill_ok p s' \<and> spill_rows p s' = spill_rows p s \<and>
    probe_scan s' \<noteq> None \<and> current_partition s' = Suc (current_partition s) \<and> \<not> has_current_left s' \<and>
    hj_left s' = hj_left s \<and> hj_right s' = hj_right s"
proof -
  let ?i = "current_partition s"
  have gb: "good_file (build_schema p) (bkey p) (build_partitions s ! ?i)"
    and gp: "good_file (probe_schema p) (pkey p) (probe_partitions s ! ?i)"
    using assms(2,4) by (auto simp: spill_ok_def)
  from gb obtain bs where bs: "read_spill_all ''hash join'' (build_schema p) (build_partitions s ! ?i) = (bs, None)"
      "\<forall>t \<in> set bs. bkey p t \<noteq> None" "rows_of (build_schema p) (build_partitions s ! ?i) = bs"
    by (rule good_fileE)
  let ?r = "clear_entries (s\<lparr>probe_scan := None, has_current_left := False, current_entry := []\<rparr>)"
  let ?s = "?r\<lparr>buckets := chain p bs, probe_scan := Some (probe_partitions s ! ?i), current_partition := ?i + 1\<rparr>"
  have k: "build_key p ?r = bkey p"
    using assms(2) by (intro keys_setD) (simp add: spill_ok_def probe_ready_def keys_set_def clear_entries_def)
  have e: "add_entries (bkey p) bs ?r = Some (?r\<lparr>buckets := chain p bs\<rparr>)"
    using add_entries_chain [OF bs(2), of ?r "[]"] by (simp add: clear_entries_def)
  have "load_next_partition p (s, None) = Some (True, ?s, None)"
    using assms(1,4) bs(1) k e
    by (simp add: load_next_partition_def, subst hj_load_loop.simps) (simp add: temps_work_def clear_entries_def Let_def)
  moreover have "spill_ok p ?s"
    using assms(2,4) gp chain_keys [OF bs(2)]
    by (simp add: spill_ok_def probe_ready_def keys_set_def current_ok_def clear_entries_def)
  moreover have "spill_rows p ?s = spill_rows p s"
    using assms(2-4) bs(3) upt_conv_Cons [OF assms(4)]
    by (simp add: spill_rows_def scan_rows_def current_rows_def part_rows_def [abs_def] spill_ok_def clear_entries_def)
  ultimately show ?thesis by (intro exI [of _ ?s]) (simp add: clear_entries_def)
qed

text \<open>The two steps within a partition.\<close>

lemma spilled_scan:
  assumes "spill_ok p s" "probe_scan s = Some f" "\<not> has_current_left s"
  shows "\<exists>s'. next_spilled p (s, None) = next_spilled p (s', None) \<and> spill_ok p s' \<and> spill_rows p s' = spill_rows p s \<and>
    current_partition s' = current_partition s \<and> hj_left s' = hj_left s \<and> hj_right s' = hj_right s \<and>
    (case probe_scan s' of None \<Rightarrow> True | Some f' \<Rightarrow> length f' < length f)"
proof (cases "rows_of (probe_schema p) f")
  case Nil
  have g: "good_file (probe_schema p) (pkey p) f" using assms by (simp add: spill_ok_def)
  let ?s = "s\<lparr>probe_scan := None\<rparr>"
  have "next_spilled p (s, None) = next_spilled p (?s, None)"
    using assms(2,3) good_file_empty [OF g Nil] by (subst next_spilled.simps) simp
  moreover have "spill_ok p ?s" "spill_rows p ?s = spill_rows p s"
    using assms Nil by (simp_all add: spill_ok_def probe_ready_def keys_set_def current_ok_def spill_rows_def current_rows_def
        scan_rows_def part_rows_def [abs_def])
  ultimately show ?thesis by (intro exI [of _ ?s]) simp
next
  case (Cons t ts)
  have g: "good_file (probe_schema p) (pkey p) f" using assms by (simp add: spill_ok_def)
  obtain rest where r: "read_spill_tuple ''hash join'' (probe_schema p) f = Inr (t, rest)" "good_file (probe_schema p) (pkey p) rest"
      "rows_of (probe_schema p) rest = ts" "pkey p t \<noteq> None"
    using good_file_row [OF g Cons] by blast
  let ?s = "s\<lparr>probe_scan := Some rest\<rparr>"
  have ok: "probe_ready p ?s"
    using assms(1) by (simp add: spill_ok_def probe_ready_def keys_set_def current_ok_def)
  obtain s' where s': "start_probe p t ?s = Some s'" "probe_ready p s'" "has_current_left s'"
      "current_rows p s' = probe_via p (buckets ?s) t"
      "s' = ?s\<lparr>current_left := current_left s', has_current_left := True, current_left_matched := current_left_matched s',
        current_entry := current_entry s'\<rparr>"
    using start_probe_rows [OF ok r(4)] by blast
  have f': "probe_scan s' = Some rest" "current_partition s' = current_partition s" "hj_left s' = hj_left s" "hj_right s' = hj_right s"
      "build_partitions s' = build_partitions s" "probe_partitions s' = probe_partitions s" "buckets s' = buckets s"
      "built s' = built s" "spilled s' = spilled s"
    by (subst s'(5), simp)+
  have "next_spilled p (s, None) = next_spilled p (s', None)"
    using assms(2,3) r(1) s'(1) by (subst next_spilled.simps) simp
  moreover have "spill_ok p s'" using assms(1) s'(2) f' r(2) by (simp add: spill_ok_def)
  moreover have "spill_rows p s' = spill_rows p s"
    using assms(2,3) s'(4) f' r(3) Cons
    by (simp add: spill_rows_def scan_rows_def current_rows_def [of p s] part_rows_def [abs_def])
  ultimately show ?thesis using f' read_spill_shorter [OF r(1)] by (intro exI [of _ s']) simp
qed

lemma spilled_walk:
  assumes "spill_ok p s" "probe_scan s = Some f" "has_current_left s"
  shows "\<exists>s'. spill_ok p s' \<and> hj_left s' = hj_left s \<and> hj_right s' = hj_right s \<and>
    (next_spilled p (s, None) = next_spilled p (s', None) \<and> spill_rows p s' = spill_rows p s \<and> \<not> has_current_left s' \<and>
       current_partition s' = current_partition s \<and> probe_scan s' = probe_scan s \<or>
     (\<exists>t. next_spilled p (s, None) = Some (Some t, s', None) \<and> spill_rows p s = t # spill_rows p s'))"
proof -
  have run: "probe_ready p s" using assms by (simp add: spill_ok_def)
  obtain m s1 where w: "walk_chain p s = Some (m, s1)" "probe_ready p s1"
      "s1 = s\<lparr>current_entry := current_entry s1, current_left_matched := current_left_matched s1\<rparr>"
      "\<forall>t. m = Some t \<longrightarrow> current_rows p s = t # current_rows p s1"
      "m = None \<longrightarrow> current_left_matched s1 = current_left_matched s \<and> current_rows p s =
       (if hj_type p = JLeft \<and> \<not> current_left_matched s then [make_left_only_tuple (out_schema p) (current_left s)] else [])"
    using advance_rows [OF run] assms(3) by auto
  have f1: "probe_scan s1 = Some f" "current_partition s1 = current_partition s" "hj_left s1 = hj_left s" "hj_right s1 = hj_right s"
      "build_partitions s1 = build_partitions s" "probe_partitions s1 = probe_partitions s" "buckets s1 = buckets s"
      "built s1 = built s" "spilled s1 = spilled s" "current_left s1 = current_left s"
    using assms(2) by (subst w(3), simp)+
  have loop: "next_spilled p (s, None) =
      (if m \<noteq> None then Some (m, s1, None)
       else if hj_type p = JLeft \<and> \<not> current_left_matched s1
       then Some (Some (make_left_only_tuple (out_schema p) (current_left s1)), s1\<lparr>has_current_left := False\<rparr>, None)
       else next_spilled p (s1\<lparr>has_current_left := False\<rparr>, None))"
    using assms(2,3) by (subst next_spilled.simps) (simp add: w(1))
  let ?r = "s1\<lparr>has_current_left := False\<rparr>"
  have ok: "spill_ok p s1" "spill_ok p ?r"
    using assms(1,2) w(2) f1 by (simp_all add: spill_ok_def probe_ready_def keys_set_def current_ok_def)
  have rest: "scan_rows p s1 = scan_rows p s" "part_rows p s1 = part_rows p s"
      "scan_rows p ?r = scan_rows p s" "part_rows p ?r = part_rows p s"
    using f1 assms(2) by (simp_all add: scan_rows_def part_rows_def [abs_def])
  show ?thesis
  proof (cases m)
    case (Some t)
    then show ?thesis using w(4) ok rest f1 by (intro exI [of _ s1]) (simp add: loop spill_rows_def)
  next
    case None
    then show ?thesis using w(5) ok rest f1 assms(2) by (intro exI [of _ ?r]) (simp add: loop spill_rows_def current_rows_def [of p ?r])
  qed
qed

lemma next_spilled_rows:
  assumes "temps_work (temps p)" "spill_ok p s"
  shows "case spill_rows p s of
      [] \<Rightarrow> \<exists>s'. next_spilled p (s, None) = Some (None, s', None) \<and> hj_left s' = hj_left s \<and> hj_right s' = hj_right s
    | t # ts \<Rightarrow> \<exists>s'. next_spilled p (s, None) = Some (Some t, s', None) \<and> spill_ok p s' \<and> spill_rows p s' = ts \<and>
        hj_left s' = hj_left s \<and> hj_right s' = hj_right s"
  using assms(2)
proof (induction s rule: wf_induct_rule [OF wf_measures, of "[\<lambda>s. 32 - current_partition s,
    \<lambda>s. case probe_scan s of None \<Rightarrow> 0 | Some f \<Rightarrow> Suc (length f), \<lambda>s. if has_current_left s then 1 else 0]"])
  case (1 s)
  have go: ?case if s': "next_spilled p (s, None) = next_spilled p (s', None)" "spill_ok p s'" "spill_rows p s' = spill_rows p s"
      "hj_left s' = hj_left s" "hj_right s' = hj_right s"
      and less: "(s', s) \<in> measures [\<lambda>s. 32 - current_partition s,
        \<lambda>s. case probe_scan s of None \<Rightarrow> 0 | Some f \<Rightarrow> Suc (length f), \<lambda>s. if has_current_left s then 1 else 0]" for s'
    using 1(1) [OF less s'(2)] by (simp only: s'(1,3,4,5))
  show ?case
  proof (cases "probe_scan s")
    case None
    show ?thesis
    proof (cases "current_partition s < 32")
      case True
      obtain s1 where s1: "load_next_partition p (s, None) = Some (True, s1, None)" "spill_ok p s1" "spill_rows p s1 = spill_rows p s"
          "probe_scan s1 \<noteq> None" "current_partition s1 = Suc (current_partition s)" "hj_left s1 = hj_left s" "hj_right s1 = hj_right s"
        using load_partition [OF assms(1) 1(2) None True] by blast
      from s1(4) obtain f where f: "probe_scan s1 = Some f" by auto
      have "next_spilled p (s, None) = next_spilled p (s1, None)"
        by (subst (1 2) next_spilled.simps) (simp add: s1(1) None f)
      moreover have "32 - current_partition s1 < 32 - current_partition s" using s1(5) True by simp
      ultimately show ?thesis using s1(2,3,6,7) by (intro go [of s1]) (simp_all add: in_measures)
    next
      case False
      let ?r = "clear_entries (s\<lparr>probe_scan := None, has_current_left := False, current_entry := []\<rparr>)"
      have "load_next_partition p (s, None) = Some (False, ?r, None)"
        using False by (simp add: load_next_partition_def, subst hj_load_loop.simps) (simp add: clear_entries_def)
      then have "next_spilled p (s, None) = Some (None, ?r, None)" using None by (subst next_spilled.simps) simp
      moreover have "spill_rows p s = []"
        using 1(2) None False by (simp add: spill_rows_def scan_rows_def current_rows_def spill_ok_def)
      ultimately show ?thesis by (simp add: clear_entries_def)
    qed
  next
    case (Some f)
    show ?thesis
    proof (cases "has_current_left s")
      case False
      from spilled_scan [OF 1(2) Some False] obtain s1 where s1: "next_spilled p (s, None) = next_spilled p (s1, None)"
          "spill_ok p s1" "spill_rows p s1 = spill_rows p s" "current_partition s1 = current_partition s" "hj_left s1 = hj_left s"
          "hj_right s1 = hj_right s" "case probe_scan s1 of None \<Rightarrow> True | Some f' \<Rightarrow> length f' < length f"
        by blast
      then show ?thesis using Some by (intro go [of s1]) (auto simp: in_measures split: option.splits)
    next
      case True
      from spilled_walk [OF 1(2) Some True] obtain s1 where s1: "spill_ok p s1" "hj_left s1 = hj_left s" "hj_right s1 = hj_right s"
        and step: "next_spilled p (s, None) = next_spilled p (s1, None) \<and> spill_rows p s1 = spill_rows p s \<and> \<not> has_current_left s1 \<and>
           current_partition s1 = current_partition s \<and> probe_scan s1 = probe_scan s \<or>
         (\<exists>t. next_spilled p (s, None) = Some (Some t, s1, None) \<and> spill_rows p s = t # spill_rows p s1)"
        by blast
      from step show ?thesis
      proof (elim disjE exE conjE)
        assume "next_spilled p (s, None) = next_spilled p (s1, None)" "spill_rows p s1 = spill_rows p s" "\<not> has_current_left s1"
          "current_partition s1 = current_partition s" "probe_scan s1 = probe_scan s"
        then show ?thesis using s1 True by (intro go [of s1]) (simp_all add: in_measures)
      next
        fix t assume "next_spilled p (s, None) = Some (Some t, s1, None)" "spill_rows p s = t # spill_rows p s1"
        then show ?thesis using s1 by simp
      qed
    qed
  qed
qed

subsection \<open>Both ways give the join\<close>

text \<open>The order in which the probe rows are taken.\<close>

definition probe_order :: "hash_join_plan \<Rightarrow> tuple list \<Rightarrow> tuple list \<Rightarrow> tuple list" where
  "probe_order p bs ps =
     (if over p (build_cost p bs) then concat (map (\<lambda>i. part_of (pkey p) i ps) [0..<32]) else ps)"

definition hash_join_rows :: "hash_join_plan \<Rightarrow> tuple list \<Rightarrow> tuple list \<Rightarrow> tuple list" where
  "hash_join_rows p bs ps = concat (map (probe_rows p False (rev bs)) (probe_order p bs ps))"

lemma mset_parts: "(\<And>t. t \<in> set ps \<Longrightarrow> f t < n) \<Longrightarrow> mset (concat (map (\<lambda>i. filter (\<lambda>t. f t = i) ps) [0..<n])) = mset ps"
proof (induction ps)
  case Nil
  then show ?case by (induction n) auto
next
  case (Cons t ps)
  have "mset (concat (map (\<lambda>i. filter (\<lambda>u. f u = i) (t # ps)) [0..<n])) =
      mset (concat (map (\<lambda>i. filter (\<lambda>u. f u = i) ps) [0..<n])) + mset (concat (map (\<lambda>i. if f t = i then [t] else []) [0..<n]))"
    for n :: nat by (induction n) auto
  moreover have "concat (map (\<lambda>i. if f t = i then [t] else []) [0..<n]) = (if f t < n then [t] else [])" for n
    by (induction n) auto
  ultimately show ?case using Cons by simp
qed

lemma probe_order_mset: "mset (probe_order p bs ps) = mset ps"
  using mset_parts [of ps "\<lambda>t. partition_of (the (pkey p t))" 32] partition_of_less by (simp add: probe_order_def part_of_def)

lemma probe_rows_part:
  assumes "keys_ok p bs ps" "t \<in> set (part_of (pkey p) i ps)"
  shows "probe_rows p False (rev (part_of (bkey p) i bs)) t = probe_rows p False (rev bs) t"
proof -
  have t: "t \<in> set ps" "partition_of (the (pkey p t)) = i" using assms(2) by (auto simp: part_of_def)
  have "partition_of (the (bkey p b)) = i" if "keys_match p t b" "b \<in> set bs" for b
    using assms(1) t that unfolding keys_ok_def keys_match_def partition_of_def by fastforce
  then have "filter (keys_match p t) (rev (part_of (bkey p) i bs)) = filter (keys_match p t) (rev bs)"
    by (auto simp: part_of_def rev_filter intro!: filter_cong)
  then show ?thesis by (simp add: probe_rows_def)
qed

lemma keys_ok_part: "keys_ok p bs ps \<Longrightarrow> keys_ok p (part_of (bkey p) i bs) (part_of (pkey p) i ps)"
  by (auto simp: keys_ok_def part_of_def)

definition plan_ok :: "hash_join_plan \<Rightarrow> tuple list \<Rightarrow> tuple list \<Rightarrow> bool" where
  "plan_ok p bs ps \<longleftrightarrow> (\<exists>lhs rhs. on_condition p = Some (BinaryOp ''='' (Some lhs) (Some rhs))) \<and> temps_work (temps p) \<and>
     keys_ok p bs ps \<and>
     (over p (build_cost p bs) \<longrightarrow> (\<forall>b \<in> set bs. spillable (build_schema p) b) \<and> (\<forall>t \<in> set ps. spillable (probe_schema p) t))"

lemma plan_okD:
  assumes "plan_ok p bs ps"
  shows "temps_work (temps p)" "keys_ok p bs ps" "fst (plan_keys p) \<noteq> None" "snd (plan_keys p) \<noteq> None"
    "\<forall>b \<in> set bs. bkey p b \<noteq> None" "\<forall>t \<in> set ps. pkey p t \<noteq> None"
  using assms by (auto simp: plan_ok_def plan_keys_def join_keys_def keys_ok_def)

text \<open>A state as \<^verbatim>\<open>init\<close> leaves it.\<close>

definition fresh :: "('l, 'r) hash_join \<Rightarrow> bool" where
  "fresh s \<longleftrightarrow> \<not> built s \<and> \<not> spilled s \<and> \<not> has_current_left s \<and> probe_scan s = None \<and> current_partition s = 0 \<and>
     \<not> grace_ready s \<and> buckets s = (\<lambda>_. [])"

lemma concat_map_concat: "concat (map f (concat xss)) = concat (map (\<lambda>xs. concat (map f xs)) xss)"
  by (induction xss) auto

lemma spill_rows_parts:
  assumes "plan_ok p bs ps" "over p (build_cost p bs)" "\<not> has_current_left s" "probe_scan s = None" "current_partition s = 0"
    and "build_partitions s = map (\<lambda>i. file_of (part_of (bkey p) i bs)) [0..<32]"
    and "probe_partitions s = map (\<lambda>i. file_of (part_of (pkey p) i ps)) [0..<32]"
  shows "spill_rows p s = hash_join_rows p bs ps"
proof -
  have sp: "\<forall>b \<in> set bs. spillable (build_schema p) b" "\<forall>t \<in> set ps. spillable (probe_schema p) t" "keys_ok p bs ps"
    using assms(1,2) by (auto simp: plan_ok_def)
  have "part_rows p s i = concat (map (probe_rows p False (rev bs)) (part_of (pkey p) i ps))" if "i < 32" for i
  proof -
    have "rows_of (build_schema p) (build_partitions s ! i) = part_of (bkey p) i bs"
        "rows_of (probe_schema p) (probe_partitions s ! i) = part_of (pkey p) i ps"
      using that sp(1,2) by (simp_all add: assms(6,7) rows_of_file part_of_def)
    moreover have "map (probe_via p (chain p (part_of (bkey p) i bs))) (part_of (pkey p) i ps) =
        map (probe_rows p False (rev bs)) (part_of (pkey p) i ps)"
      using probe_via_chain [OF keys_ok_part [OF sp(3)]] probe_rows_part [OF sp(3)] by (intro map_cong) auto
    ultimately show ?thesis by (simp only: part_rows_def)
  qed
  then have "concat (map (part_rows p s) [0..<32]) =
      concat (map (\<lambda>i. concat (map (probe_rows p False (rev bs)) (part_of (pkey p) i ps))) [0..<32])"
    by (intro arg_cong [of _ _ concat] map_cong) auto
  then show ?thesis
    using assms(2-5)
    by (simp add: spill_rows_def current_rows_def scan_rows_def hash_join_rows_def probe_order_def concat_map_concat comp_def)
qed

lemma find_none: "(\<And>x. x \<in> set xs \<Longrightarrow> \<not> P x) \<Longrightarrow> List.find P xs = None"
  by (induction xs) auto

context executor_pair
begin

lemma prepare_works:
  assumes "plan_ok p bs (side_rows (\<not> build_left p) s)" "over p (build_cost p bs)" "spill_file s = Some (file_of bs)" "\<not> grace_ready s"
    and "keys_set p s" "built s" "spilled s" "\<not> has_current_left s" "probe_scan s = None" "buckets s = (\<lambda>_. [])"
    and "side_running (\<not> build_left p) s" "side_ready (build_left p) s"
  shows "\<exists>s'. prepare_grace_partitions lnxt rnxt p (s, None) = Some (True, s', None) \<and> sides_all s' = sides_all s \<and>
    spill_ok p s' \<and> spill_rows p s' = hash_join_rows p bs (side_rows (\<not> build_left p) s) \<and> side_ready True s' \<and> side_ready False s' \<and>
    \<not> has_current_left s'"
proof -
  let ?P = "\<not> build_left p" and ?ps = "side_rows (\<not> build_left p) s"
  note ok = plan_okD [OF assms(1)]
  have sp: "\<forall>b \<in> set bs. spillable (build_schema p) b" "\<forall>t \<in> set ?ps. spillable (probe_schema p) t"
    using assms(1,2) by (auto simp: plan_ok_def)
  have err: "partition_error (temps p) = None"
    using ok(1) by (simp add: partition_error_def temps_work_def find_none)
  let ?bf = "map (\<lambda>i. file_of (part_of (bkey p) i bs)) [0..<32]" and ?pf = "map (\<lambda>i. file_of (part_of (pkey p) i ?ps)) [0..<32]"
  let ?r = "s\<lparr>build_partitions := ?bf, probe_partitions := replicate 32 []\<rparr>"
  have empty: "map (\<lambda>i. replicate 32 [] ! i @ g i) [0..<32] = map g [0..<32]" for g :: "nat \<Rightarrow> byte list"
    by (rule map_cong) auto
  have built_parts: "partition_build (temps p) (build_key p s) bs (replicate 32 []) = Some (Some ?bf)"
    using partition_build_works [OF ok(1), of bs "bkey p" "replicate 32 []"] ok(5) keys_setD(1) [OF assms(5)]
    by (simp only: empty length_replicate)
  note c = side_cong [of ?r s, simplified]
  have pre: "keys_set p ?r" "side_running ?P ?r" "length (probe_partitions ?r) = 32" "\<forall>t \<in> set (side_rows ?P ?r). pkey p t \<noteq> None"
    using assms(5,11) ok(6) c by (simp_all add: keys_set_def)
  obtain s1 where s1: "hj_partition_probe lnxt rnxt p (?r, None) = Some (True, s1, None)" "side_ready ?P s1"
      "side_ready (build_left p) s1 = side_ready (build_left p) ?r" "sides_all s1 = sides_all ?r"
      "table_of s1 = table_of (?r\<lparr>probe_partitions :=
        map (\<lambda>i. probe_partitions ?r ! i @ file_of (part_of (pkey p) i (side_rows ?P ?r))) [0..<32]\<rparr>)"
    using hj_partition_probe_works [OF ok(1) pre] by blast
  have "table_of s1 = table_of (?r\<lparr>probe_partitions := ?pf\<rparr>)" using s1(5) c by (simp add: empty)
  note t1 = table_ofD [OF this] and f1 = frame_ofD [OF table_ofD(4) [OF this]]
  let ?s = "s1\<lparr>spill_file := None, grace_ready := True, current_partition := 0\<rparr>"
  note c1 = side_cong [of ?s s1, simplified]
  have "prepare_grace_partitions lnxt rnxt p (s, None) = Some (True, ?s, None)"
    using assms(3,4) err ok(1) built_parts s1(1) read_spill_records [OF sp(1), of "''hash join''"]
    by (simp add: prepare_grace_partitions_def file_of_def [of bs] temps_work_def)
  moreover have "spill_ok p ?s"
  proof -
    have "probe_ready p ?s" using assms(5,8,10) t1(1) f1 by (simp add: probe_ready_def keys_set_def current_ok_def)
    moreover have "good_file (build_schema p) (bkey p) (file_of (part_of (bkey p) i bs))"
        "good_file (probe_schema p) (pkey p) (file_of (part_of (pkey p) i ?ps))" for i
      using sp ok(5,6) by (auto simp: good_file_def part_of_def)
    ultimately show ?thesis using assms(6-9) t1 f1 by (simp add: spill_ok_def image_iff)
  qed
  moreover have "spill_rows p ?s = hash_join_rows p bs ?ps"
    using assms(8,9) t1 f1 by (intro spill_rows_parts [OF assms(1,2)]) simp_all
  moreover have "side_ready (build_left p) s1" "side_ready ?P s1" using s1(2,3) assms(12) c by simp_all
  ultimately show ?thesis
    using s1(4) c1 assms(8) f1(5) by (intro exI [of _ ?s]) (cases "build_left p"; simp add: sides_all_def)
qed

lemma build_hash_table_rows:
  assumes "plan_ok p (side_rows (build_left p) s) (side_rows (\<not> build_left p) s)" "fresh s"
    and "side_running (build_left p) s" "side_running (\<not> build_left p) s"
  shows "\<exists>s'. build_hash_table lnxt rnxt p (s, None) = Some (s', None) \<and> sides_all s' = sides_all s \<and>
    (if over p (build_cost p (side_rows (build_left p) s))
     then spill_ok p s' \<and> spill_rows p s' = hash_join_rows p (side_rows (build_left p) s) (side_rows (\<not> build_left p) s) \<and>
       side_ready True s' \<and> side_ready False s'
     else mem_running p s' \<and> mem_rows p s' = hash_join_rows p (side_rows (build_left p) s) (side_rows (\<not> build_left p) s)) \<and>
    \<not> has_current_left s'"
proof -
  let ?B = "build_left p" and ?P = "\<not> build_left p"
  note ok = plan_okD [OF assms(1)]
  obtain lhs rhs where on: "on_condition p = Some (BinaryOp ''='' (Some lhs) (Some rhs))" using assms(1) by (auto simp: plan_ok_def)
  let ?r = "s\<lparr>built := True, left_key := fst (plan_keys p), right_key := snd (plan_keys p), spill_file := Some []\<rparr>"
  note c = side_cong [of ?r s, simplified]
  have pre: "side_running ?B ?r" "keys_set p ?r" "\<forall>b \<in> set (side_rows ?B ?r). bkey p b \<noteq> None" "spill_file ?r = Some []"
      "spilled ?r \<longleftrightarrow> over p 0" "\<not> spilled ?r \<longrightarrow> buckets ?r = chain p []"
      "spilled ?r \<longrightarrow> buckets ?r = (\<lambda>_. [])"
    using assms(2,3) ok(5) c by (simp_all add: keys_set_def fresh_def over_def)
  obtain s1 where s1: "hj_build_loop lnxt rnxt p 0 (?r, None) = Some (True, s1, None)" "side_ready ?B s1"
      "side_all ?B s1 = side_all ?B ?r" "side_running ?P s1 = side_running ?P ?r" "side_rows ?P s1 = side_rows ?P ?r"
      "side_all ?P s1 = side_all ?P ?r" "frame_of s1 = frame_of ?r"
      "spill_file s1 = Some ([] @ concat (map spill_record (side_rows ?B ?r)))"
      "spilled s1 = over p (0 + build_cost p (side_rows ?B ?r))" "\<not> spilled s1 \<longrightarrow> buckets s1 = chain p ([] @ side_rows ?B ?r)"
      "spilled s1 \<longrightarrow> buckets s1 = (\<lambda>_. [])"
    using hj_build_loop_rows [OF ok(1) pre] by blast
  note f1 = frame_ofD [OF s1(7)]
  have keys: "keys_set p s1" using f1 by (simp add: keys_set_def)
  have all1: "sides_all s1 = sides_all s" using s1(3,6) c by (cases "build_left p") (simp_all add: sides_all_def side_all_def)
  have loop: "build_hash_table lnxt rnxt p (s, None) =
      (if spilled s1 then map_option snd (prepare_grace_partitions lnxt rnxt p (s1, None)) else Some (cleanup_spill s1, None))"
    using assms(2) ok(1) on s1(1)
    by (cases "join_keys p (Some lhs) (Some rhs)") (simp add: build_hash_table_def fresh_def temps_work_def plan_keys_def)
  show ?thesis
  proof (cases "over p (build_cost p (side_rows ?B s))")
    case True
    then have sp: "spilled s1" using s1(9) c by simp
    have "\<exists>s'. prepare_grace_partitions lnxt rnxt p (s1, None) = Some (True, s', None) \<and> sides_all s' = sides_all s1 \<and>
        spill_ok p s' \<and> spill_rows p s' = hash_join_rows p (side_rows ?B s) (side_rows ?P s1) \<and> side_ready True s' \<and> side_ready False s' \<and>
        \<not> has_current_left s'"
      using assms s1 sp f1 keys c True by (intro prepare_works) (simp_all add: fresh_def file_of_def)
    then show ?thesis using True sp all1 s1(5) c by (auto simp: loop)
  next
    case False
    let ?s = "cleanup_spill s1"
    have c2: "side_running ?P ?s = side_running ?P s1" "side_ready ?B ?s = side_ready ?B s1" "side_rows ?P ?s = side_rows ?P s1"
        "sides_all ?s = sides_all s1"
      using side_cong [of ?s s1] by (simp_all add: cleanup_spill_def sides_all_def)
    have ns: "\<not> spilled s1" "buckets s1 = chain p (side_rows ?B s)" using False s1(9,10) c by simp_all
    have "mem_running p ?s"
      using s1(2,4,5) assms(2,4) ok(6) ns keys f1 c c2 chain_keys [OF ok(5)]
      by (simp add: mem_running_def probe_ready_def keys_set_def current_ok_def fresh_def) (simp add: cleanup_spill_def)
    moreover have "mem_rows p ?s = hash_join_rows p (side_rows ?B s) (side_rows ?P s)"
      using ns False s1(5) assms(2) f1 c c2 probe_via_chain [OF ok(2)]
      by (simp add: mem_rows_def current_rows_def hash_join_rows_def probe_order_def fresh_def cleanup_spill_def cong: map_cong)
    ultimately show ?thesis using False ns all1 c2 assms(2) f1(5) by (simp add: loop fresh_def cleanup_spill_def)
  qed
qed

definition hj_running :: "hash_join_plan \<Rightarrow> ('l, 'r) hash_join \<Rightarrow> bool" where
  "hj_running p s \<longleftrightarrow> plan_ok p (side_all (build_left p) s) (side_all (\<not> build_left p) s) \<and>
     (if \<not> built s
      then fresh s \<and> side_running (build_left p) s \<and> side_running (\<not> build_left p) s \<and>
        plan_ok p (side_rows (build_left p) s) (side_rows (\<not> build_left p) s)
      else if spilled s then spill_ok p s \<and> side_ready True s \<and> side_ready False s
      else mem_running p s)"

definition hj_rows :: "hash_join_plan \<Rightarrow> ('l, 'r) hash_join \<Rightarrow> tuple list" where
  "hj_rows p s =
     (if \<not> built s then hash_join_rows p (side_rows (build_left p) s) (side_rows (\<not> build_left p) s)
      else if spilled s then spill_rows p s else mem_rows p s)"

definition hj_ready :: "hash_join_plan \<Rightarrow> ('l, 'r) hash_join \<Rightarrow> bool" where
  "hj_ready p s \<longleftrightarrow> side_ready True s \<and> side_ready False s \<and> plan_ok p (side_all (build_left p) s) (side_all (\<not> build_left p) s)"

lemma side_all_sides: "sides_all s' = sides_all s \<Longrightarrow> side_all left s' = side_all left s"
  by (auto simp: sides_all_def side_all_def)

lemma side_running_ready: "side_running left s \<Longrightarrow> side_ready left s"
  using l.running_ready r.running_ready by (auto simp: side_defs split: if_splits)

lemma hj_next_built:
  assumes "hj_running p s" "built s"
  shows "case hj_rows p s of
      [] \<Rightarrow> \<exists>s'. hj_next lnxt rnxt p (s, None) = Some (None, s', None) \<and> side_ready True s' \<and> side_ready False s' \<and> sides_all s' = sides_all s
    | t # ts \<Rightarrow> \<exists>s'. hj_next lnxt rnxt p (s, None) = Some (Some t, s', None) \<and> hj_running p s' \<and> hj_rows p s' = ts \<and> sides_all s' = sides_all s"
proof -
  have plan: "plan_ok p (side_all (build_left p) s) (side_all (\<not> build_left p) s)" using assms by (simp add: hj_running_def)
  note ok = plan_okD [OF plan]
  have keys: "keys_set p s"
    using assms by (auto simp: hj_running_def spill_ok_def mem_running_def probe_ready_def split: if_splits)
  have next_eq: "hj_next lnxt rnxt p (s, None) = (if spilled s then next_spilled p (s, None) else hj_probe_loop lnxt rnxt p (s, None))"
    using assms(2) keys ok(3,4) by (auto simp: hj_next_def build_hash_table_def keys_set_def)
  show ?thesis
  proof (cases "spilled s")
    case True
    then have s: "spill_ok p s" "side_ready True s" "side_ready False s" "hj_rows p s = spill_rows p s"
      using assms by (simp_all add: hj_running_def hj_rows_def)
    show ?thesis
    proof (cases "spill_rows p s")
      case Nil
      then show ?thesis using next_spilled_rows [OF ok(1) s(1)] s True by (auto simp: next_eq side_defs sides_all_def)
    next
      case (Cons t ts)
      then obtain s' where s': "next_spilled p (s, None) = Some (Some t, s', None)" "spill_ok p s'" "spill_rows p s' = ts"
          "hj_left s' = hj_left s" "hj_right s' = hj_right s"
        using next_spilled_rows [OF ok(1) s(1)] by auto
      have "built s'" "spilled s'" using s'(2) by (simp_all add: spill_ok_def)
      then show ?thesis
        using s' s Cons True plan side_cong [OF s'(4,5)] by (auto simp: next_eq hj_running_def hj_rows_def sides_all_def)
    qed
  next
    case False
    then have s: "mem_running p s" "hj_rows p s = mem_rows p s" using assms by (simp_all add: hj_running_def hj_rows_def)
    show ?thesis
    proof (cases "mem_rows p s")
      case Nil
      then show ?thesis using hj_probe_rows [OF s(1)] s False by (simp add: next_eq)
    next
      case (Cons t ts)
      then obtain s' where s': "hj_probe_loop lnxt rnxt p (s, None) = Some (Some t, s', None)" "mem_running p s'" "mem_rows p s' = ts"
          "sides_all s' = sides_all s"
        using hj_probe_rows [OF s(1)] by auto
      have "built s'" "\<not> spilled s'" using s'(2) by (simp_all add: mem_running_def)
      then show ?thesis
        using s' s Cons False plan side_all_sides [OF s'(4)] by (auto simp: next_eq hj_running_def hj_rows_def)
    qed
  qed
qed

lemma hj_next_rows:
  assumes "hj_running p s"
  shows "case hj_rows p s of
      [] \<Rightarrow> \<exists>s'. hj_next lnxt rnxt p (s, None) = Some (None, s', None) \<and> side_ready True s' \<and> side_ready False s' \<and> sides_all s' = sides_all s
    | t # ts \<Rightarrow> \<exists>s'. hj_next lnxt rnxt p (s, None) = Some (Some t, s', None) \<and> hj_running p s' \<and> hj_rows p s' = ts \<and> sides_all s' = sides_all s"
proof (cases "built s")
  case False
  then obtain s1 where b: "build_hash_table lnxt rnxt p (s, None) = Some (s1, None)" "sides_all s1 = sides_all s"
    and c: "if over p (build_cost p (side_rows (build_left p) s))
     then spill_ok p s1 \<and> spill_rows p s1 = hash_join_rows p (side_rows (build_left p) s) (side_rows (\<not> build_left p) s) \<and>
       side_ready True s1 \<and> side_ready False s1
     else mem_running p s1 \<and> mem_rows p s1 = hash_join_rows p (side_rows (build_left p) s) (side_rows (\<not> build_left p) s)"
    using build_hash_table_rows [of p s] assms by (auto simp: hj_running_def)
  have s1: "built s1" "hj_running p s1" "hj_rows p s1 = hj_rows p s"
    using c assms False side_all_sides [OF b(2)]
    by (auto simp: hj_running_def hj_rows_def spill_ok_def mem_running_def split: if_splits)
  have "hj_next lnxt rnxt p (s, None) = hj_next lnxt rnxt p (s1, None)"
    using b(1) s1(1) by (simp add: hj_next_def build_hash_table_def [of lnxt rnxt p "(s1, None)"])
  then show ?thesis using hj_next_built [OF s1(2,1)] by (simp only: s1(3) b(2))
qed (rule hj_next_built [OF assms])

lemma hj_executor:
  "executor (hj_init lini rini) (hj_next lnxt rnxt p) (hj_ready p) (hj_running p)
     (\<lambda>s. hash_join_rows p (side_all (build_left p) s) (side_all (\<not> build_left p) s)) (hj_rows p)"
proof (unfold_locales, goal_cases)
  case (1 s)
  then show ?case using side_running_ready [of True s] side_running_ready [of False s]
    by (cases "build_left p") (auto simp: hj_running_def hj_ready_def mem_running_def split: if_splits)
next
  case (2 s)
  then obtain l r where lr: "lini (hj_left s, None) = Some (l, None)" "lrunning l" "lrows l = lall (hj_left s)" "lall l = lall (hj_left s)"
      "rini (hj_right s, None) = Some (r, None)" "rrunning r" "rrows r = rall (hj_right s)" "rall r = rall (hj_right s)"
    using l.init_ok [of "hj_left s"] r.init_ok [of "hj_right s"] by (auto simp: hj_ready_def side_defs)
  then show ?case using 2
    by (cases "build_left p")
      (simp_all add: hj_init_def hj_running_def hj_rows_def hj_ready_def fresh_def side_defs clear_entries_def cleanup_spill_def)
next
  case (3 s t ts)
  then obtain s' where s': "hj_next lnxt rnxt p (s, None) = Some (Some t, s', None)" "hj_running p s'" "hj_rows p s' = ts"
      "sides_all s' = sides_all s"
    using hj_next_rows [OF 3(1)] by auto
  then show ?case using side_all_sides [OF s'(4)] by auto
next
  case (4 s)
  have plan: "plan_ok p (side_all (build_left p) s) (side_all (\<not> build_left p) s)" using 4 by (simp add: hj_running_def)
  obtain s' where s': "hj_next lnxt rnxt p (s, None) = Some (None, s', None)" "side_ready True s'" "side_ready False s'" "sides_all s' = sides_all s"
    using hj_next_rows [OF 4(1)] 4(2) by auto
  then show ?case using plan side_all_sides [OF s'(4)] by (auto simp: hj_ready_def)
qed

end

subsection \<open>Counting\<close>

lemma count_chain_length:
  assumes "pkey p t = Some pk" "\<not> is_null pk" "\<forall>b \<in> set ch. bkey p b \<noteq> None"
  shows "count_chain (bkey p) pk ch = Some (length (filter (keys_match p t) ch))"
  using assms(3)
proof (induction ch)
  case (Cons b ch)
  then obtain bk where "bkey p b = Some bk" by auto
  then show ?case using Cons assms(1,2) by (simp add: keys_match_def)
qed simp

lemma count_probe_length:
  assumes "probe_ready p s" "pkey p t \<noteq> None"
  shows "count_probe p s t = Some (length (probe_via p (buckets s) t))"
proof -
  obtain pk where pk: "pkey p t = Some pk" using assms(2) by auto
  have k: "probe_key p s t = Some pk" "build_key p s = bkey p" using assms(1) pk by (simp_all add: probe_ready_def keys_setD)
  show ?thesis
  proof (cases "is_null pk")
    case True
    then show ?thesis using k pk by (simp add: count_probe_def probe_via_def probe_rows_def)
  next
    case False
    then have "count_chain (bkey p) pk (buckets s (hash_value pk)) = Some (length (filter (keys_match p t) (buckets s (hash_value pk))))"
      using assms(1) by (intro count_chain_length [OF pk]) (simp_all add: probe_ready_def)
    then show ?thesis using k pk False by (simp add: count_probe_def probe_via_def probe_rows_def Let_def)
  qed
qed

lemma hj_count_spilled_rows:
  assumes "temps_work (temps p)" "spill_ok p s" "\<not> has_current_left s"
  shows "\<exists>s'. hj_count_spilled p n (s, None) = Some (Some (n + length (spill_rows p s)), s', None)"
  using assms(2,3)
proof (induction s arbitrary: n rule: wf_induct_rule [OF wf_measures, of "[\<lambda>s. 32 - current_partition s,
    \<lambda>s. case probe_scan s of None \<Rightarrow> 0 | Some f \<Rightarrow> Suc (length f)]"])
  case (1 s)
  show ?case
  proof (cases "probe_scan s")
    case None
    show ?thesis
    proof (cases "current_partition s < 32")
      case True
      obtain s1 where s1: "load_next_partition p (s, None) = Some (True, s1, None)" "spill_ok p s1" "spill_rows p s1 = spill_rows p s"
          "probe_scan s1 \<noteq> None" "current_partition s1 = Suc (current_partition s)" "\<not> has_current_left s1"
        using load_partition [OF assms(1) 1(2) None True] by blast
      from s1(4) obtain f where f: "probe_scan s1 = Some f" by auto
      have "hj_count_spilled p n (s, None) = hj_count_spilled p n (s1, None)"
        by (subst (1 2) hj_count_spilled.simps) (simp add: s1(1) None f)
      moreover have "32 - current_partition s1 < 32 - current_partition s" using s1(5) True by simp
      ultimately show ?thesis using 1(1) [of s1 n] s1(2,3,6) by (simp add: in_measures)
    next
      case False
      let ?r = "clear_entries (s\<lparr>probe_scan := None, has_current_left := False, current_entry := []\<rparr>)"
      have "load_next_partition p (s, None) = Some (False, ?r, None)"
        using False by (simp add: load_next_partition_def, subst hj_load_loop.simps) (simp add: clear_entries_def)
      then have "hj_count_spilled p n (s, None) = Some (Some n, ?r, None)" using None by (subst hj_count_spilled.simps) simp
      moreover have "spill_rows p s = []"
        using 1(2) None False by (simp add: spill_rows_def scan_rows_def current_rows_def spill_ok_def)
      ultimately show ?thesis by simp
    qed
  next
    case (Some f)
    have g: "good_file (probe_schema p) (pkey p) f" using 1(2) Some by (simp add: spill_ok_def)
    show ?thesis
    proof (cases "rows_of (probe_schema p) f")
      case Nil
      let ?s = "s\<lparr>probe_scan := None\<rparr>"
      have "hj_count_spilled p n (s, None) = hj_count_spilled p n (?s, None)"
        using Some good_file_empty [OF g Nil] by (subst hj_count_spilled.simps) simp
      moreover have "spill_ok p ?s" "spill_rows p ?s = spill_rows p s"
        using 1(2,3) Some Nil by (simp_all add: spill_ok_def probe_ready_def keys_set_def current_ok_def spill_rows_def current_rows_def
            scan_rows_def part_rows_def [abs_def])
      ultimately show ?thesis using 1(1) [of ?s n] 1(3) Some by (simp add: in_measures)
    next
      case (Cons t ts)
      obtain rest where r: "read_spill_tuple ''hash join'' (probe_schema p) f = Inr (t, rest)" "good_file (probe_schema p) (pkey p) rest"
          "rows_of (probe_schema p) rest = ts" "pkey p t \<noteq> None"
        using good_file_row [OF g Cons] by blast
      let ?s = "s\<lparr>probe_scan := Some rest\<rparr>" and ?k = "length (probe_via p (buckets s) t)"
      have "count_probe p s t = Some ?k" using 1(2) r(4) by (intro count_probe_length) (simp_all add: spill_ok_def)
      then have "hj_count_spilled p n (s, None) = hj_count_spilled p (n + ?k) (?s, None)"
        using Some r(1) by (subst hj_count_spilled.simps) simp
      moreover have "spill_ok p ?s" "length (spill_rows p s) = ?k + length (spill_rows p ?s)"
        using 1(2,3) Some Cons r(2,3) by (simp_all add: spill_ok_def probe_ready_def keys_set_def current_ok_def spill_rows_def
            current_rows_def scan_rows_def part_rows_def [abs_def])
      ultimately show ?thesis using 1(1) [of ?s "n + ?k"] 1(3) Some read_spill_shorter [OF r(1)] by (simp add: in_measures add.assoc)
    qed
  qed
qed

context executor_pair
begin

lemma hj_count_loop_rows:
  assumes "mem_running p s"
  shows "\<exists>s'. hj_count_loop lnxt rnxt p n (s, None) =
    Some (n + length (concat (map (probe_via p (buckets s)) (side_rows (\<not> build_left p) s))), s', None)"
  using assms
proof (induction "side_rows (\<not> build_left p) s" arbitrary: s n)
  case Nil
  let ?P = "\<not> build_left p"
  obtain s' where "side_next lnxt rnxt ?P (s, None) = Some (None, s', None)"
    using side_next_end [of ?P s] Nil by (auto simp: mem_running_def)
  then show ?case using Nil(1) [symmetric] by (subst hj_count_loop.simps) simp
next
  case (Cons t ts)
  let ?P = "\<not> build_left p"
  obtain s1 where s1: "side_next lnxt rnxt ?P (s, None) = Some (Some t, s1, None)" "side_running ?P s1" "side_rows ?P s1 = ts"
      "other_kept ?P s s1"
    using side_next_row [of ?P s t ts] Cons.prems Cons.hyps(2) [symmetric] by (auto simp: mem_running_def)
  then have tab: "table_of s1 = table_of s" by (simp add: other_kept_def)
  note t1 = table_ofD [OF tab] and f1 = frame_ofD [OF table_ofD(4) [OF tab]]
  have k: "pkey p t \<noteq> None" "\<forall>t \<in> set ts. pkey p t \<noteq> None" using Cons.prems Cons.hyps(2) [symmetric] by (auto simp: mem_running_def)
  have run: "mem_running p s1"
    using Cons.prems s1 t1 f1 k(2) by (simp add: mem_running_def probe_ready_def keys_set_def current_ok_def other_kept_def)
  have "count_probe p s1 t = Some (length (probe_via p (buckets s) t))"
    using count_probe_length [of p s1 t] run k(1) t1(1) by (simp add: mem_running_def)
  then have "hj_count_loop lnxt rnxt p n (s, None) = hj_count_loop lnxt rnxt p (n + length (probe_via p (buckets s) t)) (s1, None)"
    by (subst hj_count_loop.simps) (simp add: s1(1))
  then show ?case
    using Cons.hyps(1) [OF s1(3) [symmetric] run, of "n + length (probe_via p (buckets s) t)"] Cons.hyps(2) [symmetric] s1(3) t1(1)
    by (simp add: add.assoc)
qed

lemma hj_fast_count_rows:
  assumes "hj_running p s" "\<not> built s"
  shows "\<exists>s'. hj_fast_count lnxt rnxt p (s, None) = Some (Some (length (hj_rows p s)), s', None)"
proof -
  let ?bs = "side_rows (build_left p) s" and ?ps = "side_rows (\<not> build_left p) s"
  have f: "fresh s" "plan_ok p ?bs ?ps" "hj_rows p s = hash_join_rows p ?bs ?ps"
    using assms by (simp_all add: hj_running_def hj_rows_def)
  note ok = plan_okD [OF f(2)]
  obtain s1 where b: "build_hash_table lnxt rnxt p (s, None) = Some (s1, None)"
    and c: "if over p (build_cost p ?bs)
     then spill_ok p s1 \<and> spill_rows p s1 = hash_join_rows p ?bs ?ps \<and> \<not> has_current_left s1
     else mem_running p s1 \<and> mem_rows p s1 = hash_join_rows p ?bs ?ps \<and> \<not> has_current_left s1"
    using build_hash_table_rows [of p s] assms f by (auto simp: hj_running_def)
  have keys: "left_key s1 \<noteq> None" "right_key s1 \<noteq> None"
    using c ok(3,4) by (auto simp: spill_ok_def mem_running_def probe_ready_def keys_set_def split: if_splits)
  show ?thesis
  proof (cases "over p (build_cost p ?bs)")
    case True
    then have s1: "spill_ok p s1" "spill_rows p s1 = hj_rows p s" "\<not> has_current_left s1" "spilled s1"
      using c f(3) by (simp_all add: spill_ok_def)
    then show ?thesis using hj_count_spilled_rows [OF ok(1) s1(1,3), of 0] keys b by (auto simp: hj_fast_count_def)
  next
    case False
    then have s1: "mem_running p s1" "mem_rows p s1 = hj_rows p s" "\<not> has_current_left s1" "\<not> spilled s1"
      using c f(3) by (simp_all add: mem_running_def)
    then have "hj_rows p s = concat (map (probe_via p (buckets s1)) (side_rows (\<not> build_left p) s1))"
      by (simp add: mem_rows_def current_rows_def)
    then show ?thesis using hj_count_loop_rows [OF s1(1), of 0] s1(4) keys b by (auto simp: hj_fast_count_def)
  qed
qed

lemma hj_fast_count_join:
  assumes "hj_ready p s"
  shows "\<exists>w n w'. hj_init lini rini (s, None) = Some w \<and> hj_fast_count lnxt rnxt p w = Some (Some n, w') \<and>
    n = length (hash_join_rows p (side_all (build_left p) s) (side_all (\<not> build_left p) s))"
proof -
  obtain s1 where s1: "hj_init lini rini (s, None) = Some (s1, None)" "hj_running p s1"
      "hj_rows p s1 = hash_join_rows p (side_all (build_left p) s) (side_all (\<not> build_left p) s)"
    using executor.init_ok [OF hj_executor assms] by blast
  have "\<not> built s1" using s1(1) by (auto simp: hj_init_def clear_entries_def cleanup_spill_def split: Option.bind_splits)
  then show ?thesis using hj_fast_count_rows [OF s1(2)] s1 by auto
qed

end

section \<open>Properties\<close>

subsection \<open>Keys\<close>

lemma value_eq_iff:
  assumes "float_free a"
  shows "value_eq a b \<longleftrightarrow> a = b"
proof
  assume eq: "value_eq a b"
  then have "type_id_of a = type_id_of b"
    using type_code_inj by (auto simp: value_eq_def value_compare_def split: if_splits)
  then show "a = b"
    using assms eq by (cases a; cases b) (auto simp: value_eq_def value_compare_def float_free_def three_way_def string_compare_lex
        intro: signed_word_eqI split: if_splits)
next
  assume "a = b"
  then show "value_eq a b" using value_order.cmp_antisym [of b b] by (simp add: value_eq_def)
qed

text \<open>Which rows of the two children belong together.\<close>

definition rows_match :: "hash_join_plan \<Rightarrow> tuple \<Rightarrow> tuple \<Rightarrow> bool" where
  "rows_match p l r \<longleftrightarrow> (\<exists>k. eval_key (left_schema p) (fst (plan_keys p)) l = Some k \<and>
     eval_key (right_schema p) (snd (plan_keys p)) r = Some k \<and> \<not> is_null k)"

definition join_ok :: "hash_join_plan \<Rightarrow> tuple list \<Rightarrow> tuple list \<Rightarrow> bool" where
  "join_ok p ls rs \<longleftrightarrow> (\<exists>lhs rhs. on_condition p = Some (BinaryOp ''='' (Some lhs) (Some rhs))) \<and> temps_work (temps p) \<and>
     (build_left p \<longrightarrow> hj_type p = JInner) \<and>
     (\<forall>l \<in> set ls. \<exists>k. eval_key (left_schema p) (fst (plan_keys p)) l = Some k \<and> float_free k) \<and>
     (\<forall>r \<in> set rs. \<exists>k. eval_key (right_schema p) (snd (plan_keys p)) r = Some k \<and> float_free k) \<and>
     (work_mem p \<noteq> 0 \<longrightarrow> (\<forall>l \<in> set ls. spillable (left_schema p) l) \<and> (\<forall>r \<in> set rs. spillable (right_schema p) r))"

lemma join_ok_keys:
  assumes "join_ok p ls rs" "l \<in> set ls" "r \<in> set rs"
  shows "rows_match p l r = (if build_left p then keys_match p r l else keys_match p l r)"
proof -
  obtain x y where k: "eval_key (left_schema p) (fst (plan_keys p)) l = Some x" "float_free x"
      "eval_key (right_schema p) (snd (plan_keys p)) r = Some y" "float_free y"
    using assms unfolding join_ok_def by blast
  then show ?thesis
    by (auto simp: rows_match_def keys_match_def bkey_def pkey_def build_schema_def probe_schema_def value_eq_iff)
qed

lemma join_ok_plan:
  assumes "join_ok p ls rs"
  shows "plan_ok p (if build_left p then ls else rs) (if build_left p then rs else ls)"
proof -
  have hash: "hash_value (the (pkey p t)) = hash_value (the (bkey p b))"
    if m: "keys_match p t b" and b: "b \<in> set (if build_left p then ls else rs)" and t: "t \<in> set (if build_left p then rs else ls)" for t b
  proof -
    obtain x y where xy: "pkey p t = Some x" "bkey p b = Some y" "value_eq x y" using m unfolding keys_match_def by blast
    have "float_free x"
      using assms t xy(1) by (auto simp: join_ok_def pkey_def probe_schema_def split: if_splits)
    then show ?thesis using xy by (simp add: value_eq_iff)
  qed
  show ?thesis
    using assms hash
    by (auto simp: plan_ok_def join_ok_def keys_ok_def bkey_def pkey_def build_schema_def probe_schema_def over_def)
qed

subsection \<open>Multisets of rows\<close>

lemma mset_concat_cong:
  assumes "mset xs = mset ys" "\<And>x. x \<in> set ys \<Longrightarrow> mset (f x) = mset (g x)"
  shows "mset (concat (map f xs)) = mset (concat (map g ys))"
proof -
  have "mset (concat (map f zs)) = (\<Sum>z\<in>#mset zs. mset (f z))" for f :: "'a \<Rightarrow> 'b list" and zs by (induction zs) auto
  moreover have "image_mset (\<lambda>z. mset (f z)) (mset ys) = image_mset (\<lambda>z. mset (g z)) (mset ys)"
    using assms(2) by (intro image_mset_cong) auto
  ultimately show ?thesis using assms(1) by simp
qed

lemma mset_pairs_swap:
  "mset (concat (map (\<lambda>x. map (g x) (filter (P x) ys)) xs)) =
   mset (concat (map (\<lambda>y. map (\<lambda>x. g x y) (filter (\<lambda>x. P x y) xs)) ys))"
proof (induction xs)
  case Nil
  then show ?case by (induction ys) auto
next
  case (Cons x xs)
  have "mset (concat (map (\<lambda>y. map (\<lambda>x. g x y) (filter (\<lambda>x. P x y) (x # xs))) ys)) =
      mset (map (g x) (filter (P x) ys)) + mset (concat (map (\<lambda>y. map (\<lambda>x. g x y) (filter (\<lambda>x. P x y) xs)) ys))"
    by (induction ys) auto
  then show ?case using Cons by simp
qed

definition join_rows :: "hash_join_plan \<Rightarrow> tuple list \<Rightarrow> tuple list \<Rightarrow> tuple list" where
  "join_rows p ls rs = concat (map (joined (rows_match p) (out_schema p) (hj_type p) rs) ls)"

lemma probe_rows_rev: "mset (probe_rows p m (rev bs) t) = mset (probe_rows p m bs t)"
  by (simp add: probe_rows_def Let_def rev_filter [symmetric] rev_map [symmetric])

lemma hash_join_rows_mset:
  assumes "join_ok p ls rs"
  shows "mset (hash_join_rows p (if build_left p then ls else rs) (if build_left p then rs else ls)) = mset (join_rows p ls rs)"
proof -
  let ?bs = "if build_left p then ls else rs" and ?ps = "if build_left p then rs else ls"
  have "mset (hash_join_rows p ?bs ?ps) = mset (concat (map (probe_rows p False ?bs) ?ps))"
    unfolding hash_join_rows_def using probe_order_mset probe_rows_rev by (intro mset_concat_cong) auto
  also have "\<dots> = mset (join_rows p ls rs)"
  proof (cases "build_left p")
    case True
    then have inner: "hj_type p = JInner" using assms by (simp add: join_ok_def)
    have "concat (map (probe_rows p False ls) rs) = concat (map (\<lambda>r. map (\<lambda>l. make_combined_tuple l r) (filter (\<lambda>l. rows_match p l r) ls)) rs)"
      using True inner join_ok_keys [OF assms]
      by (intro arg_cong [of _ _ concat] map_cong) (auto simp: probe_rows_def make_join_tuple_def make_combined_tuple_def cong: filter_cong)
    also have "mset \<dots> = mset (concat (map (\<lambda>l. map (make_combined_tuple l) (filter (rows_match p l) rs)) ls))"
      by (rule mset_pairs_swap [symmetric])
    finally show ?thesis using True inner by (simp add: join_rows_def joined_def [abs_def])
  next
    case False
    then have "map (probe_rows p False rs) ls = map (joined (rows_match p) (out_schema p) (hj_type p) rs) ls"
      using join_ok_keys [OF assms]
      by (intro map_cong) (auto simp: probe_rows_def joined_def make_join_tuple_def make_combined_tuple_def Let_def cong: filter_cong)
    then show ?thesis using False by (simp only: join_rows_def if_False)
  qed
  finally show ?thesis .
qed


definition flag_plan :: hash_join_plan where
  "flag_plan = \<lparr>out_schema = flag_schema @ flag_schema, left_schema = flag_schema, right_schema = flag_schema,
     on_condition = Some (BinaryOp ''='' (Some (ColumnRef [] ''id'')) (Some (ColumnRef [] ''id''))), hj_type = JLeft, build_left = False,
     work_mem = 1, entry_size = 64,
     temps = \<lparr>made = (\<lambda>_. Made), written = (\<lambda>_ _. True), reopened = (\<lambda>_. True)\<rparr>\<rparr>"

definition flag_join :: "(row_buffer, row_buffer) hash_join" where
  "flag_join = \<lparr>hj_left = flag_rows [True, False], hj_right = flag_rows [True], buckets = (\<lambda>_. []), current_left = empty_tuple,
     current_entry = [], left_key = None, right_key = None, has_current_left = False, current_left_matched = False, built = False,
     spilled = False, spill_file = None, build_partitions = [], probe_partitions = [], probe_scan = None, current_partition = 0,
     grace_ready = False\<rparr>"

lemma flag_plan_keys:
  "plan_keys flag_plan = (Some (ColumnRef [] ''id''), Some (ColumnRef [] ''id''))"
  "eval_key flag_schema (Some (ColumnRef [] ''id'')) (id_row v) = Some v"
  "left_schema flag_plan = flag_schema" "right_schema flag_plan = flag_schema" "out_schema flag_plan = flag_schema @ flag_schema"
proof -
  have idx: "get_column_index flag_schema ''id'' = 0" using flag_column(3) by (simp add: column_position_def)
  show "plan_keys flag_plan = (Some (ColumnRef [] ''id''), Some (ColumnRef [] ''id''))"
    by (simp add: plan_keys_def flag_plan_def join_keys_def idx)
qed (simp_all add: eval_key_def flag_column flag_plan_def)

lemma flag_facts:
  "rows_match flag_plan (id_row (VBool a)) (id_row (VBool b)) \<longleftrightarrow> a = b"
  "buffer (hj_left flag_join) = [id_row (VBool True), id_row (VBool False)]" "buffer (hj_right flag_join) = [id_row (VBool True)]"
  "out_schema flag_plan = flag_schema @ flag_schema"
  "make_left_only_tuple (flag_schema @ flag_schema) (id_row v) = new_row [v, VNull]"
  "make_combined_tuple (id_row u) (id_row v) = new_row [u, v]" "hj_type flag_plan = JLeft"
  by (auto simp: rows_match_def flag_plan_keys is_null_def)
    (simp_all add: flag_join_def flag_rows_def make_left_only_tuple_def make_combined_tuple_def id_row_def flag_schema_def column_count_def
      flag_plan_def)

lemma flag_join_ok: "join_ok flag_plan (buffer (hj_left flag_join)) (buffer (hj_right flag_join))"
proof -
  have "spillable flag_schema (id_row (VBool b))" for b
    by (simp add: spillable_def tuple_ok_def id_row_def flag_schema_def value_ok_def tuple_serialized_size_def value_serialized_size_def
        is_null_def)
  then show ?thesis
    by (simp add: join_ok_def flag_plan_keys float_free_def flag_join_def flag_rows_def) (simp add: flag_plan_def temps_work_def)
qed


text \<open>Counting is joining.  After \<^verbatim>\<open>init\<close> the count of \<^verbatim>\<open>fast_count\<close> is the number of rows of the join, in memory and through
  partitions.\<close>

lemma hash_join_count:
  assumes "executor_pair lini lnxt lready lrunning lall lrows rini rnxt rready rrunning rall rrows"
    and "lready (hj_left s)" "rready (hj_right s)" "join_ok p (lall (hj_left s)) (rall (hj_right s))"
  shows "\<exists>w w'. hj_init lini rini (s, None) = Some w \<and> hj_fast_count lnxt rnxt p w =
    Some (Some (length (concat (map (\<lambda>l. let ms = filter (rows_match p l) (rall (hj_right s)) in
      if hj_type p = JLeft \<and> ms = [] then [make_left_only_tuple (out_schema p) l] else map (make_combined_tuple l) ms) (lall (hj_left s))))), w')"
  using executor_pair.hj_fast_count_join [OF assms(1), of p s]
    join_ok_plan [OF assms(4)] mset_eq_length [OF hash_join_rows_mset [OF assms(4)]] assms(2,3)
  by (cases "build_left p")
    (auto simp: executor_pair.hj_ready_def [OF assms(1)] executor_pair.side_defs [OF assms(1)] join_rows_def joined_def [abs_def])

text \<open>Keys of different integer types never match, although \<^verbatim>\<open>=\<close> holds.\<close>

lemma hash_join_ignores_equality:
  "chain_match (\<lambda>_. Some (VInt64 (scast n))) (Some (VInt32 n)) [t] = Some (None, []) \<and>
   compare_result (VInt32 n) (VInt64 (scast n)) ''='' = Some (VBool True)"
  using int_widths_equal [of n] by (simp add: value_eq_def value_compare_def)

end
