(* ===== verification/Vector_Sort.thy ===== *)
theory Vector_Sort
  imports Comparator "HOL-Library.Multiset"
begin

section \<open>Sorting and heaps of vectors\<close>

text \<open>
  Model of the sorting and heap members of \<^verbatim>\<open>src/src/container/vector.h\<close>, in the versions with a comparison
  \<open>lt\<close>.  The elements are a list; a position is a natural number, \<^verbatim>\<open>j + 1\<close> for the index \<^verbatim>\<open>j\<close> that may
  become negative in the insertion sort.  The lemmas show for a comparison that is a strict weak order
  that the result is a sorted permutation and that the heap operations keep the largest element in front.
\<close>

definition swap_at :: "nat \<Rightarrow> nat \<Rightarrow> 'a list \<Rightarrow> 'a list" where
  "swap_at i j xs = xs[i := xs ! j, j := xs ! i]"

definition larger_child :: "('a \<Rightarrow> 'a \<Rightarrow> bool) \<Rightarrow> nat \<Rightarrow> nat \<Rightarrow> nat \<Rightarrow> 'a list \<Rightarrow> nat" where
  "larger_child lt lo root n xs =
     (let child = 2 * root + 1 in
      if child + 1 < n \<and> lt (xs ! (lo + child)) (xs ! (lo + child + 1)) then child + 1 else child)"

lemma larger_child_bounds: "2 * root + 1 < n \<Longrightarrow> root < larger_child lt lo root n xs \<and> larger_child lt lo root n xs < n"
  by (auto simp: larger_child_def Let_def)

function sift_down :: "('a \<Rightarrow> 'a \<Rightarrow> bool) \<Rightarrow> nat \<Rightarrow> nat \<Rightarrow> nat \<Rightarrow> 'a list \<Rightarrow> 'a list" where
  "sift_down lt lo root n xs =
     (if 2 * root + 1 \<ge> n then xs
      else if lt (xs ! (lo + root)) (xs ! (lo + larger_child lt lo root n xs))
      then sift_down lt lo (larger_child lt lo root n xs) n (swap_at (lo + root) (lo + larger_child lt lo root n xs) xs)
      else xs)"
  by pat_completeness auto
termination
proof (relation "measure (\<lambda>(_, _, root, n, _). n - root)", goal_cases)
  case (2 lt lo root n xs)
  then show ?case using larger_child_bounds [of root n lt lo xs] by auto
qed simp

declare sift_down.simps [simp del]

definition heap_sort :: "('a \<Rightarrow> 'a \<Rightarrow> bool) \<Rightarrow> nat \<Rightarrow> nat \<Rightarrow> 'a list \<Rightarrow> 'a list" where
  "heap_sort lt lo n xs =
     fold (\<lambda>i xs. sift_down lt lo 0 i (swap_at lo (lo + i) xs)) (rev [1..<n])
       (fold (\<lambda>i. sift_down lt lo i n) (rev [0..<n div 2]) xs)"

fun insert_down :: "('a \<Rightarrow> 'a \<Rightarrow> bool) \<Rightarrow> nat \<Rightarrow> 'a \<Rightarrow> nat \<Rightarrow> 'a list \<Rightarrow> 'a list" where
  "insert_down lt lo key 0 xs = xs[0 := key]"
| "insert_down lt lo key (Suc j) xs =
     (if j \<ge> lo \<and> lt key (xs ! j) then insert_down lt lo key j (xs[Suc j := xs ! j]) else xs[Suc j := key])"

definition insertion_sort :: "('a \<Rightarrow> 'a \<Rightarrow> bool) \<Rightarrow> nat \<Rightarrow> nat \<Rightarrow> 'a list \<Rightarrow> 'a list" where
  "insertion_sort lt lo hi xs = fold (\<lambda>i xs. insert_down lt lo (xs ! i) i xs) [lo + 1..<hi + 1] xs"

text \<open>\<^verbatim>\<open>partition\<close>: \<open>i\<close> is the number of elements below the pivot so far.\<close>

definition partition_at :: "('a \<Rightarrow> 'a \<Rightarrow> bool) \<Rightarrow> nat \<Rightarrow> nat \<Rightarrow> 'a list \<Rightarrow> nat \<times> 'a list" where
  "partition_at lt lo hi xs =
     (let (i, ys) = fold (\<lambda>j (i, ys). if lt (ys ! j) (xs ! hi) then (i + 1, swap_at i j ys) else (i, ys)) [lo..<hi] (lo, xs)
      in (i, swap_at i hi ys))"

text \<open>The bounds are \<open>lo\<close> and the number of elements.\<close>

fun introsort :: "('a \<Rightarrow> 'a \<Rightarrow> bool) \<Rightarrow> nat \<Rightarrow> nat \<Rightarrow> nat \<Rightarrow> 'a list \<Rightarrow> 'a list" where
  "introsort lt 0 lo n xs = (if n \<le> 16 then insertion_sort lt lo (lo + n - 1) xs else heap_sort lt lo n xs)"
| "introsort lt (Suc depth) lo n xs =
     (if n \<le> 16 then insertion_sort lt lo (lo + n - 1) xs
      else
        let (p, ys) = partition_at lt lo (lo + n - 1) xs
        in introsort lt depth (p + 1) (lo + n - (p + 1)) (introsort lt depth lo (p - lo) ys))"

definition vector_sort :: "('a \<Rightarrow> 'a \<Rightarrow> bool) \<Rightarrow> 'a list \<Rightarrow> 'a list" where
  "vector_sort lt xs = (if length xs \<le> 1 then xs else introsort lt 0 0 (length xs) xs)"

subsection \<open>Heaps\<close>

function push_up :: "('a \<Rightarrow> 'a \<Rightarrow> bool) \<Rightarrow> nat \<Rightarrow> 'a list \<Rightarrow> 'a list" where
  "push_up lt i xs =
     (if i > 0
      then
        let p = (i - 1) div 2 in
        if lt (xs ! p) (xs ! i) then push_up lt p (swap_at p i xs) else xs
      else xs)"
  by pat_completeness auto
termination by (relation "measure (\<lambda>(_, i, _). i)") auto

declare push_up.simps [simp del]

definition push_heap :: "('a \<Rightarrow> 'a \<Rightarrow> bool) \<Rightarrow> 'a list \<Rightarrow> 'a list" where
  "push_heap lt xs = push_up lt (length xs - 1) xs"

definition pop_heap :: "('a \<Rightarrow> 'a \<Rightarrow> bool) \<Rightarrow> 'a list \<Rightarrow> 'a list" where
  "pop_heap lt xs =
     (if length xs \<le> 1 then xs
      else sift_down lt 0 0 (length xs - 1) (swap_at 0 (length xs - 1) xs))"

definition make_heap :: "('a \<Rightarrow> 'a \<Rightarrow> bool) \<Rightarrow> 'a list \<Rightarrow> 'a list" where
  "make_heap lt xs =
     (if length xs \<le> 1 then xs else fold (\<lambda>i. sift_down lt 0 i (length xs)) (rev [0..<length xs div 2]) xs)"

section \<open>Laws\<close>

lemma length_swap_at [simp]: "length (swap_at i j xs) = length xs"
  by (simp add: swap_at_def)

lemma nth_swap_at:
  "i < length xs \<Longrightarrow> j < length xs \<Longrightarrow> swap_at i j xs ! k = (if k = i then xs ! j else if k = j then xs ! i else xs ! k)"
  by (auto simp: swap_at_def nth_list_update)

lemma mset_swap_at: "i < length xs \<Longrightarrow> j < length xs \<Longrightarrow> mset (swap_at i j xs) = mset xs"
  by (simp add: swap_at_def mset_swap)

text \<open>Changes inside a segment only.\<close>

definition within :: "nat \<Rightarrow> nat \<Rightarrow> 'a list \<Rightarrow> 'a list \<Rightarrow> bool" where
  "within lo n xs ys \<longleftrightarrow> mset ys = mset xs \<and> length ys = length xs \<and> (\<forall>k. k < lo \<or> lo + n \<le> k \<longrightarrow> ys ! k = xs ! k)"

lemma within_refl [simp]: "within lo n xs xs"
  by (simp add: within_def)

lemma within_trans: "within lo n xs ys \<Longrightarrow> within lo n ys zs \<Longrightarrow> within lo n xs zs"
  by (simp add: within_def)

lemma within_swap: "i < n \<Longrightarrow> j < n \<Longrightarrow> lo + n \<le> length xs \<Longrightarrow> within lo n xs (swap_at (lo + i) (lo + j) xs)"
  by (auto simp: within_def mset_swap_at nth_swap_at)

lemma within_mono: "within lo m xs ys \<Longrightarrow> m \<le> n \<Longrightarrow> within lo n xs ys"
  by (auto simp: within_def)

lemma sift_down_induct:
  assumes stop: "\<And>root xs. 2 * root + 1 \<ge> n \<or> \<not> lt (xs ! (lo + root)) (xs ! (lo + larger_child lt lo root n xs)) \<Longrightarrow> P root xs xs"
    and step: "\<And>root xs c ys. 2 * root + 1 < n \<Longrightarrow> c = larger_child lt lo root n xs \<Longrightarrow> root < c \<Longrightarrow> c < n \<Longrightarrow>
      lt (xs ! (lo + root)) (xs ! (lo + c)) \<Longrightarrow> P c (swap_at (lo + root) (lo + c) xs) ys \<Longrightarrow> P root xs ys"
  shows "P root xs (sift_down lt lo root n xs)"
proof (induction "n - root" arbitrary: root xs rule: less_induct)
  case less
  let ?c = "larger_child lt lo root n xs"
  show ?case
  proof (cases "2 * root + 1 < n \<and> lt (xs ! (lo + root)) (xs ! (lo + ?c))")
    case True
    then have c: "root < ?c" "?c < n" using larger_child_bounds [of root n lt lo xs] by auto
    have "P ?c (swap_at (lo + root) (lo + ?c) xs) (sift_down lt lo ?c n (swap_at (lo + root) (lo + ?c) xs))"
      using less [of ?c "swap_at (lo + root) (lo + ?c) xs"] c by simp
    then have "P root xs (sift_down lt lo ?c n (swap_at (lo + root) (lo + ?c) xs))"
      using step [OF _ refl c] True by simp
    moreover have "sift_down lt lo root n xs = sift_down lt lo ?c n (swap_at (lo + root) (lo + ?c) xs)"
      using True by (subst sift_down.simps) simp
    ultimately show ?thesis by simp
  next
    case False
    then have "sift_down lt lo root n xs = xs" by (subst sift_down.simps) auto
    moreover have "2 * root + 1 \<ge> n \<or> \<not> lt (xs ! (lo + root)) (xs ! (lo + ?c))" using False by auto
    ultimately show ?thesis using stop [of root xs] by simp
  qed
qed

lemma sift_down_within [rule_format]: "lo + n \<le> length xs \<longrightarrow> within lo n xs (sift_down lt lo root n xs)"
proof (rule sift_down_induct [where P = "\<lambda>root xs ys. lo + n \<le> length xs \<longrightarrow> within lo n xs ys"], goal_cases)
  case (2 root xs c ys)
  then show ?case using within_swap [of root n c lo xs] within_trans by fastforce
qed simp

locale weak_order =
  fixes lt :: "'a \<Rightarrow> 'a \<Rightarrow> bool"
  assumes lt_asym: "lt a b \<Longrightarrow> \<not> lt b a"
    and not_lt_trans: "\<not> lt a b \<Longrightarrow> \<not> lt b c \<Longrightarrow> \<not> lt a c"
begin

lemma not_lt_refl [simp]: "\<not> lt a a"
  using lt_asym by blast

text \<open>The heap condition for the parents from \<open>k\<close> on, except those of \<open>hole\<close>.\<close>

definition heap_above :: "nat \<Rightarrow> nat option \<Rightarrow> nat \<Rightarrow> nat \<Rightarrow> 'a list \<Rightarrow> bool" where
  "heap_above k hole lo n xs \<longleftrightarrow>
     (\<forall>i < n. 0 < i \<longrightarrow> k \<le> (i - 1) div 2 \<longrightarrow> hole \<noteq> Some ((i - 1) div 2) \<longrightarrow> \<not> lt (xs ! (lo + (i - 1) div 2)) (xs ! (lo + i))) \<and>
     (\<forall>r. hole = Some r \<longrightarrow> 0 < r \<longrightarrow> k \<le> (r - 1) div 2 \<longrightarrow>
        (\<forall>i < n. 0 < i \<longrightarrow> (i - 1) div 2 = r \<longrightarrow> \<not> lt (xs ! (lo + (r - 1) div 2)) (xs ! (lo + i))))"

lemma larger_child_max:
  assumes "2 * root + 1 < n" "i < n" "0 < i" "(i - 1) div 2 = root"
  shows "\<not> lt (xs ! (lo + larger_child lt lo root n xs)) (xs ! (lo + i))"
proof -
  have "i = 2 * root + 1 \<or> i = 2 * root + 2" using assms(3,4) by presburger
  then show ?thesis using assms(2) lt_asym by (auto simp: larger_child_def Let_def)
qed

lemma sift_down_heap [rule_format]:
  "lo + n \<le> length xs \<longrightarrow> heap_above k (Some root) lo n xs \<longrightarrow> k \<le> root \<longrightarrow> heap_above k None lo n (sift_down lt lo root n xs)"
proof (rule sift_down_induct [where P = "\<lambda>root xs ys. lo + n \<le> length xs \<longrightarrow> heap_above k (Some root) lo n xs \<longrightarrow> k \<le> root \<longrightarrow>
    heap_above k None lo n ys"], goal_cases)
  case (1 root xs)
  have "\<not> lt (xs ! (lo + root)) (xs ! (lo + i))" if "i < n" "0 < i" "(i - 1) div 2 = root" for i
  proof -
    have "2 * root + 1 < n" using that by presburger
    then have "\<not> lt (xs ! (lo + root)) (xs ! (lo + larger_child lt lo root n xs))" using 1(1) by simp
    then show ?thesis using larger_child_max [OF \<open>2 * root + 1 < n\<close> that] not_lt_trans by blast
  qed
  then show ?case by (auto simp: heap_above_def)
next
  case (2 root xs c ys)
  show ?case
  proof (intro impI)
    assume pre: "lo + n \<le> length xs" "heap_above k (Some root) lo n xs" "k \<le> root"
    have par: "(c - 1) div 2 = root" using 2(1,2) by (auto simp: larger_child_def Let_def)
    let ?ys = "swap_at (lo + root) (lo + c) xs"
    have nth: "?ys ! (lo + i) = (if i = root then xs ! (lo + c) else if i = c then xs ! (lo + root) else xs ! (lo + i))" if "i < n" for i
      using that 2(3,4) pre(1) by (simp add: nth_swap_at)
    have h1: "\<not> lt (xs ! (lo + (i - 1) div 2)) (xs ! (lo + i))" if "i < n" "0 < i" "k \<le> (i - 1) div 2" "(i - 1) div 2 \<noteq> root" for i
      using pre(2) that by (auto simp: heap_above_def)
    have h2: "\<not> lt (xs ! (lo + (root - 1) div 2)) (xs ! (lo + i))"
      if "0 < root" "k \<le> (root - 1) div 2" "i < n" "0 < i" "(i - 1) div 2 = root" for i
      using pre(2) that by (auto simp: heap_above_def)
    have "heap_above k (Some c) lo n ?ys"
      unfolding heap_above_def
    proof (intro conjI allI impI)
      fix i assume i: "i < n" "0 < i" "k \<le> (i - 1) div 2" "Some c \<noteq> Some ((i - 1) div 2)"
      let ?p = "(i - 1) div 2"
      have p: "?p < i" "?p < n" "?p \<noteq> c" using i by auto
      show "\<not> lt (?ys ! (lo + ?p)) (?ys ! (lo + i))"
      proof (cases "?p = root")
        case True
        have "\<not> lt (xs ! (lo + c)) (xs ! (lo + i))" using larger_child_max [OF 2(1) i(1,2) True] 2(2) by simp
        then show ?thesis using lt_asym [OF 2(5)] i(1) p True by (simp add: nth)
      next
        case False
        then have "\<not> lt (xs ! (lo + ?p)) (xs ! (lo + i))" using h1 [OF i(1-3)] by simp
        moreover have "i = root \<Longrightarrow> \<not> lt (xs ! (lo + ?p)) (xs ! (lo + c))" using h2 [of c] i(2,3) 2(3,4) par by simp
        moreover have "i \<noteq> c" using False par by auto
        ultimately show ?thesis using False p i(1) by (simp add: nth)
      qed
    next
      fix r i assume r: "Some c = Some r" "0 < r" "k \<le> (r - 1) div 2" "i < n" "0 < i" "(i - 1) div 2 = r"
      have "\<not> lt (xs ! (lo + c)) (xs ! (lo + i))" using h1 [of i] r 2(3) pre(3) by simp
      moreover have "i \<noteq> root" "i \<noteq> c" using r 2(3) by auto
      moreover have "(r - 1) div 2 = root" using r(1) par by simp
      ultimately show "\<not> lt (?ys ! (lo + (r - 1) div 2)) (?ys ! (lo + i))" using r(4) 2(3,4) nth [of root] nth [of i] by simp
    qed
    then show "heap_above k None lo n ys" using 2 pre by simp
  qed
qed

text \<open>Building the heap.\<close>

lemma heap_above_hole: "heap_above (Suc k) None lo n xs \<Longrightarrow> heap_above k (Some k) lo n xs"
  unfolding heap_above_def by (auto simp: Suc_le_eq)

lemma heapify_heap:
  assumes "lo + n \<le> length xs" "heap_above m None lo n xs"
  shows "heap_above 0 None lo n (fold (\<lambda>i. sift_down lt lo i n) (rev [0..<m]) xs) \<and>
    within lo n xs (fold (\<lambda>i. sift_down lt lo i n) (rev [0..<m]) xs)"
  using assms
proof (induction m arbitrary: xs)
  case (Suc m)
  let ?ys = "sift_down lt lo m n xs"
  have w: "within lo n xs ?ys" using sift_down_within Suc.prems(1) by blast
  have "heap_above m None lo n ?ys" using Suc.prems by (intro sift_down_heap heap_above_hole) auto
  then show ?case using Suc.IH [of ?ys] Suc.prems(1) w within_trans by (auto simp: within_def)
qed simp

lemma heap_start: "heap_above (n div 2) None lo n xs"
  unfolding heap_above_def by auto

lemma heap_root_max:
  assumes "heap_above 0 None lo n xs" "i < n"
  shows "\<not> lt (xs ! lo) (xs ! (lo + i))"
  using assms(2)
proof (induction i rule: less_induct)
  case (less i)
  show ?case
  proof (cases "i = 0")
    case False
    then have "\<not> lt (xs ! lo) (xs ! (lo + (i - 1) div 2))" using less by (intro less.IH) auto
    moreover have "\<not> lt (xs ! (lo + (i - 1) div 2)) (xs ! (lo + i))" using assms(1) less.prems False by (auto simp: heap_above_def)
    ultimately show ?thesis using not_lt_trans by blast
  qed simp
qed

text \<open>The state of the second loop: a heap of the first \<open>m\<close> elements, below the sorted rest.\<close>

definition sorted_tail :: "nat \<Rightarrow> nat \<Rightarrow> nat \<Rightarrow> 'a list \<Rightarrow> bool" where
  "sorted_tail lo m n xs \<longleftrightarrow> (\<forall>i j. i < j \<longrightarrow> m \<le> j \<longrightarrow> j < n \<longrightarrow> \<not> lt (xs ! (lo + j)) (xs ! (lo + i)))"

lemma sorted_tail_within:
  assumes "sorted_tail lo m n xs" "within lo m xs ys" "lo + n \<le> length xs" "m \<le> n"
  shows "sorted_tail lo m n ys"
proof -
  have "\<not> lt (ys ! (lo + j)) (ys ! (lo + i))" if ij: "i < j" "m \<le> j" "j < n" for i j
  proof (cases "m \<le> i")
    case True
    then show ?thesis using assms(1,2) ij by (auto simp: sorted_tail_def within_def)
  next
    case False
    have seg: "mset (take m (drop lo ys)) = mset (take m (drop lo xs))"
    proof -
      have "take lo ys = take lo xs" "drop (lo + m) ys = drop (lo + m) xs"
        using assms(2) by (auto simp: within_def intro!: nth_equalityI)
      moreover have "mset zs = mset (take lo zs) + mset (take m (drop lo zs)) + mset (drop (lo + m) zs)" for zs :: "'a list"
        by (metis append_take_drop_id drop_drop mset_append add.commute add.left_commute)
      ultimately show ?thesis using assms(2) unfolding within_def by (metis add_left_cancel add_right_cancel)
    qed
    have "ys ! (lo + i) \<in> set (take m (drop lo ys))"
      using False ij assms(2,3) by (auto simp: in_set_conv_nth within_def intro!: exI [of _ i])
    then have "ys ! (lo + i) \<in> set (take m (drop lo xs))" using seg by (metis set_mset_mset)
    then obtain k where k: "k < m" "ys ! (lo + i) = xs ! (lo + k)" using assms(3) ij by (auto simp: in_set_conv_nth)
    have "ys ! (lo + j) = xs ! (lo + j)" using assms(2) ij by (simp add: within_def)
    then show ?thesis using assms(1) k ij by (simp add: sorted_tail_def)
  qed
  then show ?thesis by (auto simp: sorted_tail_def)
qed

lemma extract_step:
  assumes "heap_above 0 None lo (Suc i) xs" "sorted_tail lo (Suc i) n xs" "Suc i \<le> n" "lo + n \<le> length xs"
  defines "ys \<equiv> sift_down lt lo 0 i (swap_at lo (lo + i) xs)"
  shows "heap_above 0 None lo i ys \<and> sorted_tail lo i n ys \<and> within lo n xs ys"
proof -
  let ?zs = "swap_at lo (lo + i) xs"
  have nth: "?zs ! (lo + k) = (if k = 0 then xs ! (lo + i) else if k = i then xs ! lo else xs ! (lo + k))" for k
    using assms(3,4) nth_swap_at [of lo xs "lo + i" "lo + k"] by auto
  have w: "within lo (Suc i) xs ?zs" using within_swap [of 0 "Suc i" i lo xs] assms(3,4) by simp
  have len: "lo + n \<le> length ?zs" using assms(4) by simp
  have tail: "sorted_tail lo (Suc i) n ?zs" using sorted_tail_within [OF assms(2) w assms(4,3)] .
  have "\<not> lt (?zs ! (lo + i)) (?zs ! (lo + k))" if "k < i" for k
    using heap_root_max [OF assms(1), of k] heap_root_max [OF assms(1), of i] that by (cases "i = 0") (simp_all add: nth)
  then have "\<not> lt (?zs ! (lo + j)) (?zs ! (lo + k))" if "k < j" "i \<le> j" "j < n" for j k
    using tail that by (cases "j = i") (auto simp: sorted_tail_def)
  then have tail': "sorted_tail lo i n ?zs" by (simp add: sorted_tail_def)
  have "lo + i \<le> length ?zs" using len assms(3) by simp
  then have wi: "within lo i ?zs ys" unfolding ys_def by (rule sift_down_within)
  have "sorted_tail lo i n ys" by (rule sorted_tail_within [OF tail' wi len]) (use assms(3) in simp)
  moreover have "heap_above 0 (Some 0) lo i ?zs"
    unfolding heap_above_def
  proof (intro conjI allI impI)
    fix k assume k: "k < i" "0 < k" "0 \<le> (k - 1) div 2" "Some 0 \<noteq> Some ((k - 1) div 2)"
    have "\<not> lt (xs ! (lo + (k - 1) div 2)) (xs ! (lo + k))" using assms(1) k by (auto simp: heap_above_def)
    moreover have "(k - 1) div 2 < i" using k by auto
    ultimately show "\<not> lt (?zs ! (lo + (k - 1) div 2)) (?zs ! (lo + k))" using k by (simp add: nth)
  qed auto
  then have "heap_above 0 None lo i ys" unfolding ys_def using len assms(3) by (intro sift_down_heap) auto
  moreover have "within lo n xs ys" using within_mono [OF w assms(3)] within_mono [OF wi, of n] assms(3) within_trans by auto
  ultimately show ?thesis by simp
qed

lemma extract_all:
  assumes "heap_above 0 None lo (Suc m) xs" "sorted_tail lo (Suc m) n xs" "Suc m \<le> n" "lo + n \<le> length xs"
  defines "f \<equiv> \<lambda>i xs. sift_down lt lo 0 i (swap_at lo (lo + i) xs)"
  shows "sorted_tail lo 1 n (fold f (rev [1..<Suc m]) xs) \<and> within lo n xs (fold f (rev [1..<Suc m]) xs)"
  using assms(1-4)
proof (induction m arbitrary: xs)
  case (Suc m)
  have "heap_above 0 None lo (Suc m) (f (Suc m) xs) \<and> sorted_tail lo (Suc m) n (f (Suc m) xs) \<and> within lo n xs (f (Suc m) xs)"
    unfolding f_def using Suc.prems by (rule extract_step)
  moreover from this have "lo + n \<le> length (f (Suc m) xs)" using Suc.prems(4) by (simp add: within_def)
  moreover have "rev [1..<Suc (Suc m)] = Suc m # rev [1..<Suc m]" by simp
  ultimately show ?case using Suc.IH [of "f (Suc m) xs"] Suc.prems(3) within_trans by auto
qed (simp add: f_def)

definition sorted_range :: "nat \<Rightarrow> nat \<Rightarrow> 'a list \<Rightarrow> bool" where
  "sorted_range lo hi xs \<longleftrightarrow> (\<forall>i j. lo \<le> i \<longrightarrow> i < j \<longrightarrow> j < hi \<longrightarrow> \<not> lt (xs ! j) (xs ! i))"

lemma heap_sort_sorts:
  assumes "lo + n \<le> length xs" "0 < n"
  shows "sorted_range lo (lo + n) (heap_sort lt lo n xs) \<and> within lo n xs (heap_sort lt lo n xs)"
proof -
  let ?ys = "fold (\<lambda>i. sift_down lt lo i n) (rev [0..<n div 2]) xs"
  have h: "heap_above 0 None lo n ?ys" "within lo n xs ?ys" using heapify_heap [OF assms(1) heap_start] by simp_all
  then have "lo + n \<le> length ?ys" using assms(1) by (simp add: within_def)
  moreover obtain m where m: "n = Suc m" using assms(2) by (cases n) auto
  ultimately have e: "sorted_tail lo 1 n (heap_sort lt lo n xs)" "within lo n ?ys (heap_sort lt lo n xs)"
    using extract_all [of lo m ?ys n] h(1) by (simp_all add: heap_sort_def sorted_tail_def)
  have "\<not> lt (heap_sort lt lo n xs ! j) (heap_sort lt lo n xs ! i)" if "lo \<le> i" "i < j" "j < lo + n" for i j
    using e(1) [unfolded sorted_tail_def, rule_format, of "i - lo" "j - lo"] that by simp
  then show ?thesis using h(2) e(2) within_trans by (auto simp: sorted_range_def)
qed

text \<open>The insertion sort; \<open>p\<close> is the position of the hole.\<close>

lemma insert_down_sorts:
  assumes "lo \<le> p" "p < e" "e \<le> length xs" "\<And>i j. lo \<le> i \<Longrightarrow> i < j \<Longrightarrow> j < e \<Longrightarrow> i \<noteq> p \<Longrightarrow> j \<noteq> p \<Longrightarrow> \<not> lt (xs ! j) (xs ! i)"
    and "\<And>j. p < j \<Longrightarrow> j < e \<Longrightarrow> lt key (xs ! j)"
  defines "ys \<equiv> insert_down lt lo key p xs"
  shows "sorted_range lo e ys \<and> mset ys = mset (xs[p := key]) \<and> length ys = length xs \<and> (\<forall>k. k < lo \<or> e \<le> k \<longrightarrow> ys ! k = xs ! k)"
  unfolding ys_def using assms(1-5)
proof (induction p arbitrary: xs)
  case 0
  have "0 < length xs" using 0(2,3) by linarith
  then have "\<not> lt (xs[0 := key] ! j) (xs[0 := key] ! i)" if "lo \<le> i" "i < j" "j < e" for i j
    using 0 that lt_asym by (cases "i = 0") (auto simp: nth_list_update)
  then show ?case using 0 by (auto simp: sorted_range_def)
next
  case (Suc p)
  show ?case
  proof (cases "p \<ge> lo \<and> lt key (xs ! p)")
    case True
    let ?ys = "xs[Suc p := xs ! p]"
    have nth: "?ys ! k = (if k = Suc p then xs ! p else xs ! k)" for k using Suc.prems(2,3) by (simp add: nth_list_update)
    have sorted: "\<not> lt (?ys ! j) (?ys ! i)" if "lo \<le> i" "i < j" "j < e" "i \<noteq> p" "j \<noteq> p" for i j
      using Suc.prems(4) [of i j] Suc.prems(4) [of i p] Suc.prems(4) [of p j] that Suc.prems(1,2) True by (auto simp: nth)
    have above: "lt key (?ys ! j)" if "p < j" "j < e" for j using Suc.prems(5) [of j] that True by (auto simp: nth)
    have "mset (?ys[p := key]) = mset (xs[Suc p := key])"
    proof -
      have "?ys[p := key] = swap_at (Suc p) p (xs[Suc p := key])"
        using Suc.prems(2,3) by (simp add: swap_at_def nth_list_update list_update_swap)
      then show ?thesis using mset_swap_at [of "Suc p" "xs[Suc p := key]" p] Suc.prems(2,3) by simp
    qed
    moreover have "insert_down lt lo key (Suc p) xs = insert_down lt lo key p ?ys" using True by simp
    ultimately show ?thesis using Suc.IH [of ?ys, OF _ _ _ sorted above] True Suc.prems(2,3) by (auto simp: nth)
  next
    case False
    have low: "\<not> lt key (xs ! i)" if "lo \<le> i" "i < Suc p" for i
    proof -
      have "\<not> lt key (xs ! p)" using False that by auto
      moreover have "\<not> lt (xs ! p) (xs ! i)" using Suc.prems(2) Suc.prems(4) [of i p] that by (cases "i = p") auto
      ultimately show ?thesis using not_lt_trans by blast
    qed
    have nth: "xs[Suc p := key] ! k = (if k = Suc p then key else xs ! k)" for k using Suc.prems(2,3) by (simp add: nth_list_update)
    have "\<not> lt (xs[Suc p := key] ! j) (xs[Suc p := key] ! i)" if "lo \<le> i" "i < j" "j < e" for i j
      using Suc.prems(4) [of i j] low [of i] lt_asym [of key "xs ! j"] Suc.prems(5) [of j] that
      by (cases "i = Suc p"; cases "j = Suc p") (simp_all add: nth)
    then show ?thesis using False Suc.prems(1,2) by (auto simp: sorted_range_def)
  qed
qed

lemma insertion_fold:
  assumes "lo + k + 1 \<le> length xs"
  defines "ys \<equiv> fold (\<lambda>i xs. insert_down lt lo (xs ! i) i xs) [lo + 1..<lo + k + 1] xs"
  shows "sorted_range lo (lo + k + 1) ys \<and> within lo (k + 1) xs ys"
  unfolding ys_def using assms(1)
proof (induction k)
  case (Suc k)
  let ?f = "\<lambda>i xs. insert_down lt lo (xs ! i) i xs"
  let ?ys = "fold ?f [lo + 1..<lo + k + 1] xs" and ?p = "lo + k + 1"
  have ys: "sorted_range lo ?p ?ys" "within lo (k + 1) xs ?ys" using Suc by auto
  have len: "Suc ?p \<le> length ?ys" using Suc.prems ys(2) by (simp add: within_def)
  have "sorted_range lo (Suc ?p) (?f ?p ?ys) \<and> mset (?f ?p ?ys) = mset (?ys[?p := ?ys ! ?p]) \<and> length (?f ?p ?ys) = length ?ys \<and>
      (\<forall>j. j < lo \<or> Suc ?p \<le> j \<longrightarrow> ?f ?p ?ys ! j = ?ys ! j)"
    using ys(1) len by (intro insert_down_sorts) (auto simp: sorted_range_def)
  then have "sorted_range lo (Suc ?p) (?f ?p ?ys)" "within lo (Suc k + 1) ?ys (?f ?p ?ys)" by (auto simp: within_def)
  moreover have "fold ?f [lo + 1..<lo + Suc k + 1] xs = ?f ?p ?ys" by simp
  ultimately show ?case using within_mono [OF ys(2), of "Suc k + 1"] within_trans by auto
qed (simp add: sorted_range_def)

lemma vector_sort_sorts: "sorted_wrt (\<lambda>a b. \<not> lt b a) (vector_sort lt xs) \<and> mset (vector_sort lt xs) = mset xs"
proof (cases "length xs \<le> 1")
  case True
  then show ?thesis by (cases xs) (auto simp: vector_sort_def)
next
  case False
  have "sorted_range 0 (length xs) (vector_sort lt xs) \<and> within 0 (length xs) xs (vector_sort lt xs)"
  proof (cases "length xs \<le> 16")
    case True
    obtain m where m: "length xs = Suc m" using False by (cases "length xs") auto
    then show ?thesis using False True insertion_fold [of 0 m xs] by (simp add: vector_sort_def insertion_sort_def del: upt_Suc)
  next
    case big: False
    then have "0 < length xs" by linarith
    then show ?thesis using False big heap_sort_sorts [of 0 "length xs" xs] by (simp add: vector_sort_def)
  qed
  then show ?thesis by (auto simp: sorted_range_def within_def sorted_wrt_iff_nth_less)
qed

subsection \<open>Heap operations\<close>

abbreviation heap :: "'a list \<Rightarrow> bool" where
  "heap xs \<equiv> heap_above 0 None 0 (length xs) xs"

lemma heapD: "heap xs \<Longrightarrow> i < length xs \<Longrightarrow> 0 < i \<Longrightarrow> \<not> lt (xs ! ((i - 1) div 2)) (xs ! i)"
  by (simp add: heap_above_def)

text \<open>All is well but for \<open>i\<close> and its parent.\<close>

definition heap_but :: "nat \<Rightarrow> 'a list \<Rightarrow> bool" where
  "heap_but i xs \<longleftrightarrow> (\<forall>j < length xs. 0 < j \<longrightarrow> j \<noteq> i \<longrightarrow> \<not> lt (xs ! ((j - 1) div 2)) (xs ! j)) \<and>
     (\<forall>j < length xs. 0 < i \<longrightarrow> 0 < j \<longrightarrow> (j - 1) div 2 = i \<longrightarrow> \<not> lt (xs ! ((i - 1) div 2)) (xs ! j))"

lemma push_up_heap:
  "i < length xs \<Longrightarrow> heap_but i xs \<Longrightarrow> heap (push_up lt i xs) \<and> mset (push_up lt i xs) = mset xs"
proof (induction i arbitrary: xs rule: less_induct)
  case (less i)
  define p where "p = (i - 1) div 2"
  show ?case
  proof (cases "0 < i \<and> lt (xs ! p) (xs ! i)")
    case True
    then have p: "p < i" "p < length xs" using less.prems(1) by (auto simp: p_def)
    let ?ys = "swap_at p i xs"
    have nth: "?ys ! k = (if k = p then xs ! i else if k = i then xs ! p else xs ! k)" for k
      using p less.prems(1) by (simp add: nth_swap_at)
    have h1: "\<not> lt (xs ! ((j - 1) div 2)) (xs ! j)" if "j < length xs" "0 < j" "j \<noteq> i" for j
      using less.prems(2) that by (auto simp: heap_but_def)
    have h2: "\<not> lt (xs ! p) (xs ! j)" if "j < length xs" "0 < j" "(j - 1) div 2 = i" for j
      using less.prems(2) that True by (auto simp: heap_but_def p_def)
    have up: "\<not> lt (xs ! i) (xs ! p)" using True lt_asym by blast
    have "heap_but p ?ys"
      unfolding heap_but_def
    proof (intro conjI allI impI)
      fix j assume "j < length ?ys" "0 < j" "j \<noteq> p"
      then have j: "j < length xs" "0 < j" "j \<noteq> p" by simp_all
      show "\<not> lt (?ys ! ((j - 1) div 2)) (?ys ! j)"
      proof (cases "j = i")
        case True
        then show ?thesis using up p by (simp add: nth p_def [simplified, symmetric])
      next
        case False
        consider "(j - 1) div 2 = p" | "(j - 1) div 2 = i" | "(j - 1) div 2 \<noteq> p" "(j - 1) div 2 \<noteq> i" by blast
        then show ?thesis
        proof cases
          case 1
          then have "\<not> lt (xs ! i) (xs ! j)" using h1 [OF j(1,2) False] up not_lt_trans by metis
          then show ?thesis using 1 False j(3) by (simp add: nth)
        next
          case 2
          then show ?thesis using h2 [OF j(1,2)] False j p by (simp add: nth)
        next
          case 3
          then show ?thesis using h1 [OF j(1,2) False] False j(3) by (simp add: nth)
        qed
      qed
    next
      fix j assume j: "j < length ?ys" "0 < p" "0 < j" "(j - 1) div 2 = p"
      have gp: "(p - 1) div 2 \<noteq> p" "(p - 1) div 2 \<noteq> i" using j(2) p by auto
      have top: "\<not> lt (xs ! ((p - 1) div 2)) (xs ! p)" using h1 [of p] p j(2) by simp
      have "\<not> lt (xs ! ((p - 1) div 2)) (?ys ! j)"
      proof (cases "j = i")
        case False
        then have "\<not> lt (xs ! p) (xs ! j)" using h1 [of j] j by simp
        then have "\<not> lt (xs ! ((p - 1) div 2)) (xs ! j)" using top not_lt_trans by blast
        moreover have "j \<noteq> p" using j by auto
        ultimately show ?thesis using False by (simp add: nth)
      qed (use top p in \<open>simp add: nth\<close>)
      then show "\<not> lt (?ys ! ((p - 1) div 2)) (?ys ! j)" using gp by (simp add: nth)
    qed
    moreover have "push_up lt i xs = push_up lt p ?ys" using True by (subst push_up.simps) (simp add: Let_def p_def)
    ultimately show ?thesis using less.IH [of p ?ys] p less.prems(1) by (simp add: mset_swap_at)
  next
    case False
    then have "push_up lt i xs = xs" by (subst push_up.simps) (auto simp: Let_def p_def)
    moreover have "heap xs" using less.prems(2) False by (auto simp: heap_but_def heap_above_def p_def)
    ultimately show ?thesis by simp
  qed
qed

lemma push_heap_heap:
  assumes "heap xs"
  shows "heap (push_heap lt (xs @ [x])) \<and> mset (push_heap lt (xs @ [x])) = add_mset x (mset xs)"
proof -
  have "heap_but (length xs) (xs @ [x])"
    unfolding heap_but_def
  proof (intro conjI allI impI)
    fix j assume "j < length (xs @ [x])" "0 < j" "j \<noteq> length xs"
    moreover have "(j - 1) div 2 \<le> j" by auto
    ultimately show "\<not> lt ((xs @ [x]) ! ((j - 1) div 2)) ((xs @ [x]) ! j)" using heapD [OF assms, of j] by (simp add: nth_append)
  qed auto
  then show ?thesis using push_up_heap [of "length xs" "xs @ [x]"] by (simp add: push_heap_def)
qed

lemma make_heap_heap: "heap (make_heap lt xs) \<and> mset (make_heap lt xs) = mset xs"
  using heapify_heap [OF _ heap_start, of 0 "length xs" xs]
  by (cases "length xs \<le> 1") (auto simp: make_heap_def heap_above_def within_def)

lemma pop_heap_heap:
  assumes "heap xs" "xs \<noteq> []"
  shows "\<exists>ys. pop_heap lt xs = ys @ [hd xs] \<and> heap ys \<and> add_mset (hd xs) (mset ys) = mset xs"
proof (cases "length xs \<le> 1")
  case True
  then obtain x where "xs = [x]" using assms(2) by (cases xs) auto
  then show ?thesis by (auto simp: pop_heap_def heap_above_def)
next
  case False
  then obtain m where m: "length xs = Suc m" "0 < m" by (cases "length xs") auto
  let ?zs = "pop_heap lt xs"
  have e: "heap_above 0 None 0 m ?zs \<and> sorted_tail 0 m (Suc m) ?zs \<and> within 0 (Suc m) xs ?zs"
    using extract_step [of 0 m xs "Suc m"] assms(1) m by (simp add: pop_heap_def sorted_tail_def)
  have "within 0 m (swap_at 0 m xs) ?zs" using sift_down_within [of 0 m "swap_at 0 m xs"] m by (simp add: pop_heap_def)
  then have last: "?zs ! m = hd xs" using m by (simp add: within_def nth_swap_at hd_conv_nth [OF assms(2)])
  have len: "length ?zs = Suc m" using e m by (simp add: within_def)
  then have split: "?zs = take m ?zs @ [hd xs]" using last by (metis take_Suc_conv_app_nth lessI take_all_iff order_refl)
  moreover have "heap (take m ?zs)" using e len by (auto simp: heap_above_def)
  moreover have "add_mset (hd xs) (mset (take m ?zs)) = mset ?zs" by (subst (2) split) simp
  ultimately show ?thesis using e by (metis within_def)
qed

end

subsection \<open>Orders on the elements at hand\<close>

text \<open>The comparison needs to be an order on the elements of the vector only.  Such a comparison extends to all
  values, and the operations do not see the difference.\<close>

definition weak_order_on :: "'a set \<Rightarrow> ('a \<Rightarrow> 'a \<Rightarrow> bool) \<Rightarrow> bool" where
  "weak_order_on A lt \<longleftrightarrow> (\<forall>a \<in> A. \<forall>b \<in> A. lt a b \<longrightarrow> \<not> lt b a) \<and>
     (\<forall>a \<in> A. \<forall>b \<in> A. \<forall>c \<in> A. \<not> lt a b \<longrightarrow> \<not> lt b c \<longrightarrow> \<not> lt a c)"

definition extend :: "'a set \<Rightarrow> ('a \<Rightarrow> 'a \<Rightarrow> bool) \<Rightarrow> 'a \<Rightarrow> 'a \<Rightarrow> bool" where
  "extend A lt a b \<longleftrightarrow> a \<in> A \<and> (b \<in> A \<longrightarrow> lt a b)"

lemma weak_order_extend: "weak_order_on A lt \<Longrightarrow> weak_order (extend A lt)"
  unfolding weak_order_on_def weak_order_def extend_def by blast

lemma weak_order_on_mono: "weak_order_on A lt \<Longrightarrow> B \<subseteq> A \<Longrightarrow> weak_order_on B lt"
  unfolding weak_order_on_def by blast

lemma swap_at_subset: "set xs \<subseteq> A \<Longrightarrow> i < length xs \<Longrightarrow> j < length xs \<Longrightarrow> set (swap_at i j xs) \<subseteq> A"
  using mset_swap_at [of i xs j] by (metis set_mset_mset)

lemma larger_child_extend:
  assumes "set xs \<subseteq> A" "lo + n \<le> length xs" "2 * root + 1 < n"
  shows "larger_child (extend A lt) lo root n xs = larger_child lt lo root n xs"
proof -
  have "xs ! (lo + (2 * root + 1)) \<in> A" using assms by (meson nth_mem subsetD add_less_cancel_left order_less_le_trans)
  moreover have "xs ! (lo + (2 * root + 1) + 1) \<in> A" if "2 * root + 1 + 1 < n" using assms that by (auto intro!: subsetD [OF assms(1)])
  ultimately show ?thesis by (auto simp: larger_child_def extend_def)
qed

lemma sift_down_extend [rule_format]:
  "set xs \<subseteq> A \<longrightarrow> lo + n \<le> length xs \<longrightarrow> sift_down (extend A lt) lo root n xs = sift_down lt lo root n xs"
proof (rule sift_down_induct [where P = "\<lambda>root xs ys. set xs \<subseteq> A \<longrightarrow> lo + n \<le> length xs \<longrightarrow> sift_down (extend A lt) lo root n xs = ys"],
    goal_cases)
  case (1 root xs)
  have "sift_down (extend A lt) lo root n xs = xs" if "set xs \<subseteq> A" "lo + n \<le> length xs"
  proof (cases "2 * root + 1 < n")
    case True
    have c: "larger_child lt lo root n xs < n" using larger_child_bounds [OF True, of lt lo xs] by simp
    have "xs ! (lo + root) \<in> A" "xs ! (lo + larger_child lt lo root n xs) \<in> A"
      using that c True by (auto intro!: subsetD [OF that(1)])
    then show ?thesis using 1 True larger_child_extend [OF that True, of lt] by (subst sift_down.simps) (auto simp: extend_def)
  qed (subst sift_down.simps, simp)
  then show ?case by blast
next
  case (2 root xs c ys)
  have "sift_down (extend A lt) lo root n xs = ys" if "set xs \<subseteq> A" "lo + n \<le> length xs"
  proof -
    have "xs ! (lo + root) \<in> A" "xs ! (lo + c) \<in> A" using that 2(3,4) by (auto intro!: subsetD [OF that(1)])
    then have "sift_down (extend A lt) lo root n xs = sift_down (extend A lt) lo c n (swap_at (lo + root) (lo + c) xs)"
      using 2(1,2,5) larger_child_extend [OF that 2(1), of lt] by (subst sift_down.simps) (auto simp: extend_def)
    moreover have "set (swap_at (lo + root) (lo + c) xs) \<subseteq> A" using that 2(3,4) by (intro swap_at_subset) auto
    ultimately show ?thesis using 2(6) that by simp
  qed
  then show ?case by blast
qed

lemma fold_same:
  assumes "P s" "\<And>x s. x \<in> set xs \<Longrightarrow> P s \<Longrightarrow> f x s = g x s \<and> P (g x s)"
  shows "fold f xs s = fold g xs s \<and> P (fold g xs s)"
  using assms by (induction xs arbitrary: s) auto

lemma sift_down_subset: "set xs \<subseteq> A \<Longrightarrow> lo + n \<le> length xs \<Longrightarrow>
  set (sift_down lt lo root n xs) \<subseteq> A \<and> length (sift_down lt lo root n xs) = length xs"
  using sift_down_within [of lo n xs lt root] by (metis within_def set_mset_mset)

lemma heapify_extend:
  assumes "set xs \<subseteq> A" "lo + n \<le> length xs"
  shows "fold (\<lambda>i. sift_down (extend A lt) lo i n) is xs = fold (\<lambda>i. sift_down lt lo i n) is xs \<and>
    set (fold (\<lambda>i. sift_down lt lo i n) is xs) \<subseteq> A \<and> length (fold (\<lambda>i. sift_down lt lo i n) is xs) = length xs"
proof -
  have "sift_down (extend A lt) lo i n ys = sift_down lt lo i n ys \<and> set (sift_down lt lo i n ys) \<subseteq> A \<and>
    length (sift_down lt lo i n ys) = length xs" if "set ys \<subseteq> A \<and> length ys = length xs" for i ys
    using that assms(2) sift_down_extend [of ys A lo n lt i] sift_down_subset [of ys A lo n lt i] by simp
  then show ?thesis
    using fold_same [where P = "\<lambda>ys. set ys \<subseteq> A \<and> length ys = length xs" and s = xs and xs = "is" and
      f = "\<lambda>i. sift_down (extend A lt) lo i n" and g = "\<lambda>i. sift_down lt lo i n"] assms by simp
qed

lemma heap_sort_extend:
  assumes "set xs \<subseteq> A" "lo + n \<le> length xs"
  shows "heap_sort (extend A lt) lo n xs = heap_sort lt lo n xs"
proof -
  let ?ys = "fold (\<lambda>i. sift_down lt lo i n) (rev [0..<n div 2]) xs"
  let ?f = "\<lambda>lt i xs. sift_down lt lo 0 i (swap_at lo (lo + i) xs)"
  have ys: "set ?ys \<subseteq> A" "length ?ys = length xs" "fold (\<lambda>i. sift_down (extend A lt) lo i n) (rev [0..<n div 2]) xs = ?ys"
    using heapify_extend [OF assms, of lt "rev [0..<n div 2]"] by blast+
  have "?f (extend A lt) i zs = ?f lt i zs \<and> set (?f lt i zs) \<subseteq> A \<and> length (?f lt i zs) = length xs"
    if "i \<in> set (rev [1..<n])" "set zs \<subseteq> A \<and> length zs = length xs" for i zs
  proof -
    have "set (swap_at lo (lo + i) zs) \<subseteq> A" using that assms(2) by (intro swap_at_subset) auto
    then show ?thesis
      using that assms(2) sift_down_extend [of "swap_at lo (lo + i) zs" A lo i lt 0] sift_down_subset [of "swap_at lo (lo + i) zs" A lo i lt 0]
      by simp
  qed
  then show ?thesis
    using fold_same [where P = "\<lambda>ys. set ys \<subseteq> A \<and> length ys = length xs" and s = ?ys and xs = "rev [1..<n]" and
      f = "?f (extend A lt)" and g = "?f lt"] ys unfolding heap_sort_def by simp
qed

lemma insert_down_extend:
  "set xs \<subseteq> A \<Longrightarrow> key \<in> A \<Longrightarrow> j < length xs \<Longrightarrow>
   insert_down (extend A lt) lo key j xs = insert_down lt lo key j xs \<and> set (insert_down lt lo key j xs) \<subseteq> A \<and>
   length (insert_down lt lo key j xs) = length xs"
proof (induction j arbitrary: xs)
  case 0
  then show ?case using set_update_subset_insert [of xs 0 key] by auto
next
  case (Suc j)
  have m: "xs ! j \<in> A" using Suc.prems by auto
  then have "set (xs[Suc j := xs ! j]) \<subseteq> A" "set (xs[Suc j := key]) \<subseteq> A"
    using Suc.prems set_update_subset_insert [of xs "Suc j" "xs ! j"] set_update_subset_insert [of xs "Suc j" key] by auto
  then show ?case using Suc.IH [of "xs[Suc j := xs ! j]"] Suc.prems m by (auto simp: extend_def)
qed

lemma insertion_sort_extend:
  assumes "set xs \<subseteq> A" "hi < length xs"
  shows "insertion_sort (extend A lt) lo hi xs = insertion_sort lt lo hi xs"
proof -
  let ?f = "\<lambda>lt i xs. insert_down lt lo (xs ! i) i xs"
  have "?f (extend A lt) i ys = ?f lt i ys \<and> set (?f lt i ys) \<subseteq> A \<and> length (?f lt i ys) = length xs"
    if "i \<in> set [lo + 1..<hi + 1]" "set ys \<subseteq> A \<and> length ys = length xs" for i ys
  proof -
    have i: "i < length ys" using that assms(2) by auto
    then have "ys ! i \<in> A" using that by auto
    then show ?thesis using insert_down_extend [of ys A "ys ! i" i lt lo] that i by simp
  qed
  then show ?thesis
    using fold_same [where P = "\<lambda>ys. set ys \<subseteq> A \<and> length ys = length xs" and s = xs and xs = "[lo + 1..<hi + 1]" and
      f = "?f (extend A lt)" and g = "?f lt"] assms unfolding insertion_sort_def by blast
qed

lemma vector_sort_extend: "set xs \<subseteq> A \<Longrightarrow> vector_sort (extend A lt) xs = vector_sort lt xs"
  using heap_sort_extend [of xs A 0 "length xs" lt] insertion_sort_extend [of xs A "length xs - 1" lt 0]
  by (auto simp: vector_sort_def)

lemma vector_sort_sorts_on:
  assumes "weak_order_on (set xs) lt"
  shows "sorted_wrt (\<lambda>a b. \<not> lt b a) (vector_sort lt xs) \<and> mset (vector_sort lt xs) = mset xs"
proof -
  let ?lt = "extend (set xs) lt"
  have v: "sorted_wrt (\<lambda>a b. \<not> ?lt b a) (vector_sort lt xs)" "mset (vector_sort lt xs) = mset xs"
    using weak_order.vector_sort_sorts [OF weak_order_extend [OF assms], of xs] by (simp_all add: vector_sort_extend)
  then have "set (vector_sort lt xs) = set xs" by (metis set_mset_mset)
  then have "sorted_wrt (\<lambda>a b. \<not> lt b a) (vector_sort lt xs)"
    using v(1) by (auto intro!: sorted_wrt_mono_rel [OF _ v(1)] simp: extend_def)
  then show ?thesis using v(2) by simp
qed

lemma push_up_extend:
  "set xs \<subseteq> A \<Longrightarrow> i < length xs \<Longrightarrow> push_up (extend A lt) i xs = push_up lt i xs"
proof (induction i arbitrary: xs rule: less_induct)
  case (less i)
  let ?p = "(i - 1) div 2"
  show ?case
  proof (cases "i > 0")
    case True
    then have p: "?p < i" "?p < length xs" using less.prems(2) by auto
    then have m: "xs ! ?p \<in> A" "xs ! i \<in> A" using less.prems by auto
    have "push_up (extend A lt) ?p (swap_at ?p i xs) = push_up lt ?p (swap_at ?p i xs)"
      using less.IH [OF p(1), of "swap_at ?p i xs"] swap_at_subset [OF less.prems(1) p(2) less.prems(2)] p by simp
    then show ?thesis using m by (subst (1 2) push_up.simps) (simp add: extend_def Let_def)
  qed (subst (1 2) push_up.simps, simp)
qed

subsection \<open>The contract of heaps\<close>

text \<open>The heap property of the C++ standard, and what its heap functions promise for a comparison that orders the
  elements.  The functions of the vector keep the contract.\<close>

definition is_heap :: "('a \<Rightarrow> 'a \<Rightarrow> bool) \<Rightarrow> 'a list \<Rightarrow> bool" where
  "is_heap lt xs \<longleftrightarrow> (\<forall>i < length xs. 0 < i \<longrightarrow> \<not> lt (xs ! ((i - 1) div 2)) (xs ! i))"

locale std_heap =
  fixes mk push pop :: "('a \<Rightarrow> 'a \<Rightarrow> bool) \<Rightarrow> 'a list \<Rightarrow> 'a list"
  assumes make_ok: "weak_order_on (set xs) lt \<Longrightarrow> is_heap lt (mk lt xs) \<and> mset (mk lt xs) = mset xs"
    and push_ok: "weak_order_on (set (xs @ [x])) lt \<Longrightarrow> is_heap lt xs \<Longrightarrow>
      is_heap lt (push lt (xs @ [x])) \<and> mset (push lt (xs @ [x])) = add_mset x (mset xs)"
    and pop_ok: "weak_order_on (set xs) lt \<Longrightarrow> is_heap lt xs \<Longrightarrow> xs \<noteq> [] \<Longrightarrow>
      \<exists>ys. pop lt xs = ys @ [hd xs] \<and> is_heap lt ys \<and> add_mset (hd xs) (mset ys) = mset xs"

lemma heap_extend:
  assumes "weak_order_on A lt" "set xs \<subseteq> A"
  shows "weak_order.heap_above (extend A lt) 0 None 0 (length xs) xs \<longleftrightarrow> is_heap lt xs"
proof -
  have "xs ! i \<in> A" if "i < length xs" for i using assms(2) that by auto
  then show ?thesis
    by (auto simp: weak_order.heap_above_def [OF weak_order_extend [OF assms(1)]] is_heap_def extend_def)
qed

lemma heap_front:
  assumes "weak_order_on (set xs) lt" "is_heap lt xs" "x \<in> set xs"
  shows "\<not> lt (hd xs) x"
proof -
  obtain i where i: "i < length xs" "x = xs ! i" using assms(3) by (auto simp: in_set_conv_nth)
  have "weak_order.heap_above (extend (set xs) lt) 0 None 0 (length xs) xs" using heap_extend [OF assms(1)] assms(2) by simp
  from weak_order.heap_root_max [OF weak_order_extend [OF assms(1)] this, of i] have "\<not> extend (set xs) lt (xs ! 0) (xs ! i)"
    using i by simp
  moreover have "hd xs = xs ! 0" "xs ! 0 \<in> set xs" using i by (cases xs; auto)+
  ultimately show ?thesis using i assms(3) by (simp add: extend_def)
qed

interpretation vec: std_heap make_heap push_heap pop_heap
proof (unfold_locales, goal_cases)
  case (1 xs lt)
  let ?A = "set xs"
  have m: "make_heap (extend ?A lt) xs = make_heap lt xs"
    using heapify_extend [of xs ?A 0 "length xs" lt "rev [0..<length xs div 2]"] by (simp add: make_heap_def)
  have "weak_order.heap_above (extend ?A lt) 0 None 0 (length (make_heap lt xs)) (make_heap lt xs) \<and> mset (make_heap lt xs) = mset xs"
    using weak_order.make_heap_heap [OF weak_order_extend [OF 1], of xs] m by simp
  moreover from this have "set (make_heap lt xs) \<subseteq> ?A" by (metis set_mset_mset order_refl)
  ultimately show ?case using heap_extend [OF 1] by blast
next
  case (2 xs x lt)
  let ?A = "set (xs @ [x])"
  have m: "push_heap (extend ?A lt) (xs @ [x]) = push_heap lt (xs @ [x])"
    using push_up_extend [of "xs @ [x]" ?A "length xs" lt] by (simp add: push_heap_def)
  have "set xs \<subseteq> ?A" by auto
  then have "weak_order.heap_above (extend ?A lt) 0 None 0 (length xs) xs" using heap_extend [OF 2(1)] 2(2) by blast
  from weak_order.push_heap_heap [OF weak_order_extend [OF 2(1)] this, of x]
  have *: "weak_order.heap_above (extend ?A lt) 0 None 0 (length (push_heap lt (xs @ [x]))) (push_heap lt (xs @ [x]))"
    "mset (push_heap lt (xs @ [x])) = add_mset x (mset xs)" using m by simp_all
  moreover from *(2) have "set (push_heap lt (xs @ [x])) \<subseteq> ?A"
    by (metis mset_append mset_single_iff set_mset_mset order_refl add_mset_add_single mset.simps)
  ultimately show ?case using heap_extend [OF 2(1)] by blast
next
  case (3 xs lt)
  let ?A = "set xs"
  have s: "set (swap_at 0 (length xs - 1) xs) \<subseteq> ?A" using 3(3) by (intro swap_at_subset) auto
  have m: "pop_heap (extend ?A lt) xs = pop_heap lt xs"
    using sift_down_extend [OF s, of 0 "length xs - 1" lt 0] by (simp add: pop_heap_def)
  have "weak_order.heap_above (extend ?A lt) 0 None 0 (length xs) xs" using heap_extend [OF 3(1)] 3(2) by blast
  from weak_order.pop_heap_heap [OF weak_order_extend [OF 3(1)] this 3(3)]
  obtain ys where ys: "pop_heap lt xs = ys @ [hd xs]" "weak_order.heap_above (extend ?A lt) 0 None 0 (length ys) ys"
    "add_mset (hd xs) (mset ys) = mset xs" using m by auto
  have "set ys \<subseteq> ?A" using ys(3) by (metis set_mset_mset set_mset_add_mset_insert subset_insertI)
  then show ?case using heap_extend [OF 3(1)] ys by blast
qed

sublocale comparator \<subseteq> below: weak_order "\<lambda>a b. cmp a b < 0"
proof unfold_locales
  show "\<not> cmp b a < 0" if "cmp a b < 0" for a b using that cmp_flip(3) [of a b] by simp
  show "\<not> cmp a c < 0" if "\<not> cmp a b < 0" "\<not> cmp b c < 0" for a b c
    using that cmp_trans [of c b a] cmp_flip_le [of c b] cmp_flip_le [of b a] cmp_flip_le [of c a] by simp
qed

context comparator
begin

lemma below_on: "weak_order_on A (\<lambda>a b. cmp a b < 0)"
  unfolding weak_order_on_def using below.lt_asym below.not_lt_trans by blast

end

end
