(* ===== verification/Run_Merge.thy ===== *)
theory Run_Merge
  imports Spill Row_Operators Vector_Sort
begin

section \<open>Merging sorted runs\<close>

text \<open>
  The sort, distinct and aggregate executors write sorted runs of rows into temporary files and merge them with a heap
  of run numbers.  This theory holds the step they share: the best run leaves the heap, its row is handed out, and the
  run comes back with its next row if it has one.  The heap functions of the standard library are parameters with the
  contract \<open>std_heap\<close>; \<open>wr cs a b\<close> tells whether run \<open>a\<close> is worse than run \<open>b\<close> for the cursors \<open>cs\<close>, each the current
  row and the rest of the file.
\<close>

record 'a heap_lib =
  std_make :: "('a \<Rightarrow> 'a \<Rightarrow> bool) \<Rightarrow> 'a list \<Rightarrow> 'a list"
  std_push :: "('a \<Rightarrow> 'a \<Rightarrow> bool) \<Rightarrow> 'a list \<Rightarrow> 'a list"
  std_pop :: "('a \<Rightarrow> 'a \<Rightarrow> bool) \<Rightarrow> 'a list \<Rightarrow> 'a list"

abbreviation heap_lib_ok :: "'a heap_lib \<Rightarrow> bool" where
  "heap_lib_ok lib \<equiv> std_heap (std_make lib) (std_push lib) (std_pop lib)"

type_synonym run_cursor = "tuple \<times> byte list"

record merge_params =
  run_heap :: "nat heap_lib"
  run_worse :: "run_cursor list \<Rightarrow> nat \<Rightarrow> nat \<Rightarrow> bool"
  run_name :: string
  run_schema :: schema

text \<open>The row handed out, the error of reading on, the cursors and the heap.\<close>

definition merge_pop :: "merge_params \<Rightarrow> run_cursor list \<Rightarrow> nat list \<Rightarrow> tuple \<times> string option \<times> run_cursor list \<times> nat list" where
  "merge_pop m cs heap =
     (let popped = std_pop (run_heap m) (run_worse m cs) heap;
          best = last popped;
          rest = butlast popped
      in (fst (cs ! best),
          case read_spill_tuple (run_name m) (run_schema m) (snd (cs ! best)) of
            Inl e \<Rightarrow> (e, cs, rest)
          | Inr c \<Rightarrow> (None, cs[best := c], std_push (run_heap m) (run_worse m (cs[best := c])) (rest @ [best]))))"

text \<open>All rows in the order of the merge, and the error that ended it early.\<close>

partial_function (option) merge_loop ::
  "merge_params \<Rightarrow> run_cursor list \<Rightarrow> nat list \<Rightarrow> tuple list \<Rightarrow> (tuple list \<times> string option) option" where
  "merge_loop m cs heap acc =
     (if heap = [] then Some (acc, None)
      else
        (case merge_pop m cs heap of
           (t, Some e, _, _) \<Rightarrow> Some (acc @ [t], Some e)
         | (t, None, cs', heap') \<Rightarrow> merge_loop m cs' heap' (acc @ [t])))"

text \<open>The distinct and aggregate executors keep a cursor for every file and tell those with a row by a flag.\<close>

fun open_cursors :: "temp_files \<Rightarrow> string \<Rightarrow> schema \<Rightarrow> nat \<Rightarrow> byte list list \<Rightarrow> (run_cursor \<times> bool) list \<times> string option" where
  "open_cursors tmp what sch i [] = ([], None)"
| "open_cursors tmp what sch i (file # files) =
     (if \<not> reopened tmp i then ([], Some (''failed to open '' @ what @ '' spill file''))
      else
        (case read_spill_tuple what sch file of
           Inl (Some e) \<Rightarrow> ([], Some e)
         | Inl None \<Rightarrow> (case open_cursors tmp what sch (Suc i) files of (cs, e) \<Rightarrow> (((empty_tuple, file), False) # cs, e))
         | Inr c \<Rightarrow> (case open_cursors tmp what sch (Suc i) files of (cs, e) \<Rightarrow> ((c, True) # cs, e))))"

definition merge_files :: "merge_params \<Rightarrow> temp_files \<Rightarrow> byte list list \<Rightarrow> (tuple list \<times> string option) option" where
  "merge_files m tmp files =
     (case open_cursors tmp (run_name m) (run_schema m) 0 files of
        (_, Some e) \<Rightarrow> Some ([], Some e)
      | (cs, None) \<Rightarrow>
          let cursors = map fst cs
          in merge_loop m cursors (std_make (run_heap m) (run_worse m cursors) (filter (\<lambda>i. snd (cs ! i)) [0..<length cs])) [])"

fun write_rows :: "temp_files \<Rightarrow> tuple list \<Rightarrow> byte list \<Rightarrow> byte list option" where
  "write_rows tmp [] file = Some file"
| "write_rows tmp (t # ts) file = (case write_spill_tuple tmp file t of None \<Rightarrow> None | Some file' \<Rightarrow> write_rows tmp ts file')"

text \<open>The file of a run, or the message of what went wrong; \<open>n\<close> is the number of the file.\<close>

definition create_run :: "temp_files \<Rightarrow> string \<Rightarrow> nat \<Rightarrow> tuple list \<Rightarrow> string + byte list" where
  "create_run tmp what n ts =
     (case made tmp n of
        Not_created \<Rightarrow> Inl (''failed to create '' @ what @ '' spill file'')
      | Not_opened \<Rightarrow> Inl (''failed to open '' @ what @ '' spill file'')
      | Made \<Rightarrow>
          (case write_rows tmp ts [] of
             None \<Rightarrow> Inl (''failed to write '' @ what @ '' spill file'')
           | Some file \<Rightarrow> Inr file))"

section \<open>Laws\<close>

text \<open>The order of the rows behind the comparison of runs.\<close>

locale run_order =
  fixes m :: merge_params and A :: "tuple set" and le :: "tuple \<Rightarrow> tuple \<Rightarrow> bool"
  assumes lib: "heap_lib_ok (run_heap m)"
    and le_total: "a \<in> A \<Longrightarrow> b \<in> A \<Longrightarrow> le a b \<or> le b a"
    and le_trans: "a \<in> A \<Longrightarrow> b \<in> A \<Longrightarrow> c \<in> A \<Longrightarrow> le a b \<Longrightarrow> le b c \<Longrightarrow> le a c"
    and worse_le: "fst (cs ! i) \<in> A \<Longrightarrow> fst (cs ! j) \<in> A \<Longrightarrow> run_worse m cs i j \<longleftrightarrow> \<not> le (fst (cs ! i)) (fst (cs ! j))"

definition run_left :: "merge_params \<Rightarrow> run_cursor \<Rightarrow> tuple list" where
  "run_left m c = fst c # fst (read_spill_all (run_name m) (run_schema m) (snd c))"

definition merge_left :: "merge_params \<Rightarrow> run_cursor list \<Rightarrow> nat list \<Rightarrow> tuple list" where
  "merge_left m cs heap = concat (map (\<lambda>i. run_left m (cs ! i)) heap)"

lemma read_file_of: "\<forall>t \<in> set ts. spillable sch t \<Longrightarrow> read_spill_all what sch (file_of ts) = (ts, None)"
  unfolding file_of_def by (rule read_spill_records)

lemma is_heap_cong: "(\<And>a b. a \<in> set xs \<Longrightarrow> b \<in> set xs \<Longrightarrow> lt a b = lt' a b) \<Longrightarrow> is_heap lt xs = is_heap lt' xs"
  by (auto simp: is_heap_def)

lemma merge_left_mset: "mset (merge_left m cs heap) = (\<Sum>i \<in># mset heap. mset (run_left m (cs ! i)))"
  by (induction heap) (auto simp: merge_left_def)

lemma merge_left_add:
  "mset h = add_mset i (mset ys) \<Longrightarrow> mset (merge_left m cs h) = mset (run_left m (cs ! i)) + mset (merge_left m cs ys)"
  by (simp add: merge_left_mset)

lemma other_run: "best \<notin> set ys \<Longrightarrow> i \<in> set ys \<Longrightarrow> cs[best := c] ! i = cs ! i"
  by (metis nth_list_update_neq)

lemma merge_left_other: "best \<notin> set ys \<Longrightarrow> merge_left m (cs[best := c]) ys = merge_left m cs ys"
  by (simp add: merge_left_def other_run cong: map_cong)

context run_order
begin

definition good_run :: "run_cursor \<Rightarrow> bool" where
  "good_run c \<longleftrightarrow> (\<exists>ts. snd c = file_of ts \<and> (\<forall>t \<in> set ts. spillable (run_schema m) t) \<and>
     sorted_wrt le (fst c # ts) \<and> set (fst c # ts) \<subseteq> A)"

definition merge_inv :: "run_cursor list \<Rightarrow> nat list \<Rightarrow> bool" where
  "merge_inv cs heap \<longleftrightarrow> distinct heap \<and> (\<forall>i \<in> set heap. i < length cs \<and> good_run (cs ! i)) \<and> is_heap (run_worse m cs) heap"

lemma good_runD:
  assumes "good_run c"
  obtains ts where "snd c = file_of ts" "\<forall>t \<in> set ts. spillable (run_schema m) t" "sorted_wrt le (fst c # ts)"
    "set (fst c # ts) \<subseteq> A" "run_left m c = fst c # ts"
  using assms by (auto simp: good_run_def run_left_def read_file_of)

lemma good_run_fst: "good_run c \<Longrightarrow> fst c \<in> A"
  by (auto simp: good_run_def)

lemma weak_order_worse:
  assumes "\<forall>i \<in> I. fst (cs ! i) \<in> A"
  shows "weak_order_on I (run_worse m cs)"
  using assms worse_le le_total le_trans unfolding weak_order_on_def by meson

lemma merge_first:
  assumes "merge_inv cs heap" "heap \<noteq> []" "u \<in> set (merge_left m cs heap)"
  shows "le (fst (cs ! hd heap)) u"
proof -
  have good: "good_run (cs ! i)" if "i \<in> set heap" for i using assms(1) that by (simp add: merge_inv_def)
  then have A: "fst (cs ! i) \<in> A" if "i \<in> set heap" for i using that good_run_fst by blast
  obtain i where i: "i \<in> set heap" "u \<in> set (run_left m (cs ! i))" using assms(3) by (auto simp: merge_left_def)
  have "\<not> run_worse m cs (hd heap) i"
    using heap_front [OF weak_order_worse _ i(1)] A assms(1) by (auto simp: merge_inv_def)
  then have o: "le (fst (cs ! hd heap)) (fst (cs ! i))" using worse_le A i(1) assms(2) by auto
  obtain ts where ts: "sorted_wrt le (fst (cs ! i) # ts)" "set (fst (cs ! i) # ts) \<subseteq> A" "run_left m (cs ! i) = fst (cs ! i) # ts"
    using good_runD [OF good [OF i(1)]] .
  show ?thesis
  proof (cases "u = fst (cs ! i)")
    case False
    then have "u \<in> set ts" using i(2) ts(3) by auto
    then show ?thesis using le_trans [OF _ _ _ o, of u] ts(1,2) A assms(2) by auto
  qed (use o in simp)
qed

lemma merge_inv_other:
  assumes "merge_inv cs ys" "best \<notin> set ys"
  shows "merge_inv (cs[best := c]) ys"
proof -
  have A: "fst (cs ! i) \<in> A" if "i \<in> set ys" for i using assms(1) that good_run_fst by (auto simp: merge_inv_def)
  have "is_heap (run_worse m (cs[best := c])) ys = is_heap (run_worse m cs) ys"
    using A assms(2) by (intro is_heap_cong) (simp add: worse_le other_run)
  then show ?thesis using assms by (auto simp: merge_inv_def other_run)
qed

lemma merge_pop_ok:
  assumes inv: "merge_inv cs heap" and ne: "heap \<noteq> []"
  shows "\<exists>cs' h. merge_pop m cs heap = (fst (cs ! hd heap), None, cs', h) \<and> merge_inv cs' h \<and>
    mset (merge_left m cs heap) = add_mset (fst (cs ! hd heap)) (mset (merge_left m cs' h))"
proof -
  let ?best = "hd heap"
  have good: "i < length cs \<and> good_run (cs ! i)" if "i \<in> set heap" for i using inv that by (simp add: merge_inv_def)
  then have wo: "weak_order_on (set heap) (run_worse m cs)" using weak_order_worse [of "set heap" cs] good_run_fst by blast
  obtain ys where ys: "std_pop (run_heap m) (run_worse m cs) heap = ys @ [?best]" "is_heap (run_worse m cs) ys"
    "add_mset ?best (mset ys) = mset heap"
    using std_heap.pop_ok [OF lib wo _ ne] inv by (auto simp: merge_inv_def)
  have set: "set heap = insert ?best (set ys)" using ys(3) by (metis set_mset_add_mset_insert set_mset_mset)
  have d: "?best \<notin> set ys" "distinct ys" using inv ys(3) by (metis merge_inv_def mset.simps(2) mset_eq_imp_distinct_iff distinct.simps(2))+
  have invy: "merge_inv cs ys" using inv d ys(2) set by (auto simp: merge_inv_def)
  obtain ts where ts: "snd (cs ! ?best) = file_of ts" "\<forall>t \<in> set ts. spillable (run_schema m) t"
    "sorted_wrt le (fst (cs ! ?best) # ts)" "set (fst (cs ! ?best) # ts) \<subseteq> A" "run_left m (cs ! ?best) = fst (cs ! ?best) # ts"
    using good_runD [of "cs ! ?best"] good set by blast
  have all: "mset (merge_left m cs heap) = add_mset (fst (cs ! ?best)) (mset ts + mset (merge_left m cs ys))"
    using merge_left_add [OF ys(3) [symmetric], of m cs] ts(5) by simp
  show ?thesis
  proof (cases ts)
    case Nil
    then have "merge_pop m cs heap = (fst (cs ! ?best), None, cs, ys)" using ys(1) ts(1) by (simp add: merge_pop_def Let_def)
    then show ?thesis using invy all Nil by simp
  next
    case (Cons t us)
    let ?c = "(t, file_of us)"
    let ?cs' = "cs[?best := ?c]"
    have read: "read_spill_tuple (run_name m) (run_schema m) (snd (cs ! ?best)) = Inr ?c"
      using ts(1,2) Cons by (simp add: read_spill_record)
    have b: "?cs' ! ?best = ?c" using good [of ?best] set by simp
    have gc: "good_run ?c" using ts Cons by (auto simp: good_run_def)
    have invy': "merge_inv ?cs' ys" using merge_inv_other [OF invy d(1)] .
    have "\<forall>i \<in> set (ys @ [?best]). fst (?cs' ! i) \<in> A" using invy' b gc by (auto simp: merge_inv_def good_run_def)
    from std_heap.push_ok [OF lib weak_order_worse [OF this]] invy'
    have push: "is_heap (run_worse m ?cs') (std_push (run_heap m) (run_worse m ?cs') (ys @ [?best]))"
      "mset (std_push (run_heap m) (run_worse m ?cs') (ys @ [?best])) = add_mset ?best (mset ys)" by (auto simp: merge_inv_def)
    let ?h' = "std_push (run_heap m) (run_worse m ?cs') (ys @ [?best])"
    have set': "set ?h' = insert ?best (set ys)" using push(2) by (metis set_mset_add_mset_insert set_mset_mset)
    have "distinct ?h'" using d push(2) by (metis mset.simps(2) mset_eq_imp_distinct_iff distinct.simps(2))
    then have inv': "merge_inv ?cs' ?h'" using push(1) set' invy' b gc good [of ?best] set by (auto simp: merge_inv_def)
    have "mset (merge_left m ?cs' ?h') = mset ts + mset (merge_left m cs ys)"
      using merge_left_add [OF push(2), of m ?cs'] merge_left_other [OF d(1), of m cs ?c]
        read_file_of [of us "run_schema m" "run_name m"] ts(2) Cons by (simp add: b run_left_def)
    moreover have "merge_pop m cs heap = (fst (cs ! ?best), None, ?cs', ?h')" using ys(1) read by (simp add: merge_pop_def Let_def)
    ultimately show ?thesis using inv' all by simp
  qed
qed

text \<open>The cursors after opening the files of runs that are not empty.\<close>

lemma merge_start:
  assumes runs: "\<forall>r \<in> set rs. r \<noteq> [] \<and> sorted_wrt le r \<and> set r \<subseteq> A \<and> (\<forall>t \<in> set r. spillable (run_schema m) t)"
    and cs: "cs = map (\<lambda>r. (hd r, file_of (tl r))) rs"
  shows "merge_inv cs (std_make (run_heap m) (run_worse m cs) [0..<length cs]) \<and>
    mset (merge_left m cs (std_make (run_heap m) (run_worse m cs) [0..<length cs])) = mset (concat rs)"
proof -
  let ?h = "std_make (run_heap m) (run_worse m cs) [0..<length cs]"
  have good: "good_run (hd r, file_of (tl r)) \<and> run_left m (hd r, file_of (tl r)) = r" if "r \<in> set rs" for r
  proof -
    note r = bspec [OF runs that]
    then obtain t ts where "r = t # ts" by (meson neq_Nil_conv)
    then show ?thesis using r by (auto simp: good_run_def run_left_def read_file_of intro!: exI [of _ ts])
  qed
  have nth: "good_run (cs ! i) \<and> run_left m (cs ! i) = rs ! i" if "i < length cs" for i
    using good [of "rs ! i"] nth_mem [of i rs] that by (simp add: cs)
  have "\<forall>i \<in> set [0..<length cs]. fst (cs ! i) \<in> A" using nth good_run_fst by simp
  note mk = std_heap.make_ok [OF lib weak_order_worse [OF this]]
  then have m: "mset ?h = mset [0..<length cs]" by blast
  have "set ?h = set [0..<length cs]" "distinct ?h"
    using mset_eq_setD [OF m] mset_eq_imp_distinct_iff [OF m] by simp_all
  then have "merge_inv cs ?h" using mk nth by (simp add: merge_inv_def)
  moreover have "map (\<lambda>i. run_left m (cs ! i)) [0..<length cs] = rs" using nth cs by - (rule nth_equalityI, simp_all)
  then have "merge_left m cs [0..<length cs] = concat rs" by (simp only: merge_left_def)
  then have "mset (merge_left m cs ?h) = mset (concat rs)"
    using merge_left_mset [of m cs ?h] merge_left_mset [of m cs "[0..<length cs]"] mk by simp
  ultimately show ?thesis by simp
qed

lemma merge_loop_ok:
  "merge_inv cs heap \<Longrightarrow>
   \<exists>ts. merge_loop m cs heap acc = Some (acc @ ts, None) \<and> sorted_wrt le ts \<and> mset ts = mset (merge_left m cs heap)"
proof (induction "length (merge_left m cs heap)" arbitrary: cs heap acc)
  case 0
  then have "heap = []" by (auto simp: merge_left_def run_left_def)
  then show ?case by (subst merge_loop.simps) (simp add: merge_left_def)
next
  case (Suc n)
  then have ne: "heap \<noteq> []" by (auto simp: merge_left_def)
  let ?t = "fst (cs ! hd heap)"
  obtain cs' h where p: "merge_pop m cs heap = (?t, None, cs', h)" "merge_inv cs' h"
    "mset (merge_left m cs heap) = add_mset ?t (mset (merge_left m cs' h))" using merge_pop_ok [OF Suc(3) ne] by blast
  have "n = length (merge_left m cs' h)" using Suc(2) p(3) by (metis size_add_mset size_mset Suc_inject)
  then obtain ts where ts: "merge_loop m cs' h (acc @ [?t]) = Some ((acc @ [?t]) @ ts, None)" "sorted_wrt le ts"
    "mset ts = mset (merge_left m cs' h)" using Suc(1) p(2) by blast
  have "merge_loop m cs heap acc = Some (acc @ ?t # ts, None)" using ne p(1) ts(1) by (subst merge_loop.simps) simp
  moreover have "le ?t u" if "u \<in> set ts" for u
    using merge_first [OF Suc(3) ne, of u] that p(3) ts(3) by (metis insertCI set_mset_add_mset_insert set_mset_mset)
  ultimately show ?case using ts p(3) by (intro exI [of _ "?t # ts"]) simp
qed

end

lemma open_cursors_ok:
  "temps_work tmp \<Longrightarrow> \<forall>r \<in> set rs. r \<noteq> [] \<and> (\<forall>t \<in> set r. spillable sch t) \<Longrightarrow>
   open_cursors tmp what sch i (map file_of rs) = (map (\<lambda>r. ((hd r, file_of (tl r)), True)) rs, None)"
proof (induction rs arbitrary: i)
  case (Cons r rs)
  then have "reopened tmp i" by (simp add: temps_work_def)
  then show ?case using Cons by (cases r) (simp_all add: read_spill_record)
qed simp

lemma write_rows_ok: "temps_work tmp \<Longrightarrow> write_rows tmp ts f = Some (f @ file_of ts)"
  by (induction ts arbitrary: f) (simp_all add: write_works)

lemma create_run_ok: "temps_work tmp \<Longrightarrow> create_run tmp what n ts = Inr (file_of ts)"
  using write_rows_ok [of tmp ts "[]"] by (simp add: create_run_def) (simp add: temps_work_def)

context run_order
begin

lemma merge_files_ok:
  assumes "temps_work tmp"
    and runs: "\<forall>r \<in> set rs. r \<noteq> [] \<and> sorted_wrt le r \<and> set r \<subseteq> A \<and> (\<forall>t \<in> set r. spillable (run_schema m) t)"
  shows "\<exists>ts. merge_files m tmp (map file_of rs) = Some (ts, None) \<and> sorted_wrt le ts \<and> mset ts = mset (concat rs)"
proof -
  define cs where "cs = map (\<lambda>r. (hd r, file_of (tl r))) rs"
  let ?h = "std_make (run_heap m) (run_worse m cs) [0..<length cs]"
  have open': "open_cursors tmp (run_name m) (run_schema m) 0 (map file_of rs) = (map (\<lambda>r. ((hd r, file_of (tl r)), True)) rs, None)"
    using open_cursors_ok [OF assms(1)] runs by blast
  have "filter (\<lambda>i. snd (map (\<lambda>r. ((hd r, file_of (tl r)), True)) rs ! i)) [0..<length rs] = [0..<length rs]"
    by (simp add: filter_id_conv)
  then have "merge_files m tmp (map file_of rs) = merge_loop m cs ?h []"
    using open' by (simp add: merge_files_def cs_def comp_def Let_def)
  then show ?thesis using merge_start [OF runs cs_def] merge_loop_ok [of cs ?h "[]"] by auto
qed

end

end
