(* ===== verification/Sort.thy ===== *)
theory Sort
  imports Run_Merge
begin

section \<open>Sort\<close>

text \<open>
  Model of \<^verbatim>\<open>src/src/sql/executor/sort_executor.cpp\<close>: the comparison of rows by the sort keys, sorting in memory,
  the bounded heap of a sort with a limit, sorted runs in temporary files and their merge.  The heap functions of the
  standard library are parameters of the plan with the contract \<open>std_heap\<close>.  A key without a defined value on a row
  makes the sort of that row undefined.  Byte counts are natural numbers.
\<close>

record sort_key =
  key_expr :: expr
  ascending :: bool
  nulls_first :: bool

record sort_plan =
  sort_keys :: "sort_key list"
  sort_schema :: schema
  sort_work_mem :: nat
  top_n :: int
  temp_file_limit :: nat
  sort_temps :: temp_files
  row_heap :: "tuple heap_lib"
  sort_run_heap :: "nat heap_lib"

record 's sort_state =
  sort_child :: 's
  sort_buffer :: "tuple list"
  sort_cursor :: nat
  materialized :: bool
  sort_spilled :: bool
  merge_initialized :: bool
  temp_bytes :: nat
  spill_files :: "byte list list"
  run_cursors :: "run_cursor list"
  merge_heap :: "nat list"

subsection \<open>Comparison\<close>

definition is_int_like :: "type_id \<Rightarrow> bool" where
  "is_int_like t = (t = KBool \<or> t = KInt32 \<or> t = KInt64)"

fun as_i64 :: "db_value \<Rightarrow> int" where
  "as_i64 (VBool b) = (if b then 1 else 0)"
| "as_i64 (VInt32 x) = sint x"
| "as_i64 (VInt64 x) = sint x"
| "as_i64 _ = 0"

definition compare_values_for_sort :: "db_value \<Rightarrow> db_value \<Rightarrow> int" where
  "compare_values_for_sort a b =
     (if type_id_of a = type_id_of b then value_compare a b
      else if is_numeric_like (type_id_of a) \<and> is_numeric_like (type_id_of b)
      then if is_int_like (type_id_of a) \<and> is_int_like (type_id_of b) then three_way (as_i64 a) (as_i64 b)
           else let l = numeric_as_double a; r = numeric_as_double b in
             if fp_less 52 11 l r then -1 else if fp_less 52 11 r l then 1 else 0
      else value_compare a b)"

fun compare_keys :: "schema \<Rightarrow> sort_key list \<Rightarrow> tuple \<Rightarrow> tuple \<Rightarrow> int option" where
  "compare_keys sch [] a b = Some 0"
| "compare_keys sch (k # ks) a b =
     do { va \<leftarrow> evaluate sch a (key_expr k);
          vb \<leftarrow> evaluate sch b (key_expr k);
          if is_null va \<or> is_null vb
          then if is_null va \<and> is_null vb then compare_keys sch ks a b
               else Some (if is_null va then (if nulls_first k then -1 else 1) else (if nulls_first k then 1 else -1))
          else
            let cmp = compare_values_for_sort va vb in
            if cmp \<noteq> 0 then Some (if ascending k then cmp else - cmp) else compare_keys sch ks a b }"

definition compare_tuples :: "sort_plan \<Rightarrow> tuple \<Rightarrow> tuple \<Rightarrow> int option" where
  "compare_tuples p a b = compare_keys (sort_schema p) (sort_keys p) a b"

definition keys_defined :: "sort_plan \<Rightarrow> tuple \<Rightarrow> bool" where
  "keys_defined p t = list_all (\<lambda>k. evaluate (sort_schema p) t (key_expr k) \<noteq> None) (sort_keys p)"

definition before :: "sort_plan \<Rightarrow> tuple \<Rightarrow> tuple \<Rightarrow> bool" where
  "before p a b = (case compare_tuples p a b of Some c \<Rightarrow> c < 0 | None \<Rightarrow> False)"

definition sort_rows :: "sort_plan \<Rightarrow> tuple list \<Rightarrow> tuple list option" where
  "sort_rows p ts = (if list_all (keys_defined p) ts then Some (vector_sort (before p) ts) else None)"

subsection \<open>Runs\<close>

definition cleanup_spill_files :: "'s sort_state \<Rightarrow> 's sort_state" where
  "cleanup_spill_files s = s\<lparr>run_cursors := [], merge_heap := [], spill_files := []\<rparr>"

definition sort_init :: "'s init_fun \<Rightarrow> 's sort_state init_fun" where
  "sort_init child_init w =
     (case w of (s, err) \<Rightarrow>
      do { (c, err') \<leftarrow> child_init (sort_child s, err);
           Some (cleanup_spill_files
             (s\<lparr>sort_child := c, sort_cursor := 0, materialized := False, sort_spilled := False, merge_initialized := False,
                temp_bytes := 0, sort_buffer := []\<rparr>), err') })"

text \<open>The rows of a run, with the count of bytes written so far.\<close>

fun write_run :: "sort_plan \<Rightarrow> tuple list \<Rightarrow> nat \<Rightarrow> byte list \<Rightarrow> nat \<times> (string + byte list)" where
  "write_run p [] bytes file = (bytes, Inr file)"
| "write_run p (t # ts) bytes file =
     (let write_bytes = 4 + tuple_serialized_size t in
      if temp_file_limit p \<noteq> 0 \<and> bytes + write_bytes > temp_file_limit p
      then (bytes, Inl ''temp_file_limit exceeded during sort'')
      else
        (case write_spill_tuple (sort_temps p) file t of
           None \<Rightarrow> (bytes, Inl ''failed to write sort spill file'')
         | Some file' \<Rightarrow> write_run p ts (bytes + write_bytes) file'))"

definition write_sorted_run :: "sort_plan \<Rightarrow> 's sort_state world \<Rightarrow> (bool \<times> 's sort_state world) option" where
  "write_sorted_run p w =
     (case w of (s, err) \<Rightarrow>
      do { sorted \<leftarrow> sort_rows p (sort_buffer s);
           let s1 = s\<lparr>sort_buffer := sorted\<rparr>;
           Some (case made (sort_temps p) (length (spill_files s)) of
               Not_created \<Rightarrow> (False, set_executor_error ''failed to create sort spill file'' (s1, err))
             | Not_opened \<Rightarrow> (False, set_executor_error ''failed to open sort spill file'' (s1, err))
             | Made \<Rightarrow>
                 (case write_run p sorted (temp_bytes s) [] of
                    (bytes, Inl e) \<Rightarrow> (False, set_executor_error e (s1\<lparr>temp_bytes := bytes\<rparr>, err))
                  | (bytes, Inr file) \<Rightarrow> (True, s1\<lparr>temp_bytes := bytes, spill_files := spill_files s @ [file]\<rparr>, err))) })"

subsection \<open>Materialisation\<close>

text \<open>The loop over the child; the answer tells whether every run was written.\<close>

partial_function (option) sort_read_loop ::
  "'s next_fun \<Rightarrow> sort_plan \<Rightarrow> 's sort_state world \<Rightarrow> nat \<Rightarrow> (bool \<times> 's sort_state world) option" where
  "sort_read_loop child_next p w memory_used =
     (case w of (s, err) \<Rightarrow>
      do { (r, c, err1) \<leftarrow> child_next (sort_child s, err);
           case r of
             None \<Rightarrow> Some (True, s\<lparr>sort_child := c\<rparr>, err1)
           | Some t \<Rightarrow>
               let used = memory_used + tuple_serialized_size t + 64;
                   s1 = s\<lparr>sort_child := c, sort_buffer := sort_buffer s @ [t]\<rparr>
               in
                 if sort_work_mem p \<noteq> 0 \<and> used > sort_work_mem p
                 then
                   do { (ok, s2, err2) \<leftarrow> write_sorted_run p (s1, err1);
                        if ok then sort_read_loop child_next p (s2\<lparr>sort_spilled := True, sort_buffer := []\<rparr>, err2) 0
                        else Some (False, s2, err2) }
                 else sort_read_loop child_next p (s1, err1) used })"

definition add_top :: "sort_plan \<Rightarrow> tuple \<Rightarrow> tuple list \<Rightarrow> tuple list option" where
  "add_top p t heap =
     (if \<not> list_all (keys_defined p) (t # heap) then None
      else if length heap < nat (top_n p) then Some (std_push (row_heap p) (before p) (heap @ [t]))
      else if before p t (hd heap)
      then let popped = std_pop (row_heap p) (before p) heap
           in Some (std_push (row_heap p) (before p) (popped[length popped - 1 := t]))
      else Some heap)"

partial_function (option) top_n_loop ::
  "'s next_fun \<Rightarrow> sort_plan \<Rightarrow> 's world \<Rightarrow> tuple list \<Rightarrow> (tuple list \<times> 's world) option" where
  "top_n_loop child_next p w heap =
     do { (r, w') \<leftarrow> child_next w;
          case r of
            None \<Rightarrow> Some (heap, w')
          | Some t \<Rightarrow> do { heap' \<leftarrow> add_top p t heap; top_n_loop child_next p w' heap' } }"

definition materialize_top_n :: "'s next_fun \<Rightarrow> sort_plan \<Rightarrow> 's sort_state world \<Rightarrow> 's sort_state world option" where
  "materialize_top_n child_next p w =
     (case w of (s, err) \<Rightarrow>
      if top_n p \<le> 0 then Some (s\<lparr>sort_buffer := [], materialized := True\<rparr>, err)
      else
        do { (heap, c, err') \<leftarrow> top_n_loop child_next p (sort_child s, err) [];
             sorted \<leftarrow> sort_rows p heap;
             Some (s\<lparr>sort_child := c, sort_buffer := sorted, materialized := True\<rparr>, err') })"

definition materialize :: "'s next_fun \<Rightarrow> sort_plan \<Rightarrow> 's sort_state world \<Rightarrow> 's sort_state world option" where
  "materialize child_next p w =
     (if materialized (fst w) then Some w
      else if top_n p \<ge> 0 then materialize_top_n child_next p w
      else
        do { (ok, s1, err1) \<leftarrow> sort_read_loop child_next p ((fst w)\<lparr>sort_buffer := []\<rparr>, snd w) 0;
             if \<not> ok then Some (s1\<lparr>materialized := True\<rparr>, err1)
             else if sort_spilled s1
             then
               do { (ok', s2, err2) \<leftarrow> (if sort_buffer s1 \<noteq> [] then write_sorted_run p (s1, err1) else Some (True, s1, err1));
                    if ok' then Some (s2\<lparr>sort_buffer := [], materialized := True\<rparr>, err2)
                    else Some (s2\<lparr>materialized := True\<rparr>, err2) }
             else
               do { sorted \<leftarrow> sort_rows p (sort_buffer s1);
                    Some (s1\<lparr>sort_buffer := sorted, materialized := True\<rparr>, err1) } })"

subsection \<open>Merge\<close>

fun open_runs :: "sort_plan \<Rightarrow> nat \<Rightarrow> byte list list \<Rightarrow> run_cursor list \<times> string option" where
  "open_runs p i [] = ([], None)"
| "open_runs p i (file # files) =
     (if \<not> reopened (sort_temps p) i then ([], Some ''failed to open sort spill file'')
      else
        (case read_spill_tuple ''sort'' (sort_schema p) file of
           Inl (Some e) \<Rightarrow> ([], Some e)
         | Inl None \<Rightarrow> open_runs p (Suc i) files
         | Inr c \<Rightarrow> (case open_runs p (Suc i) files of (cs, e) \<Rightarrow> (c # cs, e))))"

definition worse_run :: "sort_plan \<Rightarrow> run_cursor list \<Rightarrow> nat \<Rightarrow> nat \<Rightarrow> bool" where
  "worse_run p cursors a b = (case compare_tuples p (fst (cursors ! a)) (fst (cursors ! b)) of Some c \<Rightarrow> c > 0 | None \<Rightarrow> False)"

definition sort_merge :: "sort_plan \<Rightarrow> merge_params" where
  "sort_merge p = \<lparr>run_heap = sort_run_heap p, run_worse = worse_run p, run_name = ''sort'', run_schema = sort_schema p\<rparr>"

definition init_merge :: "sort_plan \<Rightarrow> 's sort_state world \<Rightarrow> (bool \<times> 's sort_state world) option" where
  "init_merge p w =
     (case w of (s, err) \<Rightarrow>
      if merge_initialized s then Some (True, w)
      else
        (case open_runs p 0 (spill_files s) of
           (cs, Some e) \<Rightarrow> Some (False, set_executor_error e
             (s\<lparr>merge_initialized := True, run_cursors := cs, merge_heap := [0..<length cs]\<rparr>, err))
         | (cs, None) \<Rightarrow>
             if \<not> list_all (keys_defined p \<circ> fst) cs then None
             else Some (True, s\<lparr>merge_initialized := True, run_cursors := cs,
               merge_heap := std_make (sort_run_heap p) (worse_run p cs) [0..<length cs]\<rparr>, err)))"

text \<open>One row from the merge; a run without further rows leaves the heap.\<close>

definition merge_next :: "sort_plan \<Rightarrow> 's sort_state next_fun" where
  "merge_next p w =
     (case w of (s, err) \<Rightarrow>
      if merge_heap s = [] then Some (None, w)
      else
        (case merge_pop (sort_merge p) (run_cursors s) (merge_heap s) of
           (out, Some e, _, heap) \<Rightarrow> Some (Some out, set_executor_error e (s\<lparr>merge_heap := heap\<rparr>, err))
         | (out, None, cs, heap) \<Rightarrow>
             if \<not> list_all (\<lambda>i. keys_defined p (fst (cs ! i))) heap then None
             else Some (Some out, s\<lparr>run_cursors := cs, merge_heap := heap\<rparr>, err)))"

definition sort_next :: "'s next_fun \<Rightarrow> sort_plan \<Rightarrow> 's sort_state next_fun" where
  "sort_next child_next p w =
     do { (s, err) \<leftarrow> materialize child_next p w;
          if err \<noteq> None then Some (None, s, err)
          else if sort_spilled s
          then
            do { (ok, s1, err1) \<leftarrow> init_merge p (s, err);
                 if \<not> ok \<or> err1 \<noteq> None then Some (None, s1, err1) else merge_next p (s1, err1) }
          else if sort_cursor s \<ge> length (sort_buffer s) then Some (None, s, err)
          else Some (Some (sort_buffer s ! sort_cursor s), s\<lparr>sort_cursor := sort_cursor s + 1\<rparr>, err) }"

section \<open>Laws\<close>

subsection \<open>The order of rows\<close>

text \<open>Rows whose keys have values, those of one key of one type or all of integer types.  Of other mixtures the
  comparison is no order: large 64-bit integers compare equal to the same double.\<close>

definition alike :: "db_value \<Rightarrow> db_value \<Rightarrow> bool" where
  "alike a b \<longleftrightarrow> is_null a \<or> is_null b \<or> type_id_of a = type_id_of b \<or> is_int_like (type_id_of a) \<and> is_int_like (type_id_of b)"

definition key_value :: "sort_plan \<Rightarrow> tuple \<Rightarrow> sort_key \<Rightarrow> db_value" where
  "key_value p t k = the (evaluate (sort_schema p) t (key_expr k))"

definition sortable :: "sort_plan \<Rightarrow> tuple set \<Rightarrow> bool" where
  "sortable p A \<longleftrightarrow> (\<forall>t \<in> A. keys_defined p t) \<and>
     (\<forall>a \<in> A. \<forall>b \<in> A. \<forall>k \<in> set (sort_keys p). alike (key_value p a k) (key_value p b k))"

definition in_order :: "sort_plan \<Rightarrow> tuple \<Rightarrow> tuple \<Rightarrow> bool" where
  "in_order p a b = (case compare_tuples p a b of Some c \<Rightarrow> c \<le> 0 | None \<Rightarrow> False)"

definition value_ord :: "bool \<Rightarrow> db_value \<Rightarrow> db_value \<Rightarrow> int" where
  "value_ord ints a b = (if ints then three_way (as_i64 a) (as_i64 b) else value_compare a b)"

definition key_ord :: "sort_key \<Rightarrow> bool \<Rightarrow> db_value \<Rightarrow> db_value \<Rightarrow> int" where
  "key_ord k ints a b =
     (if is_null a \<or> is_null b
      then if is_null a \<and> is_null b then 0
           else if is_null a then (if nulls_first k then -1 else 1) else (if nulls_first k then 1 else -1)
      else if ascending k then value_ord ints a b else - value_ord ints a b)"

lemma comparator_value_ord: "comparator (value_ord ints)"
  using comparator_three_way [of as_i64] value_order.comparator_axioms by (cases ints) (simp_all add: value_ord_def [abs_def])

lemma comparator_key_ord: "comparator (key_ord k ints)"
proof (unfold_locales, goal_cases)
  case (1 b a)
  then show ?case
    using comparator.cmp_antisym [OF comparator_value_ord, of ints b a] by (auto simp: key_ord_def sgn_minus)
next
  case (2 a b c)
  then show ?case
    using comparator.cmp_trans [OF comparator_value_ord, of ints a b c]
      comparator.cmp_trans [OF comparator_uminus [OF comparator_value_ord], of ints a b c]
    by (auto simp: key_ord_def split: if_splits)
qed

lemma comparator_on: "comparator cmp \<Longrightarrow> comparator (\<lambda>a b. cmp (f a) (f b))"
  unfolding comparator_def by blast

text \<open>Whether the values of a key are integers.\<close>

definition int_key :: "sort_plan \<Rightarrow> tuple set \<Rightarrow> sort_key \<Rightarrow> bool" where
  "int_key p A k \<longleftrightarrow> (\<forall>t \<in> A. is_null (key_value p t k) \<or> is_int_like (type_id_of (key_value p t k)))"

lemma compare_values_ord:
  assumes "alike a b" "\<not> is_null a" "\<not> is_null b"
    and "ints \<longrightarrow> is_int_like (type_id_of a) \<and> is_int_like (type_id_of b)" "\<not> ints \<longrightarrow> type_id_of a = type_id_of b"
  shows "compare_values_for_sort a b = value_ord ints a b"
  using assms by (cases a; cases b; cases ints)
    (auto simp: alike_def compare_values_for_sort_def value_ord_def is_int_like_def is_numeric_like_def value_compare_def three_way_def)

lemma key_values_ord:
  assumes "sortable p A" "a \<in> A" "b \<in> A" "k \<in> set (sort_keys p)"
    and "\<not> is_null (key_value p a k)" "\<not> is_null (key_value p b k)"
  shows "compare_values_for_sort (key_value p a k) (key_value p b k) = value_ord (int_key p A k) (key_value p a k) (key_value p b k)"
proof (rule compare_values_ord)
  show "alike (key_value p a k) (key_value p b k)" using assms by (auto simp: sortable_def)
  show "int_key p A k \<longrightarrow> is_int_like (type_id_of (key_value p a k)) \<and> is_int_like (type_id_of (key_value p b k))"
    using assms by (auto simp: int_key_def)
  have "type_id_of (key_value p a k) = type_id_of (key_value p b k)" if "t \<in> A" "\<not> is_null (key_value p t k)"
    "\<not> is_int_like (type_id_of (key_value p t k))" for t
    using that assms unfolding sortable_def alike_def by metis
  then show "\<not> int_key p A k \<longrightarrow> type_id_of (key_value p a k) = type_id_of (key_value p b k)"
    by (auto simp: int_key_def)
qed (use assms in auto)

definition row_order :: "sort_plan \<Rightarrow> tuple set \<Rightarrow> tuple \<Rightarrow> tuple \<Rightarrow> int" where
  "row_order p A a b =
     lex_compare (\<lambda>i. key_ord (sort_keys p ! i) (int_key p A (sort_keys p ! i)))
       (map (key_value p a) (sort_keys p)) (map (key_value p b) (sort_keys p))"

lemma comparator_row_order: "comparator (row_order p A)"
  unfolding row_order_def by (rule comparator_on, rule comparator_lex, rule comparator_key_ord)

lemma compare_keys_lex:
  assumes "sortable p A" "a \<in> A" "b \<in> A" "set ks \<subseteq> set (sort_keys p)"
  shows "compare_keys (sort_schema p) ks a b =
    Some (lex_compare (\<lambda>i. key_ord (ks ! i) (int_key p A (ks ! i))) (map (key_value p a) ks) (map (key_value p b) ks))"
  using assms(4)
proof (induction ks)
  case (Cons k ks)
  then have k: "k \<in> set (sort_keys p)" by simp
  then have e: "evaluate (sort_schema p) a (key_expr k) = Some (key_value p a k)" "evaluate (sort_schema p) b (key_expr k) = Some (key_value p b k)"
    using assms(1-3) by (auto simp: sortable_def keys_defined_def key_value_def list_all_iff)
  have "compare_values_for_sort (key_value p a k) (key_value p b k) = value_ord (int_key p A k) (key_value p a k) (key_value p b k)"
    if "\<not> is_null (key_value p a k)" "\<not> is_null (key_value p b k)" using key_values_ord [OF assms(1-3) k that] .
  then show ?case using Cons.IH Cons.prems e by (auto simp: key_ord_def [of k] Let_def)
qed simp

lemma compare_tuples_order: "sortable p A \<Longrightarrow> a \<in> A \<Longrightarrow> b \<in> A \<Longrightarrow> compare_tuples p a b = Some (row_order p A a b)"
  by (simp add: compare_tuples_def row_order_def compare_keys_lex)

lemma weak_order_before:
  assumes "sortable p A"
  shows "weak_order_on A (before p)"
proof -
  have "before p a b \<longleftrightarrow> row_order p A a b < 0" if "a \<in> A" "b \<in> A" for a b
    using compare_tuples_order [OF assms that] by (simp add: before_def)
  then show ?thesis using comparator.below_on [OF comparator_row_order, of A p A] unfolding weak_order_on_def by metis
qed

lemma in_order_iff: "sortable p A \<Longrightarrow> a \<in> A \<Longrightarrow> b \<in> A \<Longrightarrow> in_order p a b \<longleftrightarrow> \<not> before p b a"
  using comparator.cmp_flip_le [OF comparator_row_order, of p A a b]
  by (auto simp: in_order_def before_def compare_tuples_order)

lemma in_order_trans: "sortable p A \<Longrightarrow> a \<in> A \<Longrightarrow> b \<in> A \<Longrightarrow> c \<in> A \<Longrightarrow> in_order p a b \<Longrightarrow> in_order p b c \<Longrightarrow> in_order p a c"
  using comparator.cmp_trans [OF comparator_row_order, of p A a b c] by (simp add: in_order_def compare_tuples_order)

lemma sortable_mono: "sortable p A \<Longrightarrow> B \<subseteq> A \<Longrightarrow> sortable p B"
  unfolding sortable_def by blast

lemma sortable_defined: "sortable p A \<Longrightarrow> set ts \<subseteq> A \<Longrightarrow> list_all (keys_defined p) ts"
  by (auto simp: sortable_def list_all_iff)

lemma sort_rows_ok:
  assumes "sortable p A" "set ts \<subseteq> A"
  obtains us where "sort_rows p ts = Some us" "sorted_wrt (in_order p) us" "mset us = mset ts"
proof -
  have w: "weak_order_on (set ts) (before p)" using weak_order_before [OF assms(1)] weak_order_on_mono assms(2) by blast
  have v: "sorted_wrt (\<lambda>a b. \<not> before p b a) (vector_sort (before p) ts)" "mset (vector_sort (before p) ts) = mset ts"
    using vector_sort_sorts_on [OF w] by auto
  have "set (vector_sort (before p) ts) \<subseteq> A" using v(2) assms(2) by (metis set_mset_mset)
  then have "sorted_wrt (in_order p) (vector_sort (before p) ts)"
    using v(1) in_order_iff [OF assms(1)] by (auto intro!: sorted_wrt_mono_rel [OF _ v(1)])
  then show ?thesis using that v(2) sortable_defined [OF assms] by (simp add: sort_rows_def)
qed

subsection \<open>Writing runs\<close>

definition run_cost :: "tuple list \<Rightarrow> nat" where
  "run_cost ts = (\<Sum>t \<leftarrow> ts. 4 + tuple_serialized_size t)"

definition fits :: "sort_plan \<Rightarrow> nat \<Rightarrow> bool" where
  "fits p n \<longleftrightarrow> temp_file_limit p = 0 \<or> n \<le> temp_file_limit p"

lemma run_cost_simps [simp]: "run_cost [] = 0" "run_cost (t # ts) = 4 + tuple_serialized_size t + run_cost ts"
  "run_cost (ts @ us) = run_cost ts + run_cost us"
  by (simp_all add: run_cost_def)

lemma run_cost_mset: "mset ts = mset us \<Longrightarrow> run_cost ts = run_cost us"
  unfolding run_cost_def by (simp flip: sum_mset_sum_list)

lemma write_run_ok:
  "temps_work (sort_temps p) \<Longrightarrow> fits p (bytes + run_cost ts) \<Longrightarrow>
   write_run p ts bytes f = (bytes + run_cost ts, Inr (f @ file_of ts))"
proof (induction ts arbitrary: bytes f)
  case (Cons t ts)
  have "fits p (bytes + (4 + tuple_serialized_size t) + run_cost ts)" using Cons.prems(2) by (simp add: add.assoc)
  from Cons.IH [OF Cons.prems(1) this] show ?case
    using Cons.prems by (auto simp: write_works fits_def Let_def)
qed simp

lemma write_sorted_run_ok:
  assumes "sortable p A" "set (sort_buffer s) \<subseteq> A" "temps_work (sort_temps p)" "fits p (temp_bytes s + run_cost (sort_buffer s))"
  obtains us where "write_sorted_run p (s, None) = Some (True, s\<lparr>sort_buffer := us, temp_bytes := temp_bytes s + run_cost us,
      spill_files := spill_files s @ [file_of us]\<rparr>, None)"
    "sorted_wrt (in_order p) us" "mset us = mset (sort_buffer s)"
proof -
  obtain us where us: "sort_rows p (sort_buffer s) = Some us" "sorted_wrt (in_order p) us" "mset us = mset (sort_buffer s)"
    using sort_rows_ok [OF assms(1,2)] .
  have "made (sort_temps p) (length (spill_files s)) = Made" using assms(3) by (simp add: temps_work_def)
  moreover have "write_run p us (temp_bytes s) [] = (temp_bytes s + run_cost us, Inr (file_of us))"
    using write_run_ok [OF assms(3), of "temp_bytes s" us "[]"] assms(4) run_cost_mset [OF us(3)] by simp
  ultimately show ?thesis using us by (intro that [of us]) (simp_all add: write_sorted_run_def)
qed

subsection \<open>Reading the child\<close>

text \<open>What a sort can work with: rows in its order that survive a temporary file, and room for the files.\<close>

definition sort_ok :: "sort_plan \<Rightarrow> tuple list \<Rightarrow> bool" where
  "sort_ok p ts \<longleftrightarrow> sortable p (set ts) \<and> (\<forall>t \<in> set ts. spillable (sort_schema p) t) \<and> temps_work (sort_temps p) \<and>
     fits p (run_cost ts)"

definition sorted_runs :: "sort_plan \<Rightarrow> tuple list list \<Rightarrow> bool" where
  "sorted_runs p runs \<longleftrightarrow> (\<forall>r \<in> set runs. sorted_wrt (in_order p) r)"

lemma fits_mono: "fits p n \<Longrightarrow> m \<le> n \<Longrightarrow> fits p m"
  by (auto simp: fits_def)

context executor
begin

text \<open>The runs written by the loop and the rows it leaves in the buffer.\<close>

lemma sort_read_loop_rows:
  assumes "running (sort_child s)" "sortable p A" "set (sort_buffer s) \<union> set (rows (sort_child s)) \<subseteq> A" "temps_work (sort_temps p)"
    and "fits p (temp_bytes s + run_cost (sort_buffer s) + run_cost (rows (sort_child s)))"
  shows "\<exists>c ts runs. sort_read_loop nxt p (s, None) mem = Some (True, s\<lparr>sort_child := c, sort_buffer := ts,
      temp_bytes := temp_bytes s + run_cost (concat runs), spill_files := spill_files s @ map file_of runs,
      sort_spilled := (sort_spilled s \<or> runs \<noteq> [])\<rparr>, None) \<and>
    ready c \<and> all_rows c = all_rows (sort_child s) \<and> sorted_runs p runs \<and>
    mset (concat runs) + mset ts = mset (sort_buffer s) + mset (rows (sort_child s))"
  using assms
proof (induction "rows (sort_child s)" arbitrary: s mem)
  case Nil
  obtain c where c: "nxt (sort_child s, None) = Some (None, c, None)" "ready c" "all_rows c = all_rows (sort_child s)"
    using next_end [OF Nil(2) Nil(1) [symmetric]] by blast
  then have "sort_read_loop nxt p (s, None) mem = Some (True, s\<lparr>sort_child := c\<rparr>, None)"
    by (subst sort_read_loop.simps) simp
  then show ?case using c Nil(1) by (intro exI [of _ c] exI [of _ "sort_buffer s"] exI [of _ "[]"]) (simp add: sorted_runs_def)
next
  case (Cons t ts)
  note r = Cons(2) [symmetric]
  obtain c where c: "nxt (sort_child s, None) = Some (Some t, c, None)" "running c" "rows c = ts" "all_rows c = all_rows (sort_child s)"
    using next_row [OF Cons(3) r] by blast
  let ?used = "mem + tuple_serialized_size t + 64"
  let ?s = "s\<lparr>sort_child := c, sort_buffer := sort_buffer s @ [t]\<rparr>"
  show ?case
  proof (cases "sort_work_mem p \<noteq> 0 \<and> ?used > sort_work_mem p")
    case True
    have "fits p (temp_bytes ?s + run_cost (sort_buffer ?s))" using fits_mono [OF Cons(7)] r by simp
    then obtain us where us: "write_sorted_run p (?s, None) = Some (True, ?s\<lparr>sort_buffer := us, temp_bytes := temp_bytes ?s + run_cost us,
        spill_files := spill_files ?s @ [file_of us]\<rparr>, None)" "sorted_wrt (in_order p) us" "mset us = mset (sort_buffer ?s)"
      using write_sorted_run_ok [OF Cons(4), of ?s] Cons(5,6) r by auto
    let ?s2 = "?s\<lparr>temp_bytes := temp_bytes s + run_cost us, spill_files := spill_files s @ [file_of us], sort_spilled := True, sort_buffer := []\<rparr>"
    have "run_cost us = run_cost (sort_buffer s) + (4 + tuple_serialized_size t)" using run_cost_mset [OF us(3)] by simp
    then have f: "fits p (temp_bytes ?s2 + run_cost (sort_buffer ?s2) + run_cost (rows (sort_child ?s2)))"
      using fits_mono [OF Cons(7)] r c(3) by simp
    have "\<exists>c' vs runs. sort_read_loop nxt p (?s2, None) 0 = Some (True, ?s2\<lparr>sort_child := c', sort_buffer := vs,
        temp_bytes := temp_bytes ?s2 + run_cost (concat runs), spill_files := spill_files ?s2 @ map file_of runs,
        sort_spilled := (sort_spilled ?s2 \<or> runs \<noteq> [])\<rparr>, None) \<and>
      ready c' \<and> all_rows c' = all_rows (sort_child ?s2) \<and> sorted_runs p runs \<and>
      mset (concat runs) + mset vs = mset (sort_buffer ?s2) + mset (rows (sort_child ?s2))"
      by (rule Cons(1)) (use c Cons(4-6) r f in auto)
    then obtain c' vs runs where ih: "sort_read_loop nxt p (?s2, None) 0 = Some (True, ?s2\<lparr>sort_child := c', sort_buffer := vs,
        temp_bytes := temp_bytes ?s2 + run_cost (concat runs), spill_files := spill_files ?s2 @ map file_of runs,
        sort_spilled := (sort_spilled ?s2 \<or> runs \<noteq> [])\<rparr>, None)" "ready c'" "all_rows c' = all_rows c" "sorted_runs p runs"
      "mset (concat runs) + mset vs = mset ts" using c(3) by auto
    have "sort_read_loop nxt p (s, None) mem = sort_read_loop nxt p (?s2, None) 0"
      using True c(1) us(1) by (subst sort_read_loop.simps) (simp add: Let_def)
    then show ?thesis
      using ih us(2,3) c(4) r by (intro exI [of _ c'] exI [of _ vs] exI [of _ "us # runs"]) (auto simp: sorted_runs_def add.assoc)
  next
    case False
    have "\<exists>c' vs runs. sort_read_loop nxt p (?s, None) ?used = Some (True, ?s\<lparr>sort_child := c', sort_buffer := vs,
        temp_bytes := temp_bytes ?s + run_cost (concat runs), spill_files := spill_files ?s @ map file_of runs,
        sort_spilled := (sort_spilled ?s \<or> runs \<noteq> [])\<rparr>, None) \<and>
      ready c' \<and> all_rows c' = all_rows (sort_child ?s) \<and> sorted_runs p runs \<and>
      mset (concat runs) + mset vs = mset (sort_buffer ?s) + mset (rows (sort_child ?s))"
      by (rule Cons(1)) (use c Cons(4-7) r in \<open>auto simp: add.assoc\<close>)
    then obtain c' vs runs where ih: "sort_read_loop nxt p (?s, None) ?used = Some (True, ?s\<lparr>sort_child := c', sort_buffer := vs,
        temp_bytes := temp_bytes ?s + run_cost (concat runs), spill_files := spill_files ?s @ map file_of runs,
        sort_spilled := (sort_spilled ?s \<or> runs \<noteq> [])\<rparr>, None)" "ready c'" "all_rows c' = all_rows c" "sorted_runs p runs"
      "mset (concat runs) + mset vs = mset (sort_buffer s) + mset (t # ts)" using c(3) by auto
    have "sort_read_loop nxt p (s, None) mem = sort_read_loop nxt p (?s, None) ?used"
      using False c(1) by (subst sort_read_loop.simps) (auto simp: Let_def)
    then show ?thesis using ih c(4) r by (intro exI [of _ c'] exI [of _ vs] exI [of _ runs]) simp
  qed
qed

end

subsection \<open>Merging runs\<close>

lemma run_order_sort:
  assumes "heap_lib_ok (sort_run_heap p)" "sortable p A"
  shows "run_order (sort_merge p) A (in_order p)"
proof (rule run_order.intro)
  show "heap_lib_ok (run_heap (sort_merge p))" using assms(1) by (simp add: sort_merge_def)
  show "in_order p a b \<or> in_order p b a" if "a \<in> A" "b \<in> A" for a b
    using that compare_tuples_order [OF assms(2)] comparator.cmp_total [OF comparator_row_order] by (simp add: in_order_def)
  show "in_order p a c" if "a \<in> A" "b \<in> A" "c \<in> A" "in_order p a b" "in_order p b c" for a b c
    using in_order_trans [OF assms(2) that] .
  show "run_worse (sort_merge p) cs i j \<longleftrightarrow> \<not> in_order p (fst (cs ! i)) (fst (cs ! j))"
    if "fst (cs ! i) \<in> A" "fst (cs ! j) \<in> A" for cs i j
    using compare_tuples_order [OF assms(2) that] by (auto simp: sort_merge_def worse_run_def in_order_def)
qed

abbreviation sort_inv :: "sort_plan \<Rightarrow> tuple set \<Rightarrow> run_cursor list \<Rightarrow> nat list \<Rightarrow> bool" where
  "sort_inv p A \<equiv> run_order.merge_inv (sort_merge p) A (in_order p)"

lemma merge_step:
  assumes heap: "heap_lib_ok (sort_run_heap p)" and A: "sortable p A"
    and inv: "sort_inv p A (run_cursors s) (merge_heap s)" and ne: "merge_heap s \<noteq> []"
  shows "\<exists>t cs h. merge_next p (s, None) = Some (Some t, s\<lparr>run_cursors := cs, merge_heap := h\<rparr>, None) \<and> sort_inv p A cs h \<and>
    mset (merge_left (sort_merge p) (run_cursors s) (merge_heap s)) = add_mset t (mset (merge_left (sort_merge p) cs h)) \<and>
    (\<forall>u \<in> set (merge_left (sort_merge p) (run_cursors s) (merge_heap s)). in_order p t u)"
proof -
  note ro = run_order_sort [OF heap A]
  let ?t = "fst (run_cursors s ! hd (merge_heap s))"
  obtain cs h where p: "merge_pop (sort_merge p) (run_cursors s) (merge_heap s) = (?t, None, cs, h)" "sort_inv p A cs h"
    "mset (merge_left (sort_merge p) (run_cursors s) (merge_heap s)) = add_mset ?t (mset (merge_left (sort_merge p) cs h))"
    using run_order.merge_pop_ok [OF ro inv ne] by blast
  have "list_all (\<lambda>i. keys_defined p (fst (cs ! i))) h"
    using p(2) A run_order.good_run_fst [OF ro] by (auto simp: run_order.merge_inv_def [OF ro] list_all_iff sortable_def)
  then have "merge_next p (s, None) = Some (Some ?t, s\<lparr>run_cursors := cs, merge_heap := h\<rparr>, None)"
    using ne p(1) by (simp add: merge_next_def)
  then show ?thesis using p(2,3) run_order.merge_first [OF ro inv ne] by blast
qed

lemma open_runs_ok:
  "temps_work (sort_temps p) \<Longrightarrow> \<forall>t \<in> set (concat runs). spillable (sort_schema p) t \<Longrightarrow>
   open_runs p i (map file_of runs) = (map (\<lambda>r. (hd r, file_of (tl r))) (filter (\<lambda>r. r \<noteq> []) runs), None)"
proof (induction runs arbitrary: i)
  case (Cons r runs)
  then have "reopened (sort_temps p) i" by (simp add: temps_work_def)
  then show ?case using Cons by (cases r) (simp_all add: read_spill_record)
qed simp

lemma init_merge_ok:
  assumes heap: "heap_lib_ok (sort_run_heap p)"
    and A: "sortable p A" and tmp: "temps_work (sort_temps p)" and runs: "spill_files s = map file_of runs" "sorted_runs p runs"
    "\<forall>t \<in> set (concat runs). t \<in> A \<and> spillable (sort_schema p) t" and ni: "\<not> merge_initialized s"
  shows "\<exists>cs h. init_merge p (s, None) = Some (True, s\<lparr>merge_initialized := True, run_cursors := cs, merge_heap := h\<rparr>, None) \<and>
    sort_inv p A cs h \<and> mset (merge_left (sort_merge p) cs h) = mset (concat runs)"
proof -
  let ?rs = "filter (\<lambda>r. r \<noteq> []) runs"
  define cs where "cs = map (\<lambda>r. (hd r, file_of (tl r))) ?rs"
  let ?h = "std_make (sort_run_heap p) (worse_run p cs) [0..<length cs]"
  note ro = run_order_sort [OF heap A]
  have rs: "\<forall>r \<in> set ?rs. r \<noteq> [] \<and> sorted_wrt (in_order p) r \<and> set r \<subseteq> A \<and> (\<forall>t \<in> set r. spillable (run_schema (sort_merge p)) t)"
    using runs(2,3) by (auto simp: sorted_runs_def sort_merge_def)
  have start: "sort_inv p A cs ?h" "mset (merge_left (sort_merge p) cs ?h) = mset (concat ?rs)"
    using run_order.merge_start [OF ro rs cs_def] by (simp_all add: sort_merge_def)
  have "keys_defined p (fst c)" if c: "c \<in> set cs" for c
  proof -
    obtain r where r: "r \<in> set ?rs" "fst c = hd r" using c by (auto simp: cs_def)
    then have "hd r \<in> A" using rs by (meson hd_in_set subsetD)
    then show ?thesis using A r(2) by (simp add: sortable_def)
  qed
  then have im: "init_merge p (s, None) = Some (True, s\<lparr>merge_initialized := True, run_cursors := cs, merge_heap := ?h\<rparr>, None)"
    using ni runs open_runs_ok [OF tmp, of runs 0] by (simp add: init_merge_def list_all_iff cs_def [symmetric])
  have "concat ?rs = concat runs" by (induction runs) auto
  then show ?thesis using im start by auto
qed

lemma merge_drain:
  assumes heap: "heap_lib_ok (sort_run_heap p)" and A: "sortable p A"
  shows "sort_inv p A (run_cursors s) (merge_heap s) \<Longrightarrow> materialized s \<Longrightarrow> sort_spilled s \<Longrightarrow> merge_initialized s \<Longrightarrow>
    \<exists>ts s'. drain_loop (sort_next nxt p) (s, None) acc = Some (acc @ ts, s', None) \<and> sorted_wrt (in_order p) ts \<and>
      mset ts = mset (merge_left (sort_merge p) (run_cursors s) (merge_heap s)) \<and> sort_child s' = sort_child s"
proof (induction "length (merge_left (sort_merge p) (run_cursors s) (merge_heap s))" arbitrary: s acc)
  case 0
  then have "merge_heap s = []" by (auto simp: merge_left_def run_left_def)
  then have "sort_next nxt p (s, None) = Some (None, s, None)"
    using 0 by (simp add: sort_next_def materialize_def init_merge_def merge_next_def)
  then show ?case using 0 by (subst drain_loop.simps) simp
next
  case (Suc n)
  then have "merge_heap s \<noteq> []" by (auto simp: merge_left_def)
  from merge_step [OF heap A Suc.prems(1) this] obtain t cs h where
    t: "merge_next p (s, None) = Some (Some t, s\<lparr>run_cursors := cs, merge_heap := h\<rparr>, None)" "sort_inv p A cs h"
      "mset (merge_left (sort_merge p) (run_cursors s) (merge_heap s)) = add_mset t (mset (merge_left (sort_merge p) cs h))"
      "\<forall>u \<in> set (merge_left (sort_merge p) (run_cursors s) (merge_heap s)). in_order p t u" by blast
  let ?s = "s\<lparr>run_cursors := cs, merge_heap := h\<rparr>"
  have "n = length (merge_left (sort_merge p) cs h)" using Suc(2) t(3) by (metis size_add_mset size_mset Suc_inject)
  then obtain ts s' where ts: "drain_loop (sort_next nxt p) (?s, None) (acc @ [t]) = Some ((acc @ [t]) @ ts, s', None)"
    "sorted_wrt (in_order p) ts" "mset ts = mset (merge_left (sort_merge p) cs h)" "sort_child s' = sort_child s"
    using Suc(1) [of ?s "acc @ [t]"] t(2) Suc.prems by auto
  have "sort_next nxt p (s, None) = Some (Some t, ?s, None)"
    using Suc.prems t(1) by (simp add: sort_next_def materialize_def init_merge_def)
  then have "drain_loop (sort_next nxt p) (s, None) acc = Some (acc @ t # ts, s', None)" using ts(1) by (subst drain_loop.simps) simp
  moreover have "in_order p t u" if "u \<in> set ts" for u
    using that t(3,4) ts(3) by (metis insertCI set_mset_add_mset_insert set_mset_mset)
  ultimately show ?case using ts t(3) by (intro exI [of _ "t # ts"] exI [of _ s']) simp
qed

subsection \<open>The first rows\<close>

text \<open>The heap holds the smallest rows seen so far; \<open>rest\<close> are the others.\<close>

definition top_inv :: "sort_plan \<Rightarrow> tuple set \<Rightarrow> nat \<Rightarrow> tuple list \<Rightarrow> tuple multiset \<Rightarrow> bool" where
  "top_inv p A n h rest \<longleftrightarrow> set h \<subseteq> A \<and> set_mset rest \<subseteq> A \<and> is_heap (before p) h \<and> length h \<le> n \<and>
     (rest \<noteq> {#} \<longrightarrow> length h = n) \<and> (\<forall>u \<in> set h. \<forall>v \<in># rest. in_order p u v)"

lemma before_in_order: "sortable p A \<Longrightarrow> a \<in> A \<Longrightarrow> b \<in> A \<Longrightarrow> before p a b \<Longrightarrow> in_order p a b"
  using compare_tuples_order [of p A a b] by (simp add: before_def in_order_def)

lemma add_top_ok:
  assumes heap: "heap_lib_ok (row_heap p)"
    and A: "sortable p A" and inv: "top_inv p A (nat (top_n p)) h rest" and t: "t \<in> A" and n: "0 < top_n p"
  shows "\<exists>h' rest'. add_top p t h = Some h' \<and> top_inv p A (nat (top_n p)) h' rest' \<and> mset h' + rest' = add_mset t (mset h + rest)"
proof -
  let ?n = "nat (top_n p)"
  have h: "set h \<subseteq> A" "is_heap (before p) h" "length h \<le> ?n" using inv by (auto simp: top_inv_def)
  have def: "list_all (keys_defined p) (t # h)" using sortable_defined [OF A, of "t # h"] h t by simp
  have wo: "weak_order_on (set h) (before p)" using weak_order_before [OF A] h(1) weak_order_on_mono by blast
  have push: "is_heap (before p) (std_push (row_heap p) (before p) (ys @ [t])) \<and>
      mset (std_push (row_heap p) (before p) (ys @ [t])) = add_mset t (mset ys)" if "is_heap (before p) ys" "set ys \<subseteq> A" for ys
    using std_heap.push_ok [OF heap weak_order_on_mono [OF weak_order_before [OF A]] that(1), of t] that(2) t by simp
  have last: "in_order p u (hd h)" if "u \<in> set h" for u
    using heap_front [OF wo h(2) that] in_order_iff [OF A] that h(1) by (metis hd_in_set length_pos_if_in_set length_greater_0_conv subsetD)
  consider "length h < ?n" | "\<not> length h < ?n" "before p t (hd h)" | "\<not> length h < ?n" "\<not> before p t (hd h)" by blast
  then show ?thesis
  proof cases
    case 1
    let ?h = "std_push (row_heap p) (before p) (h @ [t])"
    have p: "is_heap (before p) ?h" "mset ?h = add_mset t (mset h)" using push [OF h(2,1)] by auto
    have "length ?h = Suc (length h)" using p(2) by (metis size_add_mset size_mset)
    moreover have "set ?h \<subseteq> A" using p(2) h(1) t by (metis insert_subset set_mset_add_mset_insert set_mset_mset)
    moreover have "rest = {#}" using inv 1 by (auto simp: top_inv_def)
    ultimately have "top_inv p A ?n ?h {#}" using p 1 by (simp add: top_inv_def)
    then show ?thesis using 1 def p(2) \<open>rest = {#}\<close> by (auto simp: add_top_def)
  next
    case 2
    then have ne: "h \<noteq> []" using n by auto
    obtain ys where ys: "std_pop (row_heap p) (before p) h = ys @ [hd h]" "is_heap (before p) ys" "add_mset (hd h) (mset ys) = mset h"
      using std_heap.pop_ok [OF heap wo h(2) ne] by blast
    have set: "insert (hd h) (set ys) = set h" using ys(3) by (metis set_mset_add_mset_insert set_mset_mset)
    let ?h = "std_push (row_heap p) (before p) (ys @ [t])"
    have p: "is_heap (before p) ?h" "mset ?h = add_mset t (mset ys)" using push [OF ys(2)] set h(1) by auto
    have seth: "set ?h = insert t (set ys)" using p(2) by (metis set_mset_add_mset_insert set_mset_mset)
    have len: "length ?h = length h" using p(2) ys(3) by (metis size_add_mset size_mset)
    have hd: "hd h \<in> A" using set h(1) by auto
    have o: "in_order p t (hd h)" using before_in_order [OF A t hd 2(2)] .
    have old: "in_order p u v" if "u \<in> set h" "v \<in># rest" for u v using inv that by (simp add: top_inv_def)
    have "in_order p u v" if "u \<in> set ?h" "v \<in># add_mset (hd h) rest" for u v
    proof (cases "u = t")
      case True
      have "in_order p t v" if "v \<in># rest"
        using in_order_trans [OF A t hd _ o old [of "hd h" v]] that set inv by (auto simp: top_inv_def)
      then show ?thesis using True that o by auto
    next
      case False
      then have "u \<in> set h" using that(1) seth set by auto
      then show ?thesis using that(2) last old by auto
    qed
    then have "top_inv p A ?n ?h (add_mset (hd h) rest)" using p(1) len seth set h t inv 2(1) by (auto simp: top_inv_def)
    moreover have "add_top p t h = Some ?h" using def 2 ys(1) by (simp add: add_top_def)
    moreover have "mset ?h + add_mset (hd h) rest = add_mset t (mset h + rest)" using p(2) by (simp flip: ys(3))
    ultimately show ?thesis by blast
  next
    case 3
    then have "h \<noteq> []" using n by auto
    then have hd: "hd h \<in> set h" by simp
    then have "in_order p (hd h) t" using 3(2) in_order_iff [OF A _ t] h(1) by auto
    then have "in_order p u t" if "u \<in> set h" for u using in_order_trans [OF A _ _ t last [OF that]] that hd h(1) by auto
    then have "top_inv p A ?n h (add_mset t rest)" using inv t 3(1) by (auto simp: top_inv_def)
    moreover have "add_top p t h = Some h" using def 3 by (simp add: add_top_def)
    ultimately show ?thesis by force
  qed
qed

context executor
begin

lemma top_n_loop_rows:
  assumes heap: "heap_lib_ok (row_heap p)"
    and A: "sortable p A" and n: "0 < top_n p"
  shows "running c \<Longrightarrow> set (rows c) \<subseteq> A \<Longrightarrow> top_inv p A (nat (top_n p)) h rest \<Longrightarrow>
    \<exists>h' rest' c'. top_n_loop nxt p (c, None) h = Some (h', c', None) \<and> ready c' \<and> all_rows c' = all_rows c \<and>
      top_inv p A (nat (top_n p)) h' rest' \<and> mset h' + rest' = mset h + rest + mset (rows c)"
proof (induction "rows c" arbitrary: c h rest)
  case Nil
  then obtain c' where "nxt (c, None) = Some (None, c', None)" "ready c'" "all_rows c' = all_rows c" using next_end [of c] by auto
  then show ?case using Nil by (subst top_n_loop.simps) auto
next
  case (Cons t ts)
  obtain c1 where c1: "nxt (c, None) = Some (Some t, c1, None)" "running c1" "rows c1 = ts" "all_rows c1 = all_rows c"
    using next_row [OF Cons(3) Cons(2) [symmetric]] by blast
  have A': "t \<in> A" "set ts \<subseteq> A" using Cons(2) [symmetric] Cons(4) by auto
  obtain h1 rest1 where h1: "add_top p t h = Some h1" "top_inv p A (nat (top_n p)) h1 rest1" "mset h1 + rest1 = add_mset t (mset h + rest)"
    using add_top_ok [OF heap A Cons(5) A'(1) n] by blast
  obtain h' rest' c' where "top_n_loop nxt p (c1, None) h1 = Some (h', c', None)" "ready c'" "all_rows c' = all_rows c1"
    "top_inv p A (nat (top_n p)) h' rest'" "mset h' + rest' = mset h1 + rest1 + mset ts"
    using Cons(1) [of c1 h1 rest1] c1 A'(2) h1(2) by auto
  then show ?case using c1 h1(1,3) Cons(2) [symmetric]
    by (subst top_n_loop.simps) (intro exI [of _ h'] exI [of _ rest'] exI [of _ c'], simp)
qed

end

subsection \<open>Whole statements\<close>

lemma drain_loop_same: "f w = f w' \<Longrightarrow> drain_loop f w acc = drain_loop f w' acc"
  by (subst (1 2) drain_loop.simps) simp

lemma buffer_drain:
  assumes "materialized s" "\<not> sort_spilled s"
  shows "\<exists>s'. drain_loop (sort_next nxt p) (s, None) acc = Some (acc @ drop (sort_cursor s) (sort_buffer s), s', None) \<and>
    sort_child s' = sort_child s"
  using assms
proof (induction "length (sort_buffer s) - sort_cursor s" arbitrary: s acc)
  case 0
  then show ?case by (subst drain_loop.simps) (simp add: sort_next_def materialize_def)
next
  case (Suc n)
  then have c: "sort_cursor s < length (sort_buffer s)" by linarith
  let ?s = "s\<lparr>sort_cursor := sort_cursor s + 1\<rparr>"
  have "sort_next nxt p (s, None) = Some (Some (sort_buffer s ! sort_cursor s), ?s, None)"
    using c Suc.prems by (simp add: sort_next_def materialize_def)
  then have "drain_loop (sort_next nxt p) (s, None) acc = drain_loop (sort_next nxt p) (?s, None) (acc @ [sort_buffer s ! sort_cursor s])"
    by (subst drain_loop.simps) simp
  moreover have "n = length (sort_buffer ?s) - sort_cursor ?s" using Suc(2) by simp
  ultimately show ?case
    using Suc(1) [of ?s "acc @ [sort_buffer s ! sort_cursor s]"] Suc.prems c by (simp add: Cons_nth_drop_Suc)
qed

definition sort_fresh :: "'s sort_state \<Rightarrow> bool" where
  "sort_fresh s \<longleftrightarrow> \<not> materialized s \<and> \<not> sort_spilled s \<and> \<not> merge_initialized s \<and> sort_cursor s = 0 \<and> temp_bytes s = 0 \<and>
     spill_files s = []"

definition sort_done :: "sort_plan \<Rightarrow> tuple list \<Rightarrow> 's sort_state \<Rightarrow> bool" where
  "sort_done p ts s \<longleftrightarrow> materialized s \<and> \<not> merge_initialized s \<and> sort_cursor s = 0 \<and>
     (if sort_spilled s
      then \<exists>runs. spill_files s = map file_of runs \<and> sorted_runs p runs \<and> mset (concat runs) = mset ts
      else sorted_wrt (in_order p) (sort_buffer s) \<and> mset (sort_buffer s) = mset ts)"

context executor
begin

lemma materialize_rows:
  assumes "running (sort_child s)" "sort_ok p (rows (sort_child s))" "top_n p < 0" "sort_fresh s"
  shows "\<exists>s'. materialize nxt p (s, None) = Some (s', None) \<and> sort_done p (rows (sort_child s)) s' \<and> ready (sort_child s')"
proof -
  let ?s = "s\<lparr>sort_buffer := []\<rparr>" and ?A = "set (rows (sort_child s))"
  have A: "sortable p ?A" "temps_work (sort_temps p)" "fits p (run_cost (rows (sort_child s)))" using assms(2) by (auto simp: sort_ok_def)
  obtain c ts runs where loop: "sort_read_loop nxt p (?s, None) 0 = Some (True, ?s\<lparr>sort_child := c, sort_buffer := ts,
      temp_bytes := temp_bytes ?s + run_cost (concat runs), spill_files := spill_files ?s @ map file_of runs,
      sort_spilled := (sort_spilled ?s \<or> runs \<noteq> [])\<rparr>, None)" "ready c" "sorted_runs p runs"
      "mset (concat runs) + mset ts = mset (rows (sort_child s))"
    using sort_read_loop_rows [of ?s p ?A 0] assms(1,4) A by (auto simp: sort_fresh_def)
  let ?s1 = "?s\<lparr>sort_child := c, sort_buffer := ts, temp_bytes := run_cost (concat runs), spill_files := map file_of runs,
      sort_spilled := (runs \<noteq> [])\<rparr>"
  have l: "sort_read_loop nxt p (?s, None) 0 = Some (True, ?s1, None)" using loop(1) assms(4) by (simp add: sort_fresh_def)
  have ts: "set ts \<subseteq> ?A" using loop(4) by (metis mset_append set_append set_mset_mset sup_ge2)
  note unf = materialize_def sort_done_def sort_fresh_def
  show ?thesis
  proof (cases "runs = []")
    case True
    obtain us where "sort_rows p ts = Some us" "sorted_wrt (in_order p) us" "mset us = mset ts" using sort_rows_ok [OF A(1) ts] .
    then show ?thesis using True l loop(2,4) assms(3,4) by (simp add: unf)
  next
    case False
    show ?thesis
    proof (cases "ts = []")
      case True
      then show ?thesis using False l loop assms(3,4) by (auto simp: unf)
    next
      case ne: False
      have "run_cost (rows (sort_child s)) = run_cost (concat runs @ ts)" using loop(4) by (intro run_cost_mset) simp
      then have "fits p (temp_bytes ?s1 + run_cost (sort_buffer ?s1))" using A(3) by simp
      then obtain us where us: "write_sorted_run p (?s1, None) = Some (True, ?s1\<lparr>sort_buffer := us, temp_bytes := temp_bytes ?s1 + run_cost us,
          spill_files := spill_files ?s1 @ [file_of us]\<rparr>, None)" "sorted_wrt (in_order p) us" "mset us = mset (sort_buffer ?s1)"
        using write_sorted_run_ok [OF A(1), of ?s1] ts A(2) by auto
      have runs: "sorted_runs p (runs @ [us])" "mset (concat (runs @ [us])) = mset (rows (sort_child s))"
        "map file_of runs @ [file_of us] = map file_of (runs @ [us])" using us(2,3) loop(3,4) by (auto simp: sorted_runs_def)
      have "materialize nxt p (s, None) = Some (?s1\<lparr>temp_bytes := temp_bytes ?s1 + run_cost us,
          spill_files := map file_of (runs @ [us]), sort_buffer := [], materialized := True\<rparr>, None)"
        using False ne l us(1) assms(3,4) by (simp add: materialize_def sort_fresh_def)
      moreover have "\<exists>rs. map file_of (runs @ [us]) = map file_of rs \<and> sorted_runs p rs \<and> mset (concat rs) = mset (rows (sort_child s))"
        using runs(1,2) by blast
      ultimately show ?thesis using False loop(2) assms(4) by (simp add: sort_done_def sort_fresh_def)
    qed
  qed
qed

lemma sort_init_fresh:
  assumes "ready (sort_child s)"
  obtains s1 where "sort_init ini (s, None) = Some (s1, None)" "running (sort_child s1)"
    "rows (sort_child s1) = all_rows (sort_child s)" "sort_fresh s1"
proof -
  obtain c where "ini (sort_child s, None) = Some (c, None)" "running c" "rows c = all_rows (sort_child s)"
    using init_ok [OF assms] by blast
  then show ?thesis by (intro that) (auto simp: sort_init_def cleanup_spill_files_def sort_fresh_def)
qed

lemma sort_next_done:
  assumes "materialize nxt p (s, None) = Some (s', None)" "materialized s'"
  shows "sort_next nxt p (s, None) = sort_next nxt p (s', None)"
  using assms by (simp add: sort_next_def materialize_def)

lemma sort_run:
  assumes "heap_lib_ok (sort_run_heap p)"
    and "ready (sort_child s)" "sort_ok p (all_rows (sort_child s))" "top_n p < 0"
  shows "\<exists>ts s'. run_executor (sort_init ini) (sort_next nxt p) s = Some (ts, s', None) \<and> sorted_wrt (in_order p) ts \<and>
    mset ts = mset (all_rows (sort_child s)) \<and> ready (sort_child s')"
proof -
  let ?ts = "all_rows (sort_child s)"
  obtain s1 where s1: "sort_init ini (s, None) = Some (s1, None)" "running (sort_child s1)" "rows (sort_child s1) = ?ts" "sort_fresh s1"
    using sort_init_fresh [OF assms(2)] .
  obtain s2 where s2: "materialize nxt p (s1, None) = Some (s2, None)" "sort_done p ?ts s2" "ready (sort_child s2)"
    using materialize_rows [OF s1(2) _ assms(4) s1(4)] assms(3) s1(3) by auto
  have m: "materialized s2" using s2(2) by (simp add: sort_done_def)
  have run: "run_executor (sort_init ini) (sort_next nxt p) s = drain_loop (sort_next nxt p) (s2, None) []"
    using s1(1) drain_loop_same [OF sort_next_done [OF s2(1) m]] by (simp add: run_executor_def)
  show ?thesis
  proof (cases "sort_spilled s2")
    case True
    then obtain runs where runs: "spill_files s2 = map file_of runs" "sorted_runs p runs" "mset (concat runs) = mset ?ts" "\<not> merge_initialized s2"
      using s2(2) by (auto simp: sort_done_def)
    have A: "sortable p (set ?ts)" "temps_work (sort_temps p)" using assms(3) by (auto simp: sort_ok_def)
    have "\<forall>t \<in> set (concat runs). t \<in> set ?ts \<and> spillable (sort_schema p) t" using assms(3) mset_eq_setD [OF runs(3)] by (simp add: sort_ok_def)
    from init_merge_ok [OF assms(1) A runs(1,2) this runs(4)] obtain cs h where
      im: "init_merge p (s2, None) = Some (True, s2\<lparr>merge_initialized := True, run_cursors := cs, merge_heap := h\<rparr>, None)"
        "sort_inv p (set ?ts) cs h" "mset (merge_left (sort_merge p) cs h) = mset (concat runs)" by blast
    let ?s3 = "s2\<lparr>merge_initialized := True, run_cursors := cs, merge_heap := h\<rparr>"
    have "sort_next nxt p (s2, None) = sort_next nxt p (?s3, None)"
      using True m im(1) by (simp add: sort_next_def materialize_def) (simp add: init_merge_def)
    moreover obtain ts s' where "drain_loop (sort_next nxt p) (?s3, None) [] = Some (ts, s', None)" "sorted_wrt (in_order p) ts"
      "mset ts = mset (merge_left (sort_merge p) cs h)" "sort_child s' = sort_child s2"
      using merge_drain [OF assms(1) A(1), of ?s3 nxt "[]"] im(2) True m by auto
    ultimately show ?thesis using run drain_loop_same im(3) runs(3) s2(3) by (metis (no_types, lifting))
  next
    case False
    then show ?thesis using run buffer_drain [OF m False, of nxt p "[]"] s2(2,3) by (auto simp: sort_done_def)
  qed
qed

lemma top_n_run:
  assumes "heap_lib_ok (row_heap p)"
    and "ready (sort_child s)" "sortable p (set (all_rows (sort_child s)))" "top_n p \<ge> 0"
  shows "\<exists>ts rest s'. run_executor (sort_init ini) (sort_next nxt p) s = Some (ts, s', None) \<and> sorted_wrt (in_order p) ts \<and>
    mset ts + rest = mset (all_rows (sort_child s)) \<and> length ts = min (nat (top_n p)) (length (all_rows (sort_child s))) \<and>
    (\<forall>t \<in> set ts. \<forall>u \<in># rest. in_order p t u)"
proof -
  let ?ts = "all_rows (sort_child s)"
  obtain s1 where s1: "sort_init ini (s, None) = Some (s1, None)" "running (sort_child s1)" "rows (sort_child s1) = ?ts" "sort_fresh s1"
    using sort_init_fresh [OF assms(2)] .
  have "\<exists>s2 rest. materialize nxt p (s1, None) = Some (s2, None) \<and> materialized s2 \<and> \<not> sort_spilled s2 \<and> sort_cursor s2 = 0 \<and>
    sorted_wrt (in_order p) (sort_buffer s2) \<and> mset (sort_buffer s2) + rest = mset ?ts \<and>
    length (sort_buffer s2) = min (nat (top_n p)) (length ?ts) \<and> (\<forall>t \<in> set (sort_buffer s2). \<forall>u \<in># rest. in_order p t u)"
  proof (cases "top_n p = 0")
    case True
    then show ?thesis using s1(4) by (simp add: materialize_def materialize_top_n_def sort_fresh_def)
  next
    case False
    then have n: "0 < top_n p" using assms(4) by simp
    have "top_inv p (set ?ts) (nat (top_n p)) [] {#}" by (simp add: top_inv_def is_heap_def)
    from top_n_loop_rows [OF assms(1,3) n s1(2) _ this] obtain h rest c where
      h: "top_n_loop nxt p (sort_child s1, None) [] = Some (h, c, None)" "top_inv p (set ?ts) (nat (top_n p)) h rest" "mset h + rest = mset ?ts"
      using s1(3) by auto
    obtain us where us: "sort_rows p h = Some us" "sorted_wrt (in_order p) us" "mset us = mset h"
      using sort_rows_ok [OF assms(3), of h] h(2) by (auto simp: top_inv_def)
    have "length h + size rest = length ?ts" using h(3) by (metis size_mset size_union)
    then have "length us = min (nat (top_n p)) (length ?ts)" using h(2) mset_eq_length [OF us(3)] by (auto simp: top_inv_def)
    moreover have "\<forall>t \<in> set us. \<forall>u \<in># rest. in_order p t u" using h(2) mset_eq_setD [OF us(3)] by (simp add: top_inv_def)
    moreover have "mset us + rest = mset ?ts" using us(3) h(3) by simp
    ultimately show ?thesis using n h(1) us(1,2) s1(4)
      by (intro exI [of _ "s1\<lparr>sort_child := c, sort_buffer := us, materialized := True\<rparr>"] exI [of _ rest])
        (simp add: materialize_def materialize_top_n_def sort_fresh_def)
  qed
  then obtain s2 rest where s2: "materialize nxt p (s1, None) = Some (s2, None)" "materialized s2" "\<not> sort_spilled s2" "sort_cursor s2 = 0"
    "sorted_wrt (in_order p) (sort_buffer s2)" "mset (sort_buffer s2) + rest = mset ?ts"
    "length (sort_buffer s2) = min (nat (top_n p)) (length ?ts)" "\<forall>t \<in> set (sort_buffer s2). \<forall>u \<in># rest. in_order p t u" by blast
  have "run_executor (sort_init ini) (sort_next nxt p) s = drain_loop (sort_next nxt p) (s2, None) []"
    using s1(1) drain_loop_same [OF sort_next_done [OF s2(1,2)]] by (simp add: run_executor_def)
  then show ?thesis using buffer_drain [OF s2(2,3), of nxt p "[]"] s2(4-8) by auto
qed

end

section \<open>Properties\<close>

text \<open>C36: ORDER BY sorts, in memory and through runs.  Above any child that keeps the iterator contract the operator ends
  without a failure and returns a permutation of the child's rows in which every row is in order with those after it,
  whether the rows stay in memory or go through sorted temporary files that are merged.  The values of each key are of
  one type or integers, and the temporary files work.\<close>

theorem sort_refines:
  assumes "executor ini nxt ready running all_rows rows"
    and "heap_lib_ok (sort_run_heap p)"
    and "ready (sort_child s)" "sort_ok p (all_rows (sort_child s))" "top_n p < 0"
  shows "\<exists>ts s'. run_executor (sort_init ini) (sort_next nxt p) s = Some (ts, s', None) \<and> sorted_wrt (in_order p) ts \<and>
    mset ts = mset (all_rows (sort_child s))"
  using executor.sort_run [OF assms] by blast

definition flag_sort :: "int \<Rightarrow> sort_plan" where
  "flag_sort n = \<lparr>sort_keys = [\<lparr>key_expr = ColumnRef [] ''id'', ascending = False, nulls_first = False\<rparr>], sort_schema = flag_schema,
     sort_work_mem = 1, top_n = n, temp_file_limit = 0,
     sort_temps = \<lparr>made = (\<lambda>_. Made), written = (\<lambda>_ _. True), reopened = (\<lambda>_. True)\<rparr>,
     row_heap = \<lparr>std_make = make_heap, std_push = push_heap, std_pop = pop_heap\<rparr>,
     sort_run_heap = \<lparr>std_make = make_heap, std_push = push_heap, std_pop = pop_heap\<rparr>\<rparr>"

definition flag_sorter :: "row_buffer sort_state" where
  "flag_sorter = \<lparr>sort_child = flag_rows [False, True], sort_buffer = [], sort_cursor = 0, materialized = False, sort_spilled = False,
     merge_initialized = False, temp_bytes = 0, spill_files = [], run_cursors = [], merge_heap = []\<rparr>"

lemma flag_sort_ok: "sort_ok (flag_sort n) (buffer (sort_child flag_sorter))"
proof -
  have "spillable flag_schema (id_row (VBool b))" for b
    by (simp add: spillable_def tuple_ok_def id_row_def flag_schema_def value_ok_def tuple_serialized_size_def value_serialized_size_def
        is_null_def)
  then show ?thesis
    by (simp add: sort_ok_def sortable_def flag_sort_def flag_sorter_def flag_rows_def keys_defined_def key_value_def alike_def flag_column
        temps_work_def fits_def)
qed

lemma flag_order: "in_order (flag_sort n) (id_row (VBool a)) (id_row (VBool b)) \<longleftrightarrow> (b \<longrightarrow> a)"
  by (auto simp: in_order_def compare_tuples_def flag_sort_def flag_column compare_values_for_sort_def value_compare_def three_way_def
      is_null_def)

theorem sort_refines_witness:
  "\<exists>s'. run_executor (sort_init buffer_init) (sort_next buffer_next (flag_sort (-1))) flag_sorter =
     Some ([id_row (VBool True), id_row (VBool False)], s', None)"
proof -
  have heap: "heap_lib_ok (sort_run_heap (flag_sort (-1)))"
    using vec.std_heap_axioms by (simp add: flag_sort_def)
  have "top_n (flag_sort (-1)) < 0" by (simp add: flag_sort_def)
  from sort_refines [OF buf.executor_axioms heap _ flag_sort_ok this] obtain ts s' where
    r: "run_executor (sort_init buffer_init) (sort_next buffer_next (flag_sort (-1))) flag_sorter = Some (ts, s', None)"
      "sorted_wrt (in_order (flag_sort (-1))) ts" "mset ts = {#id_row (VBool False), id_row (VBool True)#}"
    by (auto simp: flag_sorter_def flag_rows_def)
  obtain a b where ab: "ts = [a, b]" "{#a, b#} = {#id_row (VBool False), id_row (VBool True)#}"
    using r(3) mset_eq_length [of ts "[id_row (VBool False), id_row (VBool True)]"] by (auto simp: length_Suc_conv)
  then consider "a = id_row (VBool False)" "b = id_row (VBool True)" | "a = id_row (VBool True)" "b = id_row (VBool False)"
    by (auto simp: add_eq_conv_ex)
  then show ?thesis using r(1,2) ab(1) flag_order [of "-1"] by cases auto
qed

text \<open>C37: ORDER BY with LIMIT keeps the first rows.  With a limit of n the operator returns n rows (or all, if there are
  fewer) in order, and every row it leaves out is in order after every row it returns.\<close>

theorem top_n_refines:
  assumes "executor ini nxt ready running all_rows rows"
    and "heap_lib_ok (row_heap p)"
    and "ready (sort_child s)" "sortable p (set (all_rows (sort_child s)))" "top_n p \<ge> 0"
  shows "\<exists>ts rest s'. run_executor (sort_init ini) (sort_next nxt p) s = Some (ts, s', None) \<and> sorted_wrt (in_order p) ts \<and>
    mset ts + rest = mset (all_rows (sort_child s)) \<and> length ts = min (nat (top_n p)) (length (all_rows (sort_child s))) \<and>
    (\<forall>t \<in> set ts. \<forall>u \<in># rest. in_order p t u)"
  by (rule executor.top_n_run [OF assms])

theorem top_n_refines_witness:
  "\<exists>t rest s'. run_executor (sort_init buffer_init) (sort_next buffer_next (flag_sort 1)) flag_sorter = Some ([t], s', None) \<and>
     add_mset t rest = {#id_row (VBool False), id_row (VBool True)#} \<and> (\<forall>u \<in># rest. in_order (flag_sort 1) t u)"
proof -
  have heap: "heap_lib_ok (row_heap (flag_sort 1))"
    using vec.std_heap_axioms by (simp add: flag_sort_def)
  have n: "top_n (flag_sort 1) \<ge> 0" "nat (top_n (flag_sort 1)) = 1" by (simp_all add: flag_sort_def)
  have "sortable (flag_sort 1) (set (buffer (sort_child flag_sorter)))" using flag_sort_ok by (simp add: sort_ok_def)
  from top_n_refines [OF buf.executor_axioms heap _ this n(1)] n(2) show ?thesis
    by (auto simp: flag_sorter_def flag_rows_def length_Suc_conv)
qed

end
