(* ===== verification/Distinct.thy ===== *)
theory Distinct
  imports Run_Merge
begin

section \<open>Distinct\<close>

text \<open>
  Model of \<^verbatim>\<open>src/src/sql/executor/distinct_executor.cpp\<close>: rows are filed by the text key of their values; when
  the table of keys exceeds the working memory, the rows go into runs sorted by key, which are merged, skipping rows
  with the key of the one before.  The laws show that either way one row of every key is returned.
\<close>

record distinct_plan =
  distinct_schema :: schema
  distinct_work_mem :: nat
  distinct_temps :: temp_files
  distinct_heap :: "nat heap_lib"

record 's distinct_state =
  distinct_child :: 's
  seen_rows :: "tuple list"
  distinct_cursor :: nat

text \<open>The local variables of \<^verbatim>\<open>init\<close>.\<close>

record distinct_work =
  dw_seen :: "tuple list"
  dw_keys :: "(string, bool) hash_map"
  dw_memory :: nat
  dw_runs :: "byte list list"
  dw_chunk :: "tuple list"

definition key_before :: "tuple \<Rightarrow> tuple \<Rightarrow> bool" where
  "key_before a b = (string_compare (make_tuple_key a) (make_tuple_key b) < 0)"

definition distinct_merge :: "distinct_plan \<Rightarrow> merge_params" where
  "distinct_merge p =
     \<lparr>run_heap = distinct_heap p,
      run_worse = (\<lambda>cs a b. string_compare (make_tuple_key (fst (cs ! a))) (make_tuple_key (fst (cs ! b))) > 0),
      run_name = ''distinct'', run_schema = distinct_schema p\<rparr>"

definition distinct_write_run :: "distinct_plan \<Rightarrow> distinct_work \<Rightarrow> string + distinct_work" where
  "distinct_write_run p d =
     (if dw_chunk d = [] then Inr d
      else
        (case create_run (distinct_temps p) ''distinct'' (length (dw_runs d)) (vector_sort key_before (dw_chunk d)) of
           Inl e \<Rightarrow> Inl e
         | Inr file \<Rightarrow> Inr (d\<lparr>dw_runs := dw_runs d @ [file], dw_chunk := [], dw_memory := 0\<rparr>)))"

definition over_memory :: "distinct_plan \<Rightarrow> nat \<Rightarrow> bool" where
  "over_memory p used \<longleftrightarrow> distinct_work_mem p \<noteq> 0 \<and> used > distinct_work_mem p"

definition add_distinct :: "distinct_plan \<Rightarrow> tuple \<Rightarrow> distinct_work \<Rightarrow> string + distinct_work" where
  "add_distinct p t d =
     (let key = make_tuple_key t;
          used = dw_memory d + tuple_serialized_size t + length key + 96
      in
        if dw_runs d = [] \<and> hm_find hash_string (dw_keys d) key = None
        then
          if over_memory p used
          then distinct_write_run p
            (d\<lparr>dw_memory := used, dw_chunk := dw_chunk d @ dw_seen d @ [t], dw_seen := [], dw_keys := hm_clear (dw_keys d)\<rparr>)
          else Inr (d\<lparr>dw_memory := used, dw_keys := hm_insert hash_string key True (dw_keys d), dw_seen := dw_seen d @ [t]\<rparr>)
        else if dw_runs d \<noteq> []
        then
          let d' = d\<lparr>dw_memory := used, dw_chunk := dw_chunk d @ [t]\<rparr>
          in if over_memory p used then distinct_write_run p d' else Inr d'
        else Inr d)"

partial_function (option) distinct_loop ::
  "'s next_fun \<Rightarrow> distinct_plan \<Rightarrow> 's world \<Rightarrow> distinct_work \<Rightarrow> ((string + distinct_work) \<times> 's world) option" where
  "distinct_loop child_next p w d =
     do { (r, w') \<leftarrow> child_next w;
          case r of
            None \<Rightarrow> Some (Inr d, w')
          | Some t \<Rightarrow>
              (case add_distinct p t d of
                 Inl e \<Rightarrow> Some (Inl e, w')
               | Inr d' \<Rightarrow> distinct_loop child_next p w' d') }"

text \<open>The body of the merge: the rows so far and the last key.\<close>

definition add_merged :: "tuple \<Rightarrow> tuple list \<times> string option \<Rightarrow> tuple list \<times> string option" where
  "add_merged t acc =
     (case acc of (out, last_key) \<Rightarrow>
      if last_key \<noteq> Some (make_tuple_key t) then (out @ [t], Some (make_tuple_key t)) else acc)"

definition distinct_init :: "'s init_fun \<Rightarrow> 's next_fun \<Rightarrow> distinct_plan \<Rightarrow> 's distinct_state init_fun" where
  "distinct_init child_init child_next p w =
     (case w of (s, err) \<Rightarrow>
      do { (c, err1) \<leftarrow> child_init (distinct_child s, err);
           (r, c', err2) \<leftarrow> distinct_loop child_next p (c, err1)
             \<lparr>dw_seen = [], dw_keys = hm_empty, dw_memory = 0, dw_runs = [], dw_chunk = []\<rparr>;
           let s1 = s\<lparr>distinct_child := c', seen_rows := [], distinct_cursor := 0\<rparr>;
           case r of
             Inl e \<Rightarrow> Some (set_executor_error e (s1, err2))
           | Inr d \<Rightarrow>
               if dw_runs d = [] then Some (s1\<lparr>seen_rows := dw_seen d\<rparr>, err2)
               else
                 (case distinct_write_run p d of
                    Inl e \<Rightarrow> Some (set_executor_error e (s1, err2))
                  | Inr d' \<Rightarrow>
                      do { (ts, e) \<leftarrow> merge_files (distinct_merge p) (distinct_temps p) (dw_runs d');
                           let s2 = s1\<lparr>seen_rows := fst (fold add_merged ts ([], None))\<rparr>;
                           Some (case e of None \<Rightarrow> (s2, err2) | Some msg \<Rightarrow> set_executor_error msg (s2, err2)) }) })"

definition distinct_next :: "'s distinct_state next_fun" where
  "distinct_next w =
     (case w of (s, err) \<Rightarrow>
      if err \<noteq> None then Some (None, s, err)
      else if distinct_cursor s \<ge> length (seen_rows s) then Some (None, s, err)
      else Some (Some (seen_rows s ! distinct_cursor s), s\<lparr>distinct_cursor := distinct_cursor s + 1\<rparr>, err))"

definition tuples_equal :: "tuple \<Rightarrow> tuple \<Rightarrow> bool" where
  "tuples_equal a b \<longleftrightarrow> length (t_values a) = length (t_values b) \<and> list_all2 value_eq (t_values a) (t_values b)"

section \<open>Laws\<close>

abbreviation key_le :: "tuple \<Rightarrow> tuple \<Rightarrow> bool" where
  "key_le a b \<equiv> string_compare (make_tuple_key a) (make_tuple_key b) \<le> 0"

lemma comparator_string: "comparator string_compare"
proof -
  have "string_compare = (\<lambda>a b. value_compare (VVarchar a) (VVarchar b))" by (simp add: value_compare_def fun_eq_iff)
  moreover have "comparator (\<lambda>a b. value_compare (VVarchar a) (VVarchar b))"
    using value_order.comparator_axioms unfolding comparator_def by blast
  ultimately show ?thesis by simp
qed

interpretation str_order: comparator string_compare
  by (rule comparator_string)

lemma string_compare_zero: "string_compare s t = 0 \<longleftrightarrow> s = t"
  by (auto simp: string_compare_lex)

lemma string_le_antisym: "string_compare s t \<le> 0 \<Longrightarrow> string_compare t s \<le> 0 \<Longrightarrow> s = t"
  using str_order.cmp_flip_le [of t s] string_compare_zero [of s t] by linarith

lemma run_order_distinct:
  assumes "heap_lib_ok (distinct_heap p)"
  shows "run_order (distinct_merge p) UNIV key_le"
proof (rule run_order.intro)
  show "heap_lib_ok (run_heap (distinct_merge p))" using assms by (simp add: distinct_merge_def)
  show "key_le a b \<or> key_le b a" for a b by (rule str_order.cmp_total)
  show "key_le a c" if "key_le a b" "key_le b c" for a b c using str_order.cmp_trans [OF that] .
  show "run_worse (distinct_merge p) cs i j \<longleftrightarrow> \<not> key_le (fst (cs ! i)) (fst (cs ! j))" for cs i j
    by (simp add: distinct_merge_def not_le)
qed

lemma sort_by_key: "sorted_wrt key_le (vector_sort key_before ts) \<and> mset (vector_sort key_before ts) = mset ts"
proof -
  have "weak_order_on (set ts) key_before"
    unfolding key_before_def by (rule comparator.below_on [of "\<lambda>a b. string_compare (make_tuple_key a) (make_tuple_key b)"])
      (use comparator_string in \<open>unfold comparator_def, blast\<close>)
  from vector_sort_sorts_on [OF this] show ?thesis
    using str_order.cmp_flip_le by (simp add: key_before_def not_less)
qed

lemma merged_keys:
  assumes "sorted_wrt key_le (out @ ts)" "distinct (map make_tuple_key out)"
    and "lk = (if out = [] then None else Some (make_tuple_key (last out)))"
  shows "distinct (map make_tuple_key (fst (fold add_merged ts (out, lk)))) \<and> set (fst (fold add_merged ts (out, lk))) \<subseteq> set (out @ ts) \<and>
    make_tuple_key ` set (fst (fold add_merged ts (out, lk))) = make_tuple_key ` set (out @ ts)"
  using assms
proof (induction ts arbitrary: out lk)
  case (Cons t ts)
  show ?case
  proof (cases "lk = Some (make_tuple_key t)")
    case True
    then have "out \<noteq> []" "make_tuple_key t = make_tuple_key (last out)" using Cons.prems(3) by (auto split: if_splits)
    then have "make_tuple_key t \<in> make_tuple_key ` set out" by simp
    moreover have "sorted_wrt key_le (out @ ts)" using Cons.prems(1) by (simp add: sorted_wrt_append)
    ultimately show ?thesis using Cons.IH [of out lk] Cons.prems(2,3) True by (auto simp: add_merged_def)
  next
    case False
    have "make_tuple_key t \<noteq> make_tuple_key x" if x: "x \<in> set out" for x
    proof
      assume eq: "make_tuple_key t = make_tuple_key x"
      obtain ys l where out: "out = ys @ [l]" using x by (cases out rule: rev_cases) auto
      have "key_le x (last out)" "key_le (last out) t" using Cons.prems(1) x by (auto simp: sorted_wrt_append out)
      then have "make_tuple_key (last out) = make_tuple_key t" using string_le_antisym eq by metis
      then show False using False Cons.prems(3) that by (auto split: if_splits)
    qed
    then have "distinct (map make_tuple_key (out @ [t]))" using Cons.prems(2) by auto
    then show ?thesis using Cons.IH [of "out @ [t]" "Some (make_tuple_key t)"] Cons.prems(1) False by (auto simp: add_merged_def)
  qed
qed simp

text \<open>What the local variables hold after the rows \<open>P\<close>: a row for every key, in memory or in the runs \<open>rs\<close>.\<close>

definition dinv :: "distinct_plan \<Rightarrow> tuple set \<Rightarrow> tuple list list \<Rightarrow> distinct_work \<Rightarrow> bool" where
  "dinv p P rs d \<longleftrightarrow> dw_runs d = map file_of rs \<and> (\<forall>r \<in> set rs. r \<noteq> [] \<and> sorted_wrt key_le r) \<and>
     set (concat rs) \<union> set (dw_chunk d) \<union> set (dw_seen d) \<subseteq> P \<and>
     make_tuple_key ` (set (concat rs) \<union> set (dw_chunk d) \<union> set (dw_seen d)) = make_tuple_key ` P \<and>
     (if rs = [] then dw_chunk d = [] \<and> hm_inv hash_string (dw_keys d) \<and> dom (hm_find hash_string (dw_keys d)) = make_tuple_key ` set (dw_seen d) \<and>
        distinct (map make_tuple_key (dw_seen d))
      else dw_seen d = [])"

lemma write_run_dinv:
  assumes "temps_work (distinct_temps p)" "dw_chunk d \<noteq> [] \<or> rs \<noteq> []" "dw_runs d = map file_of rs" "dw_seen d = []"
    and "\<forall>r \<in> set rs. r \<noteq> [] \<and> sorted_wrt key_le r" "set (concat rs) \<union> set (dw_chunk d) \<subseteq> P"
    and "make_tuple_key ` (set (concat rs) \<union> set (dw_chunk d)) = make_tuple_key ` P"
  shows "\<exists>d' rs'. distinct_write_run p d = Inr d' \<and> dinv p P rs' d' \<and> rs' \<noteq> [] \<and> dw_chunk d' = []"
proof (cases "dw_chunk d = []")
  case True
  then show ?thesis using assms by (intro exI [of _ d] exI [of _ rs]) (auto simp: distinct_write_run_def dinv_def)
next
  case False
  let ?r = "vector_sort key_before (dw_chunk d)"
  have r: "sorted_wrt key_le ?r" "mset ?r = mset (dw_chunk d)" using sort_by_key by auto
  then have set: "set ?r = set (dw_chunk d)" by (metis set_mset_mset)
  then have "?r \<noteq> []" using False by auto
  moreover have "distinct_write_run p d = Inr (d\<lparr>dw_runs := dw_runs d @ [file_of ?r], dw_chunk := [], dw_memory := 0\<rparr>)"
    using False by (simp add: distinct_write_run_def create_run_ok [OF assms(1)])
  ultimately show ?thesis using assms r(1) set
    by (intro exI [of _ "d\<lparr>dw_runs := dw_runs d @ [file_of ?r], dw_chunk := [], dw_memory := 0\<rparr>"] exI [of _ "rs @ [?r]"])
      (auto simp: dinv_def)
qed

lemma add_distinct_ok:
  assumes "temps_work (distinct_temps p)" "dinv p P rs d"
  shows "\<exists>d' rs'. add_distinct p t d = Inr d' \<and> dinv p (insert t P) rs' d'"
proof -
  define used where "used = dw_memory d + tuple_serialized_size t + length (make_tuple_key t) + 96"
  let ?new = "hm_find hash_string (dw_keys d) (make_tuple_key t) = None"
  have mem: "?new \<longleftrightarrow> make_tuple_key t \<notin> make_tuple_key ` set (dw_seen d)" if "rs = []"
  proof -
    have "dom (hm_find hash_string (dw_keys d)) = make_tuple_key ` set (dw_seen d)" using assms(2) that by (simp add: dinv_def)
    then show ?thesis by (metis domIff)
  qed
  consider (first) "rs = []" "?new" "\<not> over_memory p used" | (spill) "rs = []" "?new" "over_memory p used" | (old) "rs = []" "\<not> ?new"
    | (chunk) "rs \<noteq> []" "\<not> over_memory p used" | (run) "rs \<noteq> []" "over_memory p used" by blast
  then show ?thesis
  proof cases
    case first
    let ?d = "d\<lparr>dw_memory := used, dw_keys := hm_insert hash_string (make_tuple_key t) True (dw_keys d), dw_seen := dw_seen d @ [t]\<rparr>"
    have "add_distinct p t d = Inr ?d" using first assms(2) by (simp add: add_distinct_def Let_def used_def dinv_def)
    moreover have inv: "hm_inv hash_string (dw_keys d)" "dom (hm_find hash_string (dw_keys d)) = make_tuple_key ` set (dw_seen d)"
      using assms(2) first(1) by (simp_all add: dinv_def)
    then have "dom (hm_find hash_string (dw_keys ?d)) = insert (make_tuple_key t) (make_tuple_key ` set (dw_seen d))" "hm_inv hash_string (dw_keys ?d)"
      using hm.find_insert [OF inv(1)] hm.invar_insert [OF inv(1)] by (simp_all add: dom_fun_upd del: fun_upd_apply)
    then have "dinv p (insert t P) [] ?d" using assms(2) first(1) mem [OF first(1)] first(2) by (auto simp: dinv_def)
    ultimately show ?thesis by blast
  next
    case spill
    let ?d = "d\<lparr>dw_memory := used, dw_chunk := dw_chunk d @ dw_seen d @ [t], dw_seen := [], dw_keys := hm_clear (dw_keys d)\<rparr>"
    have "add_distinct p t d = distinct_write_run p ?d" using spill assms(2) by (simp add: add_distinct_def Let_def used_def dinv_def)
    moreover have "\<exists>d' rs'. distinct_write_run p ?d = Inr d' \<and> dinv p (insert t P) rs' d' \<and> rs' \<noteq> [] \<and> dw_chunk d' = []"
      by (rule write_run_dinv [OF assms(1), of _ "[]"]) (use assms(2) spill(1) in \<open>auto simp: dinv_def\<close>)
    ultimately show ?thesis by auto
  next
    case old
    then have "make_tuple_key t \<in> make_tuple_key ` set (dw_seen d)" using mem by blast
    then have "dinv p (insert t P) rs d" using assms(2) old(1) by (auto simp: dinv_def insert_absorb)
    moreover have "add_distinct p t d = Inr d" using old assms(2) by (auto simp: add_distinct_def Let_def dinv_def)
    ultimately show ?thesis by blast
  next
    case chunk
    let ?d = "d\<lparr>dw_memory := used, dw_chunk := dw_chunk d @ [t]\<rparr>"
    have "add_distinct p t d = Inr ?d" using chunk assms(2) by (simp add: add_distinct_def Let_def used_def dinv_def)
    moreover have "dinv p (insert t P) rs ?d" using assms(2) chunk(1) by (auto simp: dinv_def)
    ultimately show ?thesis by blast
  next
    case run
    let ?d = "d\<lparr>dw_memory := used, dw_chunk := dw_chunk d @ [t]\<rparr>"
    have "add_distinct p t d = distinct_write_run p ?d" using run assms(2) by (simp add: add_distinct_def Let_def used_def dinv_def)
    moreover have "\<exists>d' rs'. distinct_write_run p ?d = Inr d' \<and> dinv p (insert t P) rs' d' \<and> rs' \<noteq> [] \<and> dw_chunk d' = []"
      by (rule write_run_dinv [OF assms(1), of _ rs]) (use assms(2) run(1) in \<open>auto simp: dinv_def\<close>)
    ultimately show ?thesis by auto
  qed
qed

definition distinct_ok :: "distinct_plan \<Rightarrow> tuple list \<Rightarrow> bool" where
  "distinct_ok p ts \<longleftrightarrow> heap_lib_ok (distinct_heap p) \<and> temps_work (distinct_temps p) \<and> (\<forall>t \<in> set ts. spillable (distinct_schema p) t)"

definition one_per_key :: "tuple list \<Rightarrow> tuple list \<Rightarrow> bool" where
  "one_per_key ts out \<longleftrightarrow> distinct (map make_tuple_key out) \<and> set out \<subseteq> set ts \<and> make_tuple_key ` set out = make_tuple_key ` set ts"

lemma distinct_drain:
  "\<exists>s'. drain_loop distinct_next (s, None) acc = Some (acc @ drop (distinct_cursor s) (seen_rows s), s', None)"
proof (induction "length (seen_rows s) - distinct_cursor s" arbitrary: s acc)
  case 0
  then show ?case by (subst drain_loop.simps) (simp add: distinct_next_def)
next
  case (Suc n)
  then have c: "distinct_cursor s < length (seen_rows s)" by linarith
  let ?s = "s\<lparr>distinct_cursor := distinct_cursor s + 1\<rparr>"
  have "drain_loop distinct_next (s, None) acc = drain_loop distinct_next (?s, None) (acc @ [seen_rows s ! distinct_cursor s])"
    using c by (subst drain_loop.simps) (simp add: distinct_next_def)
  moreover have "n = length (seen_rows ?s) - distinct_cursor ?s" using Suc(2) by simp
  ultimately show ?case using Suc(1) [of ?s "acc @ [seen_rows s ! distinct_cursor s]"] c by (simp add: Cons_nth_drop_Suc)
qed

context executor
begin

lemma distinct_loop_rows:
  assumes "temps_work (distinct_temps p)"
  shows "running c \<Longrightarrow> dinv p P rs d \<Longrightarrow>
    \<exists>d' rs' c'. distinct_loop nxt p (c, None) d = Some (Inr d', c', None) \<and> dinv p (P \<union> set (rows c)) rs' d' \<and> ready c'"
proof (induction "rows c" arbitrary: c d rs P)
  case Nil
  then obtain c' where "nxt (c, None) = Some (None, c', None)" "ready c'" using next_end [of c] by auto
  then show ?case using Nil by (subst distinct_loop.simps) auto
next
  case (Cons t ts)
  obtain c1 where c1: "nxt (c, None) = Some (Some t, c1, None)" "running c1" "rows c1 = ts"
    using next_row [OF Cons(3) Cons(2) [symmetric]] by blast
  obtain d1 rs1 where d1: "add_distinct p t d = Inr d1" "dinv p (insert t P) rs1 d1" using add_distinct_ok [OF assms Cons(4)] by blast
  obtain d' rs' c' where "distinct_loop nxt p (c1, None) d1 = Some (Inr d', c', None)" "dinv p (insert t P \<union> set ts) rs' d'" "ready c'"
    using Cons(1) [of c1 "insert t P" rs1 d1] c1 d1(2) by auto
  then show ?case using c1(1) d1(1) Cons(2) [symmetric] by (subst distinct_loop.simps) auto
qed

lemma distinct_init_rows:
  assumes "ready (distinct_child s)" "distinct_ok p (all_rows (distinct_child s))"
  shows "\<exists>s'. distinct_init ini nxt p (s, None) = Some (s', None) \<and> distinct_cursor s' = 0 \<and>
    one_per_key (all_rows (distinct_child s)) (seen_rows s')"
proof -
  let ?d = "\<lparr>dw_seen = [], dw_keys = hm_empty, dw_memory = 0, dw_runs = [], dw_chunk = []\<rparr>" and ?ts = "all_rows (distinct_child s)"
  have ok: "heap_lib_ok (distinct_heap p)" "temps_work (distinct_temps p)" "\<forall>t \<in> set ?ts. spillable (distinct_schema p) t"
    using assms(2) by (auto simp: distinct_ok_def)
  obtain c where c: "ini (distinct_child s, None) = Some (c, None)" "running c" "rows c = ?ts" using init_ok [OF assms(1)] by blast
  have "dinv p {} [] ?d" by (simp add: dinv_def hm.invar_empty hm.find_empty)
  from distinct_loop_rows [OF ok(2) c(2) this] obtain d rs c' where
    loop: "distinct_loop nxt p (c, None) ?d = Some (Inr d, c', None)" "dinv p (set ?ts) rs d" using c(3) by auto
  show ?thesis
  proof (cases "rs = []")
    case True
    then have "dw_runs d = []" "one_per_key ?ts (dw_seen d)" using loop(2) by (auto simp: dinv_def one_per_key_def)
    then show ?thesis using c(1) loop(1) by (simp add: distinct_init_def)
  next
    case False
    have "\<exists>d' rs'. distinct_write_run p d = Inr d' \<and> dinv p (set ?ts) rs' d' \<and> rs' \<noteq> [] \<and> dw_chunk d' = []"
      by (rule write_run_dinv [OF ok(2), of _ rs]) (use loop(2) False in \<open>auto simp: dinv_def\<close>)
    then obtain d' rs' where d': "distinct_write_run p d = Inr d'" "dinv p (set ?ts) rs' d'" "rs' \<noteq> []" "dw_chunk d' = []" by blast
    have runs: "\<forall>r \<in> set rs'. r \<noteq> [] \<and> sorted_wrt key_le r \<and> set r \<subseteq> UNIV \<and> (\<forall>t \<in> set r. spillable (run_schema (distinct_merge p)) t)"
    proof -
      have "set (concat rs') \<subseteq> set ?ts" "\<forall>r \<in> set rs'. r \<noteq> [] \<and> sorted_wrt key_le r" using d'(2) unfolding dinv_def by blast+
      then show ?thesis using ok(3) by (auto simp: distinct_merge_def subset_iff)
    qed
    obtain ts where ts: "merge_files (distinct_merge p) (distinct_temps p) (map file_of rs') = Some (ts, None)" "sorted_wrt key_le ts"
      "mset ts = mset (concat rs')"
      using run_order.merge_files_ok [OF run_order_distinct [OF ok(1)] ok(2) runs] by blast
    have "one_per_key ?ts (fst (fold add_merged ts ([], None)))"
      using merged_keys [of "[]" ts None] ts(2) mset_eq_setD [OF ts(3)] d'(2-4) by (auto simp: one_per_key_def dinv_def)
    moreover have "dw_runs d \<noteq> []" "dw_runs d' = map file_of rs'" using loop(2) d'(2) False by (auto simp: dinv_def)
    ultimately show ?thesis using c(1) loop(1) d'(1) ts(1) by (simp add: distinct_init_def)
  qed
qed

end

section \<open>Properties\<close>

text \<open>C38: DISTINCT returns one row per key, in memory and through runs.  Above any child that keeps the iterator contract
  the operator ends without a failure; its rows are rows of the child, no two have the same key, and every key of the
  child occurs, whether the rows stay in memory or go through sorted temporary files that are merged.\<close>

theorem distinct_refines:
  assumes "executor ini nxt ready running all_rows rows" "ready (distinct_child s)" "distinct_ok p (all_rows (distinct_child s))"
  shows "\<exists>out s'. run_executor (distinct_init ini nxt p) distinct_next s = Some (out, s', None) \<and>
    distinct (map make_tuple_key out) \<and> set out \<subseteq> set (all_rows (distinct_child s)) \<and>
    make_tuple_key ` set out = make_tuple_key ` set (all_rows (distinct_child s))"
proof -
  obtain s1 where s1: "distinct_init ini nxt p (s, None) = Some (s1, None)" "distinct_cursor s1 = 0"
    "one_per_key (all_rows (distinct_child s)) (seen_rows s1)" using executor.distinct_init_rows [OF assms] by blast
  then show ?thesis using distinct_drain [of s1 "[]"] by (auto simp: run_executor_def one_per_key_def)
qed

definition flag_distinct :: distinct_plan where
  "flag_distinct = \<lparr>distinct_schema = flag_schema, distinct_work_mem = 1,
     distinct_temps = \<lparr>made = (\<lambda>_. Made), written = (\<lambda>_ _. True), reopened = (\<lambda>_. True)\<rparr>,
     distinct_heap = \<lparr>std_make = make_heap, std_push = push_heap, std_pop = pop_heap\<rparr>\<rparr>"

interpretation flag_runs: run_order "distinct_merge flag_distinct" UNIV key_le
  by (rule run_order_distinct) (use vec.std_heap_axioms in \<open>simp add: flag_distinct_def\<close>)

theorem distinct_refines_witness:
  "\<exists>out s'. run_executor (distinct_init buffer_init buffer_next flag_distinct) distinct_next
       \<lparr>distinct_child = flag_rows [True, False, True], seen_rows = [], distinct_cursor = 0\<rparr> = Some (out, s', None) \<and>
     distinct (map make_tuple_key out) \<and> set out \<subseteq> {id_row (VBool True), id_row (VBool False)} \<and>
     make_tuple_key ` set out = make_tuple_key ` {id_row (VBool True), id_row (VBool False)}"
proof -
  let ?s = "\<lparr>distinct_child = flag_rows [True, False, True], seen_rows = [], distinct_cursor = 0\<rparr>"
  have "spillable flag_schema (id_row (VBool b))" for b
    by (simp add: spillable_def tuple_ok_def id_row_def flag_schema_def value_ok_def tuple_serialized_size_def value_serialized_size_def
        is_null_def)
  then have "distinct_ok flag_distinct (buffer (distinct_child ?s))"
    using vec.std_heap_axioms by (simp add: distinct_ok_def flag_distinct_def flag_rows_def temps_work_def)
  moreover have "set (buffer (distinct_child ?s)) = {id_row (VBool True), id_row (VBool False)}" by (auto simp: flag_rows_def)
  ultimately show ?thesis using distinct_refines [OF buf.executor_axioms, where s = ?s and p = flag_distinct] by simp
qed

end
