(* ===== verification/Aggregate.thy ===== *)
theory Aggregate
  imports Distinct
begin

section \<open>Aggregation\<close>

text \<open>
  Model of \<^verbatim>\<open>src/src/sql/executor/aggregate_executor.cpp\<close>: the accumulation of COUNT, SUM, AVG, MIN and MAX, plain
  aggregation over all rows, grouping with a hash table, grouping by sorting in memory and through merged runs, and
  HAVING.  \<open>None\<close> stands for an expression without a defined value.  The counting shortcuts of the child are parameters.
\<close>

datatype agg_func = FCount | FSum | FAvg | FMin | FMax

record aggregate_column =
  agg_fun :: agg_func
  argument :: "expr option"
  agg_distinct :: bool

record aggregate_plan =
  aggregates :: "aggregate_column list"
  group_by :: "expr list"
  having :: "expr option"
  agg_input :: schema
  agg_output :: schema
  agg_work_mem :: nat
  agg_temps :: temp_files
  agg_heap :: "nat heap_lib"

record agg_state =
  ag_count :: u64
  ag_value :: db_value
  ag_has :: bool
  ag_seen :: "(string, bool) hash_map"

definition new_agg :: agg_state where
  "new_agg = \<lparr>ag_count = 0, ag_value = VNull, ag_has = False, ag_seen = hm_empty\<rparr>"

definition widen_int_for_sum :: "db_value \<Rightarrow> db_value" where
  "widen_int_for_sum v =
     (case v of VInt32 x \<Rightarrow> VInt64 (scast x) | VBool b \<Rightarrow> VInt64 (if b then 1 else 0) | _ \<Rightarrow> v)"

definition accumulate :: "agg_state \<Rightarrow> agg_func \<Rightarrow> db_value \<Rightarrow> agg_state" where
  "accumulate st func input =
     (if func = FCount then st\<lparr>ag_count := ag_count st + 1, ag_has := True\<rparr>
      else if is_null input then st
      else if \<not> ag_has st
      then st\<lparr>ag_value := (if func = FSum \<or> func = FAvg then widen_int_for_sum input else input), ag_count := 1, ag_has := True\<rparr>
      else
        (case func of
           FMin \<Rightarrow> st\<lparr>ag_value := (if value_lt input (ag_value st) then input else ag_value st), ag_count := ag_count st + 1\<rparr>
         | FMax \<Rightarrow> st\<lparr>ag_value := (if value_gt input (ag_value st) then input else ag_value st), ag_count := ag_count st + 1\<rparr>
         | _ \<Rightarrow> st\<lparr>ag_value := value_add (ag_value st) input, ag_count := ag_count st + 1\<rparr>))"

definition advance_agg :: "agg_state \<Rightarrow> agg_func \<Rightarrow> db_value \<Rightarrow> bool \<Rightarrow> agg_state" where
  "advance_agg st func input dist =
     (if dist
      then
        let key = make_values_key [input] in
        if hm_find hash_string (ag_seen st) key \<noteq> None then st
        else accumulate (st\<lparr>ag_seen := hm_insert hash_string key True (ag_seen st)\<rparr>) func input
      else accumulate st func input)"

definition numeric_value_as_double :: "db_value \<Rightarrow> nat option" where
  "numeric_value_as_double v =
     (case v of
        VBool _ \<Rightarrow> Some (numeric_as_double v) | VInt32 _ \<Rightarrow> Some (numeric_as_double v) | VInt64 _ \<Rightarrow> Some (numeric_as_double v)
      | VFloat _ \<Rightarrow> Some (numeric_as_double v) | VDouble _ \<Rightarrow> Some (numeric_as_double v) | _ \<Rightarrow> None)"

definition finalize_agg :: "agg_func \<Rightarrow> agg_state \<Rightarrow> db_value" where
  "finalize_agg func st =
     (if \<not> ag_has st then (if func = FCount then VInt64 0 else VNull)
      else
        (case func of
           FCount \<Rightarrow> VInt64 (ag_count st)
         | FAvg \<Rightarrow>
             if ag_count st = 0 then VNull
             else
               (case numeric_value_as_double (ag_value st) of
                  None \<Rightarrow> VNull
                | Some x \<Rightarrow> VDouble (of_nat (fp_div 52 11 x (fp_of_int 52 11 (uint (ag_count st))))))
         | _ \<Rightarrow> ag_value st))"

text \<open>One row for all aggregate columns.\<close>

fun advance_all :: "schema \<Rightarrow> tuple \<Rightarrow> aggregate_column list \<Rightarrow> agg_state list \<Rightarrow> agg_state list option" where
  "advance_all sch t (a # as) (st # sts) =
     do { st' \<leftarrow> (case argument a of
             None \<Rightarrow> Some (advance_agg st (agg_fun a) (VInt64 1) False)
           | Some e \<Rightarrow>
               do { v \<leftarrow> evaluate sch t e;
                    Some (if is_null v then st else advance_agg st (agg_fun a) v (agg_distinct a)) });
          rest \<leftarrow> advance_all sch t as sts;
          Some (st' # rest) }"
| "advance_all sch t _ _ = Some []"

definition new_states :: "aggregate_plan \<Rightarrow> agg_state list" where
  "new_states p = replicate (length (aggregates p)) new_agg"

definition finalize_all :: "aggregate_plan \<Rightarrow> agg_state list \<Rightarrow> db_value list" where
  "finalize_all p states = map2 (\<lambda>a st. finalize_agg (agg_fun a) st) (aggregates p) states"

definition having_error :: string where
  "having_error = ''HAVING expression must be BOOL''"

text \<open>A finished row goes into the result if HAVING accepts it.\<close>

definition emit_row ::
  "aggregate_plan \<Rightarrow> db_value list \<Rightarrow> db_value list list \<times> string option \<Rightarrow> (db_value list list \<times> string option) option" where
  "emit_row p row out =
     (case having p of
        None \<Rightarrow> Some (fst out @ [row], snd out)
      | Some e \<Rightarrow>
          do { cond \<leftarrow> evaluate (agg_output p) (new_row row) e;
               Some (case predicate_truth cond of
                   None \<Rightarrow> (fst out, Some having_error)
                 | Some pass \<Rightarrow> if pass then (fst out @ [row], snd out) else out) })"

subsection \<open>All rows as one group\<close>

partial_function (option) plain_loop ::
  "'s next_fun \<Rightarrow> aggregate_plan \<Rightarrow> 's world \<Rightarrow> agg_state list \<Rightarrow> (agg_state list \<times> 's world) option" where
  "plain_loop child_next p w states =
     do { (r, w') \<leftarrow> child_next w;
          case r of
            None \<Rightarrow> Some (states, w')
          | Some t \<Rightarrow> do { states' \<leftarrow> advance_all (agg_input p) t (aggregates p) states; plain_loop child_next p w' states' } }"

definition count_only :: "aggregate_plan \<Rightarrow> bool" where
  "count_only p \<longleftrightarrow> aggregates p \<noteq> [] \<and> having p = None \<and>
     list_all (\<lambda>a. agg_fun a = FCount \<and> \<not> agg_distinct a \<and> argument a = None) (aggregates p)"

text \<open>The shortcuts of the child answer \<open>None\<close> when they do not apply.\<close>

record 's shortcuts =
  fast_count :: "'s world \<Rightarrow> (u64 option \<times> 's world) option"
  fast_plain :: "aggregate_column list \<Rightarrow> 's world \<Rightarrow> (db_value list option \<times> 's world) option"

definition plain_groups ::
  "'s next_fun \<Rightarrow> 's shortcuts \<Rightarrow> aggregate_plan \<Rightarrow> 's world \<Rightarrow> (db_value list list \<times> 's world) option" where
  "plain_groups child_next fast p w =
     do { (cnt, w1) \<leftarrow> (if count_only p then fast_count fast w else Some (None, w));
          case cnt of
            Some n \<Rightarrow> Some ([map (\<lambda>_. VInt64 n) (aggregates p)], w1)
          | None \<Rightarrow>
              do { (row, w2) \<leftarrow> fast_plain fast (aggregates p) w1;
                   case row of
                     Some vs \<Rightarrow> Some ([vs], w2)
                   | None \<Rightarrow>
                       do { (states, c, err) \<leftarrow> plain_loop child_next p w2 (new_states p);
                            (out, err') \<leftarrow> emit_row p (finalize_all p states) ([], err);
                            Some (out, c, err') } } }"

subsection \<open>Groups in a hash table\<close>

definition group_values :: "aggregate_plan \<Rightarrow> tuple \<Rightarrow> db_value list option" where
  "group_values p t = those (map (evaluate (agg_input p) t) (group_by p))"

record hash_groups =
  groups :: "(db_value list \<times> agg_state list) list"
  group_index :: "(string, nat) hash_map"
  hg_memory :: nat

definition find_group :: "aggregate_plan \<Rightarrow> db_value list \<Rightarrow> hash_groups \<Rightarrow> string + nat \<times> hash_groups" where
  "find_group p key g =
     (let group_key = make_values_key key in
      case hm_find hash_string (group_index g) group_key of
        Some i \<Rightarrow> Inr (i, g)
      | None \<Rightarrow>
          let used = hg_memory g + length group_key + length (aggregates p) * 96 + 128 in
          if agg_work_mem p \<noteq> 0 \<and> used > agg_work_mem p then Inl ''work_mem exceeded during aggregate''
          else Inr (length (groups g), g\<lparr>hg_memory := used, groups := groups g @ [(key, new_states p)],
                 group_index := hm_insert hash_string group_key (length (groups g)) (group_index g)\<rparr>))"

partial_function (option) hash_loop ::
  "'s next_fun \<Rightarrow> aggregate_plan \<Rightarrow> 's world \<Rightarrow> hash_groups \<Rightarrow> ((string + hash_groups) \<times> 's world) option" where
  "hash_loop child_next p w g =
     do { (r, w') \<leftarrow> child_next w;
          case r of
            None \<Rightarrow> Some (Inr g, w')
          | Some t \<Rightarrow>
              do { key \<leftarrow> group_values p t;
                   case find_group p key g of
                     Inl e \<Rightarrow> Some (Inl e, w')
                   | Inr (i, g1) \<Rightarrow>
                       do { states \<leftarrow> advance_all (agg_input p) t (aggregates p) (snd (groups g1 ! i));
                            hash_loop child_next p w' (g1\<lparr>groups := (groups g1)[i := (fst (groups g1 ! i), states)]\<rparr>) } } }"

fun emit_groups ::
  "aggregate_plan \<Rightarrow> (db_value list \<times> agg_state list) list \<Rightarrow> db_value list list \<times> string option \<Rightarrow> (db_value list list \<times> string option) option" where
  "emit_groups p [] out = Some out"
| "emit_groups p ((key, states) # gs) out =
     do { out' \<leftarrow> emit_row p (key @ finalize_all p states) out; emit_groups p gs out' }"

definition hash_groups_of ::
  "'s next_fun \<Rightarrow> aggregate_plan \<Rightarrow> 's world \<Rightarrow> (db_value list list \<times> 's world) option" where
  "hash_groups_of child_next p w =
     do { (r, c, err) \<leftarrow> hash_loop child_next p w \<lparr>groups = [], group_index = hm_empty, hg_memory = 0\<rparr>;
          case r of
            Inl e \<Rightarrow> Some ([], set_executor_error e (c, err))
          | Inr g \<Rightarrow> do { (out, err') \<leftarrow> emit_groups p (groups g) ([], err); Some (out, c, err') } }"

subsection \<open>Groups by sorting\<close>

definition agg_key :: "aggregate_plan \<Rightarrow> tuple \<Rightarrow> string" where
  "agg_key p t = (case group_values p t of None \<Rightarrow> [] | Some vs \<Rightarrow> make_values_key vs)"

definition agg_merge :: "aggregate_plan \<Rightarrow> merge_params" where
  "agg_merge p =
     \<lparr>run_heap = agg_heap p, run_worse = (\<lambda>cs a b. string_compare (agg_key p (fst (cs ! a))) (agg_key p (fst (cs ! b))) > 0),
      run_name = ''aggregate'', run_schema = agg_input p\<rparr>"

record sort_groups =
  ag_chunk :: "(string \<times> tuple) list"
  ag_runs :: "byte list list"
  ag_memory :: nat

definition keyed_before :: "string \<times> tuple \<Rightarrow> string \<times> tuple \<Rightarrow> bool" where
  "keyed_before a b = (string_compare (fst a) (fst b) < 0)"

definition agg_write_run :: "aggregate_plan \<Rightarrow> sort_groups \<Rightarrow> string + sort_groups" where
  "agg_write_run p g =
     (if ag_chunk g = [] then Inr g
      else
        (case create_run (agg_temps p) ''aggregate'' (length (ag_runs g)) (map snd (vector_sort keyed_before (ag_chunk g))) of
           Inl e \<Rightarrow> Inl e
         | Inr file \<Rightarrow> Inr (g\<lparr>ag_runs := ag_runs g @ [file], ag_chunk := [], ag_memory := 0\<rparr>)))"

partial_function (option) agg_read_loop ::
  "'s next_fun \<Rightarrow> aggregate_plan \<Rightarrow> 's world \<Rightarrow> sort_groups \<Rightarrow> ((string + sort_groups) \<times> 's world) option" where
  "agg_read_loop child_next p w g =
     do { (r, w') \<leftarrow> child_next w;
          case r of
            None \<Rightarrow> Some (Inr g, w')
          | Some t \<Rightarrow>
              do { vs \<leftarrow> group_values p t;
                   let key = make_values_key vs;
                       g1 = g\<lparr>ag_memory := ag_memory g + tuple_serialized_size t + length key + 64, ag_chunk := ag_chunk g @ [(key, t)]\<rparr>
                   in
                     if ag_memory g1 > agg_work_mem p
                     then
                       (case agg_write_run p g1 of
                          Inl e \<Rightarrow> Some (Inl e, w')
                        | Inr g2 \<Rightarrow> agg_read_loop child_next p w' g2)
                     else agg_read_loop child_next p w' g1 } }"

text \<open>The group being accumulated: its key, its values and its states; and the rows finished so far.\<close>

record open_group =
  og_current :: "(string \<times> db_value list \<times> agg_state list) option"
  og_out :: "db_value list list \<times> string option"

definition flush_group :: "aggregate_plan \<Rightarrow> open_group \<Rightarrow> (db_value list list \<times> string option) option" where
  "flush_group p q =
     (case og_current q of
        None \<Rightarrow> Some (og_out q)
      | Some (_, vs, states) \<Rightarrow> emit_row p (vs @ finalize_all p states) (og_out q))"

definition group_step :: "aggregate_plan \<Rightarrow> tuple \<Rightarrow> open_group \<Rightarrow> open_group option" where
  "group_step p t q =
     do { q1 \<leftarrow> (if (case og_current q of Some (k, _) \<Rightarrow> agg_key p t \<noteq> k | None \<Rightarrow> True)
            then
              do { out \<leftarrow> flush_group p q;
                   vs \<leftarrow> group_values p t;
                   Some \<lparr>og_current = Some (agg_key p t, vs, new_states p), og_out = out\<rparr> }
            else Some q);
          case og_current q1 of
            None \<Rightarrow> None
          | Some (k, vs, states) \<Rightarrow>
              do { states' \<leftarrow> advance_all (agg_input p) t (aggregates p) states;
                   Some (q1\<lparr>og_current := Some (k, vs, states')\<rparr>) } }"

fun group_fold :: "aggregate_plan \<Rightarrow> tuple list \<Rightarrow> open_group \<Rightarrow> open_group option" where
  "group_fold p [] q = Some q"
| "group_fold p (t # ts) q = do { q' \<leftarrow> group_step p t q; group_fold p ts q' }"

definition group_sorted :: "aggregate_plan \<Rightarrow> tuple list \<Rightarrow> string option \<Rightarrow> (db_value list list \<times> string option) option" where
  "group_sorted p ts err =
     do { q \<leftarrow> group_fold p ts \<lparr>og_current = None, og_out = ([], err)\<rparr>; flush_group p q }"

text \<open>\<^verbatim>\<open>compute_groups_sort_spill\<close>, which always answers true.\<close>

definition sort_groups_of :: "'s next_fun \<Rightarrow> aggregate_plan \<Rightarrow> 's world \<Rightarrow> (db_value list list \<times> 's world) option" where
  "sort_groups_of child_next p w =
     do { (r, c, err) \<leftarrow> agg_read_loop child_next p w \<lparr>ag_chunk = [], ag_runs = [], ag_memory = 0\<rparr>;
          case r of
            Inl e \<Rightarrow> Some ([], set_executor_error e (c, err))
          | Inr g \<Rightarrow>
              if ag_runs g = []
              then
                do { (out, err') \<leftarrow> group_sorted p (map snd (vector_sort keyed_before (ag_chunk g))) err;
                     Some (out, c, err') }
              else
                (case agg_write_run p g of
                   Inl e \<Rightarrow> Some ([], set_executor_error e (c, err))
                 | Inr g' \<Rightarrow>
                     do { (ts, e) \<leftarrow> merge_files (agg_merge p) (agg_temps p) (ag_runs g');
                          (out, err') \<leftarrow> group_sorted p ts (case e of None \<Rightarrow> err | Some msg \<Rightarrow> Some msg);
                          Some (out, c, err') }) }"

subsection \<open>The executor\<close>

text \<open>The shortcuts an executor has unless it overrides them.\<close>

definition no_shortcuts :: "'s shortcuts" where
  "no_shortcuts = \<lparr>fast_count = (\<lambda>w. Some (None, w)), fast_plain = (\<lambda>_ w. Some (None, w))\<rparr>"

record 's agg_exec =
  agg_child :: 's
  result_groups :: "db_value list list"
  agg_cursor :: nat

definition compute_groups ::
  "'s next_fun \<Rightarrow> 's shortcuts \<Rightarrow> aggregate_plan \<Rightarrow> 's world \<Rightarrow> (db_value list list \<times> 's world) option" where
  "compute_groups child_next fast p w =
     (if group_by p = [] then plain_groups child_next fast p w
      else if agg_work_mem p \<noteq> 0 then sort_groups_of child_next p w
      else hash_groups_of child_next p w)"

definition aggregate_init ::
  "'s init_fun \<Rightarrow> 's next_fun \<Rightarrow> 's shortcuts \<Rightarrow> aggregate_plan \<Rightarrow> 's agg_exec init_fun" where
  "aggregate_init child_init child_next fast p w =
     (case w of (s, err) \<Rightarrow>
      do { w1 \<leftarrow> child_init (agg_child s, err);
           (out, c, err') \<leftarrow> compute_groups child_next fast p w1;
           Some (s\<lparr>agg_child := c, agg_cursor := 0, result_groups := out\<rparr>, err') })"

definition aggregate_next :: "'s agg_exec next_fun" where
  "aggregate_next w =
     (case w of (s, err) \<Rightarrow>
      if err \<noteq> None then Some (None, s, err)
      else if agg_cursor s \<ge> length (result_groups s) then Some (None, s, err)
      else Some (Some (new_row (result_groups s ! agg_cursor s)), s\<lparr>agg_cursor := agg_cursor s + 1\<rparr>, err))"

section \<open>Laws\<close>

subsection \<open>Columns\<close>

definition col_step :: "aggregate_plan \<Rightarrow> aggregate_column \<Rightarrow> tuple \<Rightarrow> agg_state \<Rightarrow> agg_state" where
  "col_step p a t st =
     (case argument a of
        None \<Rightarrow> advance_agg st (agg_fun a) (VInt64 1) False
      | Some e \<Rightarrow>
          let v = the (evaluate (agg_input p) t e) in if is_null v then st else advance_agg st (agg_fun a) v (agg_distinct a))"

definition col_value :: "aggregate_plan \<Rightarrow> tuple list \<Rightarrow> aggregate_column \<Rightarrow> db_value" where
  "col_value p ts a = finalize_agg (agg_fun a) (fold (col_step p a) ts new_agg)"

definition states_of :: "aggregate_plan \<Rightarrow> tuple list \<Rightarrow> agg_state list" where
  "states_of p ts = map (\<lambda>a. fold (col_step p a) ts new_agg) (aggregates p)"

definition agg_defined :: "aggregate_plan \<Rightarrow> tuple \<Rightarrow> bool" where
  "agg_defined p t \<longleftrightarrow> group_values p t \<noteq> None \<and>
     (\<forall>a \<in> set (aggregates p). \<forall>e. argument a = Some e \<longrightarrow> evaluate (agg_input p) t e \<noteq> None)"

lemma advance_all_map:
  assumes "\<forall>a \<in> set as. \<forall>e. argument a = Some e \<longrightarrow> evaluate (agg_input p) t e \<noteq> None"
  shows "advance_all (agg_input p) t as (map f as) = Some (map (\<lambda>a. col_step p a t (f a)) as)"
  using assms by (induction as) (auto simp: col_step_def Let_def split: option.splits)

lemma advance_states: "agg_defined p t \<Longrightarrow> advance_all (agg_input p) t (aggregates p) (states_of p ts) = Some (states_of p (ts @ [t]))"
  by (simp add: states_of_def advance_all_map agg_defined_def)

lemma new_states_of: "new_states p = states_of p []"
  by (simp add: new_states_def states_of_def map_replicate_const)

lemma finalize_states: "finalize_all p (states_of p ts) = map (col_value p ts) (aggregates p)"
proof -
  have "map2 (\<lambda>a st. finalize_agg (agg_fun a) st) as (map (\<lambda>a. fold (col_step p a) ts new_agg) as) = map (col_value p ts) as" for as
    by (induction as) (simp_all add: col_value_def)
  then show ?thesis by (simp add: finalize_all_def states_of_def)
qed

subsection \<open>Groups\<close>

definition group_of :: "aggregate_plan \<Rightarrow> tuple list \<Rightarrow> string \<Rightarrow> tuple list" where
  "group_of p ts k = filter (\<lambda>t. agg_key p t = k) ts"

definition agg_row :: "aggregate_plan \<Rightarrow> tuple list \<Rightarrow> db_value list" where
  "agg_row p ts = (if ts = [] then [] else the (group_values p (hd ts))) @ map (col_value p ts) (aggregates p)"

definition having_ok :: "aggregate_plan \<Rightarrow> db_value list \<Rightarrow> bool" where
  "having_ok p row \<longleftrightarrow> (case having p of None \<Rightarrow> True
     | Some e \<Rightarrow> (case evaluate (agg_output p) (new_row row) e of None \<Rightarrow> False | Some c \<Rightarrow> predicate_truth c \<noteq> None))"

definition keeps :: "aggregate_plan \<Rightarrow> db_value list \<Rightarrow> bool" where
  "keeps p row \<longleftrightarrow> (case having p of None \<Rightarrow> True
     | Some e \<Rightarrow> (case evaluate (agg_output p) (new_row row) e of None \<Rightarrow> False | Some c \<Rightarrow> predicate_truth c = Some True))"

lemma emit_row_ok: "having_ok p row \<Longrightarrow> emit_row p row (out, None) = Some (out @ filter (keeps p) [row], None)"
  by (auto simp: emit_row_def having_ok_def keeps_def split: option.splits)

text \<open>Rows whose expressions have values, and groups on which HAVING is a truth value.\<close>

definition agg_ok :: "aggregate_plan \<Rightarrow> tuple list \<Rightarrow> bool" where
  "agg_ok p ts \<longleftrightarrow> (\<forall>t \<in> set ts. agg_defined p t) \<and>
     (\<forall>us. set us \<subseteq> set ts \<longrightarrow> (group_by p \<noteq> [] \<longrightarrow> us \<noteq> []) \<longrightarrow> having_ok p (agg_row p us))"

definition grouped :: "aggregate_plan \<Rightarrow> tuple list \<Rightarrow> string list \<Rightarrow> db_value list list" where
  "grouped p ts ks = filter (keeps p) (map (\<lambda>k. agg_row p (group_of p ts k)) ks)"

lemma group_of_append: "group_of p (ts @ us) k = group_of p ts k @ group_of p us k"
  by (simp add: group_of_def)

lemma group_of_single: "group_of p [t] k = (if agg_key p t = k then [t] else [])"
  by (simp add: group_of_def)

lemma group_of_empty: "group_of p ts k = [] \<longleftrightarrow> k \<notin> agg_key p ` set ts"
  by (auto simp: group_of_def filter_empty_conv)

lemma agg_ok_group: "agg_ok p ts \<Longrightarrow> group_by p \<noteq> [] \<Longrightarrow> set P \<subseteq> set ts \<Longrightarrow> k \<in> agg_key p ` set P \<Longrightarrow> having_ok p (agg_row p (group_of p P k))"
proof -
  assume a: "agg_ok p ts" "group_by p \<noteq> []" "set P \<subseteq> set ts" "k \<in> agg_key p ` set P"
  then have "group_of p P k \<noteq> []" "set (group_of p P k) \<subseteq> set ts" by (auto simp: group_of_empty) (auto simp: group_of_def)
  then show ?thesis using a(1) by (simp add: agg_ok_def)
qed

lemma grouped_snoc: "agg_key p t \<notin> set ks \<Longrightarrow> grouped p (ts @ [t]) ks = grouped p ts ks"
proof -
  assume t: "agg_key p t \<notin> set ks"
  then have "group_of p (ts @ [t]) k = group_of p ts k" if "k \<in> set ks" for k using that by (auto simp: group_of_append group_of_single)
  then show ?thesis by (simp add: grouped_def cong: map_cong)
qed

subsection \<open>Sorted rows\<close>

text \<open>After the rows \<open>P\<close>: the groups of \<open>ks\<close> are finished, that of \<open>k\<close> is open.\<close>

definition ginv :: "aggregate_plan \<Rightarrow> tuple list \<Rightarrow> string list \<Rightarrow> string \<Rightarrow> open_group \<Rightarrow> bool" where
  "ginv p P ks k q \<longleftrightarrow> distinct (ks @ [k]) \<and> set (ks @ [k]) = agg_key p ` set P \<and> (\<forall>t \<in> set P. string_compare (agg_key p t) k \<le> 0) \<and>
     og_current q = Some (k, the (group_values p (hd (group_of p P k))), states_of p (group_of p P k)) \<and>
     og_out q = (grouped p P ks, None)"

lemma flush_ginv:
  assumes "ginv p P ks k q" "having_ok p (agg_row p (group_of p P k))"
  shows "flush_group p q = Some (grouped p P (ks @ [k]), None)"
proof -
  have "group_of p P k \<noteq> []" using assms(1) group_of_empty [of p P k] by (auto simp: ginv_def)
  then have "agg_row p (group_of p P k) = the (group_values p (hd (group_of p P k))) @ finalize_all p (states_of p (group_of p P k))"
    by (simp add: agg_row_def finalize_states)
  then show ?thesis using assms emit_row_ok [OF assms(2)] by (simp add: flush_group_def ginv_def grouped_def)
qed

lemma group_step_first:
  assumes "agg_defined p t" "og_current q = None" "og_out q = ([], None)"
  shows "\<exists>q'. group_step p t q = Some q' \<and> ginv p [t] [] (agg_key p t) q'"
  using assms advance_states [OF assms(1), of "[]"]
  by (auto simp: group_step_def flush_group_def agg_defined_def new_states_of ginv_def group_of_single grouped_def)

lemma group_step_ginv:
  assumes t: "agg_defined p t" and inv: "ginv p P ks k q" and ok: "having_ok p (agg_row p (group_of p P k))"
    and le: "\<forall>u \<in> set P. string_compare (agg_key p u) (agg_key p t) \<le> 0"
  shows "\<exists>q' ks'. group_step p t q = Some q' \<and> ginv p (P @ [t]) ks' (agg_key p t) q'"
proof (cases "agg_key p t = k")
  case True
  have ne: "group_of p P k \<noteq> []" using inv group_of_empty [of p P k] by (auto simp: ginv_def)
  have "group_step p t q = Some (q\<lparr>og_current := Some (k, the (group_values p (hd (group_of p P k))), states_of p (group_of p P k @ [t]))\<rparr>)"
    using inv True advance_states [OF t] by (simp add: group_step_def ginv_def)
  moreover have "grouped p (P @ [t]) ks = grouped p P ks" using grouped_snoc [of p t ks P] inv True by (simp add: ginv_def)
  ultimately show ?thesis using inv True ne by (intro exI [of _ "q\<lparr>og_current := Some (k, the (group_values p (hd (group_of p P k))), states_of p (group_of p P k @ [t]))\<rparr>"] exI [of _ ks])
    (auto simp: ginv_def group_of_append group_of_single)
next
  case False
  have new: "agg_key p t \<notin> agg_key p ` set P"
  proof
    assume "agg_key p t \<in> agg_key p ` set P"
    then have "string_compare (agg_key p t) k \<le> 0" using inv by (auto simp: ginv_def)
    moreover have "k \<in> agg_key p ` set P" using inv by (auto simp: ginv_def)
    then have "string_compare k (agg_key p t) \<le> 0" using le by auto
    ultimately show False using False string_le_antisym by blast
  qed
  let ?ks = "ks @ [k]"
  have d: "distinct ?ks" "set ?ks = agg_key p ` set P" "agg_key p t \<notin> set ?ks" using inv new by (auto simp: ginv_def)
  let ?q = "\<lparr>og_current = Some (agg_key p t, the (group_values p t), states_of p [t]), og_out = (grouped p P ?ks, None)\<rparr>"
  obtain vs where vs: "group_values p t = Some vs" using t by (auto simp: agg_defined_def)
  have "group_step p t q = Some ?q"
    using inv False flush_ginv [OF inv ok] advance_states [OF t, of "[]"] vs by (simp add: group_step_def ginv_def new_states_of)
  moreover have "group_of p (P @ [t]) (agg_key p t) = [t]" using new group_of_empty [of p P] by (simp add: group_of_append group_of_single)
  then have "ginv p (P @ [t]) ?ks (agg_key p t) ?q" using d le grouped_snoc [OF d(3)] by (auto simp: ginv_def)
  ultimately show ?thesis by blast
qed

abbreviation agg_le :: "aggregate_plan \<Rightarrow> tuple \<Rightarrow> tuple \<Rightarrow> bool" where
  "agg_le p a b \<equiv> string_compare (agg_key p a) (agg_key p b) \<le> 0"

lemma group_fold_ok:
  assumes "agg_ok p ts" "group_by p \<noteq> []"
  shows "ginv p P ks k q \<Longrightarrow> sorted_wrt (agg_le p) (P @ us) \<Longrightarrow> set (P @ us) \<subseteq> set ts \<Longrightarrow>
    \<exists>q' ks' k'. group_fold p us q = Some q' \<and> ginv p (P @ us) ks' k' q'"
proof (induction us arbitrary: P ks k q)
  case (Cons t us)
  have "agg_defined p t" using Cons.prems(3) assms(1) by (auto simp: agg_ok_def)
  moreover have "having_ok p (agg_row p (group_of p P k))"
    by (rule agg_ok_group [OF assms]) (use Cons.prems(1,3) in \<open>auto simp: ginv_def\<close>)
  moreover have "\<forall>u \<in> set P. agg_le p u t" using Cons.prems(2) by (auto simp: sorted_wrt_append)
  ultimately obtain q1 ks1 where "group_step p t q = Some q1" "ginv p (P @ [t]) ks1 (agg_key p t) q1"
    using group_step_ginv [OF _ Cons.prems(1)] by blast
  then show ?case using Cons.IH [of "P @ [t]" ks1 "agg_key p t" q1] Cons.prems(2,3) by auto
qed auto

lemma group_sorted_ok:
  assumes "agg_ok p ts" "group_by p \<noteq> []" "sorted_wrt (agg_le p) us" "set us \<subseteq> set ts"
  shows "\<exists>ks. group_sorted p us None = Some (grouped p us ks, None) \<and> distinct ks \<and> set ks = agg_key p ` set us"
proof (cases us)
  case Nil
  then show ?thesis by (auto simp: group_sorted_def flush_group_def grouped_def intro: exI [of _ "[]"])
next
  case (Cons t vs)
  let ?q = "\<lparr>og_current = None, og_out = ([], None)\<rparr>"
  have "agg_defined p t" using assms(1,4) Cons by (auto simp: agg_ok_def)
  then obtain q where q: "group_step p t ?q = Some q" "ginv p [t] [] (agg_key p t) q" using group_step_first [of p t ?q] by auto
  obtain q' ks k where q': "group_fold p vs q = Some q'" "ginv p us ks k q'"
    using group_fold_ok [OF assms(1,2) q(2), of vs] assms(3,4) Cons by auto
  have "having_ok p (agg_row p (group_of p us k))"
    by (rule agg_ok_group [OF assms(1,2,4)]) (use q'(2) in \<open>auto simp: ginv_def\<close>)
  then have "group_sorted p us None = Some (grouped p us (ks @ [k]), None)"
    using q(1) q'(1) Cons flush_ginv [OF q'(2)] by (simp add: group_sorted_def)
  then show ?thesis using q'(2) by (auto simp: ginv_def)
qed

subsection \<open>Runs\<close>

lemma run_order_agg:
  assumes "heap_lib_ok (agg_heap p)"
  shows "run_order (agg_merge p) UNIV (agg_le p)"
proof (rule run_order.intro)
  show "heap_lib_ok (run_heap (agg_merge p))" using assms by (simp add: agg_merge_def)
  show "agg_le p a b \<or> agg_le p b a" for a b by (rule str_order.cmp_total)
  show "agg_le p a c" if "agg_le p a b" "agg_le p b c" for a b c using str_order.cmp_trans [OF that] .
  show "run_worse (agg_merge p) cs i j \<longleftrightarrow> \<not> agg_le p (fst (cs ! i)) (fst (cs ! j))" for cs i j
    by (simp add: agg_merge_def not_le)
qed

definition keyed_ok :: "aggregate_plan \<Rightarrow> (string \<times> tuple) list \<Rightarrow> bool" where
  "keyed_ok p ch \<longleftrightarrow> (\<forall>(k, t) \<in> set ch. k = agg_key p t)"

lemma sort_keyed:
  assumes "keyed_ok p ch"
  shows "sorted_wrt (agg_le p) (map snd (vector_sort keyed_before ch)) \<and> mset (map snd (vector_sort keyed_before ch)) = mset (map snd ch)"
proof -
  have "weak_order_on (set ch) keyed_before"
    unfolding keyed_before_def by (rule comparator.below_on [of "\<lambda>a b. string_compare (fst a) (fst b)"])
      (use comparator_string in \<open>unfold comparator_def, blast\<close>)
  from vector_sort_sorts_on [OF this] have v: "sorted_wrt (\<lambda>a b. \<not> keyed_before b a) (vector_sort keyed_before ch)"
    "mset (vector_sort keyed_before ch) = mset ch" by auto
  have "fst x = agg_key p (snd x)" if "x \<in> set (vector_sort keyed_before ch)" for x
    using that assms mset_eq_setD [OF v(2)] by (auto simp: keyed_ok_def)
  then have "sorted_wrt (\<lambda>a b. agg_le p (snd a) (snd b)) (vector_sort keyed_before ch)"
    using v(1) str_order.cmp_flip_le by (auto intro!: sorted_wrt_mono_rel [OF _ v(1)] simp: keyed_before_def not_less)
  then show ?thesis using v(2) by (simp add: sorted_wrt_map)
qed

definition rinv :: "aggregate_plan \<Rightarrow> tuple list \<Rightarrow> tuple list list \<Rightarrow> sort_groups \<Rightarrow> bool" where
  "rinv p P rs g \<longleftrightarrow> ag_runs g = map file_of rs \<and> (\<forall>r \<in> set rs. r \<noteq> [] \<and> sorted_wrt (agg_le p) r) \<and> keyed_ok p (ag_chunk g) \<and>
     mset (concat rs) + mset (map snd (ag_chunk g)) = mset P"

lemma agg_write_run_ok:
  assumes "temps_work (agg_temps p)" "rinv p P rs g"
  shows "\<exists>g' rs'. agg_write_run p g = Inr g' \<and> rinv p P rs' g' \<and> ag_chunk g' = [] \<and> (rs \<noteq> [] \<longrightarrow> rs' \<noteq> [])"
proof (cases "ag_chunk g = []")
  case True
  then show ?thesis using assms(2) by (auto simp: agg_write_run_def)
next
  case False
  let ?r = "map snd (vector_sort keyed_before (ag_chunk g))"
  have r: "sorted_wrt (agg_le p) ?r" "mset ?r = mset (map snd (ag_chunk g))" using sort_keyed assms(2) by (auto simp: rinv_def)
  then have "?r \<noteq> []" using False by (metis map_is_Nil_conv mset_zero_iff)
  moreover have "agg_write_run p g = Inr (g\<lparr>ag_runs := ag_runs g @ [file_of ?r], ag_chunk := [], ag_memory := 0\<rparr>)"
    using False by (simp add: agg_write_run_def create_run_ok [OF assms(1)])
  moreover have "mset (concat (rs @ [?r])) + mset (map snd []) = mset P" using assms(2) r(2) by (simp add: rinv_def)
  ultimately show ?thesis using assms(2) r(1)
    by (intro exI [of _ "g\<lparr>ag_runs := ag_runs g @ [file_of ?r], ag_chunk := [], ag_memory := 0\<rparr>"] exI [of _ "rs @ [?r]"])
      (auto simp: rinv_def keyed_ok_def)
qed

subsection \<open>The hash table\<close>

definition group_entry :: "aggregate_plan \<Rightarrow> tuple list \<Rightarrow> string \<Rightarrow> db_value list \<times> agg_state list" where
  "group_entry p P k = (the (group_values p (hd (group_of p P k))), states_of p (group_of p P k))"

definition hinv :: "aggregate_plan \<Rightarrow> tuple list \<Rightarrow> string list \<Rightarrow> hash_groups \<Rightarrow> bool" where
  "hinv p P ks g \<longleftrightarrow> groups g = map (group_entry p P) ks \<and> distinct ks \<and> set ks = agg_key p ` set P \<and>
     hm_inv hash_string (group_index g) \<and> dom (hm_find hash_string (group_index g)) = set ks \<and>
     (\<forall>i < length ks. hm_find hash_string (group_index g) (ks ! i) = Some i)"

lemma group_entry_other: "agg_key p t \<noteq> k \<Longrightarrow> group_entry p (P @ [t]) k = group_entry p P k"
  by (simp add: group_entry_def group_of_append group_of_single)

lemma hinv_found:
  assumes inv: "hinv p P ks g" and t: "agg_defined p t" and i: "i < length ks" "ks ! i = agg_key p t"
  shows "advance_all (agg_input p) t (aggregates p) (snd (groups g ! i)) = Some (states_of p (group_of p (P @ [t]) (agg_key p t)))"
    "hinv p (P @ [t]) ks (g\<lparr>groups := (groups g)[i := (fst (groups g ! i), states_of p (group_of p (P @ [t]) (agg_key p t)))]\<rparr>)"
proof -
  let ?k = "agg_key p t"
  have k: "?k \<in> agg_key p ` set P" using inv i by (metis hinv_def nth_mem)
  then have ne: "group_of p P ?k \<noteq> []" by (simp add: group_of_empty)
  have gi: "groups g ! i = group_entry p P ?k" using inv i by (simp add: hinv_def)
  have app: "group_of p (P @ [t]) ?k = group_of p P ?k @ [t]" by (simp add: group_of_append group_of_single)
  show "advance_all (agg_input p) t (aggregates p) (snd (groups g ! i)) = Some (states_of p (group_of p (P @ [t]) ?k))"
    using advance_states [OF t] gi app by (simp add: group_entry_def)
  have new: "(fst (groups g ! i), states_of p (group_of p (P @ [t]) ?k)) = group_entry p (P @ [t]) ?k"
    using gi app ne by (simp add: group_entry_def)
  have "(groups g)[i := group_entry p (P @ [t]) ?k] = map (group_entry p (P @ [t])) ks"
  proof (rule nth_equalityI, use inv in \<open>simp add: hinv_def\<close>)
    fix j assume j: "j < length ((groups g)[i := group_entry p (P @ [t]) ?k])"
    have d: "distinct ks" "length (groups g) = length ks" using inv by (auto simp: hinv_def)
    show "(groups g)[i := group_entry p (P @ [t]) ?k] ! j = map (group_entry p (P @ [t])) ks ! j"
    proof (cases "j = i")
      case False
      then have "ks ! j \<noteq> ?k" using d j i by (metis length_list_update nth_eq_iff_index_eq)
      then show ?thesis using False j d inv group_entry_other [of p t "ks ! j" P] by (simp add: hinv_def)
    qed (use i d in simp)
  qed
  then show "hinv p (P @ [t]) ks (g\<lparr>groups := (groups g)[i := (fst (groups g ! i), states_of p (group_of p (P @ [t]) ?k))]\<rparr>)"
    using inv k new by (auto simp: hinv_def)
qed

lemma hinv_new:
  assumes inv: "hinv p P ks g" and t: "agg_defined p t" and new: "agg_key p t \<notin> set ks"
  shows "hinv p (P @ [t]) (ks @ [agg_key p t])
    (g\<lparr>hg_memory := m, group_index := hm_insert hash_string (agg_key p t) (length (groups g)) (group_index g),
       groups := groups g @ [(the (group_values p t), states_of p [t])]\<rparr>)"
proof -
  let ?k = "agg_key p t"
  have i: "hm_inv hash_string (group_index g)" "dom (hm_find hash_string (group_index g)) = set ks" "length (groups g) = length ks"
    "\<And>i. i < length ks \<Longrightarrow> hm_find hash_string (group_index g) (ks ! i) = Some i" using inv by (auto simp: hinv_def)
  have nk: "?k \<notin> agg_key p ` set P" using inv new by (simp add: hinv_def)
  then have "group_of p (P @ [t]) ?k = [t]" using group_of_empty [of p P ?k] by (simp add: group_of_append group_of_single)
  moreover have "group_entry p (P @ [t]) x = group_entry p P x" if "x \<in> set ks" for x
    using that new by (intro group_entry_other) auto
  then have "map (group_entry p (P @ [t])) ks = map (group_entry p P) ks" by simp
  moreover have "hm_find hash_string (hm_insert hash_string ?k (length ks) (group_index g)) ((ks @ [?k]) ! j) = Some j" if "j < Suc (length ks)" for j
  proof (cases "j < length ks")
    case True
    then have "ks ! j \<noteq> ?k" using new nth_mem [of j ks] by metis
    then show ?thesis using True hm.find_insert [OF i(1)] i(4) by (simp add: nth_append)
  qed (use hm.find_insert [OF i(1)] that in \<open>simp add: nth_append\<close>)
  moreover have "dom (hm_find hash_string (hm_insert hash_string ?k (length ks) (group_index g))) = insert ?k (set ks)"
    using hm.find_insert [OF i(1)] i(2) by (simp add: dom_fun_upd del: fun_upd_apply)
  ultimately show ?thesis
    using inv new i(3) hm.invar_insert [OF i(1)] by (simp add: hinv_def group_entry_def)
qed

lemma emit_groups_ok:
  assumes "agg_ok p P" "group_by p \<noteq> []" "set ks \<subseteq> agg_key p ` set P"
  shows "emit_groups p (map (group_entry p P) ks) (out, None) = Some (out @ grouped p P ks, None)"
  using assms(3)
proof (induction ks arbitrary: out)
  case (Cons k ks)
  have "having_ok p (agg_row p (group_of p P k))" using agg_ok_group [OF assms(1,2)] Cons.prems by simp
  moreover have "group_of p P k \<noteq> []" using Cons.prems by (simp add: group_of_empty)
  then have "fst (group_entry p P k) @ finalize_all p (snd (group_entry p P k)) = agg_row p (group_of p P k)"
    by (simp add: group_entry_def agg_row_def finalize_states)
  ultimately show ?case using Cons emit_row_ok [of p "agg_row p (group_of p P k)" out]
    by (cases "group_entry p P k") (simp add: grouped_def)
qed (simp add: grouped_def)

definition grouping :: "aggregate_plan \<Rightarrow> tuple list \<Rightarrow> db_value list list \<Rightarrow> bool" where
  "grouping p rs out \<longleftrightarrow> (\<exists>ts ks. mset ts = mset rs \<and> distinct ks \<and> set ks = agg_key p ` set rs \<and> out = grouped p ts ks)"

definition agg_files_ok :: "aggregate_plan \<Rightarrow> tuple list \<Rightarrow> bool" where
  "agg_files_ok p ts \<longleftrightarrow> agg_work_mem p \<noteq> 0 \<longrightarrow> heap_lib_ok (agg_heap p) \<and> temps_work (agg_temps p) \<and> (\<forall>t \<in> set ts. spillable (agg_input p) t)"

context executor
begin

lemma hash_loop_rows:
  assumes "agg_work_mem p = 0"
  shows "running c \<Longrightarrow> \<forall>t \<in> set (rows c). agg_defined p t \<Longrightarrow> hinv p P ks g \<Longrightarrow>
    \<exists>g' ks' c'. hash_loop nxt p (c, None) g = Some (Inr g', c', None) \<and> hinv p (P @ rows c) ks' g'"
proof (induction "rows c" arbitrary: c P ks g)
  case Nil
  then obtain c' where "nxt (c, None) = Some (None, c', None)" using next_end [of c] by auto
  then show ?case using Nil by (subst hash_loop.simps) auto
next
  case (Cons t ts)
  obtain c1 where c1: "nxt (c, None) = Some (Some t, c1, None)" "running c1" "rows c1 = ts"
    using next_row [OF Cons(3) Cons(2) [symmetric]] by blast
  have t: "agg_defined p t" and ts: "\<forall>u \<in> set ts. agg_defined p u" using Cons(2) [symmetric] Cons(4) by auto
  then obtain vs where vs: "group_values p t = Some vs" by (auto simp: agg_defined_def)
  then have k: "make_values_key vs = agg_key p t" by (simp add: agg_key_def)
  have "\<exists>g1 ks1. hash_loop nxt p (c, None) g = hash_loop nxt p (c1, None) g1 \<and> hinv p (P @ [t]) ks1 g1"
  proof (cases "hm_find hash_string (group_index g) (agg_key p t)")
    case (Some i)
    then have "agg_key p t \<in> set ks" using Cons(5) by (auto simp: hinv_def)
    then obtain j where "j < length ks" "ks ! j = agg_key p t" by (auto simp: in_set_conv_nth)
    moreover from this have "j = i" using Some Cons(5) by (auto simp: hinv_def)
    ultimately have i: "i < length ks" "ks ! i = agg_key p t" by auto
    show ?thesis
      using c1(1) vs k Some hinv_found [OF Cons(5) t i]
      by (intro exI [of _ "g\<lparr>groups := (groups g)[i := (fst (groups g ! i), states_of p (group_of p (P @ [t]) (agg_key p t)))]\<rparr>"] exI [of _ ks])
        (simp add: hash_loop.simps [of nxt p "(c, None)" g] find_group_def Let_def)
  next
    case None
    then have "agg_key p t \<notin> set ks" using Cons(5) by (auto simp: hinv_def)
    then show ?thesis
      using c1(1) vs k None hinv_new [OF Cons(5) t] advance_states [OF t, of "[]"] assms
      by (intro exI [of _ "g\<lparr>hg_memory := hg_memory g + length (agg_key p t) + length (aggregates p) * 96 + 128,
            group_index := hm_insert hash_string (agg_key p t) (length (groups g)) (group_index g),
            groups := groups g @ [(the (group_values p t), states_of p [t])]\<rparr>"] exI [of _ "ks @ [agg_key p t]"])
        (simp add: hash_loop.simps [of nxt p "(c, None)" g] find_group_def Let_def new_states_of)
  qed
  then obtain g1 ks1 where g1: "hash_loop nxt p (c, None) g = hash_loop nxt p (c1, None) g1" "hinv p (P @ [t]) ks1 g1" by blast
  show ?case using Cons(1) [of c1 "P @ [t]" ks1 g1] c1(2,3) ts g1 Cons(2) [symmetric] by auto
qed

lemma hash_groups_rows:
  assumes "running c" "agg_ok p (rows c)" "group_by p \<noteq> []" "agg_work_mem p = 0"
  shows "\<exists>out c'. hash_groups_of nxt p (c, None) = Some (out, c', None) \<and> grouping p (rows c) out"
proof -
  have "hinv p [] [] \<lparr>groups = [], group_index = hm_empty, hg_memory = 0\<rparr>" by (simp add: hinv_def hm.invar_empty hm.find_empty)
  from hash_loop_rows [OF assms(4,1) _ this] obtain g ks c' where
    g: "hash_loop nxt p (c, None) \<lparr>groups = [], group_index = hm_empty, hg_memory = 0\<rparr> = Some (Inr g, c', None)" "hinv p (rows c) ks g"
    using assms(2) by (auto simp: agg_ok_def)
  have "emit_groups p (groups g) ([], None) = Some (grouped p (rows c) ks, None)"
    using emit_groups_ok [OF assms(2,3), of ks "[]"] g(2) by (simp add: hinv_def)
  then show ?thesis using g by (auto simp: hash_groups_of_def grouping_def hinv_def)
qed

lemma agg_read_loop_rows:
  assumes "temps_work (agg_temps p)"
  shows "running c \<Longrightarrow> \<forall>t \<in> set (rows c). agg_defined p t \<Longrightarrow> rinv p P rs g \<Longrightarrow>
    \<exists>g' rs' c'. agg_read_loop nxt p (c, None) g = Some (Inr g', c', None) \<and> rinv p (P @ rows c) rs' g'"
proof (induction "rows c" arbitrary: c P rs g)
  case Nil
  then obtain c' where "nxt (c, None) = Some (None, c', None)" using next_end [of c] by auto
  then show ?case using Nil by (subst agg_read_loop.simps) auto
next
  case (Cons t ts)
  obtain c1 where c1: "nxt (c, None) = Some (Some t, c1, None)" "running c1" "rows c1 = ts"
    using next_row [OF Cons(3) Cons(2) [symmetric]] by blast
  have t: "agg_defined p t" and ts: "\<forall>u \<in> set ts. agg_defined p u" using Cons(2) [symmetric] Cons(4) by auto
  then obtain vs where vs: "group_values p t = Some vs" by (auto simp: agg_defined_def)
  then have k: "make_values_key vs = agg_key p t" by (simp add: agg_key_def)
  let ?g = "g\<lparr>ag_memory := ag_memory g + tuple_serialized_size t + length (agg_key p t) + 64, ag_chunk := ag_chunk g @ [(agg_key p t, t)]\<rparr>"
  have inv: "rinv p (P @ [t]) rs ?g" using Cons(5) by (auto simp: rinv_def keyed_ok_def)
  have "\<exists>g1 rs1. agg_read_loop nxt p (c, None) g = agg_read_loop nxt p (c1, None) g1 \<and> rinv p (P @ [t]) rs1 g1"
  proof (cases "ag_memory ?g > agg_work_mem p")
    case True
    obtain g1 rs1 where g1: "agg_write_run p ?g = Inr g1" "rinv p (P @ [t]) rs1 g1" using agg_write_run_ok [OF assms inv] by blast
    then have "agg_read_loop nxt p (c, None) g = agg_read_loop nxt p (c1, None) g1"
      using c1(1) vs k True by (subst agg_read_loop.simps) (simp add: Let_def)
    then show ?thesis using g1(2) by blast
  next
    case False
    then have "agg_read_loop nxt p (c, None) g = agg_read_loop nxt p (c1, None) ?g"
      using c1(1) vs k by (subst agg_read_loop.simps) (simp add: Let_def)
    then show ?thesis using inv by blast
  qed
  then obtain g1 rs1 where g1: "agg_read_loop nxt p (c, None) g = agg_read_loop nxt p (c1, None) g1" "rinv p (P @ [t]) rs1 g1" by blast
  show ?case using Cons(1) [of c1 "P @ [t]" rs1 g1] c1(2,3) ts g1 Cons(2) [symmetric] by auto
qed

lemma sort_groups_rows:
  assumes "running c" "agg_ok p (rows c)" "group_by p \<noteq> []" "agg_work_mem p \<noteq> 0" "agg_files_ok p (rows c)"
  shows "\<exists>out c'. sort_groups_of nxt p (c, None) = Some (out, c', None) \<and> grouping p (rows c) out"
proof -
  let ?g = "\<lparr>ag_chunk = [], ag_runs = [], ag_memory = 0\<rparr>"
  have ok: "heap_lib_ok (agg_heap p)" "temps_work (agg_temps p)" "\<forall>t \<in> set (rows c). spillable (agg_input p) t"
    using assms(4,5) by (auto simp: agg_files_ok_def)
  have "rinv p [] [] ?g" by (simp add: rinv_def keyed_ok_def)
  from agg_read_loop_rows [OF ok(2) assms(1) _ this] obtain g rs c' where
    g: "agg_read_loop nxt p (c, None) ?g = Some (Inr g, c', None)" "rinv p (rows c) rs g"
    using assms(2) by (auto simp: agg_ok_def)
  have "\<exists>ts. mset ts = mset (rows c) \<and> sorted_wrt (agg_le p) ts \<and>
    sort_groups_of nxt p (c, None) = (do { (out, err') \<leftarrow> group_sorted p ts None; Some (out, c', err') })"
  proof (cases "rs = []")
    case True
    let ?ts = "map snd (vector_sort keyed_before (ag_chunk g))"
    have "sorted_wrt (agg_le p) ?ts" "mset ?ts = mset (rows c)" using sort_keyed [of p "ag_chunk g"] g(2) True by (auto simp: rinv_def)
    moreover have "ag_runs g = []" using g(2) True by (simp add: rinv_def)
    ultimately show ?thesis using g(1) by (intro exI [of _ ?ts]) (simp add: sort_groups_of_def)
  next
    case False
    obtain g' rs' where g': "agg_write_run p g = Inr g'" "rinv p (rows c) rs' g'" "ag_chunk g' = []"
      using agg_write_run_ok [OF ok(2) g(2)] by blast
    have m: "mset (concat rs') = mset (rows c)" using g'(2,3) by (simp add: rinv_def)
    have runs: "\<forall>r \<in> set rs'. r \<noteq> [] \<and> sorted_wrt (agg_le p) r \<and> set r \<subseteq> UNIV \<and> (\<forall>t \<in> set r. spillable (run_schema (agg_merge p)) t)"
    proof -
      have "\<forall>r \<in> set rs'. r \<noteq> [] \<and> sorted_wrt (agg_le p) r" using g'(2) unfolding rinv_def by blast
      then show ?thesis using ok(3) mset_eq_setD [OF m] by (auto simp: agg_merge_def set_eq_iff)
    qed
    obtain ts where ts: "merge_files (agg_merge p) (agg_temps p) (map file_of rs') = Some (ts, None)" "sorted_wrt (agg_le p) ts"
      "mset ts = mset (concat rs')"
      using run_order.merge_files_ok [OF run_order_agg [OF ok(1)] ok(2) runs] by blast
    have "ag_runs g \<noteq> []" "ag_runs g' = map file_of rs'" using g(2) g'(2) False by (auto simp: rinv_def)
    then show ?thesis using g(1) g'(1) ts m by (intro exI [of _ ts]) (simp add: sort_groups_of_def)
  qed
  then obtain ts where ts: "mset ts = mset (rows c)" "sorted_wrt (agg_le p) ts"
    "sort_groups_of nxt p (c, None) = (do { (out, err') \<leftarrow> group_sorted p ts None; Some (out, c', err') })" by blast
  have "set ts = set (rows c)" using mset_eq_setD [OF ts(1)] .
  then obtain ks where "group_sorted p ts None = Some (grouped p ts ks, None)" "distinct ks" "set ks = agg_key p ` set (rows c)"
    using group_sorted_ok [OF assms(2,3) ts(2)] by auto
  then show ?thesis using ts(1,3) by (auto simp: grouping_def)
qed

lemma plain_loop_rows:
  "running c \<Longrightarrow> \<forall>t \<in> set (rows c). agg_defined p t \<Longrightarrow>
    \<exists>c'. plain_loop nxt p (c, None) (states_of p ts) = Some (states_of p (ts @ rows c), c', None)"
proof (induction "rows c" arbitrary: c ts)
  case Nil
  then obtain c' where "nxt (c, None) = Some (None, c', None)" using next_end [of c] by auto
  then show ?case using Nil by (subst plain_loop.simps) auto
next
  case (Cons t us)
  obtain c1 where c1: "nxt (c, None) = Some (Some t, c1, None)" "running c1" "rows c1 = us"
    using next_row [OF Cons(3) Cons(2) [symmetric]] by blast
  have t: "agg_defined p t" "\<forall>u \<in> set us. agg_defined p u" using Cons(2) [symmetric] Cons(4) by auto
  then show ?case using Cons(1) [of c1 "ts @ [t]"] c1 Cons(2) [symmetric] advance_states [OF t(1), of ts]
    by (subst plain_loop.simps) auto
qed

end

subsection \<open>The values of the columns\<close>

text \<open>The values a column aggregates: 1 for every row without an argument, else the values that are not NULL, with
  DISTINCT one of each key.\<close>

definition argument_values :: "aggregate_plan \<Rightarrow> tuple list \<Rightarrow> aggregate_column \<Rightarrow> db_value list" where
  "argument_values p ts a =
     (case argument a of
        None \<Rightarrow> map (\<lambda>_. VInt64 1) ts
      | Some e \<Rightarrow>
          let vs = filter (\<lambda>v. \<not> is_null v) (map (\<lambda>t. the (evaluate (agg_input p) t e)) ts)
          in if agg_distinct a then keep_first (\<lambda>v. make_values_key [v]) {} vs else vs)"

definition same_agg :: "agg_state \<Rightarrow> agg_state \<Rightarrow> bool" where
  "same_agg a b \<longleftrightarrow> ag_count a = ag_count b \<and> ag_value a = ag_value b \<and> ag_has a = ag_has b"

lemma same_agg_accumulate: "same_agg a b \<Longrightarrow> same_agg (accumulate a f v) (accumulate b f v) \<and> ag_seen (accumulate a f v) = ag_seen a"
  by (auto simp: same_agg_def accumulate_def split: agg_func.splits)

lemma fold_distinct:
  assumes "hm_inv hash_string (ag_seen st)" "same_agg st st'"
  shows "same_agg (fold (\<lambda>v st. advance_agg st f v True) vs st)
    (fold (\<lambda>v st. accumulate st f v) (keep_first (\<lambda>v. make_values_key [v]) (dom (hm_find hash_string (ag_seen st))) vs) st')"
  using assms
proof (induction vs arbitrary: st st')
  case (Cons v vs)
  let ?k = "make_values_key [v]"
  show ?case
  proof (cases "hm_find hash_string (ag_seen st) ?k")
    case None
    let ?st = "accumulate (st\<lparr>ag_seen := hm_insert hash_string ?k True (ag_seen st)\<rparr>) f v"
    have s: "same_agg ?st (accumulate st' f v)" "ag_seen ?st = hm_insert hash_string ?k True (ag_seen st)"
      using same_agg_accumulate [of "st\<lparr>ag_seen := hm_insert hash_string ?k True (ag_seen st)\<rparr>" st' f v] Cons.prems(2) by (auto simp: same_agg_def)
    have "hm_inv hash_string (ag_seen ?st)" "dom (hm_find hash_string (ag_seen ?st)) = insert ?k (dom (hm_find hash_string (ag_seen st)))"
      using hm.invar_insert [OF Cons.prems(1)] hm.find_insert [OF Cons.prems(1)] by (simp_all add: s(2) dom_fun_upd del: fun_upd_apply)
    then show ?thesis using Cons.IH [of ?st "accumulate st' f v"] s(1) None by (simp add: advance_agg_def Let_def domIff)
  next
    case (Some b)
    then show ?thesis using Cons.IH [OF Cons.prems] by (auto simp: advance_agg_def Let_def)
  qed
qed simp

lemma same_agg_refl [simp]: "same_agg a a"
  by (simp add: same_agg_def)

lemma col_step_values: "same_agg (fold (col_step p a) ts new_agg) (fold (\<lambda>v st. accumulate st (agg_fun a) v) (argument_values p ts a) new_agg)"
proof (cases "argument a")
  case None
  then have "fold (col_step p a) ts st = fold (\<lambda>v st. accumulate st (agg_fun a) v) (argument_values p ts a) st" for st
    by (induction ts arbitrary: st) (simp_all add: col_step_def argument_values_def advance_agg_def)
  then show ?thesis by simp
next
  case (Some e)
  let ?vs = "filter (\<lambda>v. \<not> is_null v) (map (\<lambda>t. the (evaluate (agg_input p) t e)) ts)"
  have f: "fold (col_step p a) ts st = fold (\<lambda>v st. advance_agg st (agg_fun a) v (agg_distinct a)) ?vs st" for st
    using Some by (induction ts arbitrary: st) (simp_all add: col_step_def Let_def)
  show ?thesis
  proof (cases "agg_distinct a")
    case True
    have "hm_inv hash_string (ag_seen new_agg)" "dom (hm_find hash_string (ag_seen new_agg)) = {}"
      by (simp_all add: new_agg_def hm.invar_empty hm.find_empty)
    then show ?thesis using fold_distinct [of new_agg new_agg "agg_fun a" ?vs] True Some by (simp add: f argument_values_def)
  next
    case False
    then show ?thesis using Some by (simp add: f argument_values_def advance_agg_def)
  qed
qed

lemma finalize_same: "same_agg a b \<Longrightarrow> finalize_agg f a = finalize_agg f b"
  by (cases f) (simp_all add: same_agg_def finalize_agg_def split: option.split)

lemma col_value_fold: "col_value p ts a = finalize_agg (agg_fun a) (fold (\<lambda>v st. accumulate st (agg_fun a) v) (argument_values p ts a) new_agg)"
  unfolding col_value_def by (rule finalize_same [OF col_step_values])

lemma argument_values_not_null:
  assumes "v \<in> set (argument_values p ts a)"
  shows "\<not> is_null v"
proof -
  have "set (keep_first (\<lambda>v. make_values_key [v]) {} vs) \<subseteq> set vs" for vs
    by (rule keep_first_keys [THEN conjunct2, THEN conjunct2])
  note sub = subsetD [OF this]
  show ?thesis
  proof (cases "argument a")
    case None
    then show ?thesis using assms by (auto simp: argument_values_def is_null_def)
  next
    case (Some e)
    then have "v \<in> set (filter (\<lambda>v. \<not> is_null v) (map (\<lambda>t. the (evaluate (agg_input p) t e)) ts))"
      using assms sub by (cases "agg_distinct a") (simp_all only: argument_values_def option.case Let_def if_True if_False)
    then show ?thesis by simp
  qed
qed

lemma fold_count: "fold (\<lambda>v st. accumulate st FCount v) vs st = st\<lparr>ag_count := ag_count st + of_nat (length vs), ag_has := (ag_has st \<or> vs \<noteq> [])\<rparr>"
  by (induction vs arbitrary: st) (auto simp: accumulate_def)

lemma fold_extreme:
  assumes "f = FMin \<or> f = FMax" "vs \<noteq> []" "\<forall>v \<in> set vs. \<not> is_null v" "\<not> ag_has st"
  shows "ag_has (fold (\<lambda>v st. accumulate st f v) vs st) \<and> ag_value (fold (\<lambda>v st. accumulate st f v) vs st) \<in> set vs \<and>
    (\<forall>v \<in> set vs. if f = FMin then value_compare (ag_value (fold (\<lambda>v st. accumulate st f v) vs st)) v \<le> 0
       else value_compare v (ag_value (fold (\<lambda>v st. accumulate st f v) vs st)) \<le> 0)"
  using assms(2-4)
proof (induction vs rule: rev_induct)
  case (snoc x vs)
  show ?case
  proof (cases "vs = []")
    case True
    then show ?thesis using snoc.prems assms(1) by (auto simp: accumulate_def)
  next
    case False
    let ?st = "fold (\<lambda>v st. accumulate st f v) vs st"
    have ih: "ag_has ?st" "ag_value ?st \<in> set vs"
      "\<And>v. v \<in> set vs \<Longrightarrow> if f = FMin then value_compare (ag_value ?st) v \<le> 0 else value_compare v (ag_value ?st) \<le> 0"
      using snoc.IH [OF False] snoc.prems by auto
    have min: "value_compare x v \<le> 0" if "f = FMin" "value_compare x (ag_value ?st) < 0" "v \<in> set vs" for v
      using value_order.cmp_trans [of x "ag_value ?st" v] ih(3) [OF that(3)] that by auto
    have max: "value_compare v x \<le> 0" if "f = FMax" "value_compare x (ag_value ?st) > 0" "v \<in> set vs" for v
      using value_order.cmp_trans [of v "ag_value ?st" x] ih(3) [OF that(3)] that value_order.cmp_flip_le [of "ag_value ?st" x] by auto
    have x: "\<not> is_null x" using snoc.prems(2) by simp
    have low: "value_compare (ag_value ?st) x \<le> 0" if "\<not> value_compare x (ag_value ?st) < 0"
      using that value_order.cmp_flip_le [of "ag_value ?st" x] by simp
    show ?thesis
    proof (cases "f = FMin")
      case True
      then have "fold (\<lambda>v st. accumulate st f v) (vs @ [x]) st = ?st\<lparr>ag_value := (if value_compare x (ag_value ?st) < 0 then x else ag_value ?st),
          ag_count := ag_count ?st + 1\<rparr>" using ih(1) x by (simp add: accumulate_def value_lt_def)
      then show ?thesis using True ih min low by simp
    next
      case False
      then have f: "f = FMax" using assms(1) by simp
      then have "fold (\<lambda>v st. accumulate st f v) (vs @ [x]) st = ?st\<lparr>ag_value := (if value_compare x (ag_value ?st) > 0 then x else ag_value ?st),
          ag_count := ag_count ?st + 1\<rparr>" using ih(1) x by (simp add: accumulate_def value_gt_def)
      then show ?thesis using f ih max by (auto simp: not_less)
    qed
  qed
qed simp

definition int_values :: "db_value list \<Rightarrow> bool" where
  "int_values vs \<longleftrightarrow> (\<forall>v \<in> set vs. \<exists>b i j. v = VBool b \<or> v = VInt32 i \<or> v = VInt64 j)"

lemma widen_int: "int_values [v] \<Longrightarrow> widen_int_for_sum v = VInt64 (word_of_int (to_i64 v))"
  by (cases v) (simp_all add: int_values_def widen_int_for_sum_def)

lemma add_int:
  assumes "int_values [v]" "\<bar>i\<bar> + \<bar>to_i64 v\<bar> < 2 ^ 63"
  shows "value_add (VInt64 (word_of_int i)) v = VInt64 (word_of_int (i + to_i64 v))"
proof -
  have "sint (word_of_int i :: i64) = i" using assms(2) by (intro sint_word_of_int64) (auto simp: in_i64_def)
  moreover have "in_i64 (i + to_i64 v)" using assms(2) by (auto simp: in_i64_def)
  ultimately show ?thesis using assms(1)
    by (auto simp: int_values_def value_add_def is_null_def is_temporal_def promote_def int64_or_null_def)
qed

lemma fold_sum:
  assumes "f = FSum \<or> f = FAvg" "int_values vs" "vs \<noteq> []" "(\<Sum>v \<leftarrow> vs. \<bar>to_i64 v\<bar>) < 2 ^ 63" "\<not> ag_has st"
  shows "ag_has (fold (\<lambda>v st. accumulate st f v) vs st) \<and>
    ag_value (fold (\<lambda>v st. accumulate st f v) vs st) = VInt64 (word_of_int (\<Sum>v \<leftarrow> vs. to_i64 v)) \<and>
    ag_count (fold (\<lambda>v st. accumulate st f v) vs st) = of_nat (length vs)"
  using assms(2-5)
proof (induction vs rule: rev_induct)
  case (snoc x vs)
  have nn: "\<not> is_null x" "int_values [x]" "int_values vs" using snoc.prems(1) by (auto simp: int_values_def is_null_def)
  show ?case
  proof (cases "vs = []")
    case True
    then show ?thesis using snoc.prems(4) assms(1) nn(1) widen_int [OF nn(2)] by (auto simp: accumulate_def)
  next
    case False
    let ?st = "fold (\<lambda>v st. accumulate st f v) vs st"
    have abs: "\<bar>\<Sum>v \<leftarrow> vs. to_i64 v\<bar> \<le> (\<Sum>v \<leftarrow> vs. \<bar>to_i64 v\<bar>)" by (induction vs) auto
    have s: "(\<Sum>v \<leftarrow> vs. \<bar>to_i64 v\<bar>) + \<bar>to_i64 x\<bar> < 2 ^ 63" using snoc.prems(3) by simp
    then have "ag_has ?st" "ag_value ?st = VInt64 (word_of_int (\<Sum>v \<leftarrow> vs. to_i64 v))" "ag_count ?st = of_nat (length vs)"
      using snoc.IH [OF nn(3) False _ snoc.prems(4)] by auto
    then show ?thesis using assms(1) nn(1) add_int [OF nn(2), of "\<Sum>v \<leftarrow> vs. to_i64 v"] abs s by (auto simp: accumulate_def)
  qed
qed simp

subsection \<open>Whole statements\<close>

lemma aggregate_drain:
  "\<exists>s'. drain_loop aggregate_next (s, None) acc = Some (acc @ map new_row (drop (agg_cursor s) (result_groups s)), s', None)"
proof (induction "length (result_groups s) - agg_cursor s" arbitrary: s acc)
  case 0
  then show ?case by (subst drain_loop.simps) (simp add: aggregate_next_def)
next
  case (Suc n)
  then have c: "agg_cursor s < length (result_groups s)" by linarith
  let ?s = "s\<lparr>agg_cursor := agg_cursor s + 1\<rparr>" and ?t = "new_row (result_groups s ! agg_cursor s)"
  have "drain_loop aggregate_next (s, None) acc = drain_loop aggregate_next (?s, None) (acc @ [?t])"
    using c by (subst drain_loop.simps) (simp add: aggregate_next_def)
  moreover have "n = length (result_groups ?s) - agg_cursor ?s" using Suc(2) by simp
  moreover have "map new_row (drop (agg_cursor s) (result_groups s)) = ?t # map new_row (drop (Suc (agg_cursor s)) (result_groups s))"
    using c by (simp flip: Cons_nth_drop_Suc)
  ultimately show ?case using Suc(1) [of ?s "acc @ [?t]"] by simp
qed

lemma aggregate_run:
  assumes "child_init (agg_child s, None) = Some w" "compute_groups child_next fast p w = Some (out, c, None)"
  shows "\<exists>s'. run_executor (aggregate_init child_init child_next fast p) aggregate_next s = Some (map new_row out, s', None)"
  using assms aggregate_drain [of "s\<lparr>agg_child := c, agg_cursor := 0, result_groups := out\<rparr>" "[]"]
  by (simp add: run_executor_def aggregate_init_def)

text \<open>A child with shortcuts: when one applies, it answers what the rows say, otherwise it leaves the rows alone.\<close>

locale shortcut_executor = executor ini nxt ready running all_rows rows
  for ini :: "'s init_fun" and nxt and ready and running and all_rows and rows +
  fixes fast :: "'s shortcuts" and sch :: schema
  assumes count_ok: "running s \<Longrightarrow> \<exists>r s'. fast_count fast (s, None) = Some (r, s', None) \<and>
      (case r of None \<Rightarrow> running s' \<and> rows s' = rows s | Some n \<Rightarrow> n = of_nat (length (rows s)))"
    and plain_ok: "running s \<Longrightarrow> \<exists>r s'. fast_plain fast as (s, None) = Some (r, s', None) \<and>
      (case r of None \<Rightarrow> running s' \<and> rows s' = rows s
       | Some vs \<Rightarrow> \<forall>p. agg_input p = sch \<longrightarrow> vs = map (col_value p (rows s)) as)"
begin

lemma plain_groups_rows:
  assumes "running c" "agg_ok p (rows c)" "group_by p = []" "agg_input p = sch" "having p \<noteq> None \<longrightarrow> fast = no_shortcuts"
  shows "\<exists>c'. plain_groups nxt fast p (c, None) = Some (filter (keeps p) [agg_row p (rows c)], c', None)"
proof -
  have row: "agg_row p (rows c) = map (col_value p (rows c)) (aggregates p)" using assms(3) by (simp add: agg_row_def group_values_def)
  obtain cnt c1 where c1: "(if count_only p then fast_count fast (c, None) else Some (None, c, None)) = Some (cnt, c1, None)"
    "case cnt of None \<Rightarrow> running c1 \<and> rows c1 = rows c | Some n \<Rightarrow> count_only p \<and> n = of_nat (length (rows c))"
    using count_ok [OF assms(1)] assms(1) by (cases "count_only p") (auto split: option.splits)
  show ?thesis
  proof (cases cnt)
    case (Some n)
    have "col_value p (rows c) a = VInt64 n" if "a \<in> set (aggregates p)" for a
      using c1(2) Some that fold_count [of "argument_values p (rows c) a" new_agg]
      by (auto simp: col_value_fold count_only_def list_all_iff finalize_agg_def argument_values_def new_agg_def)
    then have "map (\<lambda>_. VInt64 n) (aggregates p) = agg_row p (rows c)" by (simp add: row)
    moreover have "having p = None" using c1(2) Some by (simp add: count_only_def)
    ultimately show ?thesis using c1(1) Some by (simp add: plain_groups_def keeps_def)
  next
    case None
    then have r: "running c1" "rows c1 = rows c" using c1(2) by auto
    obtain v c2 where c2: "fast_plain fast (aggregates p) (c1, None) = Some (v, c2, None)"
      "case v of None \<Rightarrow> running c2 \<and> rows c2 = rows c | Some vs \<Rightarrow> vs = agg_row p (rows c)"
    proof -
      obtain v c2 where f: "fast_plain fast (aggregates p) (c1, None) = Some (v, c2, None)"
        "case v of None \<Rightarrow> running c2 \<and> rows c2 = rows c1 | Some vs \<Rightarrow> \<forall>p'. agg_input p' = sch \<longrightarrow> vs = map (col_value p' (rows c1)) (aggregates p)"
        using plain_ok [OF r(1)] by blast
      show ?thesis using that [OF f(1)] f(2) assms(4) r(2) row by (cases v) simp_all
    qed
    show ?thesis
    proof (cases v)
      case (Some vs)
      then have "having p = None" using assms(5) c2(1) by (auto simp: no_shortcuts_def)
      then show ?thesis using c1(1) None c2 Some by (simp add: plain_groups_def keeps_def)
    next
      case vn: None
      then have r2: "running c2" "rows c2 = rows c" using c2(2) by auto
      obtain c3 where "plain_loop nxt p (c2, None) (new_states p) = Some (states_of p (rows c), c3, None)"
        using plain_loop_rows [OF r2(1), of p "[]"] r2(2) assms(2) by (auto simp: agg_ok_def new_states_of)
      moreover have "having_ok p (agg_row p (rows c))" using assms(2,3) by (simp add: agg_ok_def)
      ultimately show ?thesis using c1(1) None c2(1) vn emit_row_ok [of p "agg_row p (rows c)" "[]"]
        by (simp add: plain_groups_def finalize_states row)
    qed
  qed
qed

end

interpretation bufc: shortcut_executor buffer_init buffer_next "\<lambda>_. True" "\<lambda>_. True" buffer "\<lambda>s. drop (cursor s) (buffer s)" no_shortcuts sch
  by unfold_locales (auto simp: no_shortcuts_def)

section \<open>Properties\<close>

text \<open>C39: GROUP BY groups.  Above any child that keeps the iterator contract the operator ends without a failure.  Up to the
  order of the rows it returns one row for every group key, with the values of the group's columns and its aggregates
  over exactly the rows with that key, except for the groups HAVING rejects; with a hash table, by sorting in memory
  and by merging runs alike.\<close>

theorem aggregate_refines:
  assumes "executor ini nxt ready running all_rows rows" "ready (agg_child s)" "group_by p \<noteq> []"
    and "agg_ok p (all_rows (agg_child s))" "agg_files_ok p (all_rows (agg_child s))"
  shows "\<exists>ts ks s'. run_executor (aggregate_init ini nxt fast p) aggregate_next s =
      Some (map new_row (filter (keeps p) (map (\<lambda>k. agg_row p (filter (\<lambda>t. agg_key p t = k) ts)) ks)), s', None) \<and>
    mset ts = mset (all_rows (agg_child s)) \<and> distinct ks \<and> set ks = agg_key p ` set (all_rows (agg_child s))"
proof -
  let ?rs = "all_rows (agg_child s)"
  obtain c where c: "ini (agg_child s, None) = Some (c, None)" "running c" "rows c = ?rs"
    using executor.init_ok [OF assms(1,2)] by blast
  have "\<exists>out c'. compute_groups nxt fast p (c, None) = Some (out, c', None) \<and> grouping p (rows c) out"
    using executor.sort_groups_rows [OF assms(1) c(2)] executor.hash_groups_rows [OF assms(1) c(2)] assms(3-5) c(3)
    by (cases "agg_work_mem p = 0") (simp_all add: compute_groups_def)
  then show ?thesis using aggregate_run [of ini s "(c, None)" nxt fast p] c(1,3)
    unfolding grouping_def grouped_def group_of_def by metis
qed

definition flag_max :: aggregate_column where
  "flag_max = \<lparr>agg_fun = FMax, argument = Some (ColumnRef [] ''id''), agg_distinct = False\<rparr>"

definition flag_agg :: "expr list \<Rightarrow> aggregate_plan" where
  "flag_agg gb = \<lparr>aggregates = [\<lparr>agg_fun = FCount, argument = None, agg_distinct = False\<rparr>, flag_max],
     group_by = gb, having = None, agg_input = flag_schema, agg_output = flag_schema, agg_work_mem = 1,
     agg_temps = \<lparr>made = (\<lambda>_. Made), written = (\<lambda>_ _. True), reopened = (\<lambda>_. True)\<rparr>,
     agg_heap = \<lparr>std_make = make_heap, std_push = push_heap, std_pop = pop_heap\<rparr>\<rparr>"

definition flag_agg_exec :: "row_buffer agg_exec" where
  "flag_agg_exec = \<lparr>agg_child = flag_rows [True, False], result_groups = [], agg_cursor = 0\<rparr>"

lemma flag_agg_ok: "set gb \<subseteq> {ColumnRef [] ''id''} \<Longrightarrow> agg_ok (flag_agg gb) (buffer (agg_child flag_agg_exec))"
proof -
  assume "set gb \<subseteq> {ColumnRef [] ''id''}"
  then have "those (map (evaluate flag_schema (id_row v)) gb) \<noteq> None" for v by (induction gb) (auto simp: flag_column)
  then show ?thesis
    by (auto simp: agg_ok_def agg_defined_def group_values_def flag_agg_def flag_max_def flag_agg_exec_def flag_rows_def flag_column having_ok_def)
qed

theorem aggregate_refines_witness:
  "\<exists>ts ks s'. run_executor (aggregate_init buffer_init buffer_next no_shortcuts (flag_agg [ColumnRef [] ''id''])) aggregate_next flag_agg_exec =
      Some (map new_row (filter (keeps (flag_agg [ColumnRef [] ''id'']))
        (map (\<lambda>k. agg_row (flag_agg [ColumnRef [] ''id'']) (filter (\<lambda>t. agg_key (flag_agg [ColumnRef [] ''id'']) t = k) ts)) ks)), s', None) \<and>
    mset ts = {#id_row (VBool True), id_row (VBool False)#} \<and> distinct ks \<and>
    set ks = agg_key (flag_agg [ColumnRef [] ''id'']) ` {id_row (VBool True), id_row (VBool False)}"
proof -
  let ?p = "flag_agg [ColumnRef [] ''id'']"
  have "spillable flag_schema (id_row (VBool b))" for b
    by (simp add: spillable_def tuple_ok_def id_row_def flag_schema_def value_ok_def tuple_serialized_size_def value_serialized_size_def
        is_null_def)
  then have "agg_files_ok ?p (buffer (agg_child flag_agg_exec))"
    using vec.std_heap_axioms by (simp add: agg_files_ok_def flag_agg_def flag_agg_exec_def flag_rows_def temps_work_def)
  moreover have "group_by ?p \<noteq> []" by (simp add: flag_agg_def)
  ultimately show ?thesis
    using aggregate_refines [OF buf.executor_axioms, where s = flag_agg_exec and p = ?p and fast = no_shortcuts] flag_agg_ok [of "[ColumnRef [] ''id'']"]
    by (simp add: flag_agg_exec_def flag_rows_def)
qed

text \<open>The shortcut for plain aggregates skips HAVING.\<close>

lemma fast_plain_ignores_having:
  assumes "\<not> count_only p" "fast_plain fast (aggregates p) w = Some (Some vs, w')"
  shows "plain_groups child_next fast p w = Some ([vs], w')"
  using assms by (simp add: plain_groups_def)

text \<open>Aggregation without GROUP BY returns one row over all rows, or none if HAVING rejects it, whether a shortcut of the
  child answers or the rows are read; HAVING is used only above children without shortcuts.\<close>

lemma plain_aggregate_refines:
  assumes "shortcut_executor ini nxt ready running all_rows rows fast (agg_input p)" "ready (agg_child s)" "group_by p = []"
    and "agg_ok p (all_rows (agg_child s))" "having p \<noteq> None \<longrightarrow> fast = no_shortcuts"
  shows "\<exists>s'. run_executor (aggregate_init ini nxt fast p) aggregate_next s =
    Some (map new_row (filter (keeps p) [map (col_value p (all_rows (agg_child s))) (aggregates p)]), s', None)"
proof -
  note ex = shortcut_executor.axioms(1) [OF assms(1)]
  obtain c where c: "ini (agg_child s, None) = Some (c, None)" "running c" "rows c = all_rows (agg_child s)"
    using executor.init_ok [OF ex assms(2)] by blast
  have "agg_row p (rows c) = map (col_value p (rows c)) (aggregates p)" using assms(3) by (simp add: agg_row_def group_values_def)
  then show ?thesis using aggregate_run [of ini s "(c, None)" nxt fast p] c(1,3) assms(3)
      shortcut_executor.plain_groups_rows [OF assms(1) c(2) _ assms(3) refl assms(5)] assms(4) by (auto simp: compute_groups_def)
qed

text \<open>C40: what the aggregate functions compute from the values of their column.  COUNT is their number (modulo 64 bits),
  MIN and MAX are one of them, least and greatest in the order of values, SUM of integers whose absolute values add up
  to less than 2 to the 63 is the exact sum as a BIGINT, and MIN, MAX and SUM of no values are NULL.\<close>

theorem aggregate_values:
  fixes p :: aggregate_plan and ts :: "tuple list" and a :: aggregate_column
  defines "vs \<equiv> argument_values p ts a"
  shows "(agg_fun a = FCount \<longrightarrow> col_value p ts a = VInt64 (of_nat (length vs))) \<and>
    (agg_fun a \<noteq> FCount \<and> vs = [] \<longrightarrow> col_value p ts a = VNull) \<and>
    (agg_fun a = FMin \<and> vs \<noteq> [] \<longrightarrow> col_value p ts a \<in> set vs \<and> (\<forall>v \<in> set vs. value_compare (col_value p ts a) v \<le> 0)) \<and>
    (agg_fun a = FMax \<and> vs \<noteq> [] \<longrightarrow> col_value p ts a \<in> set vs \<and> (\<forall>v \<in> set vs. value_compare v (col_value p ts a) \<le> 0)) \<and>
    (agg_fun a = FSum \<and> vs \<noteq> [] \<and> int_values vs \<and> (\<Sum>v \<leftarrow> vs. \<bar>to_i64 v\<bar>) < 2 ^ 63 \<longrightarrow>
       col_value p ts a = VInt64 (word_of_int (\<Sum>v \<leftarrow> vs. to_i64 v)))"
proof (intro conjI impI)
  let ?st = "fold (\<lambda>v st. accumulate st (agg_fun a) v) vs new_agg"
  have nn: "\<forall>v \<in> set vs. \<not> is_null v" and new: "\<not> ag_has new_agg" using argument_values_not_null by (auto simp: vs_def new_agg_def)
  have col: "col_value p ts a = finalize_agg (agg_fun a) ?st" by (simp add: col_value_fold vs_def)
  show "col_value p ts a = VInt64 (of_nat (length vs))" if "agg_fun a = FCount"
    using that by (simp add: col fold_count finalize_agg_def new_agg_def)
  show "col_value p ts a = VNull" if "agg_fun a \<noteq> FCount \<and> vs = []" using that by (simp add: col finalize_agg_def new_agg_def)
  show "col_value p ts a \<in> set vs" if "agg_fun a = FMin \<and> vs \<noteq> []"
    using that fold_extreme [OF _ _ nn new, of FMin] by (simp add: col finalize_agg_def)
  show "\<forall>v \<in> set vs. value_compare (col_value p ts a) v \<le> 0" if "agg_fun a = FMin \<and> vs \<noteq> []"
    using that fold_extreme [OF _ _ nn new, of FMin] by (simp add: col finalize_agg_def)
  show "col_value p ts a \<in> set vs" if "agg_fun a = FMax \<and> vs \<noteq> []"
    using that fold_extreme [OF _ _ nn new, of FMax] by (simp add: col finalize_agg_def)
  show "\<forall>v \<in> set vs. value_compare v (col_value p ts a) \<le> 0" if "agg_fun a = FMax \<and> vs \<noteq> []"
    using that fold_extreme [OF _ _ nn new, of FMax] by (simp add: col finalize_agg_def)
  show "col_value p ts a = VInt64 (word_of_int (\<Sum>v \<leftarrow> vs. to_i64 v))"
    if "agg_fun a = FSum \<and> vs \<noteq> [] \<and> int_values vs \<and> (\<Sum>v \<leftarrow> vs. \<bar>to_i64 v\<bar>) < 2 ^ 63"
    using that fold_sum [OF _ _ _ _ new, of FSum vs] by (simp add: col finalize_agg_def)
qed

theorem aggregate_values_witness:
  "value_compare (VBool False) (col_value (flag_agg []) [id_row (VBool True), id_row (VBool False)] flag_max) \<le> 0"
proof -
  have "argument_values (flag_agg []) [id_row (VBool True), id_row (VBool False)] flag_max = [VBool True, VBool False]" "agg_fun flag_max = FMax"
    by (simp_all add: argument_values_def flag_max_def flag_agg_def flag_column is_null_def)
  then show ?thesis using aggregate_values [of flag_max "flag_agg []" "[id_row (VBool True), id_row (VBool False)]"] by simp
qed

end
