(* ===== verification/Lexer.thy ===== *)
theory Lexer
  imports Value
begin

section \<open>Lexical analysis\<close>

text \<open>
  \<^verbatim>\<open>src/src/sql/parser/token.h\<close> and \<^verbatim>\<open>lexer.{h,cpp}\<close>.  The lexer walks over the text with a
  position, a line and a column; the parser asks for one token at a time and may look at the next
  one first.  Reading one past the end of the text reads the terminating NUL.  The laws describe a
  lexer by the list of tokens that are still to come, and show that the text of a list of tokens is
  read as these tokens.
\<close>

subsection \<open>Tokens\<close>

datatype token_type =
    KW string
  | PLUS | MINUS | STAR | SLASH | PERCENT
  | EQ | NEQ | LT | GT | LTE | GTE
  | LPAREN | RPAREN | COMMA | SEMICOLON | DOT
  | ASSIGN
  | INT_LITERAL | FLOAT_LITERAL | STRING_LITERAL | IDENTIFIER
  | END_OF_INPUT | ERROR_TOKEN

text \<open>The keyword enumerators in the order of their declaration, which the parser compares.\<close>

definition keyword_enumerators :: "string list" where
  "keyword_enumerators = [
     ''SELECT'', ''INSERT'', ''UPDATE'', ''DELETE'', ''EXPLAIN'', ''ANALYZE'', ''TRACE'',
     ''CREATE'', ''DROP'', ''TABLE'', ''INDEX'', ''ON'', ''FROM'', ''WHERE'', ''INTO'', ''VALUES'',
     ''SET'', ''AND'', ''OR'', ''NOT'', ''IS'', ''NULL'', ''PRIMARY'', ''KEY'', ''UNIQUE'',
     ''INT'', ''INT64'', ''FLOAT'', ''DOUBLE'', ''VARCHAR'', ''BOOL'', ''TEXT'', ''TIMESTAMP'',
     ''DATETIME'', ''TRUE'', ''FALSE'', ''BEGIN'', ''COMMIT'', ''ROLLBACK'', ''TRANSACTION'',
     ''INNER'', ''JOIN'', ''LEFT'', ''RIGHT'', ''OUTER'', ''CROSS'', ''GROUP'', ''BY'', ''ORDER'',
     ''HAVING'', ''ASC'', ''DESC'', ''LIMIT'', ''OFFSET'', ''COUNT'', ''SUM'', ''AVG'', ''MIN'',
     ''MAX'', ''IN'', ''LIKE'', ''BETWEEN'', ''AS'', ''DISTINCT'', ''SHOW'', ''TABLES'',
     ''DESCRIBE'', ''COLUMNS'', ''STATUS'', ''UNION'', ''ALL'', ''CASE'', ''WHEN'', ''THEN'',
     ''ELSE'', ''END'', ''CAST'', ''COALESCE'', ''NULLIF'', ''ALTER'', ''ADD'', ''COLUMN'',
     ''RENAME'', ''DEFAULT'', ''TO'', ''PREPARE'', ''EXECUTE'', ''DEALLOCATE'', ''CHECK'',
     ''NULLS'', ''FIRST'', ''LAST'', ''FORMAT'', ''JSON'', ''LEVEL'', ''CHANNELS'', ''EVENTS'',
     ''SUMMARY'', ''NORMAL'', ''VERBOSE'', ''DEBUG'', ''PIPELINE'', ''PLAN'', ''EXECUTOR'',
     ''STORAGE'', ''MVCC'', ''WAL'', ''LOCK'', ''MEMORY'', ''EVENT'', ''VACUUM'']"

record token =
  tok_type :: token_type
  tok_value :: string
  tok_line :: nat
  tok_column :: nat

definition make_token :: "token_type \<Rightarrow> string \<Rightarrow> nat \<Rightarrow> nat \<Rightarrow> token" where
  "make_token t v l c = \<lparr>tok_type = t, tok_value = v, tok_line = l, tok_column = c\<rparr>"

lemma make_token_simps [simp]:
  "tok_type (make_token t v l c) = t" "tok_value (make_token t v l c) = v"
  "tok_line (make_token t v l c) = l" "tok_column (make_token t v l c) = c"
  by (simp_all add: make_token_def)

definition keyword_map :: "(string \<times> token_type) list" where
  "keyword_map = [
     (''SELECT'', KW ''SELECT''), (''EXPLAIN'', KW ''EXPLAIN''), (''ANALYZE'', KW ''ANALYZE''),
     (''ALL'', KW ''ALL''), (''DEFAULT'', KW ''DEFAULT''), (''INSERT'', KW ''INSERT''),
     (''UPDATE'', KW ''UPDATE''), (''DELETE'', KW ''DELETE''), (''CREATE'', KW ''CREATE''),
     (''DROP'', KW ''DROP''), (''TABLE'', KW ''TABLE''), (''INDEX'', KW ''INDEX''),
     (''ON'', KW ''ON''), (''FROM'', KW ''FROM''), (''WHERE'', KW ''WHERE''),
     (''INTO'', KW ''INTO''), (''VALUES'', KW ''VALUES''), (''SET'', KW ''SET''),
     (''AND'', KW ''AND''), (''OR'', KW ''OR''), (''NOT'', KW ''NOT''), (''IS'', KW ''IS''),
     (''NULL'', KW ''NULL''), (''PRIMARY'', KW ''PRIMARY''), (''KEY'', KW ''KEY''),
     (''UNIQUE'', KW ''UNIQUE''), (''INT'', KW ''INT''), (''INTEGER'', KW ''INT''),
     (''BIGINT'', KW ''INT64''), (''FLOAT'', KW ''FLOAT''), (''DOUBLE'', KW ''DOUBLE''),
     (''VARCHAR'', KW ''VARCHAR''), (''BOOL'', KW ''BOOL''), (''BOOLEAN'', KW ''BOOL''),
     (''TEXT'', KW ''TEXT''), (''TIMESTAMP'', KW ''TIMESTAMP''), (''DATETIME'', KW ''DATETIME''),
     (''TRUE'', KW ''TRUE''), (''FALSE'', KW ''FALSE''), (''BEGIN'', KW ''BEGIN''),
     (''COMMIT'', KW ''COMMIT''), (''ROLLBACK'', KW ''ROLLBACK''),
     (''TRANSACTION'', KW ''TRANSACTION''), (''INNER'', KW ''INNER''), (''JOIN'', KW ''JOIN''),
     (''LEFT'', KW ''LEFT''), (''RIGHT'', KW ''RIGHT''), (''OUTER'', KW ''OUTER''),
     (''CROSS'', KW ''CROSS''), (''GROUP'', KW ''GROUP''), (''BY'', KW ''BY''),
     (''ORDER'', KW ''ORDER''), (''HAVING'', KW ''HAVING''), (''ASC'', KW ''ASC''),
     (''DESC'', KW ''DESC''), (''LIMIT'', KW ''LIMIT''), (''OFFSET'', KW ''OFFSET''),
     (''COUNT'', KW ''COUNT''), (''SUM'', KW ''SUM''), (''AVG'', KW ''AVG''),
     (''MIN'', KW ''MIN''), (''MAX'', KW ''MAX''), (''IN'', KW ''IN''), (''LIKE'', KW ''LIKE''),
     (''BETWEEN'', KW ''BETWEEN''), (''AS'', KW ''AS''), (''DISTINCT'', KW ''DISTINCT''),
     (''SHOW'', KW ''SHOW''), (''TABLES'', KW ''TABLES''), (''DESCRIBE'', KW ''DESCRIBE''),
     (''COLUMNS'', KW ''COLUMNS''), (''UNION'', KW ''UNION''), (''ALL'', KW ''ALL''),
     (''CASE'', KW ''CASE''), (''WHEN'', KW ''WHEN''), (''THEN'', KW ''THEN''),
     (''ELSE'', KW ''ELSE''), (''END'', KW ''END''), (''CAST'', KW ''CAST''),
     (''COALESCE'', KW ''COALESCE''), (''NULLIF'', KW ''NULLIF''), (''ALTER'', KW ''ALTER''),
     (''ADD'', KW ''ADD''), (''COLUMN'', KW ''COLUMN''), (''RENAME'', KW ''RENAME''),
     (''DEFAULT'', KW ''DEFAULT''), (''TO'', KW ''TO''), (''PREPARE'', KW ''PREPARE''),
     (''EXECUTE'', KW ''EXECUTE''), (''DEALLOCATE'', KW ''DEALLOCATE''), (''CHECK'', KW ''CHECK''),
     (''NULLS'', KW ''NULLS''), (''FIRST'', KW ''FIRST''), (''LAST'', KW ''LAST''),
     (''VACUUM'', KW ''VACUUM'')]"

subsection \<open>Characters\<close>

record lexer =
  lex_sql :: string
  lex_pos :: nat
  lex_line :: nat
  lex_column :: nat
  peeked_token :: token
  has_peeked :: bool

definition new_lexer :: "string \<Rightarrow> lexer" where
  "new_lexer sql = \<lparr>lex_sql = sql, lex_pos = 0, lex_line = 1, lex_column = 1,
     peeked_token = make_token ERROR_TOKEN [] 0 0, has_peeked = False\<rparr>"

definition char_at :: "string \<Rightarrow> nat \<Rightarrow> char" where
  "char_at s i = (if i < length s then s ! i else CHR 0x00)"

definition char_slice :: "string \<Rightarrow> nat \<Rightarrow> nat \<Rightarrow> string" where
  "char_slice s i n = map (char_at s) [i ..< i + n]"

definition has_more :: "lexer \<Rightarrow> bool" where
  "has_more l = (lex_pos l < length (lex_sql l))"

definition peek_char :: "lexer \<Rightarrow> char" where
  "peek_char l = char_at (lex_sql l) (lex_pos l)"

definition next_char :: "lexer \<Rightarrow> lexer" where
  "next_char l =
     (if peek_char l = CHR 0x0A
      then l\<lparr>lex_pos := lex_pos l + 1, lex_line := lex_line l + 1, lex_column := 1\<rparr>
      else l\<lparr>lex_pos := lex_pos l + 1, lex_column := lex_column l + 1\<rparr>)"

lemma next_char_simps [simp]:
  "lex_sql (next_char l) = lex_sql l" "lex_pos (next_char l) = Suc (lex_pos l)"
  "has_peeked (next_char l) = has_peeked l" "peeked_token (next_char l) = peeked_token l"
  by (simp_all add: next_char_def)

text \<open>The loops that skip characters while a test holds.\<close>

function skip_while :: "(char \<Rightarrow> bool) \<Rightarrow> lexer \<Rightarrow> lexer" where
  "skip_while P l = (if has_more l \<and> P (peek_char l) then skip_while P (next_char l) else l)"
  by auto
termination
  by (relation "measure (\<lambda>(P, l). length (lex_sql l) - lex_pos l)") (auto simp: has_more_def)

declare skip_while.simps [simp del]

definition is_letter :: "char \<Rightarrow> bool" where
  "is_letter c = (c \<ge> CHR ''a'' \<and> c \<le> CHR ''z'' \<or> c \<ge> CHR ''A'' \<and> c \<le> CHR ''Z'')"

definition skip_whitespace :: "lexer \<Rightarrow> lexer" where
  "skip_whitespace = skip_while (\<lambda>c. c = CHR '' '' \<or> c = CHR 0x09 \<or> c = CHR 0x0A \<or> c = CHR 0x0D)"

definition skip_comment :: "lexer \<Rightarrow> lexer" where
  "skip_comment = skip_while (\<lambda>c. c \<noteq> CHR 0x0A)"

subsection \<open>Tokens of more than one character\<close>

definition read_number :: "lexer \<Rightarrow> token \<times> lexer" where
  "read_number l =
     (let l1 = skip_while is_digit l;
          is_float = (has_more l1 \<and> peek_char l1 = CHR ''.'');
          l2 = (if is_float then skip_while is_digit (next_char l1) else l1);
          v = char_slice (lex_sql l) (lex_pos l) (lex_pos l2 - lex_pos l)
      in (make_token (if is_float then FLOAT_LITERAL else INT_LITERAL) v (lex_line l) (lex_column l), l2))"

text \<open>The loop of a string literal steps over the character after a backslash.\<close>

function string_loop :: "char \<Rightarrow> lexer \<Rightarrow> lexer" where
  "string_loop quote l =
     (if has_more l \<and> peek_char l \<noteq> quote
      then string_loop quote (next_char (if peek_char l = CHR 0x5C then next_char l else l))
      else l)"
  by auto
termination
  by (relation "measure (\<lambda>(q, l). length (lex_sql l) - lex_pos l)") (auto simp: has_more_def)

declare string_loop.simps [simp del]

definition read_string :: "lexer \<Rightarrow> token \<times> lexer" where
  "read_string l =
     (let l1 = next_char l;
          l2 = string_loop (peek_char l) l1;
          v = char_slice (lex_sql l) (lex_pos l1) (lex_pos l2 - lex_pos l1);
          l3 = (if has_more l2 then next_char l2 else l2)
      in (make_token STRING_LITERAL v (lex_line l) (lex_column l), l3))"

function quoted_loop :: "char \<Rightarrow> string \<Rightarrow> lexer \<Rightarrow> string \<times> lexer" where
  "quoted_loop quote v l =
     (if has_more l then
        if peek_char l = quote then
          (let l1 = next_char l in
           if has_more l1 \<and> peek_char l1 = quote then quoted_loop quote (v @ [quote]) (next_char l1)
           else (v, l1))
        else quoted_loop quote (v @ [peek_char l]) (next_char l)
      else (v, l))"
  by pat_completeness auto
termination
  by (relation "measure (\<lambda>(q, v, l). length (lex_sql l) - lex_pos l)") (auto simp: has_more_def)

declare quoted_loop.simps [simp del]

definition read_quoted_identifier :: "lexer \<Rightarrow> token \<times> lexer" where
  "read_quoted_identifier l =
     (let (v, l1) = quoted_loop (peek_char l) [] (next_char l)
      in (make_token IDENTIFIER v (lex_line l) (lex_column l), l1))"

definition read_identifier :: "lexer \<Rightarrow> token \<times> lexer" where
  "read_identifier l =
     (let l1 = skip_while (\<lambda>c. is_letter c \<or> is_digit c \<or> c = CHR ''_'') l;
          word = char_slice (lex_sql l) (lex_pos l) (lex_pos l1 - lex_pos l);
          t = (case map_of keyword_map (upper_ascii word) of Some kw \<Rightarrow> kw | None \<Rightarrow> IDENTIFIER)
      in (make_token t word (lex_line l) (lex_column l), l1))"

subsection \<open>The next token\<close>

definition next_is :: "lexer \<Rightarrow> char \<Rightarrow> bool" where
  "next_is l c = (has_more l \<and> peek_char l = c)"

text \<open>The symbols of one and two characters; \<open>l\<close> is the lexer after the first.\<close>

definition read_symbol :: "char \<Rightarrow> nat \<Rightarrow> nat \<Rightarrow> lexer \<Rightarrow> token \<times> lexer" where
  "read_symbol c ln col l =
     (if c = CHR ''+'' then (make_token PLUS ''+'' ln col, l)
      else if c = CHR ''-'' then (make_token MINUS ''-'' ln col, l)
      else if c = CHR ''*'' then (make_token STAR ''*'' ln col, l)
      else if c = CHR ''/'' then (make_token SLASH ''/'' ln col, l)
      else if c = CHR ''%'' then (make_token PERCENT ''%'' ln col, l)
      else if c = CHR ''('' then (make_token LPAREN ''('' ln col, l)
      else if c = CHR '')'' then (make_token RPAREN '')'' ln col, l)
      else if c = CHR '','' then (make_token COMMA '','' ln col, l)
      else if c = CHR '';'' then (make_token SEMICOLON '';'' ln col, l)
      else if c = CHR ''.'' then (make_token DOT ''.'' ln col, l)
      else if c = CHR ''='' then (make_token EQ ''='' ln col, l)
      else if c = CHR ''!'' then
        if next_is l (CHR ''='') then (make_token NEQ ''!='' ln col, next_char l)
        else (make_token ERROR_TOKEN ''!'' ln col, l)
      else if c = CHR ''<'' then
        if next_is l (CHR ''='') then (make_token LTE ''<='' ln col, next_char l)
        else if next_is l (CHR ''>'') then (make_token NEQ ''<>'' ln col, next_char l)
        else (make_token LT ''<'' ln col, l)
      else if c = CHR ''>'' then
        if next_is l (CHR ''='') then (make_token GTE ''>='' ln col, next_char l)
        else (make_token GT ''>'' ln col, l)
      else (make_token ERROR_TOKEN [c] ln col, l))"

lemma skip_while_simps [simp]:
  "lex_sql (skip_while P l) = lex_sql l" "has_peeked (skip_while P l) = has_peeked l"
  "peeked_token (skip_while P l) = peeked_token l"
  by (induction P l rule: skip_while.induct; subst skip_while.simps; simp)+

lemma skip_while_pos: "lex_pos l \<le> lex_pos (skip_while P l)"
proof (induction P l rule: skip_while.induct)
  case (1 P l)
  then show ?case by (subst skip_while.simps) (auto dest: Suc_leD)
qed

function next_token :: "lexer \<Rightarrow> token \<times> lexer" where
  "next_token l0 =
     (if has_peeked l0 then (peeked_token l0, l0\<lparr>has_peeked := False\<rparr>)
      else
        (let l = skip_whitespace l0; c = peek_char l in
         if \<not> has_more l then (make_token END_OF_INPUT [] (lex_line l) (lex_column l), l)
         else if is_digit c then read_number l
         else if c = CHR 0x27 \<or> c = CHR 0x22 then read_string l
         else if c = CHR 0x60 then read_quoted_identifier l
         else if is_letter c \<or> c = CHR ''_'' then read_identifier l
         else
           (let l1 = next_char l in
            if c = CHR ''-'' \<and> next_is l1 (CHR ''-'') then next_token (skip_comment l1)
            else read_symbol c (lex_line l) (lex_column l) l1)))"
  by auto
termination
proof (relation "measure (\<lambda>l. length (lex_sql l) - lex_pos l)", goal_cases)
  case 1
  then show ?case by simp
next
  case (2 l0 l c l1)
  then have "lex_pos l0 \<le> lex_pos l" "lex_pos l < length (lex_sql l)" "lex_sql l = lex_sql l0"
    "lex_pos l < lex_pos (skip_comment l1)" "lex_sql (skip_comment l1) = lex_sql l"
    using skip_while_pos [of l0] skip_while_pos [of l1]
    by (simp_all add: skip_whitespace_def skip_comment_def has_more_def Suc_le_lessD)
  then show ?case by (simp add: diff_less_mono2)
qed

declare next_token.simps [simp del]

definition peek_token :: "lexer \<Rightarrow> token \<times> lexer" where
  "peek_token l =
     (let l1 = (if has_peeked l then l
                else (let (t, l2) = next_token l in l2\<lparr>peeked_token := t, has_peeked := True\<rparr>))
      in (peeked_token l1, l1))"

definition consume_token :: "lexer \<Rightarrow> lexer" where
  "consume_token l = snd (next_token l)"

subsection \<open>The remaining text\<close>

definition lex_rest :: "lexer \<Rightarrow> string" where
  "lex_rest l = drop (lex_pos l) (lex_sql l)"

lemma has_more_rest: "has_more l \<longleftrightarrow> lex_rest l \<noteq> []"
  by (simp add: has_more_def lex_rest_def not_le)

lemma peek_char_rest: "lex_rest l = c # r \<Longrightarrow> peek_char l = c"
  by (auto simp: lex_rest_def peek_char_def char_at_def nth_via_drop intro: ccontr)

lemma next_char_rest [simp]: "lex_rest (next_char l) = tl (lex_rest l)"
  by (simp add: lex_rest_def drop_Suc tl_drop)

lemma next_is_rest: "next_is l c \<longleftrightarrow> (\<exists>r. lex_rest l = c # r)"
  by (cases "lex_rest l") (auto simp: next_is_def has_more_rest peek_char_rest)

lemma skip_while_rest:
  "lex_rest (skip_while P l) = dropWhile P (lex_rest l)"
  "lex_pos (skip_while P l) = lex_pos l + length (takeWhile P (lex_rest l))"
proof (induction P l rule: skip_while.induct)
  case (1 P l)
  { case 1
    show ?case
      by (cases "lex_rest l"; subst skip_while.simps)
        (simp_all add: has_more_rest peek_char_rest "1.IH")
  next
    case 2
    show ?case
      by (cases "lex_rest l"; subst skip_while.simps)
        (simp_all add: has_more_rest peek_char_rest "1.IH") }
qed

lemma char_slice_take: "i + n \<le> length s \<Longrightarrow> char_slice s i n = take n (drop i s)"
  by (rule nth_equalityI) (simp_all add: char_slice_def char_at_def)

lemma char_slice_rest:
  assumes "take n (lex_rest l) = v" "n \<le> length (lex_rest l)"
  shows "char_slice (lex_sql l) (lex_pos l) n = v"
proof (cases "lex_pos l \<le> length (lex_sql l)")
  case True
  then show ?thesis using assms by (simp add: lex_rest_def char_slice_take)
next
  case False
  then show ?thesis using assms by (simp add: lex_rest_def char_slice_def)
qed

lemma skip_whitespace_simps [simp]:
  "lex_sql (skip_whitespace l) = lex_sql l" "has_peeked (skip_whitespace l) = has_peeked l"
  by (simp_all add: skip_whitespace_def)

subsection \<open>Progress\<close>

text \<open>Every token but the last takes at least one character of the text.\<close>

lemma string_loop_simps [simp]:
  "lex_sql (string_loop q l) = lex_sql l" "has_peeked (string_loop q l) = has_peeked l"
  "lex_pos l \<le> lex_pos (string_loop q l)"
proof (induction q l rule: string_loop.induct)
  case (1 q l)
  { case 1 show ?case by (subst string_loop.simps) (simp add: "1.IH")
  next
    case 2 show ?case by (subst string_loop.simps) (simp add: "1.IH")
  next
    case 3 show ?case
      using "1.IH"(3) by (subst string_loop.simps) (auto dest: Suc_leD split: if_splits) }
qed

lemma quoted_loop_simps [simp]:
  "lex_sql (snd (quoted_loop q v l)) = lex_sql l" "has_peeked (snd (quoted_loop q v l)) = has_peeked l"
  "lex_pos l \<le> lex_pos (snd (quoted_loop q v l))"
proof (induction q v l rule: quoted_loop.induct)
  case (1 q v l)
  { case 1 show ?case by (subst quoted_loop.simps) (simp add: "1.IH" Let_def)
  next
    case 2 show ?case by (subst quoted_loop.simps) (simp add: "1.IH" Let_def)
  next
    case 3 show ?case
      using "1.IH"(3,6) by (subst quoted_loop.simps) (auto simp: Let_def dest: Suc_leD) }
qed

text \<open>What one call of the readers does to the lexer.\<close>

definition steps_on :: "lexer \<Rightarrow> token \<times> lexer \<Rightarrow> bool" where
  "steps_on l r = (tok_type (fst r) \<noteq> END_OF_INPUT \<and> lex_sql (snd r) = lex_sql l
     \<and> has_peeked (snd r) = has_peeked l \<and> lex_pos l < lex_pos (snd r))"

lemma read_symbol_steps: "steps_on l (read_symbol c ln col (next_char l))"
  by (simp add: steps_on_def read_symbol_def)

lemma read_string_steps: "steps_on l (read_string l)"
  using string_loop_simps(3) [where l = "next_char l" and q = "peek_char l"]
  by (simp add: steps_on_def read_string_def Let_def)

lemma read_quoted_steps: "steps_on l (read_quoted_identifier l)"
  using quoted_loop_simps [where q = "peek_char l" and v = "[]" and l = "next_char l"]
  by (simp add: steps_on_def read_quoted_identifier_def case_prod_beta Suc_le_lessD)

lemma skip_while_steps:
  assumes "has_more l" "P (peek_char l)"
  shows "lex_pos l < lex_pos (skip_while P l)"
  using assms skip_while_pos [of "next_char l" P] by (subst skip_while.simps) simp

lemma read_number_steps:
  assumes "has_more l" "is_digit (peek_char l)"
  shows "steps_on l (read_number l)"
  using skip_while_steps [of l is_digit] skip_while_pos [of "next_char (skip_while is_digit l)" is_digit] assms
  by (simp add: steps_on_def read_number_def Let_def)

lemma keyword_map_keywords: "map_of keyword_map w = Some t \<Longrightarrow> \<exists>k. t = KW k"
proof -
  have "list_all (\<lambda>t. case t of KW k \<Rightarrow> True | _ \<Rightarrow> False) (map snd keyword_map)"
    unfolding keyword_map_def by (simp only: list.map snd_conv list.pred_inject token_type.case simp_thms)
  moreover assume "map_of keyword_map w = Some t"
  ultimately show ?thesis
    by (cases t) (force simp: list_all_iff dest: map_of_SomeD)+
qed

lemma read_identifier_steps:
  assumes "has_more l" "is_letter (peek_char l) \<or> peek_char l = CHR ''_''"
  shows "steps_on l (read_identifier l)"
  using skip_while_steps [of l "\<lambda>c. is_letter c \<or> is_digit c \<or> c = CHR ''_''"] assms
  by (auto simp: steps_on_def read_identifier_def Let_def split: option.split dest: keyword_map_keywords)

lemmas reader_steps = read_symbol_steps read_string_steps read_quoted_steps read_number_steps
  read_identifier_steps

lemma next_token_frame:
  "lex_sql (snd (next_token l)) = lex_sql l" "\<not> has_peeked (snd (next_token l))"
  "\<not> has_peeked l \<Longrightarrow> tok_type (fst (next_token l)) \<noteq> END_OF_INPUT \<Longrightarrow>
     lex_pos l < lex_pos (snd (next_token l)) \<and> lex_pos l < length (lex_sql l)"
proof -
  have "lex_sql (snd (next_token l)) = lex_sql l \<and> \<not> has_peeked (snd (next_token l)) \<and>
    (\<not> has_peeked l \<longrightarrow> tok_type (fst (next_token l)) \<noteq> END_OF_INPUT \<longrightarrow>
      lex_pos l < lex_pos (snd (next_token l)) \<and> lex_pos l < length (lex_sql l))"
  proof (induction l rule: next_token.induct)
    case (1 l)
    let ?m = "skip_whitespace l"
    have pos: "lex_pos l \<le> lex_pos ?m" by (simp add: skip_whitespace_def skip_while_pos)
    show ?case
    proof (cases "has_peeked l \<or> \<not> has_more ?m")
      case True
      then have "next_token l = (if has_peeked l then (peeked_token l, l\<lparr>has_peeked := False\<rparr>)
          else (make_token END_OF_INPUT [] (lex_line ?m) (lex_column ?m), ?m))"
        by (subst next_token.simps) (auto simp: Let_def)
      then show ?thesis by simp
    next
      case False
      then have more: "lex_pos l < length (lex_sql l)" using pos by (simp add: has_more_def)
      show ?thesis
      proof (cases "peek_char ?m = CHR ''-'' \<and> next_is (next_char ?m) (CHR ''-'')")
        case True
        then have eq: "next_token l = next_token (skip_comment (next_char ?m))"
          using False by (subst next_token.simps) (simp add: Let_def is_digit_def is_letter_def)
        have "lex_pos l < lex_pos (skip_comment (next_char ?m))"
          using pos skip_while_pos [of "next_char ?m" "\<lambda>c. c \<noteq> CHR 0x0A"] by (simp add: skip_comment_def)
        then show ?thesis
          using "1.IH" [OF _ refl refl] True False more
          by (auto simp: eq skip_comment_def is_digit_def is_letter_def)
      next
        case no: False
        have "steps_on ?m (next_token l)"
          using False no by (subst next_token.simps) (auto simp: Let_def reader_steps)
        then show ?thesis using False more pos by (simp add: steps_on_def)
      qed
    qed
  qed
  then show "lex_sql (snd (next_token l)) = lex_sql l" "\<not> has_peeked (snd (next_token l))"
    "\<not> has_peeked l \<Longrightarrow> tok_type (fst (next_token l)) \<noteq> END_OF_INPUT \<Longrightarrow>
     lex_pos l < lex_pos (snd (next_token l)) \<and> lex_pos l < length (lex_sql l)"
    by blast+
qed

subsection \<open>The tokens to come\<close>

lemma next_token_peeked:
  "has_peeked l \<Longrightarrow> next_token l = (peeked_token l, l\<lparr>has_peeked := False\<rparr>)"
  by (subst next_token.simps) simp

function tokens :: "lexer \<Rightarrow> token list" where
  "tokens l =
     (let (t, l1) = next_token l in if tok_type t = END_OF_INPUT then [] else t # tokens l1)"
  by auto
termination
proof (relation "measure (\<lambda>l. (if has_peeked l then 1 else 0) + (length (lex_sql l) - lex_pos l))", goal_cases)
  case 1
  then show ?case by simp
next
  case (2 l r t l1)
  then have r: "next_token l = (t, l1)" and t: "tok_type t \<noteq> END_OF_INPUT" by simp_all
  show ?case
  proof (cases "has_peeked l")
    case True
    then have "l1 = l\<lparr>has_peeked := False\<rparr>" using r by (simp add: next_token_peeked)
    then show ?thesis using True by simp
  next
    case False
    then show ?thesis using next_token_frame [of l] r t by (simp add: diff_less_mono2)
  qed
qed

declare tokens.simps [simp del]

text \<open>The parser sees the head of this list and drops it; at the end it sees an end token for ever.\<close>

lemma next_token_tokens:
  "tokens l = (if tok_type (fst (next_token l)) = END_OF_INPUT then []
     else fst (next_token l) # tokens (snd (next_token l)))"
  by (subst tokens.simps) (simp add: case_prod_beta)

text \<open>The token kept from an earlier look has no influence once it is used.\<close>

lemma next_char_peeked [simp]: "next_char (l\<lparr>peeked_token := t\<rparr>) = (next_char l)\<lparr>peeked_token := t\<rparr>"
  by (simp add: next_char_def peek_char_def)

lemma test_peeked [simp]:
  "has_more (l\<lparr>peeked_token := t\<rparr>) = has_more l" "peek_char (l\<lparr>peeked_token := t\<rparr>) = peek_char l"
  "next_is (l\<lparr>peeked_token := t\<rparr>) c = next_is l c"
  by (simp_all add: has_more_def peek_char_def next_is_def)

lemma skip_while_peeked [simp]:
  "skip_while P (l\<lparr>peeked_token := t\<rparr>) = (skip_while P l)\<lparr>peeked_token := t\<rparr>"
proof (induction P l rule: skip_while.induct)
  case (1 P l)
  then show ?case by (subst (1 2) skip_while.simps) simp
qed

lemma string_loop_peeked [simp]:
  "string_loop q (l\<lparr>peeked_token := t\<rparr>) = (string_loop q l)\<lparr>peeked_token := t\<rparr>"
proof (induction q l rule: string_loop.induct)
  case (1 q l)
  then show ?case
    by (cases "peek_char l = CHR 0x5C"; subst (1 2) string_loop.simps) simp_all
qed

lemma quoted_loop_peeked [simp]:
  "quoted_loop q v (l\<lparr>peeked_token := t\<rparr>) = apsnd (\<lambda>m. m\<lparr>peeked_token := t\<rparr>) (quoted_loop q v l)"
proof (induction q v l rule: quoted_loop.induct)
  case (1 q v l)
  then show ?case by (subst (1 2) quoted_loop.simps) (simp add: Let_def)
qed

lemma readers_peeked:
  "read_number (l\<lparr>peeked_token := t\<rparr>) = apsnd (\<lambda>m. m\<lparr>peeked_token := t\<rparr>) (read_number l)"
  "read_string (l\<lparr>peeked_token := t\<rparr>) = apsnd (\<lambda>m. m\<lparr>peeked_token := t\<rparr>) (read_string l)"
  "read_quoted_identifier (l\<lparr>peeked_token := t\<rparr>) = apsnd (\<lambda>m. m\<lparr>peeked_token := t\<rparr>) (read_quoted_identifier l)"
  "read_identifier (l\<lparr>peeked_token := t\<rparr>) = apsnd (\<lambda>m. m\<lparr>peeked_token := t\<rparr>) (read_identifier l)"
  "read_symbol c ln col (l\<lparr>peeked_token := t\<rparr>) = apsnd (\<lambda>m. m\<lparr>peeked_token := t\<rparr>) (read_symbol c ln col l)"
  by (simp_all add: read_number_def read_string_def read_quoted_identifier_def read_identifier_def
      read_symbol_def Let_def case_prod_beta)

lemma next_token_stale:
  "\<not> has_peeked l \<Longrightarrow>
     next_token (l\<lparr>peeked_token := t\<rparr>) = apsnd (\<lambda>m. m\<lparr>peeked_token := t\<rparr>) (next_token l)"
proof (induction l rule: next_token.induct)
  case (1 l)
  then show ?case
    by (subst (1 2) next_token.simps)
      (simp add: Let_def readers_peeked skip_whitespace_def skip_comment_def)
qed

lemma tokens_stale [simp]: "\<not> has_peeked l \<Longrightarrow> tokens (l\<lparr>peeked_token := t\<rparr>) = tokens l"
proof (induction l rule: tokens.induct)
  case (1 l)
  have "tokens ((snd (next_token l))\<lparr>peeked_token := t\<rparr>) = tokens (snd (next_token l))"
    if "tok_type (fst (next_token l)) \<noteq> END_OF_INPUT"
    using "1.IH" [OF refl prod.collapse that next_token_frame(2)] .
  then show ?case
    using "1.prems" by (subst (1 2) next_token_tokens) (simp add: next_token_stale)
qed

lemma peek_token_tokens:
  "tokens (snd (peek_token l)) = tokens l" "has_peeked (snd (peek_token l))"
  "peeked_token (snd (peek_token l)) = fst (peek_token l)"
  "tok_type (fst (peek_token l)) = (case tokens l of [] \<Rightarrow> END_OF_INPUT | t # _ \<Rightarrow> tok_type t)"
  "tokens l = t # ts \<Longrightarrow> fst (peek_token l) = t"
proof -
  have "tokens (snd (peek_token l)) = tokens l \<and> has_peeked (snd (peek_token l))
    \<and> peeked_token (snd (peek_token l)) = fst (peek_token l)
    \<and> tok_type (fst (peek_token l)) = (case tokens l of [] \<Rightarrow> END_OF_INPUT | t # _ \<Rightarrow> tok_type t)
    \<and> (tokens l = t # ts \<longrightarrow> fst (peek_token l) = t)"
  proof (cases "has_peeked l")
    case True
    then show ?thesis
      using next_token_tokens [of l] by (simp add: peek_token_def next_token_peeked)
  next
    case False
    obtain u m where n: "next_token l = (u, m)" by fastforce
    then have m: "\<not> has_peeked m" using next_token_frame(2) [of l] by simp
    then have e: "m\<lparr>peeked_token := u, has_peeked := False\<rparr> = m\<lparr>peeked_token := u\<rparr>" by (cases m) simp
    have "tokens (m\<lparr>peeked_token := u, has_peeked := True\<rparr>) = tokens l"
      using m n next_token_tokens [of l] next_token_tokens [of "m\<lparr>peeked_token := u, has_peeked := True\<rparr>"]
        tokens_stale [OF m, of u]
      by (simp add: next_token_peeked e)
    then show ?thesis using False n next_token_tokens [of l] by (simp add: peek_token_def)
  qed
  then show "tokens (snd (peek_token l)) = tokens l" "has_peeked (snd (peek_token l))"
    "peeked_token (snd (peek_token l)) = fst (peek_token l)"
    "tok_type (fst (peek_token l)) = (case tokens l of [] \<Rightarrow> END_OF_INPUT | t # _ \<Rightarrow> tok_type t)"
    "tokens l = t # ts \<Longrightarrow> fst (peek_token l) = t"
    by blast+
qed

text \<open>An end token that was looked at stands for the end of the text, so that the end is seen again
  after it is consumed.\<close>

definition lexer_ok :: "lexer \<Rightarrow> bool" where
  "lexer_ok l = (has_peeked l \<longrightarrow> tok_type (peeked_token l) = END_OF_INPUT \<longrightarrow>
     \<not> has_more l \<and> tok_value (peeked_token l) = [])"

lemma next_token_end:
  "lexer_ok l \<Longrightarrow> tok_type (fst (next_token l)) = END_OF_INPUT \<Longrightarrow>
     \<not> has_more (snd (next_token l)) \<and> tok_value (fst (next_token l)) = []"
proof (induction l rule: next_token.induct)
  case (1 l)
  let ?m = "skip_whitespace l"
  show ?case
  proof (cases "has_peeked l \<or> \<not> has_more ?m")
    case True
    then have "next_token l = (if has_peeked l then (peeked_token l, l\<lparr>has_peeked := False\<rparr>)
        else (make_token END_OF_INPUT [] (lex_line ?m) (lex_column ?m), ?m))"
      by (subst next_token.simps) (auto simp: Let_def)
    then show ?thesis using "1.prems" True by (auto simp: lexer_ok_def has_more_def split: if_splits)
  next
    case False
    show ?thesis
    proof (cases "peek_char ?m = CHR ''-'' \<and> next_is (next_char ?m) (CHR ''-'')")
      case True
      then have eq: "next_token l = next_token (skip_comment (next_char ?m))"
        using False by (subst next_token.simps) (simp add: Let_def is_digit_def is_letter_def)
      show ?thesis
        using "1.IH" [OF _ refl refl] "1.prems" True False
        by (simp add: eq lexer_ok_def skip_comment_def is_digit_def is_letter_def)
    next
      case no: False
      have "steps_on ?m (next_token l)"
        using False no by (subst next_token.simps) (auto simp: Let_def reader_steps)
      then show ?thesis using "1.prems" by (simp add: steps_on_def)
    qed
  qed
qed

lemma tokens_no_more: "\<not> has_more l \<Longrightarrow> \<not> has_peeked l \<Longrightarrow> tokens l = []"
proof -
  assume a: "\<not> has_more l" "\<not> has_peeked l"
  then have "skip_whitespace l = l" by (simp add: skip_whitespace_def skip_while.simps)
  then have "tok_type (fst (next_token l)) = END_OF_INPUT"
    using a by (subst next_token.simps) (simp add: Let_def)
  then show ?thesis by (subst next_token_tokens) simp
qed

lemma lexer_ok_new [simp]: "lexer_ok (new_lexer sql)"
  by (simp add: lexer_ok_def new_lexer_def)

lemma lexer_ok_peek [simp]: "lexer_ok l \<Longrightarrow> lexer_ok (snd (peek_token l))"
  using next_token_end [of l]
  by (auto simp: lexer_ok_def peek_token_def case_prod_beta has_more_def)

lemma lexer_ok_consume [simp]: "lexer_ok (consume_token l)"
  using next_token_frame(2) [of l] by (simp add: lexer_ok_def consume_token_def)

lemma consume_token_tokens:
  assumes "lexer_ok l"
  shows "tokens (consume_token l) = tl (tokens l)"
proof (cases "tok_type (fst (next_token l)) = END_OF_INPUT")
  case True
  then have "\<not> has_more (consume_token l)" "tokens l = []"
    using next_token_end [OF assms] next_token_tokens [of l] by (simp_all add: consume_token_def)
  then show ?thesis
    using tokens_no_more [of "consume_token l"] next_token_frame(2) [of l] by (simp add: consume_token_def)
next
  case False
  then show ?thesis by (subst (2) next_token_tokens) (simp add: consume_token_def)
qed

lemma tokens_length: "length (tokens l) \<le> (if has_peeked l then 1 else 0) + (length (lex_sql l) - lex_pos l)"
proof (induction l rule: tokens.induct)
  case (1 l)
  obtain t m where n: "next_token l = (t, m)" by fastforce
  note f = next_token_frame [of l]
  show ?case
  proof (cases "tok_type t = END_OF_INPUT")
    case True
    then show ?thesis using n by (subst next_token_tokens) simp
  next
    case False
    then have IH: "length (tokens m) \<le> length (lex_sql l) - lex_pos m"
      using "1.IH" [OF n [symmetric] refl] f n by simp
    have "length (tokens l) = Suc (length (tokens m))"
      using n False by (subst next_token_tokens) simp
    moreover have "has_peeked l \<Longrightarrow> lex_pos m = lex_pos l"
      using n by (auto simp: next_token_peeked)
    ultimately show ?thesis using IH f n False by (cases "has_peeked l") auto
  qed
qed

subsection \<open>The text of tokens\<close>

definition is_word_char :: "char \<Rightarrow> bool" where
  "is_word_char c = (is_letter c \<or> is_digit c \<or> c = CHR ''_'')"

fun quote_name :: "string \<Rightarrow> string" where
  "quote_name [] = [CHR 0x60]"
| "quote_name (c # s) = (if c = CHR 0x60 then [c, c] else [c]) @ quote_name s"

definition symbol_texts :: "token_type \<Rightarrow> string list" where
  "symbol_texts t = (case t of PLUS \<Rightarrow> [''+''] | MINUS \<Rightarrow> [''-''] | STAR \<Rightarrow> [''*''] | SLASH \<Rightarrow> [''/'']
     | PERCENT \<Rightarrow> [''%''] | EQ \<Rightarrow> [''=''] | NEQ \<Rightarrow> [''!='', ''<>''] | LT \<Rightarrow> [''<''] | GT \<Rightarrow> [''>'']
     | LTE \<Rightarrow> [''<=''] | GTE \<Rightarrow> [''>=''] | LPAREN \<Rightarrow> [''(''] | RPAREN \<Rightarrow> ['')''] | COMMA \<Rightarrow> ['','']
     | SEMICOLON \<Rightarrow> ['';''] | DOT \<Rightarrow> [''.''] | _ \<Rightarrow> [])"

text \<open>A token is a type with its text; \<open>printable\<close> are those that some text is read as, except
  string literals that contain a quote or a backslash.\<close>

definition printable :: "token_type \<times> string \<Rightarrow> bool" where
  "printable tv = (let (t, v) = tv in case t of
       KW k \<Rightarrow> map_of keyword_map (upper_ascii v) = Some t \<and> list_all is_word_char v
         \<and> v \<noteq> [] \<and> \<not> is_digit (hd v)
     | INT_LITERAL \<Rightarrow> v \<noteq> [] \<and> list_all is_digit v
     | FLOAT_LITERAL \<Rightarrow> (case dropWhile is_digit v of
           [] \<Rightarrow> False
         | c # w \<Rightarrow> c = CHR ''.'' \<and> list_all is_digit w \<and> is_digit (hd v))
     | STRING_LITERAL \<Rightarrow> CHR 0x27 \<notin> set v \<and> CHR 0x5C \<notin> set v
     | IDENTIFIER \<Rightarrow> True
     | _ \<Rightarrow> v \<in> set (symbol_texts t))"

definition show_token :: "token_type \<times> string \<Rightarrow> string" where
  "show_token tv = (let (t, v) = tv in
     if t = IDENTIFIER then CHR 0x60 # quote_name v
     else if t = STRING_LITERAL then [CHR 0x27] @ v @ [CHR 0x27]
     else v)"

definition show_tokens :: "(token_type \<times> string) list \<Rightarrow> string" where
  "show_tokens ts = concat (map (\<lambda>t. show_token t @ '' '') ts)"

definition token_text :: "token \<Rightarrow> token_type \<times> string" where
  "token_text t = (tok_type t, tok_value t)"

lemma read_number_text:
  assumes "lex_rest l = v @ CHR '' '' # r" "v \<noteq> []" "list_all is_digit v"
  shows "token_text (fst (read_number l)) = (INT_LITERAL, v) \<and> lex_rest (snd (read_number l)) = CHR '' '' # r"
proof -
  have sp: "\<not> is_digit (CHR '' '')" by (simp add: is_digit_def)
  have all: "\<And>x. x \<in> set v \<Longrightarrow> is_digit x" using assms by (simp add: list_all_iff)
  have rest: "lex_rest (skip_while is_digit l) = CHR '' '' # r"
    "lex_pos (skip_while is_digit l) = lex_pos l + length v"
    using assms(1) sp all by (simp_all add: skip_while_rest dropWhile_append2 takeWhile_append2)
  have "char_slice (lex_sql l) (lex_pos l) (length v) = v"
    using assms(1) by (intro char_slice_rest) simp_all
  then show ?thesis
    using rest peek_char_rest [OF rest(1)]
    by (simp add: read_number_def Let_def token_text_def)
qed

lemma read_float_text:
  assumes "lex_rest l = i @ CHR ''.'' # f @ CHR '' '' # r" "list_all is_digit i" "list_all is_digit f"
  shows "token_text (fst (read_number l)) = (FLOAT_LITERAL, i @ CHR ''.'' # f)
    \<and> lex_rest (snd (read_number l)) = CHR '' '' # r"
proof -
  have sp: "\<not> is_digit (CHR '' '')" "\<not> is_digit (CHR ''.'')" by (simp_all add: is_digit_def)
  have all: "\<And>x. x \<in> set i \<Longrightarrow> is_digit x" "\<And>x. x \<in> set f \<Longrightarrow> is_digit x"
    using assms by (simp_all add: list_all_iff)
  let ?m = "skip_while is_digit l"
  have m: "lex_rest ?m = CHR ''.'' # f @ CHR '' '' # r" "lex_pos ?m = lex_pos l + length i"
    using assms(1) sp all by (simp_all add: skip_while_rest dropWhile_append2 takeWhile_append2)
  have k: "lex_rest (skip_while is_digit (next_char ?m)) = CHR '' '' # r"
    "lex_pos (skip_while is_digit (next_char ?m)) = lex_pos l + (length i + Suc (length f))"
    using m sp all by (simp_all add: skip_while_rest dropWhile_append2 takeWhile_append2)
  have "char_slice (lex_sql l) (lex_pos l) (length i + Suc (length f)) = i @ CHR ''.'' # f"
    using assms(1) by (intro char_slice_rest) simp_all
  then show ?thesis
    using k m(1) peek_char_rest [OF m(1)]
    by (simp add: read_number_def Let_def token_text_def has_more_rest)
qed

lemma string_loop_text:
  assumes "lex_rest l = v @ q # r" "q \<notin> set v" "CHR 0x5C \<notin> set v"
  shows "lex_rest (string_loop q l) = q # r \<and> lex_pos (string_loop q l) = lex_pos l + length v"
  using assms
proof (induction v arbitrary: l)
  case Nil
  then show ?case by (subst (1 2) string_loop.simps) (simp add: peek_char_rest has_more_rest)
next
  case (Cons c v)
  then have "lex_rest (next_char l) = v @ q # r" by simp
  moreover have "string_loop q l = string_loop q (next_char l)"
    using Cons.prems peek_char_rest [of l c "v @ q # r"]
    by (subst string_loop.simps) (auto simp: has_more_rest)
  ultimately show ?case using Cons by simp
qed

lemma read_string_text:
  assumes "lex_rest l = CHR 0x27 # v @ CHR 0x27 # r" "CHR 0x27 \<notin> set v" "CHR 0x5C \<notin> set v"
  shows "token_text (fst (read_string l)) = (STRING_LITERAL, v) \<and> lex_rest (snd (read_string l)) = r"
proof -
  let ?m = "next_char l"
  have m: "lex_rest ?m = v @ CHR 0x27 # r" using assms(1) by simp
  note loop = string_loop_text [OF m assms(2,3)]
  have "char_slice (lex_sql l) (lex_pos ?m) (length v) = v"
    using m char_slice_rest [of "length v" ?m v] by simp
  then show ?thesis
    using loop peek_char_rest [OF assms(1)]
    by (simp add: read_string_def Let_def token_text_def has_more_rest)
qed

lemma quoted_loop_text:
  assumes "lex_rest l = quote_name v @ r" "r = [] \<or> hd r \<noteq> CHR 0x60"
  shows "fst (quoted_loop (CHR 0x60) w l) = w @ v \<and> lex_rest (snd (quoted_loop (CHR 0x60) w l)) = r"
  using assms(1)
proof (induction v arbitrary: w l)
  case Nil
  then show ?case
    using assms(2) peek_char_rest [of l "CHR 0x60" r] peek_char_rest [of "next_char l" "hd r" "tl r"]
    by (subst (1 2) quoted_loop.simps) (auto simp: Let_def has_more_rest)
next
  case (Cons c v)
  show ?case
  proof (cases "c = CHR 0x60")
    case True
    then have "quoted_loop (CHR 0x60) w l = quoted_loop (CHR 0x60) (w @ [c]) (next_char (next_char l))"
      using Cons.prems peek_char_rest [of l c "c # quote_name v @ r"]
        peek_char_rest [of "next_char l" c "quote_name v @ r"]
      by (subst quoted_loop.simps) (simp add: Let_def has_more_rest)
    then show ?thesis using Cons.IH [of "next_char (next_char l)" "w @ [c]"] Cons.prems True by simp
  next
    case False
    then have "quoted_loop (CHR 0x60) w l = quoted_loop (CHR 0x60) (w @ [c]) (next_char l)"
      using Cons.prems peek_char_rest [of l c "quote_name v @ r"]
      by (subst quoted_loop.simps) (simp add: Let_def has_more_rest)
    then show ?thesis using Cons.IH [of "next_char l" "w @ [c]"] Cons.prems False by simp
  qed
qed

lemma read_quoted_text:
  assumes "lex_rest l = CHR 0x60 # quote_name v @ CHR '' '' # r"
  shows "token_text (fst (read_quoted_identifier l)) = (IDENTIFIER, v)
    \<and> lex_rest (snd (read_quoted_identifier l)) = CHR '' '' # r"
  using quoted_loop_text [of "next_char l" v "CHR '' '' # r" "[]"] assms peek_char_rest [OF assms]
  by (simp add: read_quoted_identifier_def case_prod_beta token_text_def)

lemma read_word_text:
  assumes "lex_rest l = v @ CHR '' '' # r" "list_all is_word_char v"
    "map_of keyword_map (upper_ascii v) = Some t"
  shows "token_text (fst (read_identifier l)) = (t, v) \<and> lex_rest (snd (read_identifier l)) = CHR '' '' # r"
proof -
  let ?P = "\<lambda>c. is_letter c \<or> is_digit c \<or> c = CHR ''_''"
  have sp: "\<not> ?P (CHR '' '')" by (simp add: is_digit_def is_letter_def)
  have all: "\<And>x. x \<in> set v \<Longrightarrow> ?P x" using assms(2) by (simp add: list_all_iff is_word_char_def)
  have "lex_rest (skip_while ?P l) = CHR '' '' # r"
    "lex_pos (skip_while ?P l) = lex_pos l + length v"
    using assms(1) sp all by (simp_all add: skip_while_rest dropWhile_append2 takeWhile_append2)
  moreover have "char_slice (lex_sql l) (lex_pos l) (length v) = v"
    using assms(1) by (intro char_slice_rest) simp_all
  ultimately show ?thesis using assms(3) by (simp add: read_identifier_def Let_def token_text_def)
qed

lemma read_symbol_text:
  assumes "lex_rest l = v @ CHR '' '' # r" "v \<in> set (symbol_texts t)"
  shows "token_text (fst (read_symbol (hd v) ln col (next_char l))) = (t, v)
    \<and> lex_rest (snd (read_symbol (hd v) ln col (next_char l))) = CHR '' '' # r"
proof -
  have "lex_rest (next_char l) = tl v @ CHR '' '' # r"
    using assms by (auto simp: symbol_texts_def split: token_type.splits)
  then show ?thesis
    using assms
    by (auto simp: symbol_texts_def read_symbol_def token_text_def next_is_rest split: token_type.splits)
qed

lemma show_token_head:
  assumes "printable tv"
  obtains c s where "show_token tv = c # s" "\<not> (c = CHR '' '' \<or> c = CHR 0x09 \<or> c = CHR 0x0A \<or> c = CHR 0x0D)"
proof -
  obtain t v where tv: "tv = (t, v)" by fastforce
  have word: "\<not> is_word_char (CHR '' '')" "\<not> is_word_char (CHR 0x09)" "\<not> is_word_char (CHR 0x0A)"
    "\<not> is_word_char (CHR 0x0D)"
    by (simp_all add: is_word_char_def is_letter_def is_digit_def)
  then have digit: "\<not> is_digit (CHR '' '')" "\<not> is_digit (CHR 0x09)" "\<not> is_digit (CHR 0x0A)"
    "\<not> is_digit (CHR 0x0D)"
    by (simp_all add: is_word_char_def)
  show ?thesis
  proof (cases t)
    case KW
    then show ?thesis
      using that assms tv word by (cases v) (auto simp: show_token_def printable_def)
  next
    case INT_LITERAL
    then show ?thesis
      using that assms tv digit by (cases v) (auto simp: show_token_def printable_def)
  next
    case FLOAT_LITERAL
    then show ?thesis
      using that assms tv digit by (cases v) (auto simp: show_token_def printable_def split: list.splits)
  qed (use that assms tv in \<open>auto simp: show_token_def printable_def symbol_texts_def\<close>)
qed

lemma next_token_text:
  assumes "\<not> has_peeked l" "lex_rest l = ws @ show_token tv @ CHR '' '' # r" "ws = [] \<or> ws = '' ''"
    "printable tv"
  shows "token_text (fst (next_token l)) = tv \<and> lex_rest (snd (next_token l)) = CHR '' '' # r"
proof -
  let ?m = "skip_whitespace l"
  obtain c s where c: "show_token tv = c # s" "\<not> (c = CHR '' '' \<or> c = CHR 0x09 \<or> c = CHR 0x0A \<or> c = CHR 0x0D)"
    using assms(4) by (rule show_token_head)
  have m: "lex_rest ?m = show_token tv @ CHR '' '' # r" "\<not> has_peeked ?m"
    using assms c by (auto simp: skip_whitespace_def skip_while_rest)
  have pk: "peek_char ?m = c" "has_more ?m" using m c peek_char_rest by (auto simp: has_more_rest)
  have eq: "next_token l =
    (if is_digit c then read_number ?m
     else if c = CHR 0x27 \<or> c = CHR 0x22 then read_string ?m
     else if c = CHR 0x60 then read_quoted_identifier ?m
     else if is_letter c \<or> c = CHR ''_'' then read_identifier ?m
     else if c = CHR ''-'' \<and> next_is (next_char ?m) (CHR ''-'') then next_token (skip_comment (next_char ?m))
     else read_symbol c (lex_line ?m) (lex_column ?m) (next_char ?m))"
    using assms(1) pk by (subst next_token.simps) (simp add: Let_def)
  obtain t v where tv: "tv = (t, v)" by fastforce
  consider (word) k where "t = KW k" | (int) "t = INT_LITERAL" | (float) "t = FLOAT_LITERAL"
    | (str) "t = STRING_LITERAL" | (name) "t = IDENTIFIER" | (sym) "v \<in> set (symbol_texts t)"
      "t \<notin> {STRING_LITERAL, IDENTIFIER}"
    using assms(4) tv by (cases t) (auto simp: printable_def symbol_texts_def)
  then show ?thesis
  proof cases
    case word
    then have "v = c # s" "is_word_char c" "\<not> is_digit c" "list_all is_word_char v"
      "map_of keyword_map (upper_ascii v) = Some t"
      using assms(4) tv c(1) by (auto simp: printable_def show_token_def)
    moreover have "c \<noteq> CHR 0x27" "c \<noteq> CHR 0x22" "c \<noteq> CHR 0x60"
      using \<open>is_word_char c\<close> by (auto simp: is_word_char_def is_letter_def is_digit_def)
    ultimately have "next_token l = read_identifier ?m" by (simp add: eq is_word_char_def)
    moreover have "show_token tv = v" using word tv by (simp add: show_token_def)
    ultimately show ?thesis
      using read_word_text [of ?m v r t] m(1) tv \<open>list_all is_word_char v\<close>
        \<open>map_of keyword_map (upper_ascii v) = Some t\<close> by simp
  next
    case int
    then have "v = c # s" "list_all is_digit v" using assms(4) tv c(1) by (auto simp: printable_def show_token_def)
    then show ?thesis using read_number_text [of ?m v r] m(1) c(1) tv int by (simp add: eq)
  next
    case float
    then obtain w where w: "dropWhile is_digit v = CHR ''.'' # w" "list_all is_digit w" "v = c # s" "is_digit c"
      using assms(4) tv c(1) by (auto simp: printable_def show_token_def split: list.splits)
    obtain i where v: "v = i @ CHR ''.'' # w" "list_all is_digit i"
      using takeWhile_dropWhile_id [of is_digit v] w(1) that [of "takeWhile is_digit v"]
      by (simp add: list_all_iff) (metis set_takeWhileD)
    have "lex_rest ?m = i @ CHR ''.'' # w @ CHR '' '' # r" "next_token l = read_number ?m"
      using m(1) tv float v(1) w(4) by (simp_all add: eq show_token_def)
    then show ?thesis using read_float_text [of ?m i w r] w(2) v tv float by simp
  next
    case str
    then have "c = CHR 0x27" "s = v @ [CHR 0x27]" "CHR 0x27 \<notin> set v" "CHR 0x5C \<notin> set v"
      using assms(4) tv c(1) by (auto simp: printable_def show_token_def)
    then show ?thesis using read_string_text [of ?m v "CHR '' '' # r"] m(1) c(1) tv str
      by (simp add: eq is_digit_def)
  next
    case name
    then have "c = CHR 0x60" "s = quote_name v" using tv c(1) by (auto simp: show_token_def)
    then show ?thesis using read_quoted_text [of ?m v r] m(1) c(1) tv name by (simp add: eq is_digit_def)
  next
    case sym
    then have v: "v = c # s" using tv c(1) by (simp add: show_token_def)
    have "\<not> is_digit c" "c \<noteq> CHR 0x27" "c \<noteq> CHR 0x22" "c \<noteq> CHR 0x60" "\<not> is_letter c" "c \<noteq> CHR ''_''"
      "c = CHR ''-'' \<longrightarrow> s = []"
      using sym v by (auto simp: symbol_texts_def is_digit_def is_letter_def split: token_type.splits)
    then have "next_token l = read_symbol c (lex_line ?m) (lex_column ?m) (next_char ?m)"
      using m(1) c(1) by (auto simp: eq next_is_rest)
    then show ?thesis using read_symbol_text [of ?m v r t] m(1) c(1) tv sym v by simp
  qed
qed

lemma tokens_text:
  assumes "\<not> has_peeked l" "lex_rest l = ws @ show_tokens ts" "ws = [] \<or> ws = '' ''" "list_all printable ts"
  shows "map token_text (tokens l) = ts"
  using assms
proof (induction ts arbitrary: l ws)
  case Nil
  then have "\<not> has_more (skip_whitespace l)"
    by (auto simp: show_tokens_def has_more_rest skip_whitespace_def skip_while_rest)
  then have "tok_type (fst (next_token l)) = END_OF_INPUT"
    using Nil.prems(1) by (subst next_token.simps) (simp add: Let_def)
  then show ?case by (subst next_token_tokens) simp
next
  case (Cons tv ts)
  have "lex_rest l = ws @ show_token tv @ CHR '' '' # show_tokens ts"
    using Cons.prems(2) by (simp add: show_tokens_def)
  then have n: "token_text (fst (next_token l)) = tv" "lex_rest (snd (next_token l)) = '' '' @ show_tokens ts"
    using next_token_text [OF Cons.prems(1) _ Cons.prems(3)] Cons.prems(4) by simp_all
  have "tok_type (fst (next_token l)) \<noteq> END_OF_INPUT"
    using n(1) Cons.prems(4) by (auto simp: token_text_def printable_def symbol_texts_def)
  then show ?case
    using n Cons.IH [OF next_token_frame(2) n(2)] Cons.prems(4) by (subst next_token_tokens) simp
qed

subsection \<open>Properties\<close>

text \<open>
  C30: The text of any list of printable tokens is read back as these tokens.  Printable are all
  keywords in any spelling, all names (written in backquotes), all numbers and symbols, and all
  strings without quotes and backslashes.\<close>

theorem lexer_reads_tokens:
  "list_all printable ts \<Longrightarrow> map token_text (tokens (new_lexer (show_tokens ts))) = ts"
  by (rule tokens_text [where ws = "[]"]) (simp_all add: new_lexer_def lex_rest_def)

theorem lexer_reads_tokens_witness:
  "map token_text (tokens (new_lexer (''select '' @ [CHR 0x60] @ ''id'' @ [CHR 0x60] @ '' <= '' @ [CHR 0x27] @ ''x'' @ [CHR 0x27] @ '' '')))
   = [(KW ''SELECT'', ''select''), (IDENTIFIER, ''id''), (LTE, ''<=''), (STRING_LITERAL, ''x'')]"
proof -
  let ?ts = "[(KW ''SELECT'', ''select''), (IDENTIFIER, ''id''), (LTE, ''<=''), (STRING_LITERAL, ''x'')]"
  have "list_all printable ?ts" by code_simp
  moreover have "show_tokens ?ts = (''select '' @ [CHR 0x60] @ ''id'' @ [CHR 0x60] @ '' <= '' @ [CHR 0x27] @ ''x'' @ [CHR 0x27] @ '' '')" by code_simp
  ultimately show ?thesis using lexer_reads_tokens [of ?ts] by simp
qed

end
