(* ===== verification/Ast.thy ===== *)
theory Ast
  imports Expression Nested_Loop_Join
begin

section \<open>Syntax trees\<close>

text \<open>
  \<^verbatim>\<open>src/src/sql/parser/ast.h\<close>.  An expression is a node with the alias that a select list may give it;
  expressions, table references and selects contain each other.  Null pointers are \<open>None\<close>.  The copies that
  \<^verbatim>\<open>clone\<close> makes are the trees themselves, which \<open>clone_copies\<close> shows field by field.
\<close>

subsection \<open>Expressions and selects\<close>

datatype expression = Expression (node: expr_node) (exp_alias: string)
  and expr_node =
    NLiteral db_value
  | NColumnRef string string
  | NBinaryOp string "expression option" "expression option"
  | NUnaryOp string "expression option"
  | NStar
  | NSubquery "select_stmt option"
  | NCase "(expression \<times> expression) list" "expression option"
  | NCast "expression option" type_id
  and table_ref = TableRef (ref_name: string) (ref_alias: string) (ref_subquery: "select_stmt option")
  and join_clause = JoinClause (join_kind: join_type) (join_table: table_ref) (join_on: "expression option")
  and order_by_item = OrderByItem (order_expr: expression) (order_ascending: bool) (order_nulls_first: bool)
  and select_stmt = SelectStmt
    (select_list: "expression list")
    (from_tables: "table_ref list")
    (join_clauses: "join_clause list")
    (where_clause: "expression option")
    (group_exprs: "expression list")
    (having_clause: "expression option")
    (order_items: "order_by_item list")
    (limit_count: i32)
    (offset_count: i32)
    (is_distinct: bool)
    (union_all: bool)
    (union_rhs: "select_stmt option")

definition new_select :: select_stmt where
  "new_select = SelectStmt [] [] [] None [] None [] (- 1) (- 1) False False None"

definition plain_expr :: "expr_node \<Rightarrow> expression" where
  "plain_expr n = Expression n []"

definition set_alias :: "string \<Rightarrow> expression \<Rightarrow> expression" where
  "set_alias a e = Expression (node e) a"

definition binary :: "string \<Rightarrow> expression \<Rightarrow> expression \<Rightarrow> expression" where
  "binary op l r = plain_expr (NBinaryOp op (Some l) (Some r))"

definition unary :: "string \<Rightarrow> expression \<Rightarrow> expression" where
  "unary op e = plain_expr (NUnaryOp op (Some e))"

subsection \<open>Copies\<close>

primrec clone_expr :: "expression \<Rightarrow> expression"
  and clone_node :: "expr_node \<Rightarrow> expr_node"
  and copy_table :: "table_ref \<Rightarrow> table_ref"
  and clone_join :: "join_clause \<Rightarrow> join_clause"
  and clone_order :: "order_by_item \<Rightarrow> order_by_item"
  and clone_select :: "select_stmt \<Rightarrow> select_stmt" where
  "clone_expr (Expression n a) = Expression (clone_node n) a"
| "clone_node (NLiteral v) = NLiteral v"
| "clone_node (NColumnRef t c) = NColumnRef t c"
| "clone_node (NBinaryOp op l r) = NBinaryOp op (map_option clone_expr l) (map_option clone_expr r)"
| "clone_node (NUnaryOp op e) = NUnaryOp op (map_option clone_expr e)"
| "clone_node NStar = NStar"
| "clone_node (NSubquery s) = NSubquery (map_option clone_select s)"
| "clone_node (NCase ws e) = NCase (map (map_prod clone_expr clone_expr) ws) (map_option clone_expr e)"
| "clone_node (NCast e t) = NCast (map_option clone_expr e) t"
| "copy_table (TableRef n a s) = TableRef n a (map_option clone_select s)"
| "clone_join (JoinClause k t on) = JoinClause k (copy_table t) (map_option clone_expr on)"
| "clone_order (OrderByItem e asc nf) = OrderByItem (clone_expr e) asc nf"
| "clone_select (SelectStmt sl ft js wh gb hv ob lim off d ua rhs) =
     SelectStmt (map clone_expr sl) (map copy_table ft) (map clone_join js) (map_option clone_expr wh)
       (map clone_expr gb) (map_option clone_expr hv) (map clone_order ob) lim off d ua
       (map_option clone_select rhs)"

lemma map_option_same: "(\<And>y. x = Some y \<Longrightarrow> f y = y) \<Longrightarrow> map_option f x = x"
  by (cases x) auto

lemma clone_copies:
  "clone_expr e = e" "clone_node n = n" "copy_table t = t" "clone_join j = j" "clone_order oi = oi"
  "clone_select s = s"
proof (induction e and n and t and j and oi and s)
  case (NCase ws e)
  have "map_prod clone_expr clone_expr w = w" if "w \<in> set ws" for w
    using NCase(1) [OF that] NCase(2) [OF that] by (cases w) (auto simp: fsts.simps snds.simps)
  moreover have "map_option clone_expr e = e" using NCase(3) by (cases e) auto
  ultimately show ?case by (simp add: map_idI)
qed (auto intro: map_idI map_option_same)

subsection \<open>Statements\<close>

record insert_stmt =
  ins_table :: string
  ins_columns :: "string list"
  ins_values :: "expression list list"

record update_stmt =
  upd_table :: string
  upd_sets :: "(string \<times> expression) list"
  upd_where :: "expression option"

record delete_stmt =
  del_table :: string
  del_where :: "expression option"

record column_def =
  def_name :: string
  def_type_name :: string
  def_not_null :: bool
  def_primary :: bool
  def_unique :: bool
  def_varchar_length :: i32
  def_default :: string
  def_check :: string

definition new_column_def :: column_def where
  "new_column_def = \<lparr>def_name = [], def_type_name = [], def_not_null = False, def_primary = False,
     def_unique = False, def_varchar_length = - 1, def_default = [], def_check = []\<rparr>"

record create_table_stmt =
  create_table_name :: string
  create_columns :: "column_def list"

record create_index_stmt =
  idx_name :: string
  idx_table :: string
  idx_columns :: "string list"
  idx_unique :: bool

text \<open>What an \<^verbatim>\<open>ALTER TABLE\<close> does; the fields the source leaves unused have no place here.  The last
  constructor is a statement whose action was not recognised, after which the parser has an error.\<close>

datatype alter_action =
    AddColumn column_def
  | DropColumn string
  | RenameColumn string string
  | NoAction

record trace_options =
  trace_level :: u8
  trace_channels :: u32
  trace_events_path :: string

datatype statement =
    SSelect "select_stmt option"
  | SInsert insert_stmt
  | SUpdate update_stmt
  | SDelete delete_stmt
  | SCreateTable create_table_stmt
  | SDropTable string
  | SCreateIndex create_index_stmt
  | SDropIndex string
  | SShowTables
  | SDescTable string
  | SBegin
  | SCommit
  | SRollback
  | SExplain (explain_analyze: bool) (explain_trace: bool) (explain_options: trace_options) (explained: statement)
  | SAlterTable string alter_action
  | SPrepare string string
  | SExecute string "expression list"
  | SDeallocate string
  | SAnalyze string
  | SVacuum string

text \<open>The statement that the default constructor makes, returned on errors: a select without a tree.\<close>

definition no_statement :: statement where
  "no_statement = SSelect None"

end
