(* ===== verification/Parser.thy ===== *)
theory Parser
  imports Lexer Ast "HOL-Library.Monad_Syntax"
begin

section \<open>Recursive descent parser\<close>

text \<open>
  \<^verbatim>\<open>src/src/sql/parser/parser.{h,cpp}\<close>.  The state is the lexer, a flag and the first error.  After an error the
  parser goes on reading and reports at the end.  Expressions and selects call each other; the two functions at
  the knot carry a bound on the depth of the nesting, and every other function takes them as arguments.  Loops are
  partial functions; \<open>None\<close> is a loop that does not end or a nesting deeper than the bound.  \<open>Parser_Laws\<close> shows
  that with the bound used by \<open>parse\<close> neither happens.
\<close>

subsection \<open>Tokens and errors\<close>

record parser_error =
  err_message :: string
  err_near :: string
  err_line :: nat
  err_column :: nat

record parser =
  p_lexer :: lexer
  p_ok :: bool
  p_error :: parser_error

type_synonym 'a parse = "parser \<Rightarrow> ('a \<times> parser) option"

definition new_parser :: "string \<Rightarrow> parser" where
  "new_parser sql = \<lparr>p_lexer = new_lexer sql, p_ok = True,
     p_error = \<lparr>err_message = [], err_near = [], err_line = 0, err_column = 0\<rparr>\<rparr>"

definition peek_tok :: "parser \<Rightarrow> token \<times> parser" where
  "peek_tok p = (let (t, l) = peek_token (p_lexer p) in (t, p\<lparr>p_lexer := l\<rparr>))"

definition consume :: "parser \<Rightarrow> parser" where
  "consume p = p\<lparr>p_lexer := consume_token (p_lexer p)\<rparr>"

definition set_error :: "string \<Rightarrow> parser \<Rightarrow> parser" where
  "set_error message p =
     (if p_ok p
      then p\<lparr>p_ok := False, p_error := \<lparr>err_message = message, err_near = [], err_line = 0, err_column = 0\<rparr>\<rparr>
      else p)"

definition set_error_at :: "string \<Rightarrow> token \<Rightarrow> parser \<Rightarrow> parser" where
  "set_error_at message tok p =
     (if p_ok p
      then p\<lparr>p_ok := False, p_error := \<lparr>err_message = message,
             err_near = (if tok_type tok = END_OF_INPUT then ''<end of input>''
                         else if tok_value tok \<noteq> [] then tok_value tok else ''<unknown>''),
             err_line = tok_line tok, err_column = tok_column tok\<rparr>\<rparr>
      else p)"

definition mark_error :: "parser \<Rightarrow> parser" where
  "mark_error p = (if p_ok p then let (t, p1) = peek_tok p in set_error_at ''syntax error'' t p1 else p)"

definition keyword_index :: "string \<Rightarrow> nat" where
  "keyword_index k = length (takeWhile (\<lambda>x. x \<noteq> k) keyword_enumerators)"

definition is_identifier_token :: "token_type \<Rightarrow> bool" where
  "is_identifier_token t = (t = IDENTIFIER \<or>
     (case t of KW k \<Rightarrow> keyword_index k \<le> keyword_index ''DEALLOCATE'' | _ \<Rightarrow> False))"

definition check :: "token_type \<Rightarrow> parser \<Rightarrow> bool \<times> parser" where
  "check ty p = (let (t, p1) = peek_tok p in (tok_type t = ty, p1))"

definition match_token :: "token_type \<Rightarrow> parser \<Rightarrow> bool \<times> parser" where
  "match_token ty p = (let (yes, p1) = check ty p in if yes then (True, consume p1) else (False, p1))"

definition expect_token :: "token_type \<Rightarrow> parser \<Rightarrow> token \<times> parser" where
  "expect_token ty p = (let (t, p1) = peek_tok p in
     if tok_type t \<noteq> ty
     then (make_token ERROR_TOKEN ''unexpected token'' (tok_line t) (tok_column t),
           consume (set_error_at ''expected different token'' t p1))
     else (t, consume p1))"

definition expect_keyword :: "token_type \<Rightarrow> parser \<Rightarrow> token \<times> parser" where
  "expect_keyword ty p = (let (t, p1) = peek_tok p in
     if tok_type t \<noteq> ty
     then (make_token ERROR_TOKEN ''unexpected keyword'' (tok_line t) (tok_column t),
           consume (set_error_at ''expected keyword'' t p1))
     else (t, consume p1))"

definition expect_alias :: "parser \<Rightarrow> token \<times> parser" where
  "expect_alias p = (let (t, p1) = peek_tok p in
     if is_identifier_token (tok_type t) then (t, consume p1)
     else (make_token ERROR_TOKEN ''unexpected token'' (tok_line t) (tok_column t),
           consume (set_error_at ''expected identifier'' t p1)))"

definition expect_identifier :: "parser \<Rightarrow> token \<times> parser" where
  "expect_identifier = expect_alias"

definition parse_name :: "string parse" where
  "parse_name p = (let (t, p1) = expect_identifier p in Some (tok_value t, p1))"

subsection \<open>Loops\<close>

text \<open>\<^verbatim>\<open>while (match(COMMA)) xs.push_back(f())\<close>, and the lists that start with one element.\<close>

partial_function (option) comma_loop :: "'a parse \<Rightarrow> 'a list \<Rightarrow> parser \<Rightarrow> ('a list \<times> parser) option" where
  "comma_loop f xs p =
     (let (comma, p1) = match_token COMMA p in
      if comma then do { (x, p2) \<leftarrow> f p1; comma_loop f (xs @ [x]) p2 } else Some (xs, p1))"

definition comma_list :: "'a parse \<Rightarrow> 'a list parse" where
  "comma_list f p = do { (x, p1) \<leftarrow> f p; comma_loop f [x] p1 }"

text \<open>The loops of the left-associative operators: \<open>is_op\<close> accepts the operator token, \<open>op\<close> names the node.\<close>

partial_function (option) left_loop ::
  "(token_type \<Rightarrow> bool) \<Rightarrow> (token \<Rightarrow> string) \<Rightarrow> expression parse \<Rightarrow> expression \<Rightarrow> parser \<Rightarrow>
     (expression \<times> parser) option" where
  "left_loop is_op op sub left p =
     (let (t, p1) = peek_tok p in
      if is_op (tok_type t)
      then do { (right, p2) \<leftarrow> sub (consume p1); left_loop is_op op sub (binary (op t) left right) p2 }
      else Some (left, p1))"

subsection \<open>Primary expressions\<close>

definition strtol_value :: "string \<Rightarrow> int" where
  "strtol_value s = (case strtol (c_str s) of Some (v, _) \<Rightarrow> v | None \<Rightarrow> 0)"

definition int_literal :: "string \<Rightarrow> db_value" where
  "int_literal s = (let v = strtol_value s in
     if - 2147483648 \<le> v \<and> v \<le> 2147483647 then VInt32 (word_of_int v) else VInt64 (word_of_int v))"

definition float_literal :: "string \<Rightarrow> db_value" where
  "float_literal s = VDouble (of_nat (case fp_strto 52 11 (c_str s) of Some (v, _) \<Rightarrow> v | None \<Rightarrow> 0))"

definition literal :: "db_value \<Rightarrow> expression" where
  "literal v = plain_expr (NLiteral v)"

partial_function (option) case_loop ::
  "expression parse \<Rightarrow> (expression \<times> expression) list \<Rightarrow> parser \<Rightarrow>
     ((expression \<times> expression) list \<times> parser) option" where
  "case_loop expr ws p =
     (let (yes, p1) = match_token (KW ''WHEN'') p in
      if yes then do {
        (cond, p2) \<leftarrow> expr p1;
        let (_, p3) = expect_keyword (KW ''THEN'') p2;
        (result, p4) \<leftarrow> expr p3;
        case_loop expr (ws @ [(cond, result)]) p4 }
      else Some (ws, p1))"

definition parse_case :: "expression parse \<Rightarrow> expression parse" where
  "parse_case expr p = do {
     (ws, p1) \<leftarrow> case_loop expr [] p;
     let (has_else, p2) = match_token (KW ''ELSE'') p1;
     (els, p3) \<leftarrow> (if has_else then do { (e, q) \<leftarrow> expr p2; Some (Some e, q) } else Some (None, p2));
     let (_, p4) = expect_keyword (KW ''END'') p3;
     Some (plain_expr (NCase ws els), p4) }"

definition cast_type :: "parser \<Rightarrow> type_id \<times> parser" where
  "cast_type p =
     (let (t, p1) = peek_tok p; ty = tok_type t in
      if ty = KW ''INT'' then (KInt32, consume p1)
      else if ty = KW ''INT64'' then (KInt64, consume p1)
      else if ty = KW ''FLOAT'' then (KFloat, consume p1)
      else if ty = KW ''DOUBLE'' then (KDouble, consume p1)
      else if ty = KW ''BOOL'' then (KBool, consume p1)
      else if ty = KW ''VARCHAR'' then
        (let (paren, p2) = match_token LPAREN (consume p1) in
         if paren then (KVarchar, snd (expect_token RPAREN (snd (expect_token INT_LITERAL p2)))) else (KVarchar, p2))
      else if ty = KW ''TEXT'' then (KVarchar, consume p1)
      else if ty = KW ''TIMESTAMP'' then (KTimestamp, consume p1)
      else if ty = KW ''DATETIME'' then (KDatetime, consume p1)
      else (KNull, set_error ''expected type name after AS'' p1))"

definition parse_cast :: "expression parse \<Rightarrow> expression parse" where
  "parse_cast expr p = do {
     (source, p1) \<leftarrow> expr (snd (expect_token LPAREN p));
     let (target, p2) = cast_type (snd (expect_keyword (KW ''AS'') p1));
     Some (plain_expr (NCast (Some source) target), snd (expect_token RPAREN p2)) }"

definition parse_coalesce :: "expression parse \<Rightarrow> expression parse" where
  "parse_coalesce expr p = do {
     (es, p1) \<leftarrow> comma_list expr (snd (expect_token LPAREN p));
     Some (foldl (binary ''COALESCE'') (hd es) (tl es), snd (expect_token RPAREN p1)) }"

definition parse_nullif :: "expression parse \<Rightarrow> expression parse" where
  "parse_nullif expr p = do {
     (a, p1) \<leftarrow> expr (snd (expect_token LPAREN p));
     (b, p2) \<leftarrow> expr (snd (expect_token COMMA p1));
     Some (binary ''NULLIF'' a b, snd (expect_token RPAREN p2)) }"

definition aggregate_names :: "(token_type \<times> string) list" where
  "aggregate_names = [(KW ''COUNT'', ''COUNT''), (KW ''SUM'', ''SUM''), (KW ''AVG'', ''AVG''),
     (KW ''MIN'', ''MIN''), (KW ''MAX'', ''MAX'')]"

text \<open>\<open>t\<close> is the name of the function, already consumed.\<close>

definition parse_aggregate :: "expression parse \<Rightarrow> string \<Rightarrow> token \<Rightarrow> expression parse" where
  "parse_aggregate expr name t p =
     (let (paren, p1) = match_token LPAREN p in
      if \<not> paren then Some (plain_expr (NColumnRef [] (tok_value t)), p1)
      else do {
        let (distinct_arg, p2) = match_token (KW ''DISTINCT'') p1;
        let (star, p3) = match_token STAR p2;
        (arg, p4) \<leftarrow> (if star then Some (None, p3) else do { (e, q) \<leftarrow> expr p3; Some (Some e, q) });
        Some (plain_expr (NBinaryOp (if distinct_arg then name @ ''_DISTINCT'' else name) arg None),
              snd (expect_token RPAREN p4)) })"

definition subquery :: "select_stmt \<Rightarrow> expression" where
  "subquery s = plain_expr (NSubquery (Some s))"

definition parse_parenthesised :: "expression parse \<Rightarrow> select_stmt parse \<Rightarrow> expression parse" where
  "parse_parenthesised expr sel p =
     (let (is_select, p1) = check (KW ''SELECT'') p in
      if is_select then do { (s, p2) \<leftarrow> sel p1; Some (subquery s, snd (expect_token RPAREN p2)) }
      else do { (e, p2) \<leftarrow> expr p1; Some (e, snd (expect_token RPAREN p2)) })"

definition parse_length :: "expression parse \<Rightarrow> token \<Rightarrow> expression parse" where
  "parse_length expr t p =
     (let (paren, p1) = match_token LPAREN p in
      if \<not> paren then Some (plain_expr (NColumnRef [] (tok_value t)), p1)
      else do { (arg, p2) \<leftarrow> expr p1; Some (unary ''LENGTH'' arg, snd (expect_token RPAREN p2)) })"

definition parse_column_ref :: "token \<Rightarrow> expression parse" where
  "parse_column_ref t p =
     (let (dot, p1) = check DOT p in
      if dot then let (c, p2) = expect_identifier (consume p1)
        in Some (plain_expr (NColumnRef (tok_value t) (tok_value c)), p2)
      else Some (plain_expr (NColumnRef [] (tok_value t)), p1))"

definition parse_primary :: "expression parse \<Rightarrow> select_stmt parse \<Rightarrow> expression parse" where
  "parse_primary expr sel p0 =
     (let (t, p) = peek_tok p0; ty = tok_type t in
      if ty = INT_LITERAL then Some (literal (int_literal (tok_value t)), consume p)
      else if ty = FLOAT_LITERAL then Some (literal (float_literal (tok_value t)), consume p)
      else if ty = STRING_LITERAL then Some (literal (VVarchar (tok_value t)), consume p)
      else if ty = KW ''TRUE'' then Some (literal (VBool True), consume p)
      else if ty = KW ''FALSE'' then Some (literal (VBool False), consume p)
      else if ty = KW ''NULL'' then Some (literal VNull, consume p)
      else if ty = KW ''CASE'' then parse_case expr (consume p)
      else if ty = KW ''CAST'' then parse_cast expr (consume p)
      else if ty = KW ''COALESCE'' then parse_coalesce expr (consume p)
      else if ty = KW ''NULLIF'' then parse_nullif expr (consume p)
      else case map_of aggregate_names ty of
        Some name \<Rightarrow> parse_aggregate expr name t (consume p)
      | None \<Rightarrow>
          if ty = LPAREN then parse_parenthesised expr sel (consume p)
          else if ty = STAR then Some (plain_expr NStar, consume p)
          else if is_identifier_token ty \<and> upper_ascii (tok_value t) = ''LENGTH''
          then parse_length expr t (consume p)
          else if is_identifier_token ty then parse_column_ref t (consume p)
          else Some (literal VNull,
                 if ty = END_OF_INPUT then mark_error p else consume (mark_error p)))"

subsection \<open>Operators\<close>

definition parse_unary :: "expression parse \<Rightarrow> select_stmt parse \<Rightarrow> expression parse" where
  "parse_unary expr sel p =
     (let (minus, p1) = check MINUS p in
      if minus then do { (child, p2) \<leftarrow> parse_primary expr sel (consume p1); Some (unary ''-'' child, p2) }
      else parse_primary expr sel p1)"

definition parse_multiplication :: "expression parse \<Rightarrow> select_stmt parse \<Rightarrow> expression parse" where
  "parse_multiplication expr sel p = do {
     (left, p1) \<leftarrow> parse_unary expr sel p;
     left_loop (\<lambda>ty. ty = STAR \<or> ty = SLASH \<or> ty = PERCENT) tok_value (parse_unary expr sel) left p1 }"

definition parse_addition :: "expression parse \<Rightarrow> select_stmt parse \<Rightarrow> expression parse" where
  "parse_addition expr sel p = do {
     (left, p1) \<leftarrow> parse_multiplication expr sel p;
     left_loop (\<lambda>ty. ty = PLUS \<or> ty = MINUS) tok_value (parse_multiplication expr sel) left p1 }"

definition in_chain :: "expression \<Rightarrow> expression list \<Rightarrow> expression" where
  "in_chain left vals =
     foldl (\<lambda>result v. binary ''OR'' result (binary ''='' left v)) (binary ''='' left (hd vals)) (tl vals)"

definition between :: "expression \<Rightarrow> expression \<Rightarrow> expression \<Rightarrow> expression" where
  "between left low high = binary ''AND'' (binary ''>='' left low) (binary ''<='' left high)"

text \<open>The list or subquery after \<^verbatim>\<open>IN\<close>; \<open>negate\<close> tells whether \<^verbatim>\<open>NOT\<close> stood before it.\<close>

definition parse_in :: "expression parse \<Rightarrow> select_stmt parse \<Rightarrow> bool \<Rightarrow> expression \<Rightarrow> expression parse" where
  "parse_in expr sel negate left p =
     (let (is_select, p1) = check (KW ''SELECT'') (snd (expect_token LPAREN p)) in
      if is_select then do {
        (s, p2) \<leftarrow> sel p1;
        Some (binary (if negate then ''NOT_IN_SUBQUERY'' else ''IN_SUBQUERY'') left (subquery s),
              snd (expect_token RPAREN p2)) }
      else do {
        (vals, p2) \<leftarrow> comma_list expr p1;
        Some (if negate then unary ''NOT'' (in_chain left vals) else in_chain left vals,
              snd (expect_token RPAREN p2)) })"

definition parse_between :: "expression parse \<Rightarrow> expression \<Rightarrow> expression parse" where
  "parse_between addition left p = do {
     (low, p1) \<leftarrow> addition p;
     (high, p2) \<leftarrow> addition (snd (expect_keyword (KW ''AND'') p1));
     Some (between left low high, p2) }"

text \<open>What follows a \<^verbatim>\<open>NOT\<close> after an operand, which is consumed.\<close>

definition parse_negated :: "expression parse \<Rightarrow> select_stmt parse \<Rightarrow> expression parse \<Rightarrow> expression \<Rightarrow> expression parse" where
  "parse_negated expr sel addition left p =
     (let (t, p1) = peek_tok p; ty = tok_type t in
      if ty = KW ''LIKE''
      then do { (right, p2) \<leftarrow> addition (consume p1); Some (unary ''NOT'' (binary ''LIKE'' left right), p2) }
      else if ty = KW ''IN'' then parse_in expr sel True left (consume p1)
      else if ty = KW ''BETWEEN''
      then do { (e, p2) \<leftarrow> parse_between addition left (consume p1); Some (unary ''NOT'' e, p2) }
      else do { (child, p2) \<leftarrow> addition p1; Some (unary ''NOT'' child, p2) })"

definition is_comparison_token :: "token_type \<Rightarrow> bool" where
  "is_comparison_token ty = (ty = EQ \<or> ty = NEQ \<or> ty = LT \<or> ty = GT \<or> ty = LTE \<or> ty = GTE)"

definition parse_comparison :: "expression parse \<Rightarrow> select_stmt parse \<Rightarrow> expression parse" where
  "parse_comparison expr sel p0 = do {
     (left, p1) \<leftarrow> parse_addition expr sel p0;
     let (t, p) = peek_tok p1;
     let ty = tok_type t;
     if is_comparison_token ty
     then do { (right, p2) \<leftarrow> parse_addition expr sel (consume p); Some (binary (tok_value t) left right, p2) }
     else if ty = KW ''IS'' then
       (let (negate, p2) = match_token (KW ''NOT'') (consume p); (_, p3) = match_token (KW ''NULL'') p2
        in Some (unary (if negate then ''IS_NOT_NULL'' else ''IS_NULL'') left, p3))
     else if ty = KW ''LIKE''
     then do { (right, p2) \<leftarrow> parse_addition expr sel (consume p); Some (binary ''LIKE'' left right, p2) }
     else if ty = KW ''NOT'' then parse_negated expr sel (parse_addition expr sel) left (consume p)
     else if ty = KW ''IN'' then parse_in expr sel False left (consume p)
     else if ty = KW ''BETWEEN'' then parse_between (parse_addition expr sel) left (consume p)
     else Some (left, p) }"

partial_function (option) parse_not_expr :: "expression parse \<Rightarrow> parser \<Rightarrow> (expression \<times> parser) option" where
  "parse_not_expr comparison p =
     (let (is_not, p1) = match_token (KW ''NOT'') p in
      if is_not then do { (child, p2) \<leftarrow> parse_not_expr comparison p1; Some (unary ''NOT'' child, p2) }
      else comparison p1)"

definition parse_and_expr :: "expression parse \<Rightarrow> select_stmt parse \<Rightarrow> expression parse" where
  "parse_and_expr expr sel p = do {
     (left, p1) \<leftarrow> parse_not_expr (parse_comparison expr sel) p;
     left_loop (\<lambda>ty. ty = KW ''AND'') (\<lambda>_. ''AND'') (parse_not_expr (parse_comparison expr sel)) left p1 }"

definition parse_or_expr :: "expression parse \<Rightarrow> select_stmt parse \<Rightarrow> expression parse" where
  "parse_or_expr expr sel p = do {
     (left, p1) \<leftarrow> parse_and_expr expr sel p;
     left_loop (\<lambda>ty. ty = KW ''OR'') (\<lambda>_. ''OR'') (parse_and_expr expr sel) left p1 }"

subsection \<open>SELECT\<close>

text \<open>An alias after an item: \<^verbatim>\<open>AS\<close> and a name, or a bare identifier.\<close>

definition select_item :: "expression parse \<Rightarrow> expression parse" where
  "select_item expr p = do {
     (e, p1) \<leftarrow> expr p;
     let (as, p2) = match_token (KW ''AS'') p1;
     if as then (let (t, p3) = expect_alias p2 in Some (set_alias (tok_value t) e, p3))
     else (let (t, p3) = peek_tok p2 in
           if tok_type t = IDENTIFIER then Some (set_alias (tok_value t) e, consume p3) else Some (e, p3)) }"

definition parse_select_list :: "expression parse \<Rightarrow> expression list parse" where
  "parse_select_list expr p =
     (let (star, p1) = check STAR p in
      if star then comma_loop (select_item expr) [plain_expr NStar] (consume p1)
      else comma_list (select_item expr) p1)"

definition table_alias :: "string \<Rightarrow> select_stmt option \<Rightarrow> table_ref parse" where
  "table_alias name sub p =
     (let (as, p1) = match_token (KW ''AS'') p in
      if as then (let (t, p2) = expect_identifier p1 in Some (TableRef name (tok_value t) sub, p2))
      else (let (t, p2) = peek_tok p1 in
            if tok_type t = IDENTIFIER then Some (TableRef name (tok_value t) sub, consume p2)
            else Some (TableRef name [] sub, p2)))"

definition parse_table_ref :: "select_stmt parse \<Rightarrow> table_ref parse" where
  "parse_table_ref sel p =
     (let (paren, p1) = match_token LPAREN p in
      if paren then
        (let (is_select, p2) = check (KW ''SELECT'') p1 in
         if \<not> is_select
         then (let (t, p3) = peek_tok p2 in
               Some (TableRef [] [] None, set_error_at ''expected SELECT in derived table'' t p3))
         else do { (s, p3) \<leftarrow> sel p2; table_alias [] (Some s) (snd (expect_token RPAREN p3)) })
      else (let (t, p2) = expect_identifier p1 in table_alias (tok_value t) None p2))"

text \<open>The words before \<^verbatim>\<open>JOIN\<close>: the kind of the join and whether it needs a condition.\<close>

definition join_head :: "token_type \<Rightarrow> parser \<Rightarrow> join_type \<times> bool \<times> parser" where
  "join_head ty p =
     (if ty = KW ''CROSS'' then (JInner, False, consume p)
      else if ty = KW ''LEFT'' then (JLeft, True, snd (match_token (KW ''OUTER'') (consume p)))
      else (JInner, True, snd (match_token (KW ''INNER'') p)))"

partial_function (option) join_loop ::
  "expression parse \<Rightarrow> select_stmt parse \<Rightarrow> join_clause list \<Rightarrow> parser \<Rightarrow> (join_clause list \<times> parser) option" where
  "join_loop expr sel js p =
     (let (t, p1) = peek_tok p; ty = tok_type t in
      if ty = KW ''RIGHT'' then Some (js, consume (mark_error p1))
      else if ty \<noteq> KW ''INNER'' \<and> ty \<noteq> KW ''JOIN'' \<and> ty \<noteq> KW ''LEFT'' \<and> ty \<noteq> KW ''CROSS'' then Some (js, p1)
      else do {
        let (kind, requires_on, p2) = join_head ty p1;
        (r, p3) \<leftarrow> parse_table_ref sel (snd (expect_keyword (KW ''JOIN'') p2));
        let (on, p4) = check (KW ''ON'') p3;
        if \<not> requires_on \<and> on then Some (js, mark_error p4)
        else if on
        then do { (e, p5) \<leftarrow> expr (consume p4); join_loop expr sel (js @ [JoinClause kind r (Some e)]) p5 }
        else if requires_on then Some (js, mark_error p4)
        else join_loop expr sel (js @ [JoinClause kind r None]) p4 })"

definition order_item :: "expression parse \<Rightarrow> order_by_item parse" where
  "order_item expr p = do {
     (e, p1) \<leftarrow> expr p;
     let (asc, p2) = match_token (KW ''ASC'') p1;
     let (desc, p3) = (if asc then (False, p2) else match_token (KW ''DESC'') p2);
     let (nulls, p4) = match_token (KW ''NULLS'') p3;
     if nulls then
       (let (first, p5) = match_token (KW ''FIRST'') p4 in
        if first then Some (OrderByItem e (\<not> desc) True, p5)
        else Some (OrderByItem e (\<not> desc) False, snd (expect_keyword (KW ''LAST'') p5)))
     else Some (OrderByItem e (\<not> desc) desc, p4) }"

text \<open>An optional clause: when its keyword is there, \<open>f\<close> reads the rest.\<close>

definition optional_clause :: "token_type \<Rightarrow> 'a \<Rightarrow> 'a parse \<Rightarrow> 'a parse" where
  "optional_clause kw none f p =
     (let (yes, p1) = match_token kw p in if yes then f p1 else Some (none, p1))"

definition some_expr :: "expression parse \<Rightarrow> expression option parse" where
  "some_expr expr p = do { (e, p1) \<leftarrow> expr p; Some (Some e, p1) }"

definition parse_limit :: "i32 parse" where
  "parse_limit p =
     (let (negative, p1) = match_token MINUS p; (t, p2) = expect_token INT_LITERAL p1; val = strtol_value (tok_value t)
      in Some (if negative then - 1 else if 0 < val then word_of_int val else 0, p2))"

definition parse_offset :: "i32 parse" where
  "parse_offset p =
     (let (negative, p1) = match_token MINUS p; (t, p2) = expect_token INT_LITERAL p1; val = strtol_value (tok_value t)
      in Some (if \<not> negative \<and> 0 < val then word_of_int val else 0, p2))"

definition after_by :: "'a list parse \<Rightarrow> 'a list parse" where
  "after_by f p = f (snd (expect_keyword (KW ''BY'') p))"

text \<open>Tokens that cannot start a select list.\<close>

definition select_stops :: "token_type list" where
  "select_stops = [KW ''FROM'', KW ''WHERE'', KW ''GROUP'', KW ''HAVING'', KW ''ORDER'', KW ''LIMIT'', KW ''OFFSET'',
     KW ''UNION'', KW ''JOIN'', KW ''INNER'', KW ''LEFT'', KW ''RIGHT'', KW ''CROSS'', KW ''OUTER'', KW ''ON'',
     SEMICOLON, END_OF_INPUT]"

definition parse_select_clauses :: "expression parse \<Rightarrow> select_stmt parse \<Rightarrow> bool \<Rightarrow> select_stmt parse" where
  "parse_select_clauses expr sel dist p = do {
     (items, p1) \<leftarrow> parse_select_list expr p;
     (tables, p2) \<leftarrow> optional_clause (KW ''FROM'') [] (\<lambda>q. do { (r, q1) \<leftarrow> parse_table_ref sel q; Some ([r], q1) }) p1;
     (js, p3) \<leftarrow> join_loop expr sel [] p2;
     (wh, p4) \<leftarrow> optional_clause (KW ''WHERE'') None (some_expr expr) p3;
     (grp, p5) \<leftarrow> optional_clause (KW ''GROUP'') [] (after_by (comma_list expr)) p4;
     (hav, p6) \<leftarrow> optional_clause (KW ''HAVING'') None (some_expr expr) p5;
     (ord, p7) \<leftarrow> optional_clause (KW ''ORDER'') [] (after_by (comma_list (order_item expr))) p6;
     (lim, p8) \<leftarrow> optional_clause (KW ''LIMIT'') (- 1) parse_limit p7;
     (off, p9) \<leftarrow> optional_clause (KW ''OFFSET'') (- 1) parse_offset p8;
     Some (SelectStmt items tables js wh grp hav ord lim off dist False None, p9) }"

definition parse_select_body :: "expression parse \<Rightarrow> select_stmt parse \<Rightarrow> select_stmt parse" where
  "parse_select_body expr sel p0 =
     (let (_, p1) = expect_keyword (KW ''SELECT'') p0;
          (dist, p2) = match_token (KW ''DISTINCT'') p1;
          (t, p3) = peek_tok p2 in
      if tok_type t \<in> set select_stops
      then Some (SelectStmt [] [] [] None [] None [] (- 1) (- 1) dist False None,
                 set_error_at ''expected select expression'' t p3)
      else parse_select_clauses expr sel dist p3)"

text \<open>The order and the limits after the last part of a union belong to the whole.\<close>

definition set_order :: "order_by_item list \<Rightarrow> i32 \<Rightarrow> i32 \<Rightarrow> select_stmt \<Rightarrow> select_stmt" where
  "set_order ord lim off s =
     SelectStmt (select_list s) (from_tables s) (join_clauses s) (where_clause s) (group_exprs s) (having_clause s)
       ord lim off (is_distinct s) (union_all s) (union_rhs s)"

definition set_union :: "bool \<Rightarrow> select_stmt option \<Rightarrow> select_stmt \<Rightarrow> select_stmt" where
  "set_union all rhs s =
     SelectStmt (select_list s) (from_tables s) (join_clauses s) (where_clause s) (group_exprs s) (having_clause s)
       (order_items s) (limit_count s) (offset_count s) (is_distinct s) all rhs"

definition hoist_union :: "bool \<Rightarrow> select_stmt \<Rightarrow> select_stmt \<Rightarrow> select_stmt" where
  "hoist_union all s rhs =
     (let take_ord = (order_items s = [] \<and> order_items rhs \<noteq> []);
          take_lim = (limit_count s <s 0 \<and> 0 \<le>s limit_count rhs);
          take_off = (offset_count s <s 0 \<and> 0 \<le>s offset_count rhs)
      in set_union all
           (Some (set_order (if take_ord then [] else order_items rhs) (if take_lim then - 1 else limit_count rhs)
              (if take_off then - 1 else offset_count rhs) rhs))
           (set_order (if take_ord then order_items rhs else order_items s)
              (if take_lim then limit_count rhs else limit_count s)
              (if take_off then offset_count rhs else offset_count s) s))"

fun parse_expression :: "nat \<Rightarrow> expression parse"
  and parse_select :: "nat \<Rightarrow> select_stmt parse" where
  "parse_expression 0 p = None"
| "parse_expression (Suc n) p = parse_or_expr (parse_expression n) (parse_select n) p"
| "parse_select 0 p = None"
| "parse_select (Suc n) p = do {
     (s, p1) \<leftarrow> parse_select_body (parse_expression n) (parse_select n) p;
     let (union, p2) = match_token (KW ''UNION'') p1;
     if union then do {
       let (all, p3) = match_token (KW ''ALL'') p2;
       (rhs, p4) \<leftarrow> parse_select n p3;
       Some (hoist_union all s rhs, p4) }
     else Some (s, p2) }"

subsection \<open>Data changes\<close>

definition parse_insert :: "expression parse \<Rightarrow> insert_stmt parse" where
  "parse_insert expr p = do {
     (table, p1) \<leftarrow> parse_name (snd (expect_keyword (KW ''INTO'') (snd (expect_keyword (KW ''INSERT'') p))));
     (cols, p2) \<leftarrow> optional_clause LPAREN []
       (\<lambda>q. do { (cs, q1) \<leftarrow> comma_list parse_name q; Some (cs, snd (expect_token RPAREN q1)) }) p1;
     (rows, p3) \<leftarrow> comma_list
       (\<lambda>q. do { (es, q1) \<leftarrow> comma_list expr (snd (expect_token LPAREN q)); Some (es, snd (expect_token RPAREN q1)) })
       (snd (expect_keyword (KW ''VALUES'') p2));
     Some (\<lparr>ins_table = table, ins_columns = cols, ins_values = rows\<rparr>, p3) }"

definition set_item :: "expression parse \<Rightarrow> (string \<times> expression) parse" where
  "set_item expr p = do {
     (col, p1) \<leftarrow> parse_name p;
     (val, p2) \<leftarrow> expr (snd (expect_token EQ p1));
     Some ((col, val), p2) }"

definition parse_update :: "expression parse \<Rightarrow> update_stmt parse" where
  "parse_update expr p = do {
     (table, p1) \<leftarrow> parse_name (snd (expect_keyword (KW ''UPDATE'') p));
     (sets, p2) \<leftarrow> comma_list (set_item expr) (snd (expect_keyword (KW ''SET'') p1));
     (wh, p3) \<leftarrow> optional_clause (KW ''WHERE'') None (some_expr expr) p2;
     Some (\<lparr>upd_table = table, upd_sets = sets, upd_where = wh\<rparr>, p3) }"

definition parse_delete :: "expression parse \<Rightarrow> delete_stmt parse" where
  "parse_delete expr p = do {
     (table, p1) \<leftarrow> parse_name (snd (expect_keyword (KW ''FROM'') (snd (expect_keyword (KW ''DELETE'') p))));
     (wh, p2) \<leftarrow> optional_clause (KW ''WHERE'') None (some_expr expr) p1;
     Some (\<lparr>del_table = table, del_where = wh\<rparr>, p2) }"

subsection \<open>Tables and indexes\<close>

definition type_keywords :: "(token_type \<times> string) list" where
  "type_keywords = [(KW ''INT'', ''INT''), (KW ''INT64'', ''BIGINT''), (KW ''BOOL'', ''BOOL''), (KW ''FLOAT'', ''FLOAT''),
     (KW ''DOUBLE'', ''DOUBLE''), (KW ''TEXT'', ''TEXT''), (KW ''TIMESTAMP'', ''TIMESTAMP''), (KW ''DATETIME'', ''DATETIME'')]"

definition parse_column_type :: "column_def \<Rightarrow> column_def parse" where
  "parse_column_type col p =
     (let (t, p1) = peek_tok p in
      case map_of type_keywords (tok_type t) of
        Some name \<Rightarrow> Some (col\<lparr>def_type_name := name\<rparr>, consume p1)
      | None \<Rightarrow>
          if tok_type t = KW ''VARCHAR'' then
            (let (paren, p2) = match_token LPAREN (consume p1) in
             if paren then (let (len, p3) = expect_token INT_LITERAL p2 in
               Some (col\<lparr>def_type_name := ''VARCHAR'', def_varchar_length := word_of_int (strtol_value (tok_value len))\<rparr>,
                     snd (expect_token RPAREN p3)))
             else Some (col\<lparr>def_type_name := ''VARCHAR''\<rparr>, p2))
          else do {
            (name, p2) \<leftarrow> parse_name p1;
            let (paren, p3) = match_token LPAREN p2;
            if paren then
              (let p4 = snd (expect_token INT_LITERAL p3); (comma, p5) = match_token COMMA p4;
                   p6 = (if comma then snd (expect_token INT_LITERAL p5) else p5)
               in Some (col\<lparr>def_type_name := upper_ascii name\<rparr>, snd (expect_token RPAREN p6)))
            else Some (col\<lparr>def_type_name := upper_ascii name\<rparr>, p3) })"

text \<open>The text of a \<^verbatim>\<open>CHECK\<close> constraint: skip to the closing parenthesis, then cut the source.\<close>

partial_function (option) check_loop :: "nat \<Rightarrow> parser \<Rightarrow> (unit \<times> parser) option" where
  "check_loop depth p =
     (let (t, p1) = peek_tok p; ty = tok_type t in
      if ty = END_OF_INPUT then Some ((), mark_error p1)
      else if ty = RPAREN \<and> depth = 1 then Some ((), p1)
      else check_loop (if ty = LPAREN then depth + 1 else if ty = RPAREN then depth - 1 else depth) (consume p1))"

fun back_to_paren :: "string \<Rightarrow> nat \<Rightarrow> nat \<Rightarrow> nat" where
  "back_to_paren s start e =
     (if start < e \<and> char_at s (e - 1) \<noteq> CHR '')'' then back_to_paren s start (e - 1) else e)"

fun back_over_space :: "string \<Rightarrow> nat \<Rightarrow> nat \<Rightarrow> nat" where
  "back_over_space s start e =
     (if start < e \<and> (char_at s (e - 1) = CHR '' '' \<or> char_at s (e - 1) = CHR 0x09 \<or> char_at s (e - 1) = CHR 0x0A)
      then back_over_space s start (e - 1) else e)"

declare back_to_paren.simps [simp del]
declare back_over_space.simps [simp del]

definition substr :: "string \<Rightarrow> nat \<Rightarrow> nat \<Rightarrow> string" where
  "substr s i n = take n (drop i s)"

definition check_text :: "string \<Rightarrow> nat \<Rightarrow> nat \<Rightarrow> string" where
  "check_text s start raw_end =
     (let e1 = back_to_paren s start raw_end;
          e2 = (if start < e1 \<and> char_at s (e1 - 1) = CHR '')'' then e1 - 1 else e1);
          e3 = back_over_space s start e2
      in substr s start (e3 - start))"

definition parse_check :: "column_def \<Rightarrow> column_def parse" where
  "parse_check col p = do {
     let p1 = snd (expect_token LPAREN p);
     let start = lex_pos (p_lexer p1);
     (_, p2) \<leftarrow> check_loop 1 p1;
     if p_ok p2
     then Some (col\<lparr>def_check := check_text (lex_sql (p_lexer p2)) start (lex_pos (p_lexer p2))\<rparr>, snd (expect_token RPAREN p2))
     else Some (col, p2) }"

partial_function (option) constraint_loop :: "column_def \<Rightarrow> parser \<Rightarrow> (column_def \<times> parser) option" where
  "constraint_loop col p =
     (let (t, p1) = peek_tok p; ty = tok_type t; p2 = consume p1 in
      if ty = KW ''PRIMARY''
      then constraint_loop (col\<lparr>def_primary := True, def_not_null := True\<rparr>) (snd (expect_keyword (KW ''KEY'') p2))
      else if ty = KW ''NOT'' then constraint_loop (col\<lparr>def_not_null := True\<rparr>) (snd (expect_keyword (KW ''NULL'') p2))
      else if ty = KW ''UNIQUE'' then constraint_loop (col\<lparr>def_unique := True\<rparr>) p2
      else if ty = KW ''DEFAULT''
      then (let (d, p3) = peek_tok p2 in constraint_loop (col\<lparr>def_default := tok_value d\<rparr>) (consume p3))
      else if ty = KW ''CHECK'' then do { (c, p3) \<leftarrow> parse_check col p2; constraint_loop c p3 }
      else Some (col, p1))"

definition parse_column_def :: "column_def parse" where
  "parse_column_def p = do {
     let (t, p1) = expect_alias p;
     (col, p2) \<leftarrow> parse_column_type (new_column_def\<lparr>def_name := tok_value t\<rparr>) p1;
     constraint_loop col p2 }"

definition parse_create_table :: "create_table_stmt parse" where
  "parse_create_table p = do {
     (name, p1) \<leftarrow> parse_name (snd (expect_keyword (KW ''TABLE'') p));
     (cols, p2) \<leftarrow> comma_list parse_column_def (snd (expect_token LPAREN p1));
     Some (\<lparr>create_table_name = name, create_columns = cols\<rparr>, snd (expect_token RPAREN p2)) }"

definition skip_keyword :: "token_type \<Rightarrow> parser \<Rightarrow> parser" where
  "skip_keyword kw p = (let (yes, p1) = check kw p in if yes then snd (expect_keyword kw p1) else p1)"

definition parse_drop_table :: "string parse" where
  "parse_drop_table p = parse_name (snd (expect_keyword (KW ''TABLE'') (skip_keyword (KW ''DROP'') p)))"

definition parse_drop_index :: "string parse" where
  "parse_drop_index p = parse_name (snd (expect_keyword (KW ''INDEX'') (skip_keyword (KW ''DROP'') p)))"

definition parse_create_index :: "create_index_stmt parse" where
  "parse_create_index p = do {
     let (uniq, p1) = match_token (KW ''UNIQUE'') (skip_keyword (KW ''CREATE'') p);
     (name, p2) \<leftarrow> parse_name (snd (expect_keyword (KW ''INDEX'') p1));
     (table, p3) \<leftarrow> parse_name (snd (expect_keyword (KW ''ON'') p2));
     (cols, p4) \<leftarrow> comma_list parse_name (snd (expect_token LPAREN p3));
     Some (\<lparr>idx_name = name, idx_table = table, idx_columns = cols, idx_unique = uniq\<rparr>, snd (expect_token RPAREN p4)) }"

definition parse_desc_table :: "string parse" where
  "parse_desc_table p =
     (let (yes, p1) = check (KW ''DESCRIBE'') p
      in parse_name (snd (expect_keyword (if yes then KW ''DESCRIBE'' else KW ''DESC'') p1)))"

subsection \<open>ALTER TABLE\<close>

partial_function (option) alter_loop :: "column_def \<Rightarrow> parser \<Rightarrow> (column_def \<times> parser) option" where
  "alter_loop col p =
     (let (t, p1) = peek_tok p; ty = tok_type t; p2 = consume p1 in
      if ty = KW ''NOT'' then alter_loop (col\<lparr>def_not_null := True\<rparr>) (snd (expect_keyword (KW ''NULL'') p2))
      else if ty = KW ''DEFAULT''
      then (let (d, p3) = peek_tok p2 in alter_loop (col\<lparr>def_default := tok_value d\<rparr>) (consume p3))
      else if ty = KW ''UNIQUE'' then alter_loop (col\<lparr>def_unique := True\<rparr>) p2
      else Some (col, p1))"

definition skip_column :: "parser \<Rightarrow> parser" where
  "skip_column p = snd (match_token (KW ''COLUMN'') p)"

definition parse_alter_action :: "alter_action parse" where
  "parse_alter_action p =
     (let (t, p1) = peek_tok p; ty = tok_type t; p2 = skip_column (consume p1) in
      if ty = KW ''ADD'' then do {
        (name, p3) \<leftarrow> parse_name p2;
        (col, p4) \<leftarrow> parse_column_type (new_column_def\<lparr>def_name := name\<rparr>) p3;
        (col, p5) \<leftarrow> alter_loop col p4;
        Some (AddColumn col, p5) }
      else if ty = KW ''DROP'' then do { (name, p3) \<leftarrow> parse_name p2; Some (DropColumn name, p3) }
      else if ty = KW ''RENAME'' then do {
        (name, p3) \<leftarrow> parse_name p2;
        (new, p4) \<leftarrow> parse_name (snd (expect_keyword (KW ''TO'') p3));
        Some (RenameColumn name new, p4) }
      else Some (NoAction, mark_error p1))"

definition parse_alter_table :: "(string \<times> alter_action) parse" where
  "parse_alter_table p = do {
     (name, p1) \<leftarrow> parse_name (snd (expect_keyword (KW ''TABLE'') (snd (expect_keyword (KW ''ALTER'') p))));
     (action, p2) \<leftarrow> parse_alter_action p1;
     Some ((name, action), p2) }"

subsection \<open>Prepared statements\<close>

partial_function (option) prepare_loop :: "string \<Rightarrow> parser \<Rightarrow> (string \<times> parser) option" where
  "prepare_loop sql p =
     (let (t, p1) = peek_tok p in
      if tok_type t = END_OF_INPUT \<or> tok_type t = SEMICOLON then Some (sql, p1)
      else prepare_loop ((if sql = [] then [] else sql @ '' '') @ tok_value t) (consume p1))"

definition parse_prepare :: "(string \<times> string) parse" where
  "parse_prepare p = do {
     (name, p1) \<leftarrow> parse_name (snd (expect_keyword (KW ''PREPARE'') p));
     (sql, p2) \<leftarrow> prepare_loop [] (snd (expect_keyword (KW ''AS'') p1));
     Some ((name, sql), p2) }"

definition parse_execute :: "expression parse \<Rightarrow> (string \<times> expression list) parse" where
  "parse_execute expr p = do {
     (name, p1) \<leftarrow> parse_name (snd (expect_keyword (KW ''EXECUTE'') p));
     let (paren, p2) = match_token LPAREN p1;
     if \<not> paren then Some ((name, []), p2)
     else do {
       let (empty, p3) = check RPAREN p2;
       (params, p4) \<leftarrow> (if empty then Some ([], p3) else comma_list expr p3);
       Some ((name, params), snd (expect_token RPAREN p4)) } }"

definition parse_deallocate :: "string parse" where
  "parse_deallocate p = parse_name (snd (expect_keyword (KW ''DEALLOCATE'') p))"

subsection \<open>EXPLAIN\<close>

definition trace_channel_from_word :: "string \<Rightarrow> u32" where
  "trace_channel_from_word w =
     (if w = ''PIPELINE'' then push_bit 0 1 else if w = ''PLAN'' then push_bit 1 1
      else if w = ''EXECUTOR'' then push_bit 2 1 else if w = ''STORAGE'' then push_bit 3 1
      else if w = ''MVCC'' then push_bit 4 1 else if w = ''INDEX'' then push_bit 5 1
      else if w = ''WAL'' then push_bit 6 1 else if w = ''LOCK'' then push_bit 7 1
      else if w = ''MEMORY'' then push_bit 8 1 else if w = ''EVENT'' \<or> w = ''EVENTS'' then push_bit 9 1
      else 0)"

definition token_word_is :: "token \<Rightarrow> string \<Rightarrow> bool" where
  "token_word_is t w = (upper_ascii (tok_value t) = w)"

definition is_trace_option_start :: "token \<Rightarrow> bool" where
  "is_trace_option_start t = (let w = upper_ascii (tok_value t) in w = ''LEVEL'' \<or> w = ''CHANNELS'' \<or> w = ''EVENTS'')"

text \<open>The options return \<open>None\<close> where the source returns the default statement.\<close>

definition trace_level_option :: "trace_options \<Rightarrow> trace_options option parse" where
  "trace_level_option o1 p =
     (let (t, p1) = peek_tok p; p2 = consume p1; w = upper_ascii (tok_value t) in
      if w = ''SUMMARY'' then Some (Some (o1\<lparr>trace_level := 0\<rparr>), p2)
      else if w = ''NORMAL'' then Some (Some (o1\<lparr>trace_level := 1\<rparr>), p2)
      else if w = ''VERBOSE'' then Some (Some (o1\<lparr>trace_level := 2\<rparr>), p2)
      else if w = ''DEBUG'' then Some (Some (o1\<lparr>trace_level := 3\<rparr>), p2)
      else Some (None, set_error_at ''TRACE LEVEL requires SUMMARY/NORMAL/VERBOSE/DEBUG'' t p2))"

partial_function (option) channels_loop :: "u32 \<Rightarrow> parser \<Rightarrow> (u32 option \<times> parser) option" where
  "channels_loop channels p =
     (let (t, p1) = peek_tok p; p2 = consume p1; w = upper_ascii (tok_value t); bit = trace_channel_from_word w in
      if w \<noteq> ''ALL'' \<and> w \<noteq> ''DEFAULT'' \<and> bit = 0 then Some (None, set_error_at ''unknown TRACE channel'' t p2)
      else
        (let channels1 = (if w = ''ALL'' then 0x3ff else if w = ''DEFAULT'' then 0 else channels OR bit);
             (comma, p3) = match_token COMMA p2
         in if comma then channels_loop channels1 p3 else Some (Some channels1, p3)))"

definition trace_events_option :: "trace_options \<Rightarrow> trace_options option parse" where
  "trace_events_option o1 p =
     (let o2 = o1\<lparr>trace_channels := trace_channels o1 OR push_bit 9 1\<rparr>; (to, p1) = match_token (KW ''TO'') p in
      if \<not> to then Some (Some o2, p1)
      else (let (t, p2) = peek_tok p1; p3 = consume p2 in
            if tok_type t \<noteq> STRING_LITERAL \<and> tok_type t \<noteq> IDENTIFIER
            then Some (None, set_error_at ''TRACE EVENTS TO requires a path'' t p3)
            else Some (Some (o2\<lparr>trace_events_path := tok_value t\<rparr>), p3)))"

definition trace_option :: "trace_options \<Rightarrow> trace_options option parse" where
  "trace_option o1 p =
     (let (t, p1) = peek_tok p; p2 = consume p1; w = upper_ascii (tok_value t) in
      if w = ''LEVEL'' then trace_level_option o1 p2
      else if w = ''CHANNELS'' then do {
        (cs, p3) \<leftarrow> channels_loop 0 p2;
        Some (map_option (\<lambda>c. o1\<lparr>trace_channels := c\<rparr>) cs, p3) }
      else trace_events_option o1 p2)"

partial_function (option) trace_loop :: "trace_options \<Rightarrow> parser \<Rightarrow> (trace_options option \<times> parser) option" where
  "trace_loop o1 p =
     (let (t, p1) = peek_tok p in
      if is_trace_option_start t
      then do { (r, p2) \<leftarrow> trace_option o1 p1;
                case r of Some o2 \<Rightarrow> trace_loop o2 p2 | None \<Rightarrow> Some (None, p2) }
      else Some (Some o1, p1))"

definition no_trace :: trace_options where
  "no_trace = \<lparr>trace_level = 1, trace_channels = 0, trace_events_path = []\<rparr>"

definition parse_explained :: "nat \<Rightarrow> statement option parse" where
  "parse_explained n p =
     (let (t, p1) = peek_tok p; ty = tok_type t in
      if ty = KW ''SELECT'' then do { (s, p2) \<leftarrow> parse_select n p1; Some (Some (SSelect (Some s)), p2) }
      else if ty = KW ''UPDATE'' then do { (s, p2) \<leftarrow> parse_update (parse_expression n) p1; Some (Some (SUpdate s), p2) }
      else if ty = KW ''DELETE'' then do { (s, p2) \<leftarrow> parse_delete (parse_expression n) p1; Some (Some (SDelete s), p2) }
      else if ty = KW ''INSERT'' then do { (s, p2) \<leftarrow> parse_insert (parse_expression n) p1; Some (Some (SInsert s), p2) }
      else Some (None, set_error_at ''EXPLAIN requires SELECT/INSERT/UPDATE/DELETE'' t p1))"

definition parse_explain :: "nat \<Rightarrow> statement option parse" where
  "parse_explain n p = do {
     let (analyze, p1) = match_token (KW ''ANALYZE'') p;
     let (t, p2) = peek_tok p1;
     let trace = token_word_is t ''TRACE'';
     (opts, p3) \<leftarrow> (if trace then trace_loop no_trace (consume p2) else Some (Some no_trace, p2));
     case opts of
       None \<Rightarrow> Some (None, p3)
     | Some o1 \<Rightarrow> do {
         (inner, p4) \<leftarrow> parse_explained n p3;
         Some (map_option (SExplain (analyze \<or> trace) trace o1) inner, p4) } }"

subsection \<open>Statements\<close>

text \<open>The switch of \<^verbatim>\<open>parse\<close>; \<open>None\<close> as a statement is a return of the default statement.\<close>

definition parse_switch :: "nat \<Rightarrow> statement option parse" where
  "parse_switch n p0 =
     (let (t, p) = peek_tok p0; ty = tok_type t; expr = parse_expression n in
      if ty = KW ''SELECT'' then do { (s, q) \<leftarrow> parse_select n p; Some (Some (SSelect (Some s)), q) }
      else if ty = KW ''EXPLAIN'' then parse_explain n (consume p)
      else if ty = KW ''ANALYZE'' then do {
        (name, q) \<leftarrow> parse_name (snd (match_token (KW ''TABLE'') (consume p)));
        Some (Some (SAnalyze name), q) }
      else if ty = KW ''INSERT'' then do { (s, q) \<leftarrow> parse_insert expr p; Some (Some (SInsert s), q) }
      else if ty = KW ''UPDATE'' then do { (s, q) \<leftarrow> parse_update expr p; Some (Some (SUpdate s), q) }
      else if ty = KW ''DELETE'' then do { (s, q) \<leftarrow> parse_delete expr p; Some (Some (SDelete s), q) }
      else if ty = KW ''CREATE'' then
        (let (u, p1) = peek_tok (consume p) in
         if tok_type u = KW ''INDEX'' \<or> tok_type u = KW ''UNIQUE''
         then do { (s, q) \<leftarrow> parse_create_index p1; Some (Some (SCreateIndex s), q) }
         else do { (s, q) \<leftarrow> parse_create_table p1; Some (Some (SCreateTable s), q) })
      else if ty = KW ''DROP'' then
        (let (is_index, p1) = check (KW ''INDEX'') (consume p) in
         if is_index then do { (s, q) \<leftarrow> parse_drop_index p1; Some (Some (SDropIndex s), q) }
         else do { (s, q) \<leftarrow> parse_drop_table p1; Some (Some (SDropTable s), q) })
      else if ty = KW ''SHOW'' then
        (let (tables, p1) = match_token (KW ''TABLES'') (consume p) in
         if tables then Some (Some SShowTables, p1)
         else (let (u, p2) = peek_tok p1 in Some (None, set_error_at ''only SHOW TABLES is supported'' u p2)))
      else if ty = KW ''DESC'' \<or> ty = KW ''DESCRIBE''
      then do { (s, q) \<leftarrow> parse_desc_table p; Some (Some (SDescTable s), q) }
      else if ty = KW ''BEGIN'' then Some (Some SBegin, consume p)
      else if ty = KW ''COMMIT'' then Some (Some SCommit, consume p)
      else if ty = KW ''ROLLBACK'' then Some (Some SRollback, consume p)
      else if ty = KW ''ALTER'' then do { (s, q) \<leftarrow> parse_alter_table p; Some (Some (case_prod SAlterTable s), q) }
      else if ty = KW ''PREPARE'' then do { (s, q) \<leftarrow> parse_prepare p; Some (Some (case_prod SPrepare s), q) }
      else if ty = KW ''EXECUTE'' then do { (s, q) \<leftarrow> parse_execute expr p; Some (Some (case_prod SExecute s), q) }
      else if ty = KW ''DEALLOCATE'' then do { (s, q) \<leftarrow> parse_deallocate p; Some (Some (SDeallocate s), q) }
      else if ty = KW ''VACUUM'' then
        (let (u, p1) = peek_tok (snd (match_token (KW ''TABLE'') (consume p))) in
         if tok_type u \<noteq> SEMICOLON \<and> tok_type u \<noteq> END_OF_INPUT
         then do { (name, q) \<leftarrow> parse_name p1; Some (Some (SVacuum name), q) }
         else Some (Some (SVacuum []), p1))
      else Some (None, set_error_at ''unknown statement'' t p))"

definition parse_statement :: "nat \<Rightarrow> statement parse" where
  "parse_statement n p = do {
     (r, p1) \<leftarrow> parse_switch n p;
     case r of
       None \<Rightarrow> Some (no_statement, p1)
     | Some stmt \<Rightarrow>
         if \<not> p_ok p1 then Some (no_statement, p1)
         else (let (_, p2) = match_token SEMICOLON p1; (t, p3) = peek_tok p2 in
               if tok_type t \<noteq> END_OF_INPUT
               then Some (no_statement, set_error_at ''unexpected trailing token after statement'' t p3)
               else Some (stmt, p3)) }"

text \<open>Each level of nesting takes a token and each token a character, so that the length of the text bounds the
  depth.\<close>

definition parse :: "string \<Rightarrow> (statement \<times> parser) option" where
  "parse sql = parse_statement (Suc (length sql)) (new_parser sql)"

declare comma_loop.simps [code]
  left_loop.simps [code]
  case_loop.simps [code]
  parse_not_expr.simps [code]
  join_loop.simps [code]
  check_loop.simps [code]
  constraint_loop.simps [code]
  alter_loop.simps [code]
  prepare_loop.simps [code]
  channels_loop.simps [code]
  trace_loop.simps [code]

end
