(* ===== verification/Parser_Laws.thy ===== *)
theory Parser_Laws
  imports Parser
begin

section \<open>Laws of the parser\<close>

text \<open>
  The parser is described by the tokens still to come.  Every function takes tokens away and never puts one back;
  \<open>ends k r\<close> says that a call returns and leaves at most \<open>k\<close> tokens.  From this follows that \<open>parse\<close> returns for
  every text.
\<close>

subsection \<open>The tokens to come\<close>

text \<open>The lexer is at a consistent place, and there is a message exactly when there is an error.\<close>

definition p_inv :: "parser \<Rightarrow> bool" where
  "p_inv p = (lexer_ok (p_lexer p) \<and> (p_ok p \<longleftrightarrow> err_message (p_error p) = []))"

definition p_tokens :: "parser \<Rightarrow> token list" where
  "p_tokens p = tokens (p_lexer p)"

definition p_left :: "parser \<Rightarrow> nat" where
  "p_left p = length (p_tokens p)"

definition next_type :: "parser \<Rightarrow> token_type" where
  "next_type p = (case p_tokens p of [] \<Rightarrow> END_OF_INPUT | t # _ \<Rightarrow> tok_type t)"

named_theorems parser_simps \<open>what the basic operations do to the tokens\<close>

lemma peek_simps [parser_simps]:
  "p_inv p \<Longrightarrow> p_inv (snd (peek_tok p))" "p_tokens (snd (peek_tok p)) = p_tokens p"
  "tok_type (fst (peek_tok p)) = next_type p" "p_ok (snd (peek_tok p)) = p_ok p"
  using peek_token_tokens [of "p_lexer p"]
  by (simp_all add: peek_tok_def p_inv_def p_tokens_def next_type_def case_prod_beta)

lemma peek_head: "p_tokens p = t # ts \<Longrightarrow> fst (peek_tok p) = t"
  using peek_token_tokens(5) [of "p_lexer p" t ts]
  by (simp add: peek_tok_def p_tokens_def case_prod_beta)

lemma consume_simps [parser_simps]:
  "p_inv p \<Longrightarrow> p_inv (consume p)" "p_inv p \<Longrightarrow> p_tokens (consume p) = tl (p_tokens p)" "p_ok (consume p) = p_ok p"
  by (simp_all add: consume_def p_inv_def p_tokens_def consume_token_tokens)

lemma set_error_simps [parser_simps]:
  "p_inv p \<Longrightarrow> m \<noteq> [] \<Longrightarrow> p_inv (set_error_at m t p)" "p_tokens (set_error_at m t p) = p_tokens p"
  "p_inv p \<Longrightarrow> m \<noteq> [] \<Longrightarrow> p_inv (set_error m p)" "p_tokens (set_error m p) = p_tokens p"
  "\<not> p_ok (set_error_at m t p)"
  by (simp_all add: set_error_at_def set_error_def p_inv_def p_tokens_def)

lemma mark_error_simps [parser_simps]:
  "p_inv p \<Longrightarrow> p_inv (mark_error p)" "p_tokens (mark_error p) = p_tokens p"
  by (simp_all add: mark_error_def case_prod_beta Let_def parser_simps)

lemma next_type_cong [parser_simps]:
  "next_type (snd (peek_tok p)) = next_type p" "next_type (mark_error p) = next_type p"
  by (simp_all add: next_type_def parser_simps)

lemma check_simps [parser_simps]:
  "p_inv p \<Longrightarrow> p_inv (snd (check ty p))" "p_tokens (snd (check ty p)) = p_tokens p"
  "fst (check ty p) = (next_type p = ty)" "p_ok (snd (check ty p)) = p_ok p"
  by (simp_all add: check_def case_prod_beta Let_def parser_simps)

lemma match_simps [parser_simps]:
  "p_inv p \<Longrightarrow> p_inv (snd (match_token ty p))"
  "p_inv p \<Longrightarrow> p_tokens (snd (match_token ty p)) = (if next_type p = ty then tl (p_tokens p) else p_tokens p)"
  "fst (match_token ty p) = (next_type p = ty)" "p_ok (snd (match_token ty p)) = p_ok p"
  by (simp_all add: match_token_def case_prod_beta Let_def parser_simps)

lemma expect_simps [parser_simps]:
  "p_inv p \<Longrightarrow> p_inv (snd (expect_token ty p))" "p_inv p \<Longrightarrow> p_tokens (snd (expect_token ty p)) = tl (p_tokens p)"
  "p_inv p \<Longrightarrow> p_inv (snd (expect_keyword ty p))" "p_inv p \<Longrightarrow> p_tokens (snd (expect_keyword ty p)) = tl (p_tokens p)"
  "p_inv p \<Longrightarrow> p_inv (snd (expect_alias p))" "p_inv p \<Longrightarrow> p_tokens (snd (expect_alias p)) = tl (p_tokens p)"
  by (simp_all add: expect_token_def expect_keyword_def expect_alias_def case_prod_beta Let_def parser_simps)

lemma expect_identifier_simps [parser_simps]:
  "p_inv p \<Longrightarrow> p_inv (snd (expect_identifier p))" "p_inv p \<Longrightarrow> p_tokens (snd (expect_identifier p)) = tl (p_tokens p)"
  by (simp_all add: expect_identifier_def parser_simps)

lemma next_type_left: "next_type p \<noteq> END_OF_INPUT \<Longrightarrow> 0 < p_left p"
  by (cases "p_tokens p") (simp_all add: next_type_def p_left_def)

lemma next_type_end: "next_type p = END_OF_INPUT \<longleftrightarrow> p_tokens p = []"
  using next_token_tokens [of "p_lexer p"] by (auto simp: next_type_def p_tokens_def split: list.split if_splits)

subsection \<open>Calls that return\<close>

definition ends :: "nat \<Rightarrow> ('a \<times> parser) option \<Rightarrow> bool" where
  "ends k r = (\<exists>x p. r = Some (x, p) \<and> p_inv p \<and> p_left p \<le> k)"

definition total_below :: "nat \<Rightarrow> 'a parse \<Rightarrow> bool" where
  "total_below n f = (\<forall>p. p_inv p \<longrightarrow> p_left p < n \<longrightarrow> ends (p_left p) (f p))"

lemma ends_Some [simp]: "ends k (Some (x, p)) \<longleftrightarrow> p_inv p \<and> p_left p \<le> k"
  by (simp add: ends_def)

lemma ends_bind:
  assumes "ends j r" "\<And>x p. p_inv p \<Longrightarrow> p_left p \<le> j \<Longrightarrow> ends k (f (x, p))"
  shows "ends k (r \<bind> f)"
  using assms by (force simp: ends_def)

lemma ends_if: "ends k a \<Longrightarrow> ends k b \<Longrightarrow> ends k (if c then a else b)"
  by simp

lemma ends_mono: "ends j r \<Longrightarrow> j \<le> k \<Longrightarrow> ends k r"
  by (force simp: ends_def)

lemma total_below_ends: "total_below n f \<Longrightarrow> p_inv p \<Longrightarrow> p_left p < n \<Longrightarrow> p_left p \<le> k \<Longrightarrow> ends k (f p)"
  by (auto simp: total_below_def intro: ends_mono)

lemma ends_name: "p_inv p \<Longrightarrow> ends (p_left p - 1) (parse_name p)"
  by (simp add: parse_name_def case_prod_beta parser_simps p_left_def)

lemma p_left_simps [parser_simps]:
  "p_left (snd (peek_tok p)) = p_left p" "p_inv p \<Longrightarrow> p_left (consume p) = p_left p - 1"
  "p_left (set_error_at m t p) = p_left p" "p_left (set_error m p) = p_left p" "p_left (mark_error p) = p_left p"
  "p_left (snd (check ty p)) = p_left p"
  "p_inv p \<Longrightarrow> p_left (snd (match_token ty p)) = (if next_type p = ty then p_left p - 1 else p_left p)"
  "p_inv p \<Longrightarrow> p_left (snd (expect_token ty p)) = p_left p - 1"
  "p_inv p \<Longrightarrow> p_left (snd (expect_keyword ty p)) = p_left p - 1"
  "p_inv p \<Longrightarrow> p_left (snd (expect_alias p)) = p_left p - 1"
  "p_inv p \<Longrightarrow> p_left (snd (expect_identifier p)) = p_left p - 1"
  by (simp_all add: p_left_def parser_simps)

subsection \<open>Loops\<close>

lemma ends_comma_loop:
  assumes "total_below n f"
  shows "p_inv p \<Longrightarrow> p_left p \<le> n \<Longrightarrow> ends (p_left p) (comma_loop f xs p)"
proof (induction "p_left p" arbitrary: p xs rule: less_induct)
  case less
  have "ends (p_left p) (f (snd (match_token COMMA p)) \<bind> (\<lambda>(x, p2). comma_loop f (xs @ [x]) p2))"
    if "next_type p = COMMA"
  proof -
    have pos: "0 < p_left p" using that by (intro next_type_left) simp
    show ?thesis
      by (rule ends_bind [OF total_below_ends [OF assms, where k = "p_left p - 1"]])
        (use less pos that in \<open>auto simp: parser_simps intro: ends_mono [OF less.hyps]\<close>)
  qed
  then show ?case
    using less.prems by (subst comma_loop.simps) (simp add: case_prod_beta parser_simps)
qed

lemma ends_comma_list:
  assumes "total_below n f" "p_inv p" "p_left p < n"
  shows "ends (p_left p) (comma_list f p)"
  unfolding comma_list_def
  by (rule ends_bind [OF total_below_ends [OF assms order_refl]])
    (use assms in \<open>auto intro: ends_mono [OF ends_comma_loop [OF assms(1)]]\<close>)

lemma ends_left_loop:
  assumes "total_below n sub" "\<not> is_op END_OF_INPUT"
  shows "p_inv p \<Longrightarrow> p_left p \<le> n \<Longrightarrow> ends (p_left p) (left_loop is_op nm sub l p)"
proof (induction "p_left p" arbitrary: p l rule: less_induct)
  case less
  have "ends (p_left p) (sub (consume (snd (peek_tok p))) \<bind> (\<lambda>(r, p2). left_loop is_op nm sub (binary x l r) p2))"
    if "is_op (next_type p)" for x
  proof -
    have pos: "0 < p_left p" using that assms(2) by (intro next_type_left) auto
    show ?thesis
      by (rule ends_bind [OF total_below_ends [OF assms(1), where k = "p_left p - 1"]])
        (use less pos in \<open>auto simp: parser_simps intro: ends_mono [OF less.hyps]\<close>)
  qed
  then show ?case
    using less.prems by (subst left_loop.simps) (simp add: case_prod_beta Let_def parser_simps)
qed

lemma ends_case_loop:
  assumes "total_below n expr"
  shows "p_inv p \<Longrightarrow> p_left p \<le> n \<Longrightarrow> ends (p_left p) (case_loop expr ws p)"
proof (induction "p_left p" arbitrary: p ws rule: less_induct)
  case less
  have "ends (p_left p) (expr (snd (match_token (KW ''WHEN'') p)) \<bind> (\<lambda>(c, p2).
      expr (snd (expect_keyword (KW ''THEN'') p2)) \<bind> (\<lambda>(r, p4). case_loop expr (ws @ [(c, r)]) p4)))"
    if "next_type p = KW ''WHEN''"
  proof -
    have pos: "0 < p_left p" using that by (intro next_type_left) simp
    show ?thesis
    proof (rule ends_bind [OF total_below_ends [OF assms, where k = "p_left p - 1"]], goal_cases)
      case (4 c p2)
      then show ?case
        using less pos
        by (auto intro!: ends_bind [OF total_below_ends [OF assms, where k = "p_left p - 1"]]
            ends_mono [OF less.hyps] simp: parser_simps)
    qed (use less pos that in \<open>auto simp: parser_simps\<close>)
  qed
  then show ?case
    using less.prems by (subst case_loop.simps) (simp add: case_prod_beta Let_def parser_simps)
qed

subsection \<open>Expressions\<close>

lemma ends_parse_case:
  assumes "total_below n expr" "p_inv p" "p_left p < n"
  shows "ends (p_left p) (parse_case expr p)"
  unfolding parse_case_def
proof (rule ends_bind [OF ends_case_loop [OF assms(1,2)]], goal_cases)
  case (2 ws p1)
  then show ?case
    using assms
    by (auto simp: case_prod_beta Let_def parser_simps
        intro!: ends_bind [where j = "p_left p"] total_below_ends [OF assms(1)])
qed (use assms in simp)

lemma cast_type_simps [parser_simps]:
  "p_inv p \<Longrightarrow> p_inv (snd (cast_type p))" "p_inv p \<Longrightarrow> p_left (snd (cast_type p)) \<le> p_left p"
  by (simp_all add: cast_type_def case_prod_beta Let_def parser_simps)

lemma ends_parse_cast:
  assumes "total_below n expr" "p_inv p" "p_left p < n"
  shows "ends (p_left p) (parse_cast expr p)"
  unfolding parse_cast_def
proof (rule ends_bind [OF total_below_ends [OF assms(1), where k = "p_left p"]], goal_cases)
  case (4 e p1)
  have "p_inv (snd (expect_keyword (KW ''AS'') p1))" using 4 by (simp add: parser_simps)
  from cast_type_simps [OF this] show ?case
    using 4 by (simp add: case_prod_beta Let_def parser_simps)
qed (use assms in \<open>auto simp: parser_simps\<close>)

lemma ends_parse_coalesce:
  assumes "total_below n expr" "p_inv p" "p_left p < n"
  shows "ends (p_left p) (parse_coalesce expr p)"
  unfolding parse_coalesce_def
  by (rule ends_bind [OF ends_comma_list [OF assms(1)]]) (use assms in \<open>auto simp: parser_simps\<close>)

lemma ends_parse_nullif:
  assumes "total_below n expr" "p_inv p" "p_left p < n"
  shows "ends (p_left p) (parse_nullif expr p)"
  unfolding parse_nullif_def
  by (rule ends_bind [OF total_below_ends [OF assms(1), where k = "p_left p"]])
    (use assms in \<open>auto simp: parser_simps intro!: ends_bind [OF total_below_ends [OF assms(1), where k = "p_left p"]]\<close>)

lemma ends_parse_aggregate:
  assumes "total_below n expr" "p_inv p" "p_left p < n"
  shows "ends (p_left p) (parse_aggregate expr name t p)"
  using assms
  by (auto simp: parse_aggregate_def case_prod_beta Let_def parser_simps
      intro!: ends_bind [where j = "p_left p"] total_below_ends [OF assms(1)])

lemma ends_parse_parenthesised:
  assumes "total_below n expr" "total_below n sel" "p_inv p" "p_left p < n"
  shows "ends (p_left p) (parse_parenthesised expr sel p)"
  using assms
  by (auto simp: parse_parenthesised_def case_prod_beta Let_def parser_simps
      intro!: ends_bind [OF total_below_ends [OF assms(1), where k = "p_left p"]]
        ends_bind [OF total_below_ends [OF assms(2), where k = "p_left p"]])

lemma ends_parse_length:
  assumes "total_below n expr" "p_inv p" "p_left p < n"
  shows "ends (p_left p) (parse_length expr t p)"
  using assms
  by (auto simp: parse_length_def case_prod_beta Let_def parser_simps
      intro!: ends_bind [OF total_below_ends [OF assms(1), where k = "p_left p"]])

lemma ends_parse_column_ref: "p_inv p \<Longrightarrow> ends (p_left p) (parse_column_ref t p)"
  by (simp add: parse_column_ref_def case_prod_beta Let_def parser_simps)

lemma aggregate_names_end [simp]: "map_of aggregate_names END_OF_INPUT = None"
  by (simp add: aggregate_names_def)

lemma is_identifier_end [simp]: "\<not> is_identifier_token END_OF_INPUT"
  by (simp add: is_identifier_token_def)

lemma total_parse_primary:
  assumes "total_below n expr" "total_below n sel"
  shows "total_below (Suc n) (parse_primary expr sel)"
  unfolding total_below_def
proof (intro allI impI)
  fix p assume p: "p_inv p" "p_left p < Suc n"
  let ?t = "fst (peek_tok p)" and ?q = "consume (snd (peek_tok p))"
  show "ends (p_left p) (parse_primary expr sel p)"
  proof (cases "next_type p = END_OF_INPUT")
    case True
    then show ?thesis
      using p by (simp add: parse_primary_def case_prod_beta Let_def parser_simps)
  next
    case False
    then have q: "p_inv ?q" "p_left ?q < n" "p_left ?q \<le> p_left p"
      using p next_type_left [of p] by (auto simp: parser_simps)
    note r = ends_mono [OF _ q(3)]
    show ?thesis
      using p q False
        r [OF ends_parse_case [OF assms(1) q(1,2)]] r [OF ends_parse_cast [OF assms(1) q(1,2)]]
        r [OF ends_parse_coalesce [OF assms(1) q(1,2)]] r [OF ends_parse_nullif [OF assms(1) q(1,2)]]
        r [OF ends_parse_aggregate [OF assms(1) q(1,2)]] r [OF ends_parse_parenthesised [OF assms q(1,2)]]
        r [OF ends_parse_length [OF assms(1) q(1,2)]] r [OF ends_parse_column_ref [OF q(1)]]
      by (simp add: parse_primary_def case_prod_beta Let_def parser_simps split: option.split)
  qed
qed

lemma total_parse_unary:
  assumes "total_below n expr" "total_below n sel"
  shows "total_below (Suc n) (parse_unary expr sel)"
  unfolding total_below_def
proof (intro allI impI)
  fix p assume "p_inv p" "p_left p < Suc n"
  then show "ends (p_left p) (parse_unary expr sel p)"
    by (auto simp: parse_unary_def case_prod_beta Let_def parser_simps
        intro!: ends_bind [where j = "p_left p"] total_below_ends [OF total_parse_primary [OF assms]])
qed

text \<open>A level of the operators: one operand of the level above, then the loop.\<close>

lemma total_left_level:
  assumes "total_below (Suc n) sub" "\<not> is_op END_OF_INPUT"
  shows "total_below (Suc n) (\<lambda>p. sub p \<bind> (\<lambda>(l, p1). left_loop is_op nm sub l p1))"
  unfolding total_below_def
proof (intro allI impI)
  fix p assume p: "p_inv p" "p_left p < Suc n"
  show "ends (p_left p) (sub p \<bind> (\<lambda>(l, p1). left_loop is_op nm sub l p1))"
    by (rule ends_bind [OF total_below_ends [OF assms(1) p order_refl]])
      (use p in \<open>auto intro: ends_mono [OF ends_left_loop [where is_op = is_op, OF assms]]\<close>)
qed

lemma total_parse_multiplication:
  assumes "total_below n expr" "total_below n sel"
  shows "total_below (Suc n) (parse_multiplication expr sel)"
  using total_left_level [OF total_parse_unary [OF assms], of "\<lambda>ty. ty = STAR \<or> ty = SLASH \<or> ty = PERCENT" tok_value]
  by (simp add: total_below_def parse_multiplication_def)

lemma total_parse_addition:
  assumes "total_below n expr" "total_below n sel"
  shows "total_below (Suc n) (parse_addition expr sel)"
  using total_left_level [OF total_parse_multiplication [OF assms], of "\<lambda>ty. ty = PLUS \<or> ty = MINUS" tok_value]
  by (simp add: total_below_def parse_addition_def)

lemma ends_parse_in:
  assumes "total_below n expr" "total_below n sel" "p_inv p" "p_left p < n"
  shows "ends (p_left p) (parse_in expr sel negate l p)"
  using assms
  by (auto simp: parse_in_def case_prod_beta Let_def parser_simps
      intro!: ends_bind [where j = "p_left p"] total_below_ends [OF assms(2)]
        ends_mono [OF ends_comma_list [OF assms(1)]])

lemma ends_parse_between:
  assumes "total_below n addition" "p_inv p" "p_left p < n"
  shows "ends (p_left p) (parse_between addition l p)"
  using assms
  by (auto simp: parse_between_def case_prod_beta Let_def parser_simps
      intro!: ends_bind [where j = "p_left p"] total_below_ends [OF assms(1)])

lemma ends_parse_negated:
  assumes "total_below n expr" "total_below n sel" "total_below (Suc n) addition" "p_inv p" "p_left p < n"
  shows "ends (p_left p) (parse_negated expr sel addition l p)"
proof -
  have q: "p_inv (consume (snd (peek_tok p)))" "p_left (consume (snd (peek_tok p))) \<le> p_left p"
    "p_left (consume (snd (peek_tok p))) < n"
    using assms(4,5) by (auto simp: parser_simps)
  have "ends (p_left p) (parse_in expr sel True l (consume (snd (peek_tok p))))"
    "ends (p_left p) (parse_between addition l (consume (snd (peek_tok p))))"
    using ends_mono [OF ends_parse_in [OF assms(1,2) q(1,3)] q(2)]
      ends_mono [OF ends_parse_between [OF assms(3) q(1)] q(2)] q(3) by simp_all
  then show ?thesis
    using assms
    by (auto simp: parse_negated_def case_prod_beta Let_def parser_simps
        intro!: ends_bind [where j = "p_left p"] total_below_ends [OF assms(3)])
qed

lemma total_parse_comparison:
  assumes "total_below n expr" "total_below n sel"
  shows "total_below (Suc n) (parse_comparison expr sel)"
  unfolding total_below_def
proof (intro allI impI)
  fix p assume p: "p_inv p" "p_left p < Suc n"
  note add = total_parse_addition [OF assms]
  show "ends (p_left p) (parse_comparison expr sel p)"
    unfolding parse_comparison_def
  proof (rule ends_bind [OF total_below_ends [OF add p order_refl]], goal_cases)
    case (1 l p1)
    let ?q = "consume (snd (peek_tok p1))"
    have q: "p_inv ?q" "p_left ?q \<le> p_left p" "next_type p1 \<noteq> END_OF_INPUT \<Longrightarrow> p_left ?q < n"
      "p_left ?q < Suc n"
      using 1 p next_type_left [of p1] by (auto simp: parser_simps)
    have "ends (p_left p) (parse_in expr sel False l ?q)" "ends (p_left p) (parse_negated expr sel (parse_addition expr sel) l ?q)"
      "ends (p_left p) (parse_between (parse_addition expr sel) l ?q)" if "next_type p1 \<noteq> END_OF_INPUT"
      using ends_mono [OF ends_parse_in [OF assms q(1) q(3) [OF that]] q(2)]
        ends_mono [OF ends_parse_negated [OF assms add q(1) q(3) [OF that]] q(2)]
        ends_mono [OF ends_parse_between [OF add q(1,4)] q(2)] by blast+
    then show ?case
      using 1 p q
      by (auto simp: case_prod_beta Let_def parser_simps is_comparison_token_def
          intro!: ends_bind [where j = "p_left p"] total_below_ends [OF add])
  qed
qed

lemma total_parse_not_expr:
  assumes "total_below n comparison"
  shows "total_below n (parse_not_expr comparison)"
proof -
  have "p_inv p \<Longrightarrow> p_left p < n \<Longrightarrow> ends (p_left p) (parse_not_expr comparison p)" for p
  proof (induction "p_left p" arbitrary: p rule: less_induct)
    case less
    show ?case
    proof (cases "next_type p = KW ''NOT''")
      case True
      then have pos: "0 < p_left p" by (intro next_type_left) simp
      then show ?thesis
        using less True
        by (subst parse_not_expr.simps)
          (auto simp: case_prod_beta parser_simps intro!: ends_bind [where j = "p_left p"] ends_mono [OF less.hyps])
    next
      case False
      then show ?thesis
        using less.prems
        by (subst parse_not_expr.simps) (auto simp: case_prod_beta parser_simps intro!: total_below_ends [OF assms])
    qed
  qed
  then show ?thesis by (simp add: total_below_def)
qed

lemma total_parse_or_expr:
  assumes "total_below n expr" "total_below n sel"
  shows "total_below (Suc n) (parse_or_expr expr sel)"
proof -
  note nt = total_parse_not_expr [OF total_parse_comparison [OF assms]]
  have "total_below (Suc n) (parse_and_expr expr sel)"
    using total_left_level [OF nt, of "\<lambda>ty. ty = KW ''AND''" "\<lambda>_. ''AND''"]
    by (simp add: total_below_def parse_and_expr_def)
  from total_left_level [OF this, of "\<lambda>ty. ty = KW ''OR''" "\<lambda>_. ''OR''"] show ?thesis
    by (simp add: total_below_def parse_or_expr_def)
qed

subsection \<open>Selects\<close>

lemma total_select_item:
  assumes "total_below n expr"
  shows "total_below n (select_item expr)"
  unfolding total_below_def
proof (intro allI impI)
  fix p assume "p_inv p" "p_left p < n"
  then show "ends (p_left p) (select_item expr p)"
    by (auto simp: select_item_def case_prod_beta Let_def parser_simps
        intro!: ends_bind [where j = "p_left p"] total_below_ends [OF assms])
qed

lemma total_order_item:
  assumes "total_below n expr"
  shows "total_below n (order_item expr)"
  unfolding total_below_def
proof (intro allI impI)
  fix p assume p: "p_inv p" "p_left p < n"
  show "ends (p_left p) (order_item expr p)"
    unfolding order_item_def
  proof (rule ends_bind [OF total_below_ends [OF assms p order_refl]], goal_cases)
    case (1 e p1)
    then show ?case
      by (cases "next_type p1 = KW ''ASC''") (auto simp: case_prod_beta Let_def parser_simps)
  qed
qed

lemma ends_parse_select_list:
  assumes "total_below n expr" "p_inv p" "p_left p < n"
  shows "ends (p_left p) (parse_select_list expr p)"
  using assms
  by (auto simp: parse_select_list_def case_prod_beta parser_simps
      intro!: ends_mono [OF ends_comma_loop [OF total_select_item]] ends_mono [OF ends_comma_list [OF total_select_item]])

lemma ends_table_alias: "p_inv p \<Longrightarrow> ends (p_left p) (table_alias name sub p)"
  by (auto simp: table_alias_def case_prod_beta Let_def parser_simps)

lemma total_parse_table_ref:
  assumes "total_below n sel"
  shows "total_below n (parse_table_ref sel)"
  unfolding total_below_def
proof (intro allI impI)
  fix p assume "p_inv p" "p_left p < n"
  then show "ends (p_left p) (parse_table_ref sel p)"
    by (auto simp: parse_table_ref_def case_prod_beta Let_def parser_simps
        intro!: ends_bind [where j = "p_left p"] total_below_ends [OF assms] ends_mono [OF ends_table_alias])
qed

lemma join_head_simps [parser_simps]:
  "p_inv p \<Longrightarrow> p_inv (snd (snd (join_head ty p)))" "p_inv p \<Longrightarrow> p_left (snd (snd (join_head ty p))) \<le> p_left p"
  by (simp_all add: join_head_def parser_simps)

text \<open>A join takes at least the word \<^verbatim>\<open>JOIN\<close> or the token in its place.\<close>

lemma ends_join_loop:
  assumes "total_below n expr" "total_below n sel"
  shows "p_inv p \<Longrightarrow> p_left p \<le> n \<Longrightarrow> ends (p_left p) (join_loop expr sel js p)"
proof (induction "p_left p" arbitrary: p js rule: less_induct)
  case less
  let ?p1 = "snd (peek_tok p)"
  let ?p2 = "snd (snd (join_head (next_type p) ?p1))"
  let ?p3 = "snd (expect_keyword (KW ''JOIN'') ?p2)"
  show ?case
  proof (cases "next_type p = KW ''INNER'' \<or> next_type p = KW ''JOIN'' \<or> next_type p = KW ''LEFT'' \<or> next_type p = KW ''CROSS''")
    case False
    then show ?thesis
      using less.prems by (subst join_loop.simps) (auto simp: case_prod_beta Let_def parser_simps)
  next
    case True
    have pos: "0 < p_left p" using True by (intro next_type_left) auto
    have p2: "p_inv ?p2" "p_left ?p2 \<le> p_left p"
      using less.prems join_head_simps [of ?p1] by (auto simp: parser_simps)
    then have p3: "p_inv ?p3" "p_left ?p3 < p_left p" using pos by (auto simp: parser_simps)
    have r: "ends (p_left p - 1) (parse_table_ref sel ?p3)"
      using p3 less.prems by (intro total_below_ends [OF total_parse_table_ref [OF assms(2)]]) auto
    have e: "ends (p_left p - 1) (expr q)" if "p_inv q" "p_left q \<le> p_left p - 1" for q
      using that less.prems pos by (intro total_below_ends [OF assms(1)]) auto
    show ?thesis
      using True less.prems pos
      by (subst join_loop.simps)
        (auto simp: case_prod_beta Let_def parser_simps
          intro!: ends_bind [OF r] ends_bind [OF e] ends_mono [OF less.hyps])
  qed
qed

lemma ends_optional_clause:
  assumes "p_inv p" "p_left p \<le> k" "\<And>q. p_inv q \<Longrightarrow> p_left q \<le> p_left p \<Longrightarrow> ends k (f q)"
  shows "ends k (optional_clause kw x f p)"
  using assms by (simp add: optional_clause_def case_prod_beta parser_simps)

lemma total_some_expr: "total_below n expr \<Longrightarrow> total_below n (some_expr expr)"
  by (auto simp: total_below_def some_expr_def intro!: ends_bind)

lemma ends_after_by:
  assumes "\<And>q. p_inv q \<Longrightarrow> p_left q \<le> p_left p \<Longrightarrow> ends k (f q)" "p_inv p"
  shows "ends k (after_by f p)"
  using assms by (simp add: after_by_def parser_simps)

lemma ends_limits: "p_inv p \<Longrightarrow> ends (p_left p) (parse_limit p)" "p_inv p \<Longrightarrow> ends (p_left p) (parse_offset p)"
  by (simp_all add: parse_limit_def parse_offset_def case_prod_beta Let_def parser_simps)

lemma ends_parse_select_clauses:
  assumes "total_below n expr" "total_below n sel" "p_inv p" "p_left p < n"
  shows "ends (p_left p) (parse_select_clauses expr sel dist p)"
proof -
  have lists: "ends (p_left p) (comma_list expr q)" "ends (p_left p) (comma_list (order_item expr) q)"
    "ends (p_left p) (parse_select_list expr q)" "ends (p_left p) (parse_table_ref sel q)"
    "ends (p_left p) (some_expr expr q)" "ends (p_left p) (join_loop expr sel [] q)"
    "ends (p_left p) (parse_limit q)" "ends (p_left p) (parse_offset q)"
    if "p_inv q" "p_left q \<le> p_left p" for q
    using that assms(4) ends_limits
    by (auto intro: ends_mono [OF ends_comma_list [OF assms(1)]]
        ends_mono [OF ends_comma_list [OF total_order_item [OF assms(1)]]]
        ends_mono [OF ends_parse_select_list [OF assms(1)]]
        total_below_ends [OF total_parse_table_ref [OF assms(2)]] total_below_ends [OF total_some_expr [OF assms(1)]]
        ends_mono [OF ends_join_loop [OF assms(1,2)]] ends_mono [OF ends_limits(1)] ends_mono [OF ends_limits(2)])
  show ?thesis
    unfolding parse_select_clauses_def using assms(3)
    by (auto intro!: ends_bind [where j = "p_left p"] ends_optional_clause ends_after_by lists)
qed

lemma ends_parse_select_body:
  assumes "total_below n expr" "total_below n sel" "p_inv p" "p_left p < Suc n"
  shows "ends (p_left p) (parse_select_body expr sel p)"
proof -
  let ?p3 = "snd (peek_tok (snd (match_token (KW ''DISTINCT'') (snd (expect_keyword (KW ''SELECT'') p)))))"
  have p3: "p_inv ?p3" "p_left ?p3 \<le> p_left p" "0 < p_left ?p3 \<Longrightarrow> p_left ?p3 < n"
    using assms(3,4) by (auto simp: parser_simps)
  have "ends (p_left p) (parse_select_clauses expr sel dist ?p3)" if "next_type ?p3 \<noteq> END_OF_INPUT" for dist
    using ends_mono [OF ends_parse_select_clauses [OF assms(1,2) p3(1)] p3(2)] p3(3) next_type_left [OF that] by simp
  moreover have "next_type ?p3 \<notin> set select_stops \<Longrightarrow> next_type ?p3 \<noteq> END_OF_INPUT"
    by (rule notI) (simp add: select_stops_def)
  ultimately show ?thesis
    using p3(1,2)
    by (cases "next_type ?p3 \<in> set select_stops")
      (simp_all add: parse_select_body_def case_prod_beta Let_def parser_simps)
qed

lemma total_parse: "total_below n (parse_expression n)" "total_below n (parse_select n)"
proof (induction n)
  case 0
  { case 1 show ?case by (simp add: total_below_def)
  next
    case 2 show ?case by (simp add: total_below_def) }
next
  case (Suc n)
  { case 1
    show ?case using total_parse_or_expr [OF Suc] by (simp add: total_below_def)
  next
    case 2
    show ?case
      unfolding total_below_def
    proof (intro allI impI)
      fix p assume p: "p_inv p" "p_left p < Suc n"
      show "ends (p_left p) (parse_select (Suc n) p)"
        unfolding parse_select.simps
      proof (rule ends_bind [OF ends_parse_select_body [OF Suc p]], goal_cases)
        case (1 s p1)
        then have "next_type p1 = KW ''UNION'' \<Longrightarrow> 0 < p_left p1" by (intro next_type_left) simp
        then show ?case
          using 1 p
          by (auto simp: case_prod_beta Let_def parser_simps
              intro!: ends_bind [where j = "p_left p"] total_below_ends [OF Suc(2)])
      qed
    qed }
qed

subsection \<open>Statements\<close>

lemma total_name: "total_below n parse_name"
  using ends_mono [OF ends_name] by (simp add: total_below_def)

lemma ends_parse_insert:
  assumes "total_below n expr" "p_inv p" "p_left p < n"
  shows "ends (p_left p) (parse_insert expr p)"
proof -
  have row: "total_below n (\<lambda>q. do { (es, q1) \<leftarrow> comma_list expr (snd (expect_token LPAREN q)); Some (es, snd (expect_token RPAREN q1)) })"
    unfolding total_below_def
    by (auto simp: parser_simps intro!: ends_bind [OF ends_mono [OF ends_comma_list [OF assms(1)]]])
  show ?thesis
    unfolding parse_insert_def using assms
    by (auto simp: parser_simps intro!: ends_bind [where j = "p_left p"] ends_mono [OF ends_name] ends_optional_clause
        ends_mono [OF ends_comma_list [OF total_name]] ends_mono [OF ends_comma_list [OF row]])
qed

lemma total_set_item:
  assumes "total_below n expr"
  shows "total_below n (set_item expr)"
  unfolding total_below_def set_item_def
  using assms by (auto simp: parser_simps intro!: ends_bind [OF ends_name] ends_bind [OF total_below_ends])

lemma ends_parse_update:
  assumes "total_below n expr" "p_inv p" "p_left p < n"
  shows "ends (p_left p) (parse_update expr p)"
  unfolding parse_update_def using assms
  by (auto simp: parser_simps intro!: ends_bind [where j = "p_left p"] ends_mono [OF ends_name] ends_optional_clause
      ends_mono [OF ends_comma_list [OF total_set_item]] total_below_ends [OF total_some_expr])

lemma ends_parse_delete:
  assumes "total_below n expr" "p_inv p" "p_left p < n"
  shows "ends (p_left p) (parse_delete expr p)"
  unfolding parse_delete_def using assms
  by (auto simp: parser_simps intro!: ends_bind [where j = "p_left p"] ends_mono [OF ends_name] ends_optional_clause
      total_below_ends [OF total_some_expr])

lemma ends_column_type: "p_inv p \<Longrightarrow> ends (p_left p) (parse_column_type col p)"
  by (auto simp: parse_column_type_def case_prod_beta Let_def parser_simps split: option.split
      intro!: ends_bind [OF ends_name])

lemma ends_check_loop: "p_inv p \<Longrightarrow> ends (p_left p) (check_loop depth p)"
proof (induction "p_left p" arbitrary: p depth rule: less_induct)
  case less
  have "next_type p \<noteq> END_OF_INPUT \<Longrightarrow> 0 < p_left p" by (rule next_type_left)
  then show ?case
    using less.prems
    by (subst check_loop.simps)
      (auto simp: case_prod_beta Let_def parser_simps intro!: ends_mono [OF less.hyps])
qed

lemma ends_parse_check: "p_inv p \<Longrightarrow> ends (p_left p) (parse_check col p)"
  unfolding parse_check_def Let_def
  by (rule ends_bind [OF ends_check_loop]) (auto simp: parser_simps)

lemma ends_constraint_loop: "p_inv p \<Longrightarrow> ends (p_left p) (constraint_loop col p)"
proof (induction "p_left p" arbitrary: p col rule: less_induct)
  case less
  have pos: "next_type p \<noteq> END_OF_INPUT \<Longrightarrow> 0 < p_left p" by (rule next_type_left)
  show ?case
    using less.prems pos
    by (subst constraint_loop.simps)
      (auto simp: case_prod_beta Let_def parser_simps
        intro!: ends_mono [OF less.hyps] ends_bind [OF ends_parse_check])
qed

lemma total_parse_column_def: "total_below n parse_column_def"
  unfolding total_below_def parse_column_def_def
  by (auto simp: case_prod_beta Let_def parser_simps
      intro!: ends_bind [OF ends_column_type] ends_mono [OF ends_constraint_loop])

lemma ends_parse_create_table: "p_inv p \<Longrightarrow> ends (p_left p) (parse_create_table p)"
  unfolding parse_create_table_def
  by (rule ends_bind [OF ends_name])
    (auto simp: parser_simps intro!: ends_bind [OF ends_comma_list [OF total_parse_column_def _ lessI]])

lemma skip_keyword_simps [parser_simps]:
  "p_inv p \<Longrightarrow> p_inv (skip_keyword kw p)" "p_inv p \<Longrightarrow> p_left (skip_keyword kw p) \<le> p_left p"
  "p_inv p \<Longrightarrow> p_left (skip_keyword kw p) - Suc 0 \<le> p_left p"
  by (simp_all add: skip_keyword_def case_prod_beta parser_simps)

lemma ends_names: "p_inv p \<Longrightarrow> p_left p \<le> k \<Longrightarrow> ends k (parse_name (snd (expect_keyword kw p)))"
  by (rule ends_mono [OF ends_name]) (auto simp: parser_simps)

lemma ends_drops:
  assumes "p_inv p"
  shows "ends (p_left p) (parse_drop_table p)" "ends (p_left p) (parse_drop_index p)"
    "ends (p_left p) (parse_desc_table p)" "ends (p_left p) (parse_deallocate p)"
  using assms skip_keyword_simps [OF assms]
  by (simp_all add: parse_drop_table_def parse_drop_index_def parse_desc_table_def parse_deallocate_def
      case_prod_beta ends_names parser_simps)

lemma ends_parse_create_index: "p_inv p \<Longrightarrow> ends (p_left p) (parse_create_index p)"
  using skip_keyword_simps [of p]
  by (auto simp: parse_create_index_def case_prod_beta Let_def parser_simps
      intro!: ends_bind [where j = "p_left p"] ends_names ends_mono [OF ends_comma_list [OF total_name _ lessI]])

lemma ends_alter_loop: "p_inv p \<Longrightarrow> ends (p_left p) (alter_loop col p)"
proof (induction "p_left p" arbitrary: p col rule: less_induct)
  case less
  have "next_type p \<noteq> END_OF_INPUT \<Longrightarrow> 0 < p_left p" by (rule next_type_left)
  then show ?case
    using less.prems
    by (subst alter_loop.simps)
      (auto simp: case_prod_beta Let_def parser_simps intro!: ends_mono [OF less.hyps])
qed

lemma ends_parse_alter_table: "p_inv p \<Longrightarrow> ends (p_left p) (parse_alter_table p)"
proof -
  have action: "ends k (parse_alter_action q)" if "p_inv q" "p_left q \<le> k" for q k
    using that
    by (auto simp: parse_alter_action_def skip_column_def case_prod_beta Let_def parser_simps
        intro!: ends_bind [where j = k] ends_mono [OF ends_name] ends_mono [OF ends_column_type]
          ends_mono [OF ends_alter_loop] ends_names)
  assume "p_inv p"
  then show ?thesis
    by (auto simp: parse_alter_table_def parser_simps intro!: ends_bind [where j = "p_left p"] ends_names action)
qed

lemma ends_prepare_loop: "p_inv p \<Longrightarrow> ends (p_left p) (prepare_loop sql p)"
proof (induction "p_left p" arbitrary: p sql rule: less_induct)
  case less
  have "next_type p \<noteq> END_OF_INPUT \<Longrightarrow> 0 < p_left p" by (rule next_type_left)
  then show ?case
    using less.prems
    by (subst prepare_loop.simps) (auto simp: case_prod_beta parser_simps intro!: ends_mono [OF less.hyps])
qed

lemma ends_parse_prepare: "p_inv p \<Longrightarrow> ends (p_left p) (parse_prepare p)"
  by (auto simp: parse_prepare_def parser_simps
      intro!: ends_bind [where j = "p_left p"] ends_names ends_mono [OF ends_prepare_loop])

lemma ends_parse_execute:
  assumes "total_below n expr" "p_inv p" "p_left p < n"
  shows "ends (p_left p) (parse_execute expr p)"
  unfolding parse_execute_def using assms
  by (auto simp: case_prod_beta Let_def parser_simps
      intro!: ends_bind [where j = "p_left p"] ends_names ends_mono [OF ends_comma_list [OF assms(1)]])

subsection \<open>EXPLAIN\<close>

lemma ends_trace_level: "p_inv p \<Longrightarrow> ends (p_left p) (trace_level_option o1 p)"
  by (simp add: trace_level_option_def case_prod_beta Let_def parser_simps)

lemma upper_ascii_Nil [simp]: "upper_ascii [] = []"
  by (simp add: upper_ascii_def)

lemma ends_channels_loop: "p_inv p \<Longrightarrow> ends (p_left p) (channels_loop cs p)"
proof (induction "p_left p" arbitrary: p cs rule: less_induct)
  case less
  let ?q = "consume (snd (peek_tok p))"
  have pos: "next_type ?q = COMMA \<Longrightarrow> 0 < p_left p"
    using next_type_left [of ?q] less.prems by (simp add: parser_simps)
  show ?case
    using less.prems pos
    by (subst channels_loop.simps)
      (auto simp: case_prod_beta Let_def parser_simps intro!: ends_mono [OF less.hyps])
qed

lemma ends_trace_events: "p_inv p \<Longrightarrow> ends (p_left p) (trace_events_option o1 p)"
  by (auto simp: trace_events_option_def case_prod_beta Let_def parser_simps)

text \<open>The end of the text has no word and starts no option.\<close>

lemma peek_end:
  assumes "p_inv p" "is_trace_option_start (fst (peek_tok p))"
  shows "0 < p_left p"
proof (rule next_type_left, rule notI)
  assume "next_type p = END_OF_INPUT"
  then have "tok_value (fst (peek_tok p)) = []"
    using assms(1) peek_token_tokens(3,4) [of "p_lexer p"] lexer_ok_peek [of "p_lexer p"]
      peek_token_tokens(2) [of "p_lexer p"]
    by (simp add: p_inv_def peek_tok_def next_type_def p_tokens_def case_prod_beta lexer_ok_def)
  then show False using assms(2) by (simp add: is_trace_option_start_def)
qed

lemma ends_trace_option:
  assumes "p_inv p" "0 < p_left p"
  shows "ends (p_left p - 1) (trace_option o1 p)"
proof -
  let ?q = "consume (snd (peek_tok p))"
  have q: "p_inv ?q" "p_left ?q = p_left p - 1" using assms by (simp_all add: parser_simps)
  show ?thesis
    using q ends_trace_level [OF q(1)] ends_trace_events [OF q(1)] ends_channels_loop [OF q(1)]
    by (auto simp: trace_option_def case_prod_beta Let_def intro!: ends_bind [where j = "p_left p - 1"])
qed

lemma ends_trace_loop: "p_inv p \<Longrightarrow> ends (p_left p) (trace_loop o1 p)"
proof (induction "p_left p" arbitrary: p o1 rule: less_induct)
  case less
  let ?q = "snd (peek_tok p)"
  have "ends (p_left p) (trace_option o1 ?q \<bind>
      (\<lambda>(r, p2). case r of Some o2 \<Rightarrow> trace_loop o2 p2 | None \<Rightarrow> Some (None, p2)))"
    if "is_trace_option_start (fst (peek_tok p))"
  proof -
    have pos: "0 < p_left p" using peek_end less.prems that by blast
    show ?thesis
      by (rule ends_bind [OF ends_trace_option])
        (use less pos in \<open>auto simp: parser_simps split: option.split intro!: ends_mono [OF less.hyps]\<close>)
  qed
  then show ?case
    using less.prems by (subst trace_loop.simps) (simp add: case_prod_beta parser_simps)
qed

lemma ends_parse_explained:
  assumes "p_inv p" "p_left p < n"
  shows "ends (p_left p) (parse_explained n p)"
proof -
  let ?q = "snd (peek_tok p)"
  have q: "p_inv ?q" "p_left ?q < n" "p_left ?q = p_left p" using assms by (simp_all add: parser_simps)
  show ?thesis
    using q ends_parse_update [OF total_parse(1) q(1,2)] ends_parse_delete [OF total_parse(1) q(1,2)]
      ends_parse_insert [OF total_parse(1) q(1,2)] total_below_ends [OF total_parse(2) q(1,2) order_refl]
    by (auto simp: parse_explained_def case_prod_beta Let_def parser_simps intro!: ends_bind [where j = "p_left p"])
qed

lemma ends_parse_explain:
  assumes "p_inv p" "p_left p < n"
  shows "ends (p_left p) (parse_explain n p)"
  unfolding parse_explain_def using assms
  by (auto simp: case_prod_beta Let_def parser_simps split: option.split
      intro!: ends_bind [where j = "p_left p"] ends_mono [OF ends_trace_loop] ends_mono [OF ends_parse_explained])

subsection \<open>Every text is parsed\<close>

lemma ends_parse_switch:
  assumes "p_inv p" "p_left p < n"
  shows "ends (p_left p) (parse_switch n p)"
proof -
  let ?q = "snd (peek_tok p)"
  have q: "p_inv ?q" "p_left ?q < n" "p_left ?q = p_left p" using assms by (simp_all add: parser_simps)
  note e = total_parse(1) [of n]
  have table: "ends (p_left p) (parse_name (snd (match_token kw (consume ?q))))" for kw
    using q(1) by (intro ends_mono [OF ends_name]) (auto simp: parser_simps)
  have c: "p_inv (snd (peek_tok (consume ?q)))" "p_left (snd (peek_tok (consume ?q))) \<le> p_left p"
    "p_inv (snd (check kw (consume ?q)))" "p_left (snd (check kw (consume ?q))) \<le> p_left p" for kw
    using assms(1) by (simp_all add: parser_simps)
  note rules = ends_parse_insert [OF e q(1,2)] ends_parse_update [OF e q(1,2)] ends_parse_delete [OF e q(1,2)]
    ends_parse_execute [OF e q(1,2)] ends_parse_alter_table [OF q(1)] ends_parse_prepare [OF q(1)]
    total_below_ends [OF total_parse(2) q(1,2) order_refl] ends_drops(3,4) [OF q(1)]
    ends_mono [OF ends_parse_create_index c(2)] ends_mono [OF ends_parse_create_table c(2)]
    ends_mono [OF ends_drops(1) c(4)] ends_mono [OF ends_drops(2) c(4)]
  have "ends (p_left p) (parse_explain n (consume ?q))"
    using assms by (intro ends_mono [OF ends_parse_explain]) (auto simp: parser_simps)
  then show ?thesis
    using assms rules [unfolded q(3)] c(1,3) table
    unfolding parse_switch_def Let_def case_prod_beta
    by (intro ends_if ends_bind [where j = "p_left p"]; simp add: parser_simps ends_mono [OF ends_name])
qed

lemma ends_parse_statement:
  assumes "p_inv p" "p_left p < n"
  shows "ends (p_left p) (parse_statement n p)"
  unfolding parse_statement_def
  by (rule ends_bind [OF ends_parse_switch [OF assms]])
    (auto simp: case_prod_beta Let_def parser_simps split: option.split)

lemma no_options_error:
  "trace_level_option o1 p = Some (None, q) \<Longrightarrow> \<not> p_ok q"
  "trace_events_option o1 p = Some (None, q) \<Longrightarrow> \<not> p_ok q"
  "parse_explained n p = Some (None, q) \<Longrightarrow> \<not> p_ok q"
  by (auto simp: trace_level_option_def trace_events_option_def parse_explained_def Let_def case_prod_beta
      parser_simps bind_eq_Some_conv split: if_splits)

lemma no_channels_error: "p_inv p \<Longrightarrow> channels_loop cs p = Some (None, q) \<Longrightarrow> \<not> p_ok q"
proof (induction "p_left p" arbitrary: p cs rule: less_induct)
  case less
  let ?q = "consume (snd (peek_tok p))"
  have pos: "next_type ?q = COMMA \<Longrightarrow> 0 < p_left p"
    using next_type_left [of ?q] less.prems by (simp add: parser_simps)
  have q: "p_inv (snd (match_token COMMA ?q))" using less.prems(1) by (simp add: parser_simps)
  have "p_left (snd (match_token COMMA ?q)) < p_left p" if "next_type ?q = COMMA"
    using pos [OF that] less.prems(1) that by (simp add: parser_simps)
  then show ?case
    using less.hyps [OF _ q] less.prems(2) [unfolded channels_loop.simps [of cs p]]
    by (auto simp: case_prod_beta Let_def parser_simps split: if_splits)
qed

lemma no_trace_option_error: "p_inv p \<Longrightarrow> trace_option o1 p = Some (None, q) \<Longrightarrow> \<not> p_ok q"
  using no_options_error(1,2) no_channels_error [of "consume (snd (peek_tok p))"]
  by (auto simp: trace_option_def case_prod_beta Let_def parser_simps bind_eq_Some_conv split: if_splits)

lemma no_trace_error: "p_inv p \<Longrightarrow> trace_loop o1 p = Some (None, q) \<Longrightarrow> \<not> p_ok q"
proof (induction "p_left p" arbitrary: p o1 rule: less_induct)
  case less
  let ?q = "snd (peek_tok p)"
  have q: "p_inv ?q" "p_left ?q = p_left p" using less.prems(1) by (simp_all add: parser_simps)
  show ?case
  proof (cases "is_trace_option_start (fst (peek_tok p))")
    case False
    then show ?thesis
      using less.prems(2) [unfolded trace_loop.simps [of o1 p]] by (simp add: case_prod_beta)
  next
    case True
    then have pos: "0 < p_left p" using peek_end less.prems(1) by blast
    obtain r p2 where r: "trace_option o1 ?q = Some (r, p2)" "p_inv p2" "p_left p2 \<le> p_left p - 1"
      using ends_trace_option [OF q(1), of o1] q(2) pos by (auto simp: ends_def)
    have "trace_loop o1 p = (case r of Some o2 \<Rightarrow> trace_loop o2 p2 | None \<Rightarrow> Some (None, p2))"
      using True r(1) by (subst trace_loop.simps) (simp add: case_prod_beta)
    then show ?thesis
      using less.prems(2) r pos less.hyps [of p2] no_trace_option_error [OF q(1)]
      by (cases r) auto
  qed
qed

lemma no_explain_error:
  assumes "p_inv p" "parse_explain n p = Some (None, q)"
  shows "\<not> p_ok q"
proof -
  let ?q = "consume (snd (peek_tok (snd (match_token (KW ''ANALYZE'') p))))"
  have "p_inv ?q" using assms(1) by (simp add: parser_simps)
  then show ?thesis
    using assms(2) no_trace_error [of ?q] no_options_error(3)
    by (auto simp: parse_explain_def case_prod_beta Let_def bind_eq_Some_conv split: if_splits option.splits)
qed

lemma no_statement_error:
  assumes "p_inv p" "parse_switch n p = Some (None, q)"
  shows "\<not> p_ok q"
proof -
  let ?q = "consume (snd (peek_tok p))"
  have "p_inv ?q" using assms(1) by (simp add: parser_simps)
  then show ?thesis
    using assms(2) no_explain_error [of ?q]
    by (auto simp: parse_switch_def case_prod_beta Let_def bind_eq_Some_conv parser_simps split: if_splits)
qed

lemma parse_statement_outcome:
  assumes "p_inv p" "p_left p < n"
  shows "\<exists>stmt q. parse_statement n p = Some (stmt, q) \<and>
    (if p_ok q then p_tokens q = [] \<and> err_message (p_error q) = []
     else stmt = no_statement \<and> err_message (p_error q) \<noteq> [])"
proof -
  obtain r p1 where r: "parse_switch n p = Some (r, p1)" "p_inv p1"
    using ends_parse_switch [OF assms] by (auto simp: ends_def)
  let ?p3 = "snd (peek_tok (snd (match_token SEMICOLON p1)))"
  have p3: "p_inv ?p3" using r(2) by (simp add: parser_simps)
  show ?thesis
  proof (cases "r = None \<or> \<not> p_ok p1")
    case True
    then have "\<not> p_ok p1" using no_statement_error [OF assms(1)] r(1) by auto
    then show ?thesis using r True by (auto simp: parse_statement_def p_inv_def split: option.split)
  next
    case False
    then obtain stmt where "parse_statement n p = (if next_type ?p3 \<noteq> END_OF_INPUT
        then Some (no_statement, set_error_at ''unexpected trailing token after statement'' (fst (peek_tok (snd (match_token SEMICOLON p1)))) ?p3)
        else Some (stmt, ?p3))"
      using r(1) by (auto simp: parse_statement_def case_prod_beta Let_def parser_simps)
    moreover have "p_inv (set_error_at ''unexpected trailing token after statement'' t ?p3)" for t
      using p3 by (simp add: parser_simps)
    ultimately show ?thesis
      using p3 False
      by (cases "next_type ?p3 = END_OF_INPUT") (auto simp: p_inv_def next_type_end parser_simps)
  qed
qed

subsection \<open>Properties\<close>

text \<open>
  C29: The parser returns for every text.  Either all tokens are read, there is no error message and the statement is
  the result, or there is an error message and the result is the empty statement.\<close>

theorem parse_returns:
  "\<exists>stmt p. parse sql = Some (stmt, p) \<and>
    (if p_ok p then p_tokens p = [] \<and> err_message (p_error p) = []
     else stmt = no_statement \<and> err_message (p_error p) \<noteq> [])"
proof -
  have "p_inv (new_parser sql)" by (simp add: p_inv_def new_parser_def)
  moreover have "p_left (new_parser sql) < Suc (length sql)"
    using tokens_length [of "new_lexer sql"] by (simp add: p_left_def p_tokens_def new_parser_def new_lexer_def)
  ultimately show ?thesis unfolding parse_def by (rule parse_statement_outcome)
qed

end
