(* ===== verification/Spec2Isabelle.thy ===== *)
theory Spec2Isabelle
  imports Txn_Snapshots Tuple_Key Index_Key Page_Laws Hash_Join_Laws Sort Aggregate Parser_Laws
begin

text \<open>
  A verification library for minidb, a relational database in C++.

  \<^bold>\<open>The program.\<close>  Rows of typed values live in slotted 8 KiB pages; every row version carries the transactions that
  created and deleted it.  A transaction manager hands out ids and snapshots, keeps undo logs and a table of recent
  commits, and asks the lock manager for table and record locks and the resource manager for admission; the outcome of
  transactions is kept in a status log file.  Statements become trees of executors that pull rows from their children
  and evaluate expressions on them; a validator types the expressions first.

  \<^bold>\<open>Conventions.\<close>  Machine integers are words of their width or integers with the overflow checks of the code.
  Strings are lists of characters, byte buffers lists of 8-bit words, floating-point numbers their bit patterns.
  \<open>None\<close> stands for undefined behaviour or a loop that does not end, a sum type for a returned error.  Answers of the
  operating system are inputs.  A section under a latch is one step of a concurrent model.

  \<^bold>\<open>Theories, from the bottom.\<close>
  \<^item> \<open>Prelude\<close>: integer aliases of \<^verbatim>\<open>common/defs.h\<close>, byte images of words, page identifiers, shared lemmas.
  \<^item> \<open>Cstring\<close>, \<open>Ieee754\<close>, \<open>Datetime\<close>: \<^verbatim>\<open>container/string.cpp\<close> and number printing and reading, the arithmetic of
    \<^verbatim>\<open>float\<close> and \<^verbatim>\<open>double\<close> on bit patterns, \<^verbatim>\<open>common/datetime.cpp\<close>.
  \<^item> \<open>Comparator\<close>: the locale of three-way comparisons; interpreted for values and index keys.  \<open>Vector_Sort\<close>:
    sorting and heaps of \<^verbatim>\<open>container/vector.h\<close>, with the locales of strict weak orders and of heap operations, both
    obtained from every comparator.
  \<^item> \<open>Hash_Map\<close>: \<^verbatim>\<open>container/hash_map.h\<close> with linear probing and tombstones, an interpretation of the dictionary
    locale on which the lock manager and the status log rely.
  \<^item> \<open>Value\<close>, \<open>Schema\<close>, \<open>Tuple\<close>, \<open>Tuple_Key\<close>, \<open>Index_Key\<close>: \<^verbatim>\<open>record/\<close>, \<^verbatim>\<open>common/tuple_key.h\<close> and
    \<^verbatim>\<open>index/index_key.cpp\<close>; arithmetic, casts, orders, images of values, rows, schemas and keys.
  \<^item> \<open>Page\<close>, \<open>Page_Laws\<close>: \<^verbatim>\<open>storage/page.cpp\<close> on the bytes of a page, its invariant and the effect of each operation.
  \<^item> \<open>Lock_Manager\<close>, \<open>Resource_Manager\<close>: \<^verbatim>\<open>concurrency/lock_manager.cpp\<close> and \<^verbatim>\<open>common/resource_manager.cpp\<close>
    as step relations of latched sections with invariants over all interleavings.
  \<^item> \<open>Txn_Status_Log\<close>, \<open>Transaction\<close>, \<open>Txn_Snapshots\<close>: \<^verbatim>\<open>transaction/\<close>; the manager, its undo logs and
    savepoints, and the interleavings of transactions with snapshot visibility.
  \<^item> \<open>Like\<close>, \<open>Expression\<close>, \<open>Compiled_Predicate\<close>, \<open>Semantic_Validator\<close>: the trees of \<^verbatim>\<open>sql/parser/ast.h\<close>, their
    evaluation, the fast path and the compiled form, and the type inference of the validator.
  \<^item> \<open>Lexer\<close>, \<open>Ast\<close>, \<open>Parser\<close>, \<open>Parser_Laws\<close>: \<^verbatim>\<open>sql/parser/\<close>; the tokens of a text, the trees with their copies, and
    the recursive descent over all statements.
  \<^item> \<open>Executor\<close>, \<open>Row_Operators\<close>, \<open>Nested_Loop_Join\<close>, \<open>Spill\<close>, \<open>Hash_Join\<close>, \<open>Hash_Join_Laws\<close>, \<open>Run_Merge\<close>,
    \<open>Sort\<close>, \<open>Distinct\<close>, \<open>Aggregate\<close>: the iterator contract of \<^verbatim>\<open>sql/executor/executor.h\<close> as a locale,
    and the operators of \<^verbatim>\<open>sql/executor/\<close> as refinements of
    list functions above any children that keep the contract.

  \<^bold>\<open>What the lemmas show.\<close>  Orders are total preorders; images are read back; page operations keep the page well
  formed and touch only their slot; granted locks are compatible and deadlock detection is exact; snapshots see exactly
  what had committed; rollbacks reverse; the serialisability check over the pruned history equals the check over the
  whole one; accepted expressions have values of the inferred type, and the compiled and fast paths agree with the
  interpreter; each operator, spilled to temporary files or not, returns the rows its list function describes; the text
  of tokens is read back, and the parser returns for every text with either a statement or a message.  Some properties
  record where the code
  departs from its intention.

  \<^bold>\<open>Bounds and fuel.\<close>  Loops over data are recursive functions with termination proofs.  The insertion of the hash
  map calls itself after a rehash; its fuel is two, and \<open>hm_insert_fuel_enough\<close> shows that this is enough.  Loops that
  pull rows are partial functions, and their theorems state that they return.  Expressions and selects call each other
  with a bound on the depth of the nesting; the length of the text is enough, since each level takes a token.

  \<^bold>\<open>Not modelled.\<close>  Sockets, terminal input, process start and configuration files; tracing and error messages without
  influence on results; the storage management of the containers; threads below the granularity of a latched section.
  Also outside so far: the buffer pool, heap file, free space and visibility maps, write-ahead log, B+ tree and catalog,
  whose answers are inputs of the transaction model, the planner and optimizer, and the scans and data changing
  executors above them.
\<close>

section \<open>The end of a transaction\<close>

definition run_db :: "txn_sys \<Rightarrow> u64 \<Rightarrow> txn_db" where
  "run_db s x = \<lparr>db_tm = sy_tm s, db_locks = snd (lock_record_enter (snd (lock_table_enter lm_init x 1 RowExclusive)) x 1 (run_row 1) RowExclusive),
     db_stats = initial_stats\<lparr>active_transactions := 2\<rparr>\<rparr>"

lemma run_db_locks:
  "lm_step\<^sup>*\<^sup>* lm_init (db_locks (run_db s x))"
  "hm_find hash_u64 (txn_locks (db_locks (run_db s x))) x = Some [1]"
  "hm_find hash_u64 (txn_record_locks (db_locks (run_db s x))) x = Some [record_lock_key 1 (run_row 1)]"
  by (simp add: run_db_def lm_reach_record_enter lm_reach_table_enter)
    (simp_all add: run_db_def lock_record_enter_def lock_record_poll_def find_or_create_record_def
      enter_simps note_table_lock_def note_record_lock_def note_held_def Let_def)

text \<open>An environment in which the log is durable and every table exists.\<close>

definition run_env :: db_env where
  "run_env = \<lparr>commit_lsn = 9, abort_lsn = 0, heap_exists = \<lambda>_. True, table_exists = \<lambda>_. True,
     tuple_readable = \<lambda>_. True, undo_logged = \<lambda>_. True, log_written = 9, log_synced = True\<rparr>"



end
